(* ===== verification/Prelude.thy ===== *)
theory Prelude
  imports Main "HOL-Library.Word" "HOL-Library.While_Combinator"
begin

text \<open>
  Shared vocabulary of the development: Go's run-time outcomes (a value or a panic), the error
  values the packages return, slices and \<open>copy\<close>, what the kernel answers to a system call, and
  the list lemmas the component theories use.

  Go's \<open>int\<close> is modelled by \<^typ>\<open>int\<close>. It is 64 bits wide on every platform the poller files
  support, and the integers of the buffer packages are lengths of, and indices into, slices that
  exist in memory, so their sums stay far below \<open>2 ^ 63\<close>. The bit-level routines of
  \<open>internal/toolkit\<close> and the pools, where the width does matter, are modelled on machine words.
\<close>

named_theorems go_simps \<open>evaluation of Go primitives whose side conditions hold\<close>
named_theorems inv_intros \<open>operations keep their component's invariant\<close>

section \<open>Bytes, errors, panics\<close>

type_synonym byte = "8 word"

datatype errno = EAGAIN | EWOULDBLOCK | EINTR | ECONNRESET | EBADF | EEXIST | ENOENT | EPIPE | EINVAL | ENOSYS | ENOPROTOOPT
  | EINPROGRESS | OtherErrno nat

text \<open>
  The error values the code compares against or returns. \<open>SyscallError\<close> is the result of
  \<open>os.NewSyscallError\<close> with the name of the call, \<open>Errorf\<close> an error made by \<open>fmt.Errorf\<close> or
  \<open>errors.New\<close> for one occasion, and \<open>ExternalError\<close> an error of a caller-supplied reader, writer
  or callback.
\<close>

datatype gerror =
    ErrIsEmpty
  | EOF
  | ErrShortWrite
  | ErrShortBuffer
  | ErrNegativeSize
  | ErrUnsupportedOp
  | ErrUnsupportedProtocol
  | ErrUnsupportedTCPProtocol
  | ErrUnsupportedUDPProtocol
  | ErrUnsupportedUDSProtocol
  | ErrUnsupportedPlatform
  | ErrTooManyEventLoopThreads
  | ErrAcceptSocket
  | ErrEngineShutdown
  | ErrEngineInShutdown
  | Errno errno
  | SyscallError string errno
  | Errorf string
  | ExternalError nat

text \<open>\<open>os.NewSyscallError\<close>: nil for a nil error.\<close>

definition NewSyscallError :: "string \<Rightarrow> errno option \<Rightarrow> gerror option" where
  "NewSyscallError call e = (case e of None \<Rightarrow> None | Some n \<Rightarrow> Some (SyscallError call n))"

datatype gopanic =
    SliceOutOfRange
  | IndexOutOfRange
  | DivideByZero
  | NilDereference
  | PanicMsg string

text \<open>A Go call returns a value, panics, or never returns.\<close>

datatype 'a go = Ret 'a | Panic gopanic | Diverge

fun go_bind :: "'a go \<Rightarrow> ('a \<Rightarrow> 'b go) \<Rightarrow> 'b go" where
  "go_bind (Ret x) f = f x"
| "go_bind (Panic p) f = Panic p"
| "go_bind Diverge f = Diverge"

lemma go_bind_assoc: "go_bind (go_bind m f) g = go_bind m (\<lambda>x. go_bind (f x) g)"
  by (cases m) auto

lemma go_bind_Ret_iff: "go_bind m f = Ret y \<longleftrightarrow> (\<exists>x. m = Ret x \<and> f x = Ret y)"
  by (cases m) auto

lemma go_bind_RetE: "go_bind m f = Ret y \<Longrightarrow> (\<And>x. m = Ret x \<Longrightarrow> f x = Ret y \<Longrightarrow> Q) \<Longrightarrow> Q"
  by (cases m) auto

section \<open>Loops\<close>

text \<open>
  A \<open>for\<close> loop is its body, which either goes on with a new state (\<open>Inl\<close>) or leaves the loop with
  a result (\<open>Inr\<close>). A loop whose body never leaves is \<open>Diverge\<close>.
\<close>

definition loop_running :: "('s + 'r) go \<Rightarrow> bool" where
  "loop_running x \<longleftrightarrow> (case x of Ret (Inl s) \<Rightarrow> True | _ \<Rightarrow> False)"

definition loop_step :: "('s \<Rightarrow> ('s + 'r) go) \<Rightarrow> ('s + 'r) go \<Rightarrow> ('s + 'r) go" where
  "loop_step body x = (case x of Ret (Inl s) \<Rightarrow> body s | y \<Rightarrow> y)"

definition loop_result :: "('s + 'r) go option \<Rightarrow> 'r go" where
  "loop_result o' =
     (case o' of
        Some (Ret (Inr r)) \<Rightarrow> Ret r
      | Some (Panic p) \<Rightarrow> Panic p
      | _ \<Rightarrow> Diverge)"

definition go_loop :: "('s \<Rightarrow> ('s + 'r) go) \<Rightarrow> 's \<Rightarrow> 'r go" where
  "go_loop body s = loop_result (while_option loop_running (loop_step body) (Ret (Inl s)))"

lemma go_loop_unfold:
  "go_loop body s =
     go_bind (body s) (\<lambda>x. case x of Inl s' \<Rightarrow> go_loop body s' | Inr r \<Rightarrow> Ret r)"
proof -
  have "while_option loop_running (loop_step body) (Ret (Inl s)) =
        while_option loop_running (loop_step body) (body s)"
    by (subst while_option_unfold) (simp add: loop_running_def loop_step_def)
  moreover have "while_option loop_running (loop_step body) y = Some y"
    if "\<not> loop_running y" for y
    using that by (subst while_option_unfold) simp
  ultimately show ?thesis
    by (cases "body s") (auto simp: go_loop_def loop_result_def loop_running_def split: sum.splits)
qed

text \<open>Total correctness: an invariant, a measure that shrinks, and a result when the loop is left.\<close>

lemma go_loop_total:
  assumes "I s"
    and "\<And>s. I s \<Longrightarrow> (\<exists>s'. body s = Ret (Inl s') \<and> I s' \<and> m s' < (m s :: nat)) \<or>
                     (\<exists>r. body s = Ret (Inr r) \<and> Q r)"
  shows "\<exists>r. go_loop body s = Ret r \<and> Q r"
  using assms(1)
proof (induction "m s" arbitrary: s rule: less_induct)
  case less
  from assms(2)[OF less.prems] show ?case
  proof
    assume "\<exists>s'. body s = Ret (Inl s') \<and> I s' \<and> m s' < m s"
    then obtain s' where s': "body s = Ret (Inl s')" "I s'" "m s' < m s" by blast
    with less.hyps[OF s'(3,2)] show ?thesis by (subst go_loop_unfold) simp
  next
    assume "\<exists>r. body s = Ret (Inr r) \<and> Q r"
    then show ?thesis by (subst go_loop_unfold) auto
  qed
qed

text \<open>Partial correctness: what every round keeps holds when the loop is left.\<close>

lemma go_loop_partial:
  assumes "go_loop body s = Ret r" "I s"
    and "\<And>s s'. I s \<Longrightarrow> body s = Ret (Inl s') \<Longrightarrow> I s'" "\<And>s r. I s \<Longrightarrow> body s = Ret (Inr r) \<Longrightarrow> Q r"
  shows "Q r"
proof -
  let ?J = "\<lambda>x. case x of Ret (Inl s) \<Rightarrow> I s | Ret (Inr r) \<Rightarrow> Q r | _ \<Rightarrow> True"
  from assms(1) have w: "while_option loop_running (loop_step body) (Ret (Inl s)) = Some (Ret (Inr r))"
    by (auto simp: go_loop_def loop_result_def split: option.splits go.splits sum.splits)
  have "?J (loop_step body x)" if "?J x" "loop_running x" for x
    using that assms(3,4) by (auto simp: loop_running_def loop_step_def split: go.splits sum.splits)
  from while_option_rule[where P = ?J, OF this w] assms(2) show ?thesis by simp
qed

section \<open>Slices\<close>

text \<open>
  A byte slice is its list of bytes. \<open>s[lo:hi]\<close> panics unless \<open>0 \<le> lo \<le> hi \<le> len s\<close>; Go
  admits \<open>hi\<close> up to the capacity, which no operation of the buffers relies on: where a theorem
  says that an operation returns, every bound it uses is within the length.
\<close>

abbreviation glen :: "'a list \<Rightarrow> int" where
  "glen xs \<equiv> int (length xs)"

definition go_slice :: "'a list \<Rightarrow> int \<Rightarrow> int \<Rightarrow> 'a list go" where
  "go_slice xs lo hi =
     (if 0 \<le> lo \<and> lo \<le> hi \<and> hi \<le> glen xs then Ret (take (nat (hi - lo)) (drop (nat lo) xs))
      else Panic SliceOutOfRange)"

definition go_index :: "'a list \<Rightarrow> int \<Rightarrow> 'a go" where
  "go_index xs i = (if 0 \<le> i \<and> i < glen xs then Ret (xs ! nat i) else Panic IndexOutOfRange)"

definition go_store :: "'a list \<Rightarrow> int \<Rightarrow> 'a \<Rightarrow> 'a list go" where
  "go_store xs i v = (if 0 \<le> i \<and> i < glen xs then Ret (xs[nat i := v]) else Panic IndexOutOfRange)"

text \<open>\<open>copy(dst, src)\<close> overwrites a prefix of \<open>dst\<close> and returns the number of bytes copied.\<close>

definition go_copy :: "'a list \<Rightarrow> 'a list \<Rightarrow> 'a list" where
  "go_copy dst src = take (length dst) src @ drop (length src) dst"

definition go_copied :: "'a list \<Rightarrow> 'a list \<Rightarrow> int" where
  "go_copied dst src = min (glen dst) (glen src)"

text \<open>\<open>copy(dst[off:], src)\<close>, as seen in \<open>dst\<close>.\<close>

definition go_copy_at :: "'a list \<Rightarrow> int \<Rightarrow> 'a list \<Rightarrow> 'a list go" where
  "go_copy_at dst off src =
     (if 0 \<le> off \<and> off \<le> glen dst
      then Ret (take (nat off) dst @ go_copy (drop (nat off) dst) src)
      else Panic SliceOutOfRange)"

text \<open>Go's \<open>%\<close> truncates towards zero and panics on a zero divisor.\<close>

definition go_mod :: "int \<Rightarrow> int \<Rightarrow> int go" where
  "go_mod a b = (if b = 0 then Panic DivideByZero else Ret (sgn a * (\<bar>a\<bar> mod \<bar>b\<bar>)))"

lemma nat_minus_int [go_simps]: "nat (n - int k) = nat n - k"
  by linarith

declare nat_add_distrib [go_simps]

lemma nat_min_int [go_simps]: "nat (min (int a) (int b)) = min a b"
  by linarith

lemma int_wrap_mod: "y = x + m \<Longrightarrow> 0 \<le> x \<Longrightarrow> x < m \<Longrightarrow> y mod m = (x::int)"
  by simp

lemma go_slice_Ret [go_simps]:
  "0 \<le> lo \<Longrightarrow> lo \<le> hi \<Longrightarrow> hi \<le> glen xs \<Longrightarrow>
   go_slice xs lo hi = Ret (take (nat (hi - lo)) (drop (nat lo) xs))"
  by (simp add: go_slice_def)

lemma go_copy_at_Ret [go_simps]:
  "0 \<le> off \<Longrightarrow> off \<le> glen dst \<Longrightarrow>
   go_copy_at dst off src = Ret (take (nat off) dst @ go_copy (drop (nat off) dst) src)"
  by (simp add: go_copy_at_def)

lemma go_mod_Ret [go_simps]: "0 \<le> a \<Longrightarrow> 0 < b \<Longrightarrow> go_mod a b = Ret (a mod b)"
  by (cases "a = 0") (simp_all add: go_mod_def)

lemma go_mod_small: "0 \<le> x \<Longrightarrow> x < m \<Longrightarrow> go_mod x m = Ret x"
  by (simp add: go_mod_Ret)

lemma go_mod_wrap: "y = x + m \<Longrightarrow> 0 \<le> x \<Longrightarrow> x < m \<Longrightarrow> go_mod y m = Ret x"
  by (simp add: go_mod_Ret)

lemma glen_pos: "xs \<noteq> [] \<Longrightarrow> 0 < glen xs"
  by simp

lemma length_go_copy [simp]: "length (go_copy dst src) = length dst"
  by (simp add: go_copy_def)

lemma go_copy_fits: "length src \<le> length dst \<Longrightarrow> go_copy dst src = src @ drop (length src) dst"
  by (simp add: go_copy_def)

lemma go_copy_all [simp]: "length dst = length src \<Longrightarrow> go_copy dst src = src"
  by (simp add: go_copy_def)

lemma go_copy_Nil [simp]: "go_copy dst [] = dst" "go_copy [] src = []"
  by (simp_all add: go_copy_def)

lemma take_drop_split: "i \<le> j \<Longrightarrow> j \<le> length xs \<Longrightarrow>
   xs = take i xs @ take (j - i) (drop i xs) @ drop j xs"
  by (metis append_take_drop_id drop_drop le_add_diff_inverse2)

section \<open>Readers and writers\<close>

text \<open>
  \<open>ReadFrom\<close> pulls from a caller-supplied \<open>io.Reader\<close>: a function that, in state \<open>s\<close> and given a
  slice of length \<open>len\<close>, returns its next state, the bytes it put at the front of the slice, the
  count it reports and its error. A slice cannot be written beyond its end.
\<close>

type_synonym 's reader = "'s \<Rightarrow> int \<Rightarrow> 's \<times> byte list \<times> int \<times> gerror option"

text \<open>
  \<open>WriteTo\<close> pushes into a caller-supplied \<open>io.Writer\<close>: from state \<open>s\<close> and a slice, the next state,
  the count and the error.
\<close>

type_synonym 's writer = "'s \<Rightarrow> byte list \<Rightarrow> 's \<times> int \<times> gerror option"

text \<open>\<open>io.Writer\<close> as documented: \<open>acc\<close> is everything the writer has taken so far.\<close>

definition writer_ok :: "'s writer \<Rightarrow> ('s \<Rightarrow> byte list) \<Rightarrow> bool" where
  "writer_ok wr acc \<longleftrightarrow>
     (\<forall>s data. case wr s data of (s', m, err) \<Rightarrow>
        0 \<le> m \<and> m \<le> glen data \<and> acc s' = acc s @ take (nat m) data \<and> (m < glen data \<longrightarrow> err \<noteq> None))"

text \<open>
  An \<open>io.Reader\<close> over a finite stream: it hands out a prefix of what remains, makes progress unless
  asked for nothing, and reports \<open>EOF\<close> only at the end.
\<close>

definition reader_ok :: "'s reader \<Rightarrow> ('s \<Rightarrow> byte list) \<Rightarrow> bool" where
  "reader_ok rd rem \<longleftrightarrow>
     (\<forall>s len. 0 \<le> len \<longrightarrow> (case rd s len of (s', data, m, err) \<Rightarrow>
        m = glen data \<and> m \<le> len \<and> rem s = data @ rem s' \<and>
        (err = None \<or> err = Some EOF \<and> rem s' = []) \<and>
        (0 < len \<and> data = [] \<longrightarrow> err = Some EOF)))"

lemma writer_okD:
  "writer_ok wr acc \<Longrightarrow> wr s data = (s', m, err) \<Longrightarrow>
   0 \<le> m \<and> m \<le> glen data \<and> acc s' = acc s @ take (nat m) data \<and> (m < glen data \<longrightarrow> err \<noteq> None)"
  unfolding writer_ok_def by (metis (mono_tags, lifting) case_prod_conv)

lemma reader_okD:
  assumes "reader_ok rd rem" "rd s len = (s', data, m, err)" "0 \<le> len"
  shows "m = glen data" "m \<le> len" "rem s = data @ rem s'"
    "err = None \<or> err = Some EOF \<and> rem s' = []" "0 < len \<Longrightarrow> data = [] \<Longrightarrow> err = Some EOF"
  using assms unfolding reader_ok_def by (metis (mono_tags, lifting) case_prod_conv)+

section \<open>Sums over goroutines\<close>

lemma sum_fun_upd:
  fixes w :: "'p \<Rightarrow> int"
  assumes "finite A"
  shows "(\<Sum>u\<in>insert t A. w ((f(t := p)) u)) = (\<Sum>u\<in>insert t A. w (f u)) - w (f t) + w p"
proof -
  have "(\<Sum>u\<in>insert t A. w ((f(t := p)) u)) = w p + (\<Sum>u\<in>A - {t}. w (f u))"
    using assms by (subst sum.insert_remove) (auto intro!: sum.cong)
  moreover have "(\<Sum>u\<in>insert t A. w (f u)) = w (f t) + (\<Sum>u\<in>A - {t}. w (f u))"
    using assms by (rule sum.insert_remove)
  ultimately show ?thesis by simp
qed

end
