(* ===== verification/Toolkit.thy ===== *)
theory Toolkit
  imports Prelude
begin

unbundle bit_operations_syntax

text \<open>
  The integer helpers of \<open>internal/toolkit/math.go\<close>, on 64-bit two's complement words:
  \<open>n >> k\<close> on a Go \<open>int\<close> is the arithmetic shift \<open>signed_drop_bit\<close>, comparisons are signed.
\<close>

type_synonym i64 = "64 word"

definition maxintHeadBit :: i64 where
  "maxintHeadBit = push_bit 62 1"

definition IsPowerOfTwo :: "i64 \<Rightarrow> bool" where
  "IsPowerOfTwo n \<longleftrightarrow> n AND (n - 1) = 0"

definition fillBits :: "i64 \<Rightarrow> i64" where
  "fillBits n0 =
    (let n1 = n0 OR signed_drop_bit 1 n0;
         n2 = n1 OR signed_drop_bit 2 n1;
         n3 = n2 OR signed_drop_bit 4 n2;
         n4 = n3 OR signed_drop_bit 8 n3;
         n5 = n4 OR signed_drop_bit 16 n4
     in n5 OR signed_drop_bit 32 n5)"

definition CeilToPowerOfTwo :: "i64 \<Rightarrow> i64 go" where
  "CeilToPowerOfTwo n =
    (if n AND maxintHeadBit \<noteq> 0 \<and> maxintHeadBit <s n then Panic (PanicMsg ''argument is too large'')
     else if n \<le>s 2 then Ret 2
     else Ret (fillBits (n - 1) + 1))"

definition FloorToPowerOfTwo :: "i64 \<Rightarrow> i64" where
  "FloorToPowerOfTwo n = (if n \<le>s 2 then 2 else signed_drop_bit 1 (fillBits n) + 1)"


text \<open>The same function on a Go \<open>int\<close> seen as an integer, as the callers use it.\<close>

definition ceil_pow2 :: "int \<Rightarrow> int go" where
  "ceil_pow2 n = go_bind (CeilToPowerOfTwo (word_of_int n)) (\<lambda>w. Ret (sint w))"

subsection \<open>Filling the bits below the highest one\<close>

text \<open>\<open>m\<close> has bit \<open>i\<close> iff \<open>n\<close> has one of the bits \<open>i, ..., i + t - 1\<close>; each line of \<open>fillBits\<close> doubles \<open>t\<close>.\<close>

definition smeared :: "nat \<Rightarrow> i64 \<Rightarrow> i64 \<Rightarrow> bool" where
  "smeared t n m \<longleftrightarrow> (\<forall>i. bit m i \<longleftrightarrow> (\<exists>k < t. bit n (i + k)))"

lemma smeared_top:
  assumes "smeared t n m" "\<not> bit n 63"
  shows "\<not> bit m 63"
proof
  assume "bit m 63"
  then obtain k where k: "bit n (63 + k)" using assms(1) by (auto simp: smeared_def)
  then have "63 + k < 64" using bit_imp_le_length[of n "63 + k"] by simp
  with k assms(2) show False by simp
qed

lemma smeared_step:
  assumes "smeared t n m" "\<not> bit n 63"
  shows "smeared (t + t) n (m OR signed_drop_bit t m)"
proof -
  have top: "\<not> bit m 63" using assms by (rule smeared_top)
  have sd: "bit (signed_drop_bit t m) i \<longleftrightarrow> bit m (t + i)" for i
    using top by (auto simp: bit_signed_drop_bit_iff dest: bit_imp_le_length)
  have "(\<exists>k < t + t. bit n (i + k)) \<longleftrightarrow> (\<exists>k < t. bit n (i + k)) \<or> (\<exists>k < t. bit n (t + i + k))" for i
  proof -
    have "(\<exists>k < t + t. P k) \<longleftrightarrow> (\<exists>k < t. P k) \<or> (\<exists>k < t. P (t + k))" for P :: "nat \<Rightarrow> bool"
      by (metis add_less_cancel_left le_add_diff_inverse linorder_not_less trans_less_add1)
    from this[of "\<lambda>k. bit n (i + k)"] show ?thesis by (simp add: ac_simps)
  qed
  then show ?thesis using assms(1) by (simp add: smeared_def bit_or_iff sd)
qed

lemma fillBits_smeared:
  assumes n: "\<not> bit n 63"
  shows "smeared 64 n (fillBits n)"
proof -
  note step = smeared_step[OF _ n]
  define n1 where "n1 = n OR signed_drop_bit 1 n"
  define n2 where "n2 = n1 OR signed_drop_bit 2 n1"
  define n3 where "n3 = n2 OR signed_drop_bit 4 n2"
  define n4 where "n4 = n3 OR signed_drop_bit 8 n3"
  define n5 where "n5 = n4 OR signed_drop_bit 16 n4"
  have "smeared 1 n n" by (auto simp: smeared_def)
  from step[OF this] have "smeared 2 n n1" by (simp add: n1_def numeral_2_eq_2)
  from step[OF this] have "smeared 4 n n2" by (simp add: n2_def)
  from step[OF this] have "smeared 8 n n3" by (simp add: n3_def)
  from step[OF this] have "smeared 16 n n4" by (simp add: n4_def)
  from step[OF this] have "smeared 32 n n5" by (simp add: n5_def)
  from step[OF this] show ?thesis
    by (simp add: fillBits_def n1_def n2_def n3_def n4_def n5_def Let_def)
qed

lemma bit_unat: "bit (unat n) j = bit n j"
  by (simp add: bit_unsigned_iff)

lemma bracket_bit:
  assumes "2 ^ k \<le> unat (n::i64)" "unat n < 2 ^ Suc k"
  shows "bit n k"
proof -
  have "unat n div 2 ^ k = 1" using assms by (intro div_nat_eqI) auto
  then have "bit (unat n) k" by (simp add: bit_iff_odd)
  then show ?thesis by (simp add: bit_unat)
qed

lemma fillBits_mask:
  assumes "2 ^ k \<le> unat n" "unat n < 2 ^ Suc k" "k < 63"
  shows "fillBits n = (mask (Suc k) :: i64)"
proof (rule bit_word_eqI)
  fix i assume i: "i < LENGTH(64)"
  have small: "j \<le> k" if "bit n j" for j
  proof (rule ccontr)
    assume "\<not> j \<le> k"
    then have "(2::nat) ^ Suc k \<le> 2 ^ j" by (intro power_increasing) auto
    with assms(2) have "unat n div 2 ^ j = 0" by simp
    then have "\<not> bit (unat n) j" by (simp add: bit_iff_odd)
    with that show False by (simp add: bit_unat)
  qed
  have topbit: "bit n k" using assms(1,2) by (rule bracket_bit)
  have "\<not> bit n 63" using small assms(3) by fastforce
  from fillBits_smeared[OF this] have "bit (fillBits n) i \<longleftrightarrow> (\<exists>j<64. bit n (i + j))"
    by (simp add: smeared_def)
  also have "\<dots> \<longleftrightarrow> i \<le> k"
  proof
    assume "\<exists>j<64. bit n (i + j)"
    then show "i \<le> k" using small by fastforce
  next
    assume "i \<le> k"
    then have "k - i < 64 \<and> bit n (i + (k - i))" using topbit assms(3) by simp
    then show "\<exists>j<64. bit n (i + j)" by blast
  qed
  finally show "bit (fillBits n) i = bit (mask (Suc k) :: i64) i"
    using i by (auto simp: bit_mask_iff)
qed

lemma pow2_bracket:
  assumes "0 < (x::nat)"
  obtains k where "2 ^ k \<le> x" "x < 2 ^ Suc k"
  using ex_power_ivl1[of 2 x] assms by (auto simp: Suc_le_eq)

lemma sint_word_of_int: "- (2 ^ 63) \<le> n \<Longrightarrow> n < 2 ^ 63 \<Longrightarrow> sint (word_of_int n :: i64) = n"
  by (simp add: signed_take_bit_int_eq_self sint_sbintrunc')

lemma sint_pow2: "k < 63 \<Longrightarrow> sint (2 ^ k :: i64) = 2 ^ k"
proof -
  assume "k < 63"
  then have "(2::int) ^ k < 2 ^ 63" by (intro power_strict_increasing) auto
  moreover have "- (2 ^ 63) \<le> (2::int) ^ k" by (rule order_trans[of _ 0]) auto
  ultimately show ?thesis using sint_word_of_int[of "2 ^ k"] by simp
qed

lemma sint_max: "sint maxintHeadBit = 2 ^ 62"
  by (simp add: maxintHeadBit_def)

lemma ceil_pow2_small:
  "- (2 ^ 63) \<le> n \<Longrightarrow> n \<le> 2 \<Longrightarrow> ceil_pow2 n = Ret 2"
  by (simp add: ceil_pow2_def CeilToPowerOfTwo_def word_sless_alt word_sle_eq sint_word_of_int
      sint_max)

lemma unat_word_of_int: "0 \<le> n \<Longrightarrow> n < 2 ^ 63 \<Longrightarrow> unat (word_of_int n :: i64) = nat n"
  by (simp add: unat_eq_nat_uint uint_word_of_int)

lemma head_bit:
  assumes "(2::int) ^ 62 < n" "n < 2 ^ 63"
  shows "(word_of_int n :: i64) AND maxintHeadBit \<noteq> 0"
proof
  assume eq: "(word_of_int n :: i64) AND maxintHeadBit = 0"
  have "unat (word_of_int n :: i64) = nat n" using assms by (intro unat_word_of_int) auto
  then have "bit (word_of_int n :: i64) 62"
    using assms by (intro bracket_bit) (auto simp: nat_le_iff nat_less_iff le_nat_iff)
  then have "bit ((word_of_int n :: i64) AND maxintHeadBit) 62"
    by (simp add: bit_and_iff maxintHeadBit_def bit_push_bit_iff)
  with eq show False by simp
qed

lemma ceil_pow2_too_large:
  assumes "(2::int) ^ 62 < n" "n < 2 ^ 63"
  shows "ceil_pow2 n = Panic (PanicMsg ''argument is too large'')"
  using assms head_bit[OF assms]
  by (simp add: ceil_pow2_def CeilToPowerOfTwo_def word_sless_alt sint_word_of_int sint_max)

lemma ceil_pow2_least:
  assumes "2 < n" "n \<le> 2 ^ 62"
  shows "\<exists>k. ceil_pow2 n = Ret (2 ^ Suc k) \<and> 2 ^ k < n \<and> n \<le> 2 ^ Suc k"
proof -
  have "unat (word_of_int (n - 1) :: i64) = nat (n - 1)"
    using assms by (intro unat_word_of_int) auto
  moreover obtain k where k: "2 ^ k \<le> nat (n - 1)" "nat (n - 1) < 2 ^ Suc k"
    using assms by (auto intro: pow2_bracket[of "nat (n - 1)"])
  moreover have lo: "2 ^ k < n" using k(1) assms by (simp add: le_nat_iff)
  moreover have "(2::int) ^ k < 2 ^ 62" using lo assms(2) by (rule less_le_trans)
  then have k62: "k < 62" by (subst (asm) power_strict_increasing_iff) auto
  ultimately have "fillBits (word_of_int (n - 1)) = (mask (Suc k) :: i64)"
    by (intro fillBits_mask) auto
  then have fill: "fillBits (word_of_int n - 1) + 1 = (2 ^ Suc k :: i64)"
    by (simp add: mask_eq_exp_minus_1)
  have "sint (2 ^ Suc k :: i64) = 2 ^ Suc k"
    using k62 by (intro sint_pow2) simp
  then have "ceil_pow2 n = Ret (2 ^ Suc k)"
    using assms fill
    by (simp add: ceil_pow2_def CeilToPowerOfTwo_def word_sless_alt word_sle_eq sint_word_of_int sint_max)
  moreover have "2 ^ k < n" "n \<le> 2 ^ Suc k"
    using k assms by (auto simp: le_nat_iff nat_less_iff)
  ultimately show ?thesis by blast
qed

lemma FloorToPowerOfTwo_greatest:
  assumes "2 < n" "n < 2 ^ 63"
  shows "\<exists>k. sint (FloorToPowerOfTwo (word_of_int n)) = 2 ^ k \<and> 2 ^ k \<le> n \<and> n < 2 ^ Suc k"
proof -
  have u: "unat (word_of_int n :: i64) = nat n"
    using assms by (intro unat_word_of_int) auto
  obtain k where k: "2 ^ k \<le> nat n" "nat n < 2 ^ Suc k"
    using assms by (auto intro: pow2_bracket[of "nat n"])
  have lo: "2 ^ k \<le> n" and hi: "n < 2 ^ Suc k"
    using k assms by (auto simp: le_nat_iff nat_less_iff)
  have "(2::int) ^ k < 2 ^ 63" using lo assms(2) by (rule le_less_trans)
  then have k63: "k < 63" by (subst (asm) power_strict_increasing_iff) auto
  have "fillBits (word_of_int n) = (mask (Suc k) :: i64)"
    using u k k63 by (intro fillBits_mask) auto
  moreover have "signed_drop_bit 1 (mask (Suc k) :: i64) = mask k"
    using k63 by (intro bit_word_eqI) (auto simp: bit_signed_drop_bit_iff bit_mask_iff)
  ultimately have "FloorToPowerOfTwo (word_of_int n) = 2 ^ k"
    using assms by (simp add: FloorToPowerOfTwo_def word_sle_eq sint_word_of_int mask_eq_exp_minus_1)
  moreover have "sint (2 ^ k :: i64) = 2 ^ k"
    using k63 by (rule sint_pow2)
  ultimately show ?thesis using lo hi by metis
qed

lemma IsPowerOfTwo_iff:
  assumes "0 < n" "n < 2 ^ 63"
  shows "IsPowerOfTwo (word_of_int n) \<longleftrightarrow> (\<exists>k. n = 2 ^ k)"
proof -
  let ?w = "word_of_int n :: i64"
  have u: "unat ?w = nat n" and u1: "unat (?w - 1) = nat (n - 1)"
    using assms unat_word_of_int[of n] unat_word_of_int[of "n - 1"] by auto
  obtain k where k: "2 ^ k \<le> nat n" "nat n < 2 ^ Suc k"
    using assms by (auto intro: pow2_bracket[of "nat n"])
  have lo: "2 ^ k \<le> n" and hi: "n < 2 ^ Suc k"
    using k assms by (auto simp: le_nat_iff nat_less_iff)
  show ?thesis
  proof (cases "n = 2 ^ k")
    case True
    then have "?w AND (?w - 1) = 2 ^ k AND mask k" by (simp add: mask_eq_exp_minus_1)
    also have "\<dots> = 0" by (intro bit_word_eqI) (auto simp: bit_and_iff bit_mask_iff bit_exp_iff)
    finally show ?thesis using True by (auto simp: IsPowerOfTwo_def)
  next
    case False
    then have "bit ?w k" "bit (?w - 1) k"
      using lo hi u u1 by (auto intro!: bracket_bit simp: le_nat_iff nat_less_iff)
    then have "bit (?w AND (?w - 1)) k" by (simp add: bit_and_iff)
    then have "\<not> IsPowerOfTwo ?w" by (auto simp: IsPowerOfTwo_def)
    moreover have "n \<noteq> 2 ^ j" for j
    proof
      assume n: "n = 2 ^ j"
      with hi have "(2::int) ^ j < 2 ^ Suc k" by simp
      then have "j < Suc k" by (subst (asm) power_strict_increasing_iff) auto
      moreover have "k \<le> j" using lo n by (simp add: power_increasing_iff)
      ultimately show False using False n by (simp add: less_Suc_eq_le)
    qed
    ultimately show ?thesis by blast
  qed
qed

end
