(* ===== verification/ByteSlicePool.thy ===== *)
theory ByteSlicePool
  imports Toolkit
begin

text \<open>
  The byte-slice pool of \<open>pkg/pool/byteslice/byteslice.go\<close>. The pool hands out memory through
  \<open>unsafe\<close> pointers and rebuilds the slice header from a size class, so its correctness is memory
  safety: a pointer kept in class \<open>i\<close> must be followed by at least \<open>2 ^ i\<close> bytes of its allocation.

  The heap is modelled by the size of every allocated block; a pointer is a block and an offset into
  it. Each of the 32 \<open>sync.Pool\<close>s is the list of pointers in it. \<open>sync.Pool\<close> may drop or keep
  entries as it likes, so \<open>Get\<close> takes the choice as an argument: \<open>None\<close> when the pool has nothing to
  offer, \<open>Some j\<close> for its \<open>j\<close>-th entry.
\<close>

definition MaxInt32 :: int where
  "MaxInt32 = 2 ^ 31 - 1"

type_synonym ptr = "nat \<times> int"

record bslice =
  sl_data :: "ptr option"
  sl_len :: int
  sl_cap :: int

record bspool =
  bp_pools :: "nat \<Rightarrow> ptr list"
  bp_blocks :: "nat \<Rightarrow> int"
  bp_next :: nat

definition bp_empty :: bspool where
  "bp_empty = \<lparr>bp_pools = (\<lambda>_. []), bp_blocks = (\<lambda>_. 0), bp_next = 0\<rparr>"

text \<open>\<open>bits.Len32\<close>: the number of bits needed to write its argument.\<close>

fun bit_len :: "nat \<Rightarrow> nat" where
  "bit_len n = (if n = 0 then 0 else Suc (bit_len (n div 2)))"

declare bit_len.simps [simp del]

definition Len32 :: "32 word \<Rightarrow> nat" where
  "Len32 x = bit_len (unat x)"

definition bs_index :: "32 word \<Rightarrow> nat" where
  "bs_index n = Len32 (n - 1)"

definition make_slice :: "bspool \<Rightarrow> int \<Rightarrow> int \<Rightarrow> bspool \<times> bslice" where
  "make_slice P len cap =
     (P\<lparr>bp_blocks := (bp_blocks P)(bp_next P := cap), bp_next := Suc (bp_next P)\<rparr>,
      \<lparr>sl_data = Some (bp_next P, 0), sl_len = len, sl_cap = cap\<rparr>)"

definition take_entry :: "ptr list \<Rightarrow> nat option \<Rightarrow> (ptr \<times> ptr list) option" where
  "take_entry ps pick =
     (case pick of
        Some j \<Rightarrow> if j < length ps then Some (ps ! j, take j ps @ drop (Suc j) ps) else None
      | None \<Rightarrow> None)"

definition bs_Get :: "nat option \<Rightarrow> bspool \<Rightarrow> int \<Rightarrow> bspool \<times> bslice" where
  "bs_Get pick P sz =
     (if sz \<le> 0 then (P, \<lparr>sl_data = None, sl_len = 0, sl_cap = 0\<rparr>)
      else if sz > MaxInt32 then make_slice P sz sz
      else let idx = bs_index (word_of_int sz)
           in case take_entry (bp_pools P idx) pick of
                None \<Rightarrow> make_slice P sz (2 ^ idx)
              | Some (p, rest) \<Rightarrow>
                  (P\<lparr>bp_pools := (bp_pools P)(idx := rest)\<rparr>,
                   \<lparr>sl_data = Some p, sl_len = sz, sl_cap = 2 ^ idx\<rparr>))"

definition bs_Put :: "bspool \<Rightarrow> bslice \<Rightarrow> bspool go" where
  "bs_Put P buf =
     (let sz = sl_cap buf
      in if sz = 0 \<or> sz > MaxInt32 then Ret P
         else let idx0 = bs_index (word_of_int sz);
                  idx = (if sz \<noteq> 2 ^ idx0 then idx0 - 1 else idx0)
              in case sl_data buf of
                   None \<Rightarrow> Panic NilDereference
                 | Some p \<Rightarrow> Ret (P\<lparr>bp_pools := (bp_pools P)(idx := p # bp_pools P idx)\<rparr>))"

text \<open>
  What a client sees of \<open>Get(size)\<close>: a slice of \<open>size\<close> bytes with whatever the memory held before.
  \<open>stale\<close> stands for that content; the buffers overwrite it before they read it.
\<close>

type_synonym stale = "nat \<Rightarrow> nat \<Rightarrow> byte"

definition bs_bytes :: "stale \<Rightarrow> int \<Rightarrow> byte list" where
  "bs_bytes mem sz = map (mem (nat sz)) [0..<nat sz]"

lemma length_bs_bytes [simp]: "length (bs_bytes mem sz) = nat sz"
  by (simp add: bs_bytes_def)

section \<open>Size classes\<close>

lemma bit_len_less: "n < 2 ^ k \<Longrightarrow> bit_len n \<le> k"
proof (induction n arbitrary: k rule: bit_len.induct)
  case (1 n)
  show ?case
  proof (cases "n = 0")
    case True
    then show ?thesis by (subst bit_len.simps) simp
  next
    case False
    with 1(2) obtain k' where k: "k = Suc k'" by (cases k) auto
    with 1(2) have "n div 2 < 2 ^ k'" by auto
    from 1(1)[OF False this] False k show ?thesis by (subst bit_len.simps) simp
  qed
qed

lemma bit_len_upper: "n < 2 ^ bit_len n"
proof (induction n rule: bit_len.induct)
  case (1 n)
  show ?case
  proof (cases "n = 0")
    case False
    have "n div 2 < 2 ^ bit_len (n div 2)" using 1 False by blast
    then have "n < 2 * 2 ^ bit_len (n div 2)" by linarith
    then show ?thesis using False by (subst bit_len.simps) simp
  qed (subst bit_len.simps, simp)
qed

lemma bit_len_lower: "bit_len n = Suc j \<Longrightarrow> 2 ^ j \<le> n"
proof (induction n arbitrary: j rule: bit_len.induct)
  case (1 n)
  then have n: "n \<noteq> 0" and j: "bit_len (n div 2) = j" by (auto simp: bit_len.simps[of n] split: if_splits)
  show ?case
  proof (cases j)
    case (Suc j')
    then have "2 ^ j' \<le> n div 2" using 1(1)[OF n] j by blast
    then have "2 * 2 ^ j' \<le> n" by linarith
    then show ?thesis by (simp add: Suc)
  qed (use n in simp)
qed

text \<open>The class of \<open>sz\<close> is the least power of two that is not smaller.\<close>

lemma bs_index_class:
  assumes "0 < sz" "sz \<le> MaxInt32"
  shows "sz \<le> 2 ^ bs_index (word_of_int sz)" "2 ^ bs_index (word_of_int sz) < 2 * sz"
    "bs_index (word_of_int sz) \<le> 31"
proof -
  have "unat (word_of_int sz - 1 :: 32 word) = unat (word_of_int (sz - 1) :: 32 word)" by simp
  also have "\<dots> = nat (sz - 1)"
    using assms by (simp only: unat_eq_nat_uint uint_word_of_int) (simp add: MaxInt32_def)
  finally have i: "bs_index (word_of_int sz) = bit_len (nat (sz - 1))" by (simp add: bs_index_def Len32_def)
  have "nat (sz - 1) < 2 ^ bs_index (word_of_int sz)" unfolding i by (rule bit_len_upper)
  then have "int (nat (sz - 1)) < 2 ^ bs_index (word_of_int sz)" by (metis of_nat_less_numeral_power_cancel_iff)
  then show "sz \<le> 2 ^ bs_index (word_of_int sz)" using assms by simp
  show "2 ^ bs_index (word_of_int sz) < 2 * sz"
  proof (cases "sz = 1")
    case True
    then show ?thesis unfolding i by (simp add: bit_len.simps)
  next
    case False
    then have pos: "0 < nat (sz - 1)" using assms by simp
    then obtain j where j: "bit_len (nat (sz - 1)) = Suc j" by (subst (asm) bit_len.simps) (simp add: bit_len.simps)
    have "2 ^ j \<le> nat (sz - 1)" using bit_len_lower[OF j] .
    then have "2 ^ j \<le> int (nat (sz - 1))" by (metis numeral_power_le_of_nat_cancel_iff)
    then show ?thesis using assms by (simp add: i j)
  qed
  have "nat (sz - 1) < 2 ^ 31" using assms by (simp add: MaxInt32_def nat_less_iff)
  then show "bs_index (word_of_int sz) \<le> 31" unfolding i by (rule bit_len_less)
qed

section \<open>Memory safety\<close>

text \<open>The \<open>n\<close> bytes at a pointer lie in its block.\<close>

fun in_block :: "bspool \<Rightarrow> ptr \<Rightarrow> int \<Rightarrow> bool" where
  "in_block P (b, off) n \<longleftrightarrow> b < bp_next P \<and> 0 \<le> off \<and> off + n \<le> bp_blocks P b"

definition slice_ok :: "bspool \<Rightarrow> bslice \<Rightarrow> bool" where
  "slice_ok P s \<longleftrightarrow> 0 \<le> sl_len s \<and> sl_len s \<le> sl_cap s \<and>
     (case sl_data s of None \<Rightarrow> sl_cap s = 0 | Some p \<Rightarrow> in_block P p (sl_cap s))"

definition pools_ok :: "bspool \<Rightarrow> bool" where
  "pools_ok P \<longleftrightarrow> (\<forall>i. \<forall>p\<in>set (bp_pools P i). in_block P p (2 ^ i))"

text \<open>The memory of a slice or of a pooled pointer, and who refers to an address.\<close>

fun covers :: "nat \<times> int \<Rightarrow> ptr \<Rightarrow> int \<Rightarrow> bool" where
  "covers (b, x) (b', off) n \<longleftrightarrow> b = b' \<and> off \<le> x \<and> x < off + n"

definition slice_covers :: "nat \<times> int \<Rightarrow> bslice \<Rightarrow> bool" where
  "slice_covers a s \<longleftrightarrow> (case sl_data s of None \<Rightarrow> False | Some p \<Rightarrow> covers a p (sl_cap s))"

definition refs :: "bspool \<Rightarrow> bslice list \<Rightarrow> nat \<times> int \<Rightarrow> nat" where
  "refs P own a = (\<Sum>i<32. length (filter (\<lambda>p. covers a p (2 ^ i)) (bp_pools P i))) + length (filter (slice_covers a) own)"

text \<open>The pool and the slices \<open>own\<close> its clients hold: everything in bounds, no byte with two owners.\<close>

definition pool_inv :: "bspool \<Rightarrow> bslice list \<Rightarrow> bool" where
  "pool_inv P own \<longleftrightarrow> pools_ok P \<and> (\<forall>s\<in>set own. slice_ok P s) \<and> (\<forall>a. refs P own a \<le> 1)"

lemma pool_inv_empty: "pool_inv bp_empty []"
  by (simp add: pool_inv_def pools_ok_def refs_def bp_empty_def)

lemma pool_inv_refs: "pool_inv P own \<Longrightarrow> refs P own a \<le> 1"
  unfolding pool_inv_def by blast

lemma in_block_make:
  "in_block P p n \<Longrightarrow> in_block (fst (make_slice P len cap)) p n"
  by (cases p) (auto simp: make_slice_def)

lemma covers_in_block: "covers (b, x) p n \<Longrightarrow> in_block P p n \<Longrightarrow> b < bp_next P"
  by (cases p) auto

lemma refs_fresh:
  assumes "pool_inv P own"
  shows "refs P own (bp_next P, x) = 0"
proof -
  have "\<not> covers (bp_next P, x) p (2 ^ i)" if "p \<in> set (bp_pools P i)" for p i
    using that assms covers_in_block[of "bp_next P" x p _ P] by (auto simp: pool_inv_def pools_ok_def)
  moreover have "\<not> slice_covers (bp_next P, x) s" if "s \<in> set own" for s
    using that assms covers_in_block[of "bp_next P" x _ _ P]
    by (fastforce simp: pool_inv_def slice_ok_def slice_covers_def split: option.splits)
  ultimately show ?thesis by (simp add: refs_def filter_empty_conv)
qed

lemma make_slice_inv:
  assumes "pool_inv P own" "0 \<le> len" "len \<le> cap" "make_slice P len cap = (P', s)"
  shows "pool_inv P' (s # own)"
proof -
  have P': "P' = fst (make_slice P len cap)" using assms(4) by simp
  have s: "s = \<lparr>sl_data = Some (bp_next P, 0), sl_len = len, sl_cap = cap\<rparr>" and pools: "bp_pools P' = bp_pools P"
    using assms(4) by (auto simp: make_slice_def)
  have "pools_ok P'" using assms(1) in_block_make unfolding P' pool_inv_def pools_ok_def
    by (metis (no_types, lifting) P' pools)
  moreover have "slice_ok P' t" if "t \<in> set (s # own)" for t
  proof (cases "t = s")
    case True
    with assms(2,3,4) show ?thesis by (auto simp: slice_ok_def s make_slice_def)
  next
    case False
    with that assms(1) have "slice_ok P t" by (simp add: pool_inv_def)
    then show ?thesis unfolding P' using in_block_make by (auto simp: slice_ok_def simp del: in_block.simps split: option.splits)
  qed
  moreover have "refs P' (s # own) a \<le> 1" for a
  proof -
    have r: "refs P' (s # own) a = refs P own a + (if slice_covers a s then 1 else 0)" by (simp add: refs_def pools)
    have "refs P own a = 0" if c: "slice_covers a s"
    proof -
      have "fst a = bp_next P" using c by (cases a) (simp add: slice_covers_def s)
      then show ?thesis using refs_fresh[OF assms(1)] by (metis prod.collapse)
    qed
    moreover have "refs P own a \<le> 1" using pool_inv_refs[OF assms(1)] .
    ultimately show ?thesis using r by auto
  qed
  ultimately show ?thesis by (simp add: pool_inv_def)
qed

lemma sum_upd:
  fixes f :: "nat \<Rightarrow> 'b \<Rightarrow> nat"
  assumes "i < (n::nat)"
  shows "(\<Sum>j<n. f j ((g(i := x)) j)) + f i (g i) = (\<Sum>j<n. f j (g j)) + f i x"
proof -
  have fin: "finite {..<n}" and "i \<in> {..<n}" using assms by auto
  have "(\<Sum>j\<in>{..<n} - {i}. f j ((g(i := x)) j)) = (\<Sum>j\<in>{..<n} - {i}. f j (g j))" by (rule sum.cong) auto
  then show ?thesis
    using sum.remove[OF fin \<open>i \<in> _\<close>, of "\<lambda>j. f j ((g(i := x)) j)"] sum.remove[OF fin \<open>i \<in> _\<close>, of "\<lambda>j. f j (g j)"]
    by simp
qed

text \<open>Moving a pointer between class \<open>i\<close> and the clients keeps the number of references.\<close>

lemma refs_pools_upd:
  assumes "i < 32"
  shows "refs (P\<lparr>bp_pools := (bp_pools P)(i := ps)\<rparr>) own a + length (filter (\<lambda>p. covers a p (2 ^ i)) (bp_pools P i)) =
    refs P own a + length (filter (\<lambda>p. covers a p (2 ^ i)) ps)"
  using sum_upd[OF assms, of "\<lambda>i ps. length (filter (\<lambda>p. covers a p (2 ^ i)) ps)" "bp_pools P" ps]
  by (simp add: refs_def)

lemma take_entry_split:
  assumes "take_entry ps pick = Some (p, rest)"
  shows "p \<in> set ps" "set rest \<subseteq> set ps" "length (filter Q ps) = length (filter Q rest) + (if Q p then 1 else 0)"
proof -
  from assms obtain j where j: "j < length ps" "p = ps ! j" "rest = take j ps @ drop (Suc j) ps"
    by (auto simp: take_entry_def split: option.splits if_splits)
  have ps: "ps = take j ps @ p # drop (Suc j) ps" using j by (simp add: id_take_nth_drop)
  show "p \<in> set ps" using j by simp
  show "set rest \<subseteq> set ps" using j(3) set_take_subset set_drop_subset by fastforce
  show "length (filter Q ps) = length (filter Q rest) + (if Q p then 1 else 0)"
    by (subst ps) (simp add: j(3))
qed

lemma in_block_pools [simp]: "in_block (P\<lparr>bp_pools := f\<rparr>) p n = in_block P p n"
  by (cases p) simp

lemma slice_ok_pools [simp]: "slice_ok (P\<lparr>bp_pools := f\<rparr>) s = slice_ok P s"
  by (simp add: slice_ok_def split: option.split)

lemma bs_Get_inv:
  assumes I: "pool_inv P own" and g: "bs_Get pick P sz = (P', s)"
  shows "pool_inv P' (s # own)" "sl_len s = max 0 sz"
proof -
  have "pool_inv P' (s # own) \<and> sl_len s = max 0 sz"
  proof (cases "sz \<le> 0")
    case True
    with g I show ?thesis by (auto simp: bs_Get_def pool_inv_def slice_ok_def refs_def slice_covers_def)
  next
    case pos: False
    show ?thesis
    proof (cases "sz > MaxInt32")
      case True
      with g pos have m: "make_slice P sz sz = (P', s)" by (simp add: bs_Get_def)
      from make_slice_inv[OF I _ _ m] m pos show ?thesis by (auto simp: make_slice_def)
    next
      case False
      define i where "i = bs_index (word_of_int sz)"
      have i: "sz \<le> 2 ^ i" "i < 32" using bs_index_class(1,3)[of sz] pos False by (auto simp: i_def)
      show ?thesis
      proof (cases "take_entry (bp_pools P i) pick")
        case None
        with g pos False have m: "make_slice P sz (2 ^ i) = (P', s)" by (simp add: bs_Get_def i_def)
        from make_slice_inv[OF I _ _ m] m pos i(1) show ?thesis by (auto simp: make_slice_def)
      next
        case (Some pr)
        then obtain p rest where t: "take_entry (bp_pools P i) pick = Some (p, rest)" by (cases pr) auto
        with g pos False have P': "P' = P\<lparr>bp_pools := (bp_pools P)(i := rest)\<rparr>"
          and s: "s = \<lparr>sl_data = Some p, sl_len = sz, sl_cap = 2 ^ i\<rparr>" by (auto simp: bs_Get_def Let_def i_def)
        note e = take_entry_split[OF t]
        have "in_block P p (2 ^ i)" using I e(1) by (auto simp: pool_inv_def pools_ok_def)
        then have "slice_ok P' s" using pos i(1) by (simp add: slice_ok_def s P')
        moreover have "pools_ok P'" using I e(2) by (fastforce simp: pool_inv_def pools_ok_def P')
        moreover have "refs P' (s # own) a \<le> 1" for a
        proof -
          have "refs P' (s # own) a = refs P' own a + (if slice_covers a s then 1 else 0)" by (simp add: refs_def)
          moreover have "slice_covers a s = covers a p (2 ^ i)" by (simp add: slice_covers_def s)
          moreover have "refs P own a \<le> 1" using pool_inv_refs[OF I] .
          ultimately show ?thesis
            using refs_pools_upd[OF i(2), of P rest own a] e(3)[of "\<lambda>p. covers a p (2 ^ i)"]
            by (simp add: P'[symmetric] split: if_splits)
        qed
        ultimately show ?thesis using I pos by (auto simp: pool_inv_def P' s)
      qed
    qed
  qed
  then show "pool_inv P' (s # own)" "sl_len s = max 0 sz" by auto
qed

lemma in_block_less: "in_block P p n \<Longrightarrow> m \<le> n \<Longrightarrow> in_block P p m"
  by (cases p) auto

lemma covers_less: "covers a p m \<Longrightarrow> m \<le> n \<Longrightarrow> covers a p n"
  by (cases a; cases p) auto

lemma bs_Put_inv:
  assumes I: "pool_inv P (s # own)"
  shows "\<exists>P'. bs_Put P s = Ret P' \<and> pool_inv P' own"
proof (cases "sl_cap s = 0 \<or> sl_cap s > MaxInt32")
  case True
  have "refs P own a \<le> 1" for a using pool_inv_refs[OF I, of a] by (simp add: refs_def split: if_splits)
  with I True show ?thesis by (auto simp: bs_Put_def pool_inv_def)
next
  case False
  have ok: "slice_ok P s" using I by (simp add: pool_inv_def)
  then have cap: "0 < sl_cap s" "sl_cap s \<le> MaxInt32" using False by (auto simp: slice_ok_def)
  obtain p where p: "sl_data s = Some p" "in_block P p (sl_cap s)"
    using ok cap by (auto simp: slice_ok_def split: option.splits)
  define i0 where "i0 = bs_index (word_of_int (sl_cap s))"
  define i where "i = (if sl_cap s \<noteq> 2 ^ i0 then i0 - 1 else i0)"
  note c = bs_index_class[OF cap, folded i0_def]
  have i: "i < 32" "2 ^ i \<le> sl_cap s"
  proof -
    show "i < 32" using c(3) unfolding i_def by (auto simp: less_Suc_eq_le split: if_splits)
    show "2 ^ i \<le> sl_cap s" using c(1,2) cap by (cases i0) (auto simp: i_def)
  qed
  let ?P = "P\<lparr>bp_pools := (bp_pools P)(i := p # bp_pools P i)\<rparr>"
  have put: "bs_Put P s = Ret ?P" using False p(1) by (simp add: bs_Put_def Let_def i0_def[symmetric] i_def[symmetric])
  have "pools_ok ?P" using I in_block_less[OF p(2) i(2)] by (auto simp: pool_inv_def pools_ok_def)
  moreover have "refs ?P own a \<le> 1" for a
  proof -
    have "refs P (s # own) a = refs P own a + (if slice_covers a s then 1 else 0)" by (simp add: refs_def)
    moreover have "covers a p (2 ^ i) \<Longrightarrow> slice_covers a s" using covers_less[OF _ i(2)] by (simp add: slice_covers_def p)
    moreover have "refs P (s # own) a \<le> 1" using pool_inv_refs[OF I] .
    ultimately show ?thesis using refs_pools_upd[OF i(1), of P "p # bp_pools P i" own a] by (simp split: if_splits)
  qed
  ultimately have "pool_inv ?P own" using I by (simp add: pool_inv_def)
  with put show ?thesis by blast
qed

text \<open>Putting a slice twice hands the same memory to two clients.\<close>

lemma bs_index_pow: "i \<le> 30 \<Longrightarrow> bs_index (word_of_int (2 ^ i)) = i"
proof -
  assume "i \<le> 30"
  then have "(2::int) ^ i \<le> 2 ^ 30" by (intro power_increasing) auto
  then have "0 < (2::int) ^ i" "(2::int) ^ i \<le> MaxInt32" by (auto simp: MaxInt32_def)
  note c = bs_index_class[OF this]
  have "i \<le> bs_index (word_of_int (2 ^ i))" using c(1) by simp
  moreover have "\<not> Suc i \<le> bs_index (word_of_int (2 ^ i))"
  proof
    assume "Suc i \<le> bs_index (word_of_int (2 ^ i))"
    then have "(2::int) ^ Suc i \<le> 2 ^ bs_index (word_of_int (2 ^ i))" by (intro power_increasing) auto
    with c(2) show False by simp
  qed
  ultimately show ?thesis by simp
qed

lemma bs_double_Put:
  assumes "0 < sz" "sz \<le> 2 ^ 30"
  shows "\<exists>P1 s P2 P3 P4 s'. bs_Get None bp_empty sz = (P1, s) \<and> bs_Put P1 s = Ret P2 \<and> bs_Put P2 s = Ret P3 \<and>
    bs_Get (Some 0) P3 sz = (P4, s') \<and> sl_data (snd (bs_Get (Some 0) P4 sz)) = sl_data s' \<and> sl_data s' \<noteq> None"
proof -
  define i where "i = bs_index (word_of_int sz)"
  have m: "sz \<le> MaxInt32" using assms by (simp add: MaxInt32_def)
  have lt: "(2::int) ^ i < 2 ^ 31" using bs_index_class(2)[OF assms(1) m] assms by (auto simp: i_def)
  have i: "i \<le> 30"
  proof (rule ccontr)
    assume "\<not> i \<le> 30"
    then have "(2::int) ^ 31 \<le> 2 ^ i" by (intro power_increasing) auto
    with lt show False by simp
  qed
  then have "(2::int) ^ i \<le> 2 ^ 30" by (intro power_increasing) auto
  then have cap: "\<not> MaxInt32 < 2 ^ i" by (simp add: MaxInt32_def)
  show ?thesis
    using assms m cap bs_index_pow[OF i]
    by (simp add: bs_Get_def i_def[symmetric] take_entry_def make_slice_def bs_Put_def Let_def bp_empty_def)
qed

end
