(* ===== verification/ByteQueue.thy ===== *)
theory ByteQueue
  imports Prelude
begin

text \<open>
  The contract the four buffers share: \<open>ring.Buffer\<close>, \<open>linkedlist.Buffer\<close>, \<open>elastic.RingBuffer\<close> and
  \<open>elastic.Buffer\<close> are all first-in first-out queues of bytes, accessed by a write that appends, a read
  into a caller's slice, a discard, and a peek that shows a prefix without consuming it. The contract
  is stated as a locale; the lemmas a client relies on are proved once from it.
\<close>

section \<open>Programs over a byte queue\<close>

datatype qop = QWrite "byte list" | QRead nat | QDiscard int

text \<open>The reference queue: a list of bytes, and for every read what it delivers.\<close>

fun q_spec :: "byte list \<Rightarrow> qop list \<Rightarrow> byte list \<times> byte list list" where
  "q_spec xs [] = (xs, [])"
| "q_spec xs (QWrite p # ops) = q_spec (xs @ p) ops"
| "q_spec xs (QRead n # ops) = (case q_spec (drop n xs) ops of (ys, outs) \<Rightarrow> (ys, take n xs # outs))"
| "q_spec xs (QDiscard n # ops) = q_spec (drop (nat n) xs) ops"

fun q_written :: "qop list \<Rightarrow> byte list" where
  "q_written [] = []"
| "q_written (QWrite p # ops) = p @ q_written ops"
| "q_written (_ # ops) = q_written ops"

fun q_no_discard :: "qop list \<Rightarrow> bool" where
  "q_no_discard [] = True"
| "q_no_discard (QDiscard n # ops) = False"
| "q_no_discard (_ # ops) = q_no_discard ops"

text \<open>The same program against an implementation; a read uses a zeroed slice of \<open>n\<close> bytes.\<close>

fun q_run ::
  "('q \<Rightarrow> byte list \<Rightarrow> ('q \<times> int \<times> gerror option) go) \<Rightarrow>
   ('q \<Rightarrow> byte list \<Rightarrow> ('q \<times> byte list \<times> int \<times> gerror option) go) \<Rightarrow>
   ('q \<Rightarrow> int \<Rightarrow> ('q \<times> int \<times> gerror option) go) \<Rightarrow> 'q \<Rightarrow> qop list \<Rightarrow> ('q \<times> byte list list) go" where
  "q_run put get skip q [] = Ret (q, [])"
| "q_run put get skip q (QWrite p # ops) =
     go_bind (put q p) (\<lambda>(q, n, e). q_run put get skip q ops)"
| "q_run put get skip q (QRead n # ops) =
     go_bind (get q (replicate n 0)) (\<lambda>(q, p, m, e).
     go_bind (q_run put get skip q ops) (\<lambda>(q, outs). Ret (q, take (nat m) p # outs)))"
| "q_run put get skip q (QDiscard n # ops) =
     go_bind (skip q n) (\<lambda>(q, m, e). q_run put get skip q ops)"

lemma q_spec_conserves:
  "q_no_discard ops \<Longrightarrow> q_spec xs ops = (ys, outs) \<Longrightarrow> concat outs @ ys = xs @ q_written ops"
proof (induction ops arbitrary: xs ys outs)
  case (Cons op ops)
  then show ?case
  proof (cases op)
    case (QRead n)
    with Cons obtain outs' where "q_spec (drop n xs) ops = (ys, outs')" "outs = take n xs # outs'"
      by (auto split: prod.splits)
    with Cons QRead show ?thesis by (simp add: append_assoc[symmetric])
  qed fastforce+
qed simp

section \<open>The contract\<close>

locale byte_queue =
  fixes rep :: "'q \<Rightarrow> byte list \<Rightarrow> bool"
    and put :: "'q \<Rightarrow> byte list \<Rightarrow> ('q \<times> int \<times> gerror option) go"
    and get :: "'q \<Rightarrow> byte list \<Rightarrow> ('q \<times> byte list \<times> int \<times> gerror option) go"
    and skip :: "'q \<Rightarrow> int \<Rightarrow> ('q \<times> int \<times> gerror option) go"
    and buffered :: "'q \<Rightarrow> int"
    and is_empty :: "'q \<Rightarrow> bool"
  assumes put_law: "rep q xs \<Longrightarrow> glen xs + glen p \<le> 2 ^ 62 \<Longrightarrow>
      \<exists>q'. put q p = Ret (q', glen p, None) \<and> rep q' (xs @ p)"
    and get_law: "rep q xs \<Longrightarrow>
      \<exists>q' e. get q p = Ret (q', go_copy p xs, min (glen p) (glen xs), e) \<and> rep q' (drop (length p) xs) \<and>
        (xs \<noteq> [] \<and> p \<noteq> [] \<longrightarrow> e = None)"
    and skip_law: "rep q xs \<Longrightarrow>
      \<exists>q' e. skip q n = Ret (q', min (max 0 n) (glen xs), e) \<and> rep q' (drop (nat n) xs) \<and>
        (xs \<noteq> [] \<and> 0 < n \<longrightarrow> e = None)"
    and buffered_law: "rep q xs \<Longrightarrow> buffered q = glen xs"
    and is_empty_law: "rep q xs \<Longrightarrow> is_empty q \<longleftrightarrow> xs = []"
begin

lemma read_delivers:
  assumes "rep q xs"
  shows "\<exists>q' p e. get q (replicate n 0) = Ret (q', p, min (int n) (glen xs), e) \<and>
    take (nat (min (int n) (glen xs))) p = take n xs \<and> rep q' (drop n xs)"
  using get_law[OF assms, of "replicate n 0"] by (auto simp: go_copy_def min_def)

text \<open>Every program runs to its end and agrees with the reference queue.\<close>

lemma run_refines:
  assumes "rep q xs" "glen xs + glen (q_written ops) \<le> 2 ^ 62"
  shows "\<exists>q' ys outs. q_run put get skip q ops = Ret (q', outs) \<and> q_spec xs ops = (ys, outs) \<and> rep q' ys"
  using assms
proof (induction ops arbitrary: q xs)
  case (Cons op ops)
  show ?case
  proof (cases op)
    case (QWrite p)
    with Cons.prems obtain q' where "put q p = Ret (q', glen p, None)" "rep q' (xs @ p)"
      using put_law[OF Cons.prems(1), of p] by auto
    with Cons.IH[of q' "xs @ p"] Cons.prems QWrite show ?thesis by simp
  next
    case (QRead n)
    obtain q' p e where "get q (replicate n 0) = Ret (q', p, min (int n) (glen xs), e)"
      "take (nat (min (int n) (glen xs))) p = take n xs" "rep q' (drop n xs)"
      using read_delivers[OF Cons.prems(1)] by blast
    with Cons.IH[of q' "drop n xs"] Cons.prems QRead show ?thesis by fastforce
  next
    case (QDiscard n)
    obtain q' e where "skip q n = Ret (q', min (max 0 n) (glen xs), e)" "rep q' (drop (nat n) xs)"
      using skip_law[OF Cons.prems(1)] by blast
    with Cons.IH[of q' "drop (nat n) xs"] Cons.prems QDiscard show ?thesis by simp
  qed
qed simp

text \<open>Nothing is lost, duplicated or reordered: what was read, then what is left, is what came in.\<close>

lemma run_conserves:
  assumes "rep q xs" "glen xs + glen (q_written ops) \<le> 2 ^ 62" "q_no_discard ops"
  shows "\<exists>q' outs ys. q_run put get skip q ops = Ret (q', outs) \<and> rep q' ys \<and>
    concat outs @ ys = xs @ q_written ops \<and> buffered q' = glen ys"
  using run_refines[OF assms(1,2)] q_spec_conserves[OF assms(3)] buffered_law by blast

end

text \<open>Peeking shows a prefix that covers the bytes asked for, in one or more slices.\<close>

locale byte_buffer = byte_queue rep put get skip buffered is_empty
  for rep :: "'q \<Rightarrow> byte list \<Rightarrow> bool" and put get skip buffered is_empty +
  fixes peek :: "'q \<Rightarrow> int \<Rightarrow> byte list list go"
    and limit :: int
  assumes peek_law: "rep q xs \<Longrightarrow>
      \<exists>ys k. peek q n = Ret ys \<and> concat ys = take k xs \<and> k \<le> length xs \<and>
        min (if n \<le> 0 then limit else n) (glen xs) \<le> int k \<and> (xs \<noteq> [] \<longrightarrow> ys \<noteq> [] \<and> hd ys \<noteq> [])"
begin

text \<open>
  The zero-copy pattern of the event loop: show some bytes to the kernel, which takes \<open>m\<close> of them,
  then discard \<open>m\<close>. What the kernel got and what the buffer keeps is what the buffer held.
\<close>

lemma peek_then_skip:
  assumes "rep q xs" "xs \<noteq> []"
  shows "\<exists>ys k. peek q n = Ret ys \<and> k \<le> length xs \<and> concat ys = take k xs \<and> ys \<noteq> [] \<and> hd ys \<noteq> [] \<and>
    min (if n \<le> 0 then limit else n) (glen xs) \<le> int k \<and>
    (\<forall>m. 0 < m \<and> m \<le> glen (concat ys) \<longrightarrow> (\<exists>q' rest. skip q m = Ret (q', m, None) \<and>
       take (nat m) (concat ys) @ rest = xs \<and> rep q' rest))"
proof -
  from peek_law[OF assms(1), of n] obtain ys k where ys: "peek q n = Ret ys" "concat ys = take k xs"
    "k \<le> length xs" "min (if n \<le> 0 then limit else n) (glen xs) \<le> int k" "ys \<noteq> []" "hd ys \<noteq> []"
    using assms(2) by blast
  have "\<exists>q' rest. skip q m = Ret (q', m, None) \<and> take (nat m) (concat ys) @ rest = xs \<and> rep q' rest"
    if "0 < m" "m \<le> glen (concat ys)" for m
  proof -
    have "m \<le> glen xs" "nat m \<le> k" using that ys by auto
    with skip_law[OF assms(1), of m] assms(2) that ys show ?thesis
      by (auto simp: min_def max_def intro!: exI[of _ "drop (nat m) xs"])
  qed
  with ys show ?thesis by blast
qed

end

end
