(* ===== verification/RingBuffer.thy ===== *)
theory RingBuffer
  imports ByteSlicePool ByteQueue
begin

text \<open>
  The ring buffer of \<open>pkg/buffer/ring/ring_buffer.go\<close> and its socket operations of
  \<open>pkg/buffer/ring/ring_buffer_unix.go\<close>. The record has the fields of \<open>ring.Buffer\<close> but for \<open>bs\<close>,
  scratch space in which \<open>CopyFromSocket\<close> puts the two views it passes to \<open>readv\<close>. Memory from the
  byte-slice pool comes with the stale content \<open>mem\<close>; giving memory back to it (\<open>bsPool.Put\<close>) does
  not change what the buffer holds and has no counterpart here.
\<close>

section \<open>Model\<close>

definition MinRead :: int where
  "MinRead = 512"

definition DefaultBufferSize :: int where
  "DefaultBufferSize = 1024"

definition bufferGrowThreshold :: int where
  "bufferGrowThreshold = 4 * 1024"

record ring =
  rb_buf :: "byte list"
  rb_size :: int
  rb_r :: int
  rb_w :: int
  rb_isEmpty :: bool

definition rb_New :: "int \<Rightarrow> ring go" where
  "rb_New sz =
     (if sz = 0 then Ret \<lparr>rb_buf = [], rb_size = 0, rb_r = 0, rb_w = 0, rb_isEmpty = True\<rparr>
      else go_bind (ceil_pow2 sz) (\<lambda>sz.
        Ret \<lparr>rb_buf = replicate (nat sz) 0, rb_size = sz, rb_r = 0, rb_w = 0, rb_isEmpty = True\<rparr>))"

definition rb_Reset :: "ring \<Rightarrow> ring" where
  "rb_Reset rb = rb\<lparr>rb_isEmpty := True, rb_r := 0, rb_w := 0\<rparr>"

definition rb_peekAll :: "ring \<Rightarrow> (byte list \<times> byte list) go" where
  "rb_peekAll rb =
     (if rb_isEmpty rb then Ret ([], [])
      else if rb_w rb > rb_r rb then
        go_bind (go_slice (rb_buf rb) (rb_r rb) (rb_w rb)) (\<lambda>head. Ret (head, []))
      else
        go_bind (go_slice (rb_buf rb) (rb_r rb) (glen (rb_buf rb))) (\<lambda>head.
        if rb_w rb \<noteq> 0
        then go_bind (go_slice (rb_buf rb) 0 (rb_w rb)) (\<lambda>tail. Ret (head, tail))
        else Ret (head, [])))"

definition rb_Peek :: "ring \<Rightarrow> int \<Rightarrow> (byte list \<times> byte list) go" where
  "rb_Peek rb n =
     (if rb_isEmpty rb then Ret ([], [])
      else if n \<le> 0 then rb_peekAll rb
      else if rb_w rb > rb_r rb then
        let m = rb_w rb - rb_r rb; m = (if m > n then n else m)
        in go_bind (go_slice (rb_buf rb) (rb_r rb) (rb_r rb + m)) (\<lambda>head. Ret (head, []))
      else
        let m = rb_size rb - rb_r rb + rb_w rb; m = (if m > n then n else m)
        in if rb_r rb + m \<le> rb_size rb then
             go_bind (go_slice (rb_buf rb) (rb_r rb) (rb_r rb + m)) (\<lambda>head. Ret (head, []))
           else
             let c1 = rb_size rb - rb_r rb; c2 = m - c1
             in go_bind (go_slice (rb_buf rb) (rb_r rb) (glen (rb_buf rb))) (\<lambda>head.
                go_bind (go_slice (rb_buf rb) 0 c2) (\<lambda>tail. Ret (head, tail))))"

definition rb_Buffered :: "ring \<Rightarrow> int" where
  "rb_Buffered rb =
     (if rb_r rb = rb_w rb then (if rb_isEmpty rb then 0 else rb_size rb)
      else if rb_w rb > rb_r rb then rb_w rb - rb_r rb
      else rb_size rb - rb_r rb + rb_w rb)"

definition rb_Available :: "ring \<Rightarrow> int" where
  "rb_Available rb =
     (if rb_r rb = rb_w rb then (if rb_isEmpty rb then rb_size rb else 0)
      else if rb_w rb < rb_r rb then rb_r rb - rb_w rb
      else rb_size rb - rb_w rb + rb_r rb)"

definition rb_Len :: "ring \<Rightarrow> int" where
  "rb_Len rb = glen (rb_buf rb)"

definition rb_Cap :: "ring \<Rightarrow> int" where
  "rb_Cap rb = rb_size rb"

definition rb_IsFull :: "ring \<Rightarrow> bool" where
  "rb_IsFull rb \<longleftrightarrow> rb_r rb = rb_w rb \<and> \<not> rb_isEmpty rb"

definition rb_IsEmpty :: "ring \<Rightarrow> bool" where
  "rb_IsEmpty rb \<longleftrightarrow> rb_isEmpty rb"

definition rb_Discard :: "ring \<Rightarrow> int \<Rightarrow> (ring \<times> int \<times> gerror option) go" where
  "rb_Discard rb n =
     (if n \<le> 0 then Ret (rb, 0, None)
      else let discarded = rb_Buffered rb
           in if n < discarded then
                go_bind (go_mod (rb_r rb + n) (rb_size rb)) (\<lambda>r. Ret (rb\<lparr>rb_r := r\<rparr>, n, None))
              else Ret (rb_Reset rb, discarded, None))"

text \<open>\<open>if rb.r == rb.w { rb.Reset() }\<close>, which ends every read.\<close>

definition rb_resetIfDrained :: "ring \<Rightarrow> ring" where
  "rb_resetIfDrained rb = (if rb_r rb = rb_w rb then rb_Reset rb else rb)"

definition rb_Read :: "ring \<Rightarrow> byte list \<Rightarrow> (ring \<times> byte list \<times> int \<times> gerror option) go" where
  "rb_Read rb p =
     (if glen p = 0 then Ret (rb, p, 0, None)
      else if rb_isEmpty rb then Ret (rb, p, 0, Some ErrIsEmpty)
      else if rb_w rb > rb_r rb then
        let n = rb_w rb - rb_r rb; n = (if n > glen p then glen p else n)
        in go_bind (go_slice (rb_buf rb) (rb_r rb) (rb_r rb + n)) (\<lambda>src.
           Ret (rb_resetIfDrained (rb\<lparr>rb_r := rb_r rb + n\<rparr>), go_copy p src, n, None))
      else
        let n = rb_size rb - rb_r rb + rb_w rb; n = (if n > glen p then glen p else n)
        in go_bind
             (if rb_r rb + n \<le> rb_size rb then
                go_bind (go_slice (rb_buf rb) (rb_r rb) (rb_r rb + n)) (\<lambda>src. Ret (go_copy p src))
              else
                let c1 = rb_size rb - rb_r rb; c2 = n - c1
                in go_bind (go_slice (rb_buf rb) (rb_r rb) (glen (rb_buf rb))) (\<lambda>src1.
                   go_bind (go_slice (rb_buf rb) 0 c2) (\<lambda>src2.
                   go_copy_at (go_copy p src1) c1 src2)))
             (\<lambda>p'. go_bind (go_mod (rb_r rb + n) (rb_size rb)) (\<lambda>r.
                Ret (rb_resetIfDrained (rb\<lparr>rb_r := r\<rparr>), p', n, None))))"

definition rb_ReadByte :: "ring \<Rightarrow> (ring \<times> byte \<times> gerror option) go" where
  "rb_ReadByte rb =
     (if rb_isEmpty rb then Ret (rb, 0, Some ErrIsEmpty)
      else go_bind (go_index (rb_buf rb) (rb_r rb)) (\<lambda>b.
        let r = rb_r rb + 1; r = (if r = rb_size rb then 0 else r)
        in Ret (rb_resetIfDrained (rb\<lparr>rb_r := r\<rparr>), b, None)))"

text \<open>The loop \<open>for 0 < n && n < newCap { n += n / 4 }\<close> of \<open>grow\<close>.\<close>

definition rb_growLoop :: "int \<Rightarrow> int \<Rightarrow> int go" where
  "rb_growLoop n newCap =
     go_loop (\<lambda>n. if 0 < n \<and> n < newCap then Ret (Inl (n + n div 4)) else Ret (Inr n)) n"

definition rb_growCap :: "int \<Rightarrow> int \<Rightarrow> int go" where
  "rb_growCap n newCap =
     (if n = 0 then
        if newCap \<le> DefaultBufferSize then Ret DefaultBufferSize else ceil_pow2 newCap
      else
        let doubleCap = n + n
        in if newCap \<le> doubleCap then
             if n < bufferGrowThreshold then Ret doubleCap
             else go_bind (rb_growLoop n newCap) (\<lambda>n. Ret (if n > 0 then n else newCap))
           else Ret newCap)"

definition rb_grow :: "stale \<Rightarrow> ring \<Rightarrow> int \<Rightarrow> ring go" where
  "rb_grow mem rb newCap =
     go_bind (rb_growCap (rb_size rb) newCap) (\<lambda>newCap.
     let newBuf = bs_bytes mem newCap; oldLen = rb_Buffered rb
     in go_bind (rb_Read rb newBuf) (\<lambda>(rb, newBuf, _, _).
        let rb = rb\<lparr>rb_buf := newBuf, rb_r := 0, rb_w := oldLen, rb_size := newCap\<rparr>
        in Ret (if rb_w rb > 0 then rb\<lparr>rb_isEmpty := False\<rparr> else rb)))"

definition rb_Write :: "stale \<Rightarrow> ring \<Rightarrow> byte list \<Rightarrow> (ring \<times> int \<times> gerror option) go" where
  "rb_Write mem rb p =
     (let n = glen p
      in if n = 0 then Ret (rb, n, None)
         else let free = rb_Available rb
         in go_bind (if n > free then rb_grow mem rb (rb_size rb + n - free) else Ret rb) (\<lambda>rb.
            go_bind
              (if rb_w rb \<ge> rb_r rb then
                 let c1 = rb_size rb - rb_w rb
                 in if c1 \<ge> n then
                      go_bind (go_copy_at (rb_buf rb) (rb_w rb) p) (\<lambda>buf.
                      Ret (rb\<lparr>rb_buf := buf, rb_w := rb_w rb + n\<rparr>))
                    else
                      go_bind (go_slice p 0 c1) (\<lambda>p1.
                      go_bind (go_copy_at (rb_buf rb) (rb_w rb) p1) (\<lambda>buf.
                      go_bind (go_slice p c1 (glen p)) (\<lambda>p2.
                      Ret (rb\<lparr>rb_buf := go_copy buf p2, rb_w := n - c1\<rparr>))))
               else
                 go_bind (go_copy_at (rb_buf rb) (rb_w rb) p) (\<lambda>buf.
                 Ret (rb\<lparr>rb_buf := buf, rb_w := rb_w rb + n\<rparr>)))
              (\<lambda>rb.
                 let rb = (if rb_w rb = rb_size rb then rb\<lparr>rb_w := 0\<rparr> else rb)
                 in Ret (rb\<lparr>rb_isEmpty := False\<rparr>, n, None))))"

definition rb_WriteByte :: "stale \<Rightarrow> ring \<Rightarrow> byte \<Rightarrow> (ring \<times> gerror option) go" where
  "rb_WriteByte mem rb c =
     go_bind (if rb_Available rb < 1 then rb_grow mem rb 1 else Ret rb) (\<lambda>rb.
     go_bind (go_store (rb_buf rb) (rb_w rb) c) (\<lambda>buf.
     let rb = rb\<lparr>rb_buf := buf, rb_w := rb_w rb + 1\<rparr>;
         rb = (if rb_w rb = rb_size rb then rb\<lparr>rb_w := 0\<rparr> else rb)
     in Ret (rb\<lparr>rb_isEmpty := False\<rparr>, None)))"

text \<open>A Go string is its bytes, so \<open>toolkit.StringToBytes\<close> is the identity.\<close>

definition rb_WriteString :: "stale \<Rightarrow> ring \<Rightarrow> byte list \<Rightarrow> (ring \<times> int \<times> gerror option) go" where
  "rb_WriteString mem rb s = rb_Write mem rb s"

definition rb_Bytes :: "ring \<Rightarrow> byte list go" where
  "rb_Bytes rb =
     (if rb_isEmpty rb then Ret []
      else if rb_w rb = rb_r rb then
        go_bind (go_slice (rb_buf rb) (rb_r rb) (glen (rb_buf rb))) (\<lambda>b1.
        go_bind (go_slice (rb_buf rb) 0 (rb_w rb)) (\<lambda>b2. Ret (b1 @ b2)))
      else if rb_w rb > rb_r rb then go_slice (rb_buf rb) (rb_r rb) (rb_w rb)
      else
        go_bind (go_slice (rb_buf rb) (rb_r rb) (glen (rb_buf rb))) (\<lambda>b1.
        if rb_w rb \<noteq> 0
        then go_bind (go_slice (rb_buf rb) 0 (rb_w rb)) (\<lambda>b2. Ret (b1 @ b2))
        else Ret b1))"

text \<open>One \<open>r.Read(rb.buf[lo:hi])\<close> with the panic on a negative count.\<close>

definition rb_readInto ::
  "'s reader \<Rightarrow> 's \<Rightarrow> ring \<Rightarrow> int \<Rightarrow> int \<Rightarrow> ('s \<times> ring \<times> int \<times> gerror option) go" where
  "rb_readInto rd s rb lo hi =
     go_bind (go_slice (rb_buf rb) lo hi) (\<lambda>dst.
     case rd s (glen dst) of (s', data, m, err) \<Rightarrow>
       go_bind (go_copy_at (rb_buf rb) lo (take (length dst) data)) (\<lambda>buf.
       if m < 0 then
         Panic (PanicMsg ''RingBuffer.ReadFrom: reader returned negative count from Read'')
       else Ret (s', rb\<lparr>rb_buf := buf\<rparr>, m, err)))"

text \<open>\<open>rb.w = (rb.w + m) % rb.size; n += m\<close> and the two checks of \<open>err\<close>.\<close>

definition rb_readAdvance ::
  "ring \<Rightarrow> 's \<Rightarrow> int \<Rightarrow> int \<Rightarrow> gerror option \<Rightarrow>
   (ring \<times> 's \<times> int + ring \<times> 's \<times> int \<times> gerror option) go" where
  "rb_readAdvance rb s n m err =
     go_bind (go_mod (rb_w rb + m) (rb_size rb)) (\<lambda>w.
     let rb = rb\<lparr>rb_w := w\<rparr>; n = n + m
     in Ret (case err of
               None \<Rightarrow> Inl (rb, s, n)
             | Some EOF \<Rightarrow> Inr (rb, s, n, None)
             | Some e \<Rightarrow> Inr (rb, s, n, Some e)))"

definition rb_readFromBody ::
  "stale \<Rightarrow> 's reader \<Rightarrow> ring \<times> 's \<times> int \<Rightarrow>
   (ring \<times> 's \<times> int + ring \<times> 's \<times> int \<times> gerror option) go" where
  "rb_readFromBody mem rd st =
     (case st of (rb, s, n) \<Rightarrow>
        go_bind (if rb_Available rb < MinRead then rb_grow mem rb (rb_Buffered rb + MinRead) else Ret rb)
        (\<lambda>rb.
          if rb_w rb \<ge> rb_r rb then
            go_bind (rb_readInto rd s rb (rb_w rb) (glen (rb_buf rb))) (\<lambda>(s, rb, m, err).
            go_bind (rb_readAdvance (rb\<lparr>rb_isEmpty := False\<rparr>) s n m err) (\<lambda>x.
              case x of
                Inr res \<Rightarrow> Ret (Inr res)
              | Inl (rb, s, n) \<Rightarrow>
                  go_bind (rb_readInto rd s rb 0 (rb_r rb)) (\<lambda>(s, rb, m, err).
                  rb_readAdvance rb s n m err)))
          else
            go_bind (rb_readInto rd s rb (rb_w rb) (rb_r rb)) (\<lambda>(s, rb, m, err).
            rb_readAdvance (rb\<lparr>rb_isEmpty := False\<rparr>) s n m err)))"

definition rb_ReadFrom ::
  "stale \<Rightarrow> 's reader \<Rightarrow> 's \<Rightarrow> ring \<Rightarrow> (ring \<times> 's \<times> int \<times> gerror option) go" where
  "rb_ReadFrom mem rd s rb = go_loop (rb_readFromBody mem rd) (rb, s, 0)"

definition rb_writeTo_result ::
  "ring \<Rightarrow> 's \<Rightarrow> int \<Rightarrow> gerror option \<Rightarrow> (ring \<times> 's \<times> int \<times> gerror option) go" where
  "rb_writeTo_result rb s m err =
     (case err of
        Some e \<Rightarrow> Ret (rb, s, m, Some e)
      | None \<Rightarrow> Ret (rb, s, m, if \<not> rb_isEmpty rb then Some ErrShortWrite else None))"

definition rb_WriteTo ::
  "'s writer \<Rightarrow> 's \<Rightarrow> ring \<Rightarrow> (ring \<times> 's \<times> int \<times> gerror option) go" where
  "rb_WriteTo wr s rb =
     (if rb_isEmpty rb then Ret (rb, s, 0, Some ErrIsEmpty)
      else if rb_w rb > rb_r rb then
        let n = rb_w rb - rb_r rb
        in go_bind (go_slice (rb_buf rb) (rb_r rb) (rb_r rb + n)) (\<lambda>src.
           case wr s src of (s, m, err) \<Rightarrow>
             if m > n then Panic (PanicMsg ''RingBuffer.WriteTo: invalid Write count'')
             else rb_writeTo_result (rb_resetIfDrained (rb\<lparr>rb_r := rb_r rb + m\<rparr>)) s m err)
      else
        let n = rb_size rb - rb_r rb + rb_w rb
        in if rb_r rb + n \<le> rb_size rb then
             go_bind (go_slice (rb_buf rb) (rb_r rb) (rb_r rb + n)) (\<lambda>src.
             case wr s src of (s, m, err) \<Rightarrow>
               if m > n then Panic (PanicMsg ''RingBuffer.WriteTo: invalid Write count'')
               else go_bind (go_mod (rb_r rb + m) (rb_size rb)) (\<lambda>r.
                 rb_writeTo_result (rb_resetIfDrained (rb\<lparr>rb_r := r\<rparr>)) s m err))
           else
             let c1 = rb_size rb - rb_r rb
             in go_bind (go_slice (rb_buf rb) (rb_r rb) (glen (rb_buf rb))) (\<lambda>src.
                case wr s src of (s, m, err) \<Rightarrow>
                  if m > c1 then Panic (PanicMsg ''RingBuffer.WriteTo: invalid Write count'')
                  else go_bind (go_mod (rb_r rb + m) (rb_size rb)) (\<lambda>r.
                    let rb = rb\<lparr>rb_r := r\<rparr>
                    in case err of
                         Some e \<Rightarrow> Ret (rb, s, m, Some e)
                       | None \<Rightarrow>
                           if m < c1 then Ret (rb, s, m, Some ErrShortWrite)
                           else let cum = m; c2 = n - c1
                             in go_bind (go_slice (rb_buf rb) 0 c2) (\<lambda>src.
                                case wr s src of (s, m, err) \<Rightarrow>
                                  if m > c2 then Panic (PanicMsg ''RingBuffer.WriteTo: invalid Write count'')
                                  else rb_writeTo_result (rb_resetIfDrained (rb\<lparr>rb_r := m\<rparr>)) s
                                         (cum + m) err))))"

text \<open>
  \<open>CopyFromSocket\<close>: the kernel answers \<open>read\<close> with the count (\<open>-1\<close> on an error), the bytes it put
  into the slice, and the error; for \<open>readv\<close> the bytes fill the two views in turn.
\<close>

type_synonym kread = "int \<Rightarrow> int \<times> byte list \<times> gerror option"

definition rb_CopyFromSocket :: "stale \<Rightarrow> kread \<Rightarrow> ring \<Rightarrow> (ring \<times> int \<times> gerror option) go" where
  "rb_CopyFromSocket mem kr rb =
     (if rb_r rb = rb_w rb then
        if \<not> rb_isEmpty rb then
          go_bind (rb_grow mem rb (rb_size rb + rb_size rb div 2)) (\<lambda>rb.
          go_bind (go_slice (rb_buf rb) (rb_w rb) (glen (rb_buf rb))) (\<lambda>dst.
          case kr (glen dst) of (n, data, err) \<Rightarrow>
            go_bind (go_copy_at (rb_buf rb) (rb_w rb) data) (\<lambda>buf.
            if n > 0 then go_bind (go_mod (rb_w rb + n) (rb_size rb)) (\<lambda>w.
              Ret (rb\<lparr>rb_buf := buf, rb_w := w\<rparr>, n, err))
            else Ret (rb\<lparr>rb_buf := buf\<rparr>, n, err))))
        else
          let rb = rb\<lparr>rb_r := 0, rb_w := 0\<rparr>
          in case kr (glen (rb_buf rb)) of (n, data, err) \<Rightarrow>
               let buf = go_copy (rb_buf rb) data
               in if n > 0 then go_bind (go_mod (rb_w rb + n) (rb_size rb)) (\<lambda>w.
                    Ret (rb\<lparr>rb_buf := buf, rb_w := w, rb_isEmpty := False\<rparr>, n, err))
                  else Ret (rb\<lparr>rb_buf := buf\<rparr>, n, err)
      else if rb_w rb < rb_r rb then
        go_bind (go_slice (rb_buf rb) (rb_w rb) (rb_r rb)) (\<lambda>dst.
        case kr (glen dst) of (n, data, err) \<Rightarrow>
          go_bind (go_copy_at (rb_buf rb) (rb_w rb) (take (length dst) data)) (\<lambda>buf.
          if n > 0 then go_bind (go_mod (rb_w rb + n) (rb_size rb)) (\<lambda>w.
            Ret (rb\<lparr>rb_buf := buf, rb_w := w\<rparr>, n, err))
          else Ret (rb\<lparr>rb_buf := buf\<rparr>, n, err)))
      else
        go_bind (go_slice (rb_buf rb) (rb_w rb) (glen (rb_buf rb))) (\<lambda>bs0.
        go_bind (go_slice (rb_buf rb) 0 (rb_r rb)) (\<lambda>bs1.
        case kr (glen bs0 + glen bs1) of (n, data, err) \<Rightarrow>
          go_bind (go_copy_at (rb_buf rb) (rb_w rb) data) (\<lambda>buf.
          let buf = go_copy buf (take (length bs1) (drop (length bs0) data))
          in if n > 0 then go_bind (go_mod (rb_w rb + n) (rb_size rb)) (\<lambda>w.
               Ret (rb\<lparr>rb_buf := buf, rb_w := w\<rparr>, n, err))
             else Ret (rb\<lparr>rb_buf := buf\<rparr>, n, err)))))"

definition rb_Rewind :: "stale \<Rightarrow> ring \<Rightarrow> (ring \<times> int) go" where
  "rb_Rewind mem rb =
     (if rb_IsEmpty rb then Ret (rb_Reset rb, 0)
      else if rb_w rb = 0 then
        if rb_r rb < rb_size rb - rb_r rb then
          go_bind (rb_grow mem rb (rb_size rb + rb_size rb - rb_r rb)) (\<lambda>rb.
          Ret (rb, rb_size rb - rb_r rb))
        else
          go_bind (go_slice (rb_buf rb) (rb_r rb) (glen (rb_buf rb))) (\<lambda>src.
          let n = go_copied (rb_buf rb) src
          in Ret (rb\<lparr>rb_buf := go_copy (rb_buf rb) src, rb_r := 0, rb_w := n\<rparr>, n))
      else if rb_size rb - rb_w rb < DefaultBufferSize then
        if rb_r rb < rb_w rb - rb_r rb then
          go_bind (rb_grow mem rb (rb_size rb + rb_w rb - rb_r rb)) (\<lambda>rb.
          Ret (rb, rb_w rb - rb_r rb))
        else
          go_bind (go_slice (rb_buf rb) (rb_r rb) (rb_w rb)) (\<lambda>src.
          let n = go_copied (rb_buf rb) src
          in Ret (rb\<lparr>rb_buf := go_copy (rb_buf rb) src, rb_r := 0, rb_w := n\<rparr>, n))
      else Ret (rb, 0))"

section \<open>Well-formed rings and what they hold\<close>

definition rb_inv :: "ring \<Rightarrow> bool" where
  "rb_inv rb \<longleftrightarrow>
     rb_size rb = glen (rb_buf rb) \<and> 0 \<le> rb_r rb \<and> 0 \<le> rb_w rb \<and>
     (rb_r rb < rb_size rb \<or> rb_size rb = 0 \<and> rb_r rb = 0) \<and>
     (rb_w rb < rb_size rb \<or> rb_size rb = 0 \<and> rb_w rb = 0) \<and>
     (rb_isEmpty rb \<longrightarrow> rb_r rb = rb_w rb) \<and>
     (rb_size rb = 0 \<longrightarrow> rb_isEmpty rb)"

definition rb_content :: "ring \<Rightarrow> byte list" where
  "rb_content rb =
     (if rb_isEmpty rb then []
      else if rb_r rb < rb_w rb then take (nat (rb_w rb - rb_r rb)) (drop (nat (rb_r rb)) (rb_buf rb))
      else drop (nat (rb_r rb)) (rb_buf rb) @ take (nat (rb_w rb)) (rb_buf rb))"

definition rb_rep :: "ring \<Rightarrow> byte list \<Rightarrow> bool" where
  "rb_rep rb xs \<longleftrightarrow> rb_inv rb \<and> rb_content rb = xs"

text \<open>The two slices of \<open>Peek\<close>, as a list of slices.\<close>

definition rb_peeks :: "ring \<Rightarrow> int \<Rightarrow> byte list list go" where
  "rb_peeks rb n = go_bind (rb_Peek rb n) (\<lambda>(head, tail). Ret [head, tail])"

text \<open>The three shapes of a well-formed ring: nothing stored, one run, two runs.\<close>

definition ring_empty :: "byte list \<Rightarrow> byte list \<Rightarrow> ring" where
  "ring_empty a z = \<lparr>rb_buf = a @ z, rb_size = glen a + glen z, rb_r = glen a, rb_w = glen a,
     rb_isEmpty = True\<rparr>"

definition ring_linear :: "byte list \<Rightarrow> byte list \<Rightarrow> byte list \<Rightarrow> ring" where
  "ring_linear a d z = \<lparr>rb_buf = a @ d @ z, rb_size = glen a + glen d + glen z, rb_r = glen a,
     rb_w = glen a + glen d, rb_isEmpty = False\<rparr>"

definition ring_wrapped :: "byte list \<Rightarrow> byte list \<Rightarrow> byte list \<Rightarrow> ring" where
  "ring_wrapped t g h = \<lparr>rb_buf = t @ g @ h, rb_size = glen t + glen g + glen h,
     rb_r = glen t + glen g, rb_w = glen t, rb_isEmpty = False\<rparr>"

text \<open>What a read of \<open>n\<close> bytes does to the ring, for every reading operation.\<close>

definition rb_consumed :: "ring \<Rightarrow> int \<Rightarrow> ring" where
  "rb_consumed rb n = rb_resetIfDrained (rb\<lparr>rb_r := (rb_r rb + n) mod rb_size rb\<rparr>)"

text \<open>A grown ring starts at the front and holds what the old one held.\<close>

definition ring_front :: "byte list \<Rightarrow> byte list \<Rightarrow> ring" where
  "ring_front d z = (if d = [] then ring_empty [] z else ring_linear [] d z)"

text \<open>
  The outcome every branch of \<open>WriteTo\<close> aims at: the writer took a prefix, the ring keeps the rest,
  and no error means that everything was taken.
\<close>

definition drained_to ::
  "('s \<Rightarrow> byte list) \<Rightarrow> 's \<Rightarrow> byte list \<Rightarrow> ring \<times> 's \<times> int \<times> gerror option \<Rightarrow> bool" where
  "drained_to acc s d res = (case res of (rb', s', n, e) \<Rightarrow>
     rb_inv rb' \<and> 0 \<le> n \<and> n \<le> glen d \<and> acc s' = acc s @ take (nat n) d \<and>
     rb_content rb' = drop (nat n) d \<and> (e = None \<longrightarrow> rb_content rb' = []))"

text \<open>What the kernel does on \<open>read\<close>: it fills a prefix of the slice, or reports an error and \<open>-1\<close>.\<close>

definition kread_ok :: "kread \<Rightarrow> bool" where
  "kread_ok kr \<longleftrightarrow> (\<forall>len. case kr len of (n, data, err) \<Rightarrow>
     if n < 0 then data = [] else n = glen data \<and> n \<le> max 0 len)"

text \<open>Bytes placed behind the data, as \<open>Write\<close> without growing places them.\<close>

definition received :: "ring \<Rightarrow> byte list \<Rightarrow> ring \<Rightarrow> bool" where
  "received rb data rb' \<longleftrightarrow> rb_inv rb' \<and> rb_content rb' = rb_content rb @ data"

definition ring_filled :: "byte list \<Rightarrow> byte list \<Rightarrow> byte list \<Rightarrow> ring" where
  "ring_filled d x z =
     (if length x < length z then ring_linear [] (d @ x) (drop (length x) z) else ring_wrapped [] [] (d @ x))"

definition read_inv :: "('s \<Rightarrow> byte list) \<Rightarrow> byte list \<Rightarrow> byte list \<Rightarrow> ring \<times> 's \<times> int \<Rightarrow> bool" where
  "read_inv rem c src st = (case st of (rb, s, n) \<Rightarrow>
     rb_inv rb \<and> rb_r rb = 0 \<and> (rb_content rb \<noteq> [] \<or> rem s \<noteq> []) \<and>
     (\<exists>x. src = x @ rem s \<and> rb_content rb = c @ x \<and> n = glen x))"


text \<open>
  A reader that hands out its two chunks one call at a time. With data that starts at index 2, the
  second chunk of a round goes to the front of the storage although the first one did not reach its
  end, and the bytes between the two are taken for data.
\<close>

definition two_chunks :: "nat reader" where
  "two_chunks s len =
     (if len \<le> 0 then (s, [], 0, None)
      else if s = 0 then (1, [7], 1, None)
      else if s = 1 then (2, [8], 1, None)
      else (s, [], 0, Some EOF))"


section \<open>Shapes\<close>

lemmas ring_shapes = ring_empty_def ring_linear_def ring_wrapped_def

lemma ring_sel [simp]:
  "rb_buf (ring_empty a z) = a @ z" "rb_size (ring_empty a z) = glen a + glen z"
  "rb_r (ring_empty a z) = glen a" "rb_w (ring_empty a z) = glen a" "rb_isEmpty (ring_empty a z)"
  "rb_buf (ring_linear a d z) = a @ d @ z" "rb_size (ring_linear a d z) = glen a + glen d + glen z"
  "rb_r (ring_linear a d z) = glen a" "rb_w (ring_linear a d z) = glen a + glen d"
  "\<not> rb_isEmpty (ring_linear a d z)"
  "rb_buf (ring_wrapped t g h) = t @ g @ h" "rb_size (ring_wrapped t g h) = glen t + glen g + glen h"
  "rb_r (ring_wrapped t g h) = glen t + glen g" "rb_w (ring_wrapped t g h) = glen t"
  "\<not> rb_isEmpty (ring_wrapped t g h)"
  by (simp_all add: ring_shapes)

lemma rb_inv_empty [simp]: "rb_inv (ring_empty a z) \<longleftrightarrow> (z = [] \<longrightarrow> a = [])"
  by (auto simp: rb_inv_def ring_empty_def)

lemma rb_inv_linear [simp]: "rb_inv (ring_linear a d z) \<longleftrightarrow> z \<noteq> []"
  by (cases z) (auto simp: rb_inv_def ring_linear_def)

lemma rb_inv_wrapped [simp]: "rb_inv (ring_wrapped t g h) \<longleftrightarrow> h \<noteq> []"
  by (cases h) (auto simp: rb_inv_def ring_wrapped_def)

lemma rb_content_shapes [simp]:
  "rb_content (ring_empty a z) = []"
  "d \<noteq> [] \<Longrightarrow> rb_content (ring_linear a d z) = d"
  "rb_content (ring_wrapped t g h) = h @ t"
  by (auto simp: rb_content_def ring_shapes go_simps)

lemma ring_cases [consumes 1, case_names Empty Linear Wrapped]:
  assumes inv: "rb_inv rb"
  obtains (Empty) a z where "rb = ring_empty a z" "z = [] \<longrightarrow> a = []"
    | (Linear) a d z where "rb = ring_linear a d z" "d \<noteq> []" "z \<noteq> []"
    | (Wrapped) t g h where "rb = ring_wrapped t g h" "h \<noteq> []"
proof -
  obtain buf sz r w e where rb: "rb = \<lparr>rb_buf = buf, rb_size = sz, rb_r = r, rb_w = w, rb_isEmpty = e\<rparr>"
    by (cases rb)
  define i where "i = nat r"
  define j where "j = nat w"
  have ij: "r = int i" "w = int j" "sz = glen buf" "i \<le> length buf" "j \<le> length buf"
    using inv by (auto simp: rb rb_inv_def i_def j_def)
  have ne: "\<not> e \<Longrightarrow> i < length buf \<and> j < length buf" and ee: "e \<Longrightarrow> i = j"
    and z0: "i = length buf \<Longrightarrow> buf = []"
    using inv ij by (auto simp: rb rb_inv_def)
  show ?thesis
  proof (cases e)
    case True
    show ?thesis
    proof (rule Empty)
      show "rb = ring_empty (take i buf) (drop i buf)"
        using True ij ee by (simp add: rb ring_empty_def)
      show "drop i buf = [] \<longrightarrow> take i buf = []" using z0 ij by auto
    qed
  next
    case False
    note ne = ne[OF False]
    show ?thesis
    proof (cases "i < j")
      case True
      show ?thesis
      proof (rule Linear)
        show "rb = ring_linear (take i buf) (take (j - i) (drop i buf)) (drop j buf)"
          using True False ij ne take_drop_split[of i j buf]
          by (auto simp: rb ring_linear_def min_def)
        show "take (j - i) (drop i buf) \<noteq> []" "drop j buf \<noteq> []"
          using True ne by auto
      qed
    next
      case wr: False
      show ?thesis
      proof (rule Wrapped)
        show "rb = ring_wrapped (take j buf) (take (i - j) (drop j buf)) (drop i buf)"
          using wr False ij ne take_drop_split[of j i buf]
          by (auto simp: rb ring_wrapped_def min_def)
        show "drop i buf \<noteq> []" using ne by auto
      qed
    qed
  qed
qed

lemma rb_Buffered_content: "rb_inv rb \<Longrightarrow> rb_Buffered rb = glen (rb_content rb)"
  by (erule ring_cases) (auto simp: rb_Buffered_def ring_shapes rb_content_def)

lemma rb_Available_content: "rb_inv rb \<Longrightarrow> rb_Available rb = rb_size rb - glen (rb_content rb)"
  by (erule ring_cases) (auto simp: rb_Available_def ring_shapes rb_content_def)

lemma rb_isEmpty_content: "rb_inv rb \<Longrightarrow> rb_isEmpty rb \<longleftrightarrow> rb_content rb = []"
  by (erule ring_cases) (auto simp: ring_shapes rb_content_def)

lemma rb_Bytes_content: "rb_inv rb \<Longrightarrow> rb_Bytes rb = Ret (rb_content rb)"
  by (erule ring_cases) (auto simp: rb_Bytes_def ring_shapes rb_content_def go_simps)

lemma rb_Peek_content:
  assumes "rb_inv rb"
  shows "\<exists>head tail. rb_Peek rb n = Ret (head, tail) \<and>
     head @ tail = (if n \<le> 0 then rb_content rb else take (nat n) (rb_content rb)) \<and>
     (rb_content rb \<noteq> [] \<longrightarrow> head \<noteq> [])"
  using assms
proof (cases rule: ring_cases)
  case (Empty a z)
  then show ?thesis by (auto simp: rb_Peek_def ring_empty_def rb_content_def)
next
  case (Linear a d z)
  then show ?thesis
    by (auto simp: rb_Peek_def rb_peekAll_def ring_linear_def rb_content_def go_simps Let_def)
next
  case (Wrapped t g h)
  then show ?thesis
    by (auto simp: rb_Peek_def rb_peekAll_def ring_wrapped_def rb_content_def go_simps Let_def)
qed

lemma rb_Reset_inv [simp]: "rb_inv rb \<Longrightarrow> rb_inv (rb_Reset rb)"
  by (auto simp: rb_inv_def rb_Reset_def)

lemma rb_Reset_content [simp]: "rb_content (rb_Reset rb) = []"
  by (simp add: rb_Reset_def rb_content_def)

text \<open>Moving the read position on by less than what is stored, and by all of it.\<close>

lemma rb_advance:
  assumes "rb_inv rb" "0 < n" "n < glen (rb_content rb)"
  shows "rb_inv (rb\<lparr>rb_r := (rb_r rb + n) mod rb_size rb\<rparr>)"
    and "rb_content (rb\<lparr>rb_r := (rb_r rb + n) mod rb_size rb\<rparr>) = drop (nat n) (rb_content rb)"
    and "(rb_r rb + n) mod rb_size rb \<noteq> rb_w rb"
proof -
  define k where "k = nat n"
  with assms have k: "n = int k" "0 < k" "k < length (rb_content rb)" by auto
  let ?rb = "rb\<lparr>rb_r := (rb_r rb + n) mod rb_size rb\<rparr>"
  have "rb_inv ?rb \<and> rb_content ?rb = drop k (rb_content rb) \<and> rb_r ?rb \<noteq> rb_w rb"
    using assms(1)
  proof (cases rule: ring_cases)
    case (Empty a z)
    then show ?thesis using k by simp
  next
    case (Linear a d z)
    with k have kd: "k < length d" by simp
    with Linear k have eq: "?rb = ring_linear (a @ take k d) (drop k d) z"
      by (simp add: ring_linear_def min_def)
    show ?thesis unfolding eq using kd Linear by simp
  next
    case (Wrapped t g h)
    show ?thesis
    proof (cases "k < length h")
      case True
      with Wrapped k have eq: "?rb = ring_wrapped t (g @ take k h) (drop k h)"
        by (simp add: ring_wrapped_def min_def)
      show ?thesis unfolding eq using True k Wrapped by simp
    next
      case False
      define j where "j = k - length h"
      with False have j: "k = length h + j" by simp
      with Wrapped k have "j < length t" by simp
      moreover from this Wrapped have "(glen t + glen g + n) mod (glen t + glen g + glen h) = int j"
        by (intro int_wrap_mod) (simp_all add: j k)
      ultimately have eq: "?rb = ring_linear (take j t) (drop j t) (g @ h)"
        using Wrapped by (simp add: ring_linear_def ring_wrapped_def)
      show ?thesis unfolding eq using \<open>j < length t\<close> j Wrapped by simp
    qed
  qed
  then show "rb_inv ?rb" "rb_content ?rb = drop (nat n) (rb_content rb)"
    "(rb_r rb + n) mod rb_size rb \<noteq> rb_w rb" by (simp_all add: k)
qed

lemma rb_advance_all:
  assumes "rb_inv rb" "rb_content rb \<noteq> []"
  shows "(rb_r rb + glen (rb_content rb)) mod rb_size rb = rb_w rb"
  using assms(1)
proof (cases rule: ring_cases)
  case (Wrapped t g h)
  then have "0 < glen h" by simp
  then have "glen t < glen t + glen g + glen h" by linarith
  then have "(glen t + glen g + (glen h + glen t)) mod (glen t + glen g + glen h) = glen t"
    by (intro int_wrap_mod) simp_all
  with Wrapped show ?thesis by simp
qed (use assms in \<open>auto simp: ring_shapes rb_content_def\<close>)

lemma rb_resetIfDrained_advance:
  assumes "rb_inv rb" "0 < n" "n \<le> glen (rb_content rb)"
  shows "rb_inv (rb_resetIfDrained (rb\<lparr>rb_r := (rb_r rb + n) mod rb_size rb\<rparr>))"
    and "rb_content (rb_resetIfDrained (rb\<lparr>rb_r := (rb_r rb + n) mod rb_size rb\<rparr>)) =
         drop (nat n) (rb_content rb)"
proof -
  let ?rb = "rb\<lparr>rb_r := (rb_r rb + n) mod rb_size rb\<rparr>"
  have "rb_inv (rb_resetIfDrained ?rb) \<and>
        rb_content (rb_resetIfDrained ?rb) = drop (nat n) (rb_content rb)"
  proof (cases "n < glen (rb_content rb)")
    case True
    with assms rb_advance[of rb n] show ?thesis by (simp add: rb_resetIfDrained_def)
  next
    case False
    with assms have n: "n = glen (rb_content rb)" by simp
    with assms have "(rb_r rb + n) mod rb_size rb = rb_w rb"
      using rb_advance_all[of rb] by force
    moreover have "rb_Reset ?rb = rb_Reset rb" by (simp add: rb_Reset_def)
    ultimately show ?thesis using assms n by (simp add: rb_resetIfDrained_def)
  qed
  then show "rb_inv (rb_resetIfDrained ?rb)"
    "rb_content (rb_resetIfDrained ?rb) = drop (nat n) (rb_content rb)" by simp_all
qed

lemma rb_content_size: "rb_inv rb \<Longrightarrow> glen (rb_content rb) \<le> rb_size rb"
  by (erule ring_cases) (auto simp: ring_shapes rb_content_def)

lemma rb_Discard_spec:
  assumes "rb_inv rb"
  shows "\<exists>rb'. rb_Discard rb n = Ret (rb', min (max n 0) (glen (rb_content rb)), None) \<and>
     rb_inv rb' \<and> rb_content rb' = drop (nat n) (rb_content rb) \<and> rb_size rb' = rb_size rb"
proof (cases "0 < n \<and> n < glen (rb_content rb)")
  case True
  moreover have "0 \<le> rb_r rb" "0 < rb_size rb"
    using assms True rb_content_size[of rb] by (auto simp: rb_inv_def)
  ultimately show ?thesis
    using assms by (simp add: rb_Discard_def rb_Buffered_content Let_def rb_advance go_simps)
next
  case False
  then show ?thesis
    using assms by (auto simp: rb_Discard_def rb_Buffered_content Let_def)
      (simp add: rb_Reset_def)
qed


lemma rb_consumed_spec:
  assumes "rb_inv rb" "0 < n" "n \<le> glen (rb_content rb)"
  shows "rb_inv (rb_consumed rb n)" "rb_content (rb_consumed rb n) = drop (nat n) (rb_content rb)"
    "rb_size (rb_consumed rb n) = rb_size rb"
  using rb_resetIfDrained_advance[OF assms]
  by (simp_all add: rb_consumed_def) (simp add: rb_resetIfDrained_def rb_Reset_def)

lemma rb_Read_linear:
  assumes "p \<noteq> []" "d \<noteq> []" "z \<noteq> []"
  shows "rb_Read (ring_linear a d z) p =
    Ret (rb_consumed (ring_linear a d z) (min (glen p) (glen d)),
         go_copy p (take (length p) d), min (glen p) (glen d), None)"
proof -
  have "(glen a + min (glen p) (glen d)) mod (glen a + glen d + glen z) = glen a + min (glen p) (glen d)"
    using assms(3) by (cases z) (auto simp: min_def)
  then show ?thesis
    using assms by (auto simp: rb_Read_def Let_def go_simps rb_consumed_def min_def)
qed

lemma go_copy_two:
  "length s1 \<le> length p \<Longrightarrow> go_copy_at (go_copy p s1) (glen s1) s2 = Ret (go_copy p (s1 @ s2))"
  by (simp add: go_copy_at_def) (simp add: go_copy_def add.commute)

lemma rb_Read_wrapped:
  assumes "p \<noteq> []" "h \<noteq> []"
  shows "rb_Read (ring_wrapped t g h) p =
    Ret (rb_consumed (ring_wrapped t g h) (min (glen p) (glen h + glen t)),
         go_copy p (take (length p) (h @ t)), min (glen p) (glen h + glen t), None)"
proof -
  have pos: "0 < glen t + glen g + glen h" "0 < glen g + glen h" using assms(2) by (cases h; simp)+
  consider "length p \<le> length h" | "length h < length p" "length p < length h + length t"
    | "length h + length t \<le> length p" "t = []" | "length h + length t \<le> length p" "t \<noteq> []"
    by linarith
  then show ?thesis
  proof cases
    case 1
    with assms pos show ?thesis
      by (cases t) (auto simp: rb_Read_def Let_def rb_consumed_def min_def go_slice_Ret go_mod_Ret nat_add_distrib)
  next
    case 2
    with assms pos show ?thesis
      by (auto simp: rb_Read_def Let_def rb_consumed_def min_def go_slice_Ret go_mod_Ret nat_add_distrib
          go_copy_two nat_minus_int)
  next
    case 3
    with assms pos show ?thesis
      by (auto simp: rb_Read_def Let_def rb_consumed_def min_def go_slice_Ret go_mod_Ret nat_add_distrib)
  next
    case 4
    then have "min (glen p) (glen h + glen t) = glen h + glen t" by simp
    with 4 assms pos show ?thesis
      by (simp add: rb_Read_def Let_def rb_consumed_def go_slice_Ret go_mod_Ret nat_add_distrib
          go_copy_two)
  qed
qed

lemma rb_Read_spec:
  assumes "rb_inv rb" "p \<noteq> []" "rb_content rb \<noteq> []"
  shows "rb_Read rb p =
    Ret (rb_consumed rb (min (glen p) (glen (rb_content rb))),
         go_copy p (take (length p) (rb_content rb)), min (glen p) (glen (rb_content rb)), None)"
  using assms(1) by (cases rule: ring_cases) (use assms in \<open>simp_all add: rb_Read_linear rb_Read_wrapped\<close>)

lemma rb_Read_empty:
  "rb_inv rb \<Longrightarrow> rb_content rb = [] \<Longrightarrow>
   rb_Read rb p = Ret (rb, p, 0, if p = [] then None else Some ErrIsEmpty)"
  by (simp add: rb_Read_def flip: rb_isEmpty_content)

lemma rb_Read_none: "rb_Read rb [] = Ret (rb, [], 0, None)"
  by (simp add: rb_Read_def)


lemma rb_ReadByte_spec:
  assumes "rb_inv rb" "rb_content rb \<noteq> []"
  shows "rb_ReadByte rb = Ret (rb_consumed rb 1, hd (rb_content rb), None)"
  using assms(1)
proof (cases rule: ring_cases)
  case (Empty a z)
  then show ?thesis using assms by simp
next
  case (Linear a d z)
  then show ?thesis
    by (cases d; cases z) (auto simp: rb_ReadByte_def go_index_def rb_consumed_def nth_append)
next
  case (Wrapped t g h)
  then show ?thesis
    by (cases h) (auto simp: rb_ReadByte_def go_index_def rb_consumed_def nth_append nat_add_distrib)
qed

lemma growLoop_spec:
  assumes "4 \<le> n"
  shows "\<exists>n'. rb_growLoop n newCap = Ret n' \<and> n \<le> n' \<and> newCap \<le> n'"
  unfolding rb_growLoop_def
  by (rule go_loop_total[where I = "\<lambda>x. n \<le> x" and m = "\<lambda>x. nat (newCap - x)"])
     (use assms in auto)

text \<open>The new capacity is at least what was asked for, and larger than the old one.\<close>

lemma growCap_spec:
  assumes "0 \<le> sz" "sz < newCap" "newCap \<le> 2 ^ 62 \<or> 0 < sz"
  shows "\<exists>c. rb_growCap sz newCap = Ret c \<and> newCap \<le> c"
proof (cases "sz = 0")
  case True
  show ?thesis
  proof (cases "newCap \<le> DefaultBufferSize")
    case False
    then have "2 < newCap" by (simp add: DefaultBufferSize_def)
    moreover have "newCap \<le> 2 ^ 62" using True assms(3) by simp
    ultimately obtain k where "ceil_pow2 newCap = Ret (2 ^ Suc k)" "newCap \<le> 2 ^ Suc k"
      using ceil_pow2_least by blast
    with True False show ?thesis by (simp add: rb_growCap_def)
  qed (use True in \<open>simp add: rb_growCap_def\<close>)
next
  case False
  show ?thesis
  proof (cases "newCap \<le> sz + sz \<and> \<not> sz < bufferGrowThreshold")
    case True
    then obtain c where "rb_growLoop sz newCap = Ret c" "sz \<le> c" "newCap \<le> c"
      using growLoop_spec[of sz newCap] by (auto simp: bufferGrowThreshold_def)
    with True False assms show ?thesis by (auto simp: rb_growCap_def Let_def)
  qed (use False in \<open>auto simp: rb_growCap_def Let_def\<close>)
qed

lemma ring_front_sel [simp]:
  "rb_buf (ring_front d z) = d @ z" "rb_size (ring_front d z) = glen d + glen z"
  "rb_r (ring_front d z) = 0" "rb_w (ring_front d z) = glen d" "rb_isEmpty (ring_front d z) = (d = [])"
  "rb_content (ring_front d z) = d" "rb_inv (ring_front d z) \<longleftrightarrow> (z = [] \<longrightarrow> d = [])"
  by (auto simp: ring_front_def)

lemma rb_grow_to:
  assumes inv: "rb_inv rb" and c: "rb_growCap (rb_size rb) newCap = Ret c"
    and fit: "glen (rb_content rb) \<le> c" "0 < c"
  shows "rb_grow mem rb newCap =
    Ret (ring_front (rb_content rb) (drop (length (rb_content rb)) (bs_bytes mem c)))"
proof (cases "rb_content rb = []")
  case True
  with inv have "rb_isEmpty rb" by (simp add: rb_isEmpty_content)
  with True fit inv c show ?thesis
    by (cases rb) (auto simp: rb_grow_def Let_def rb_Read_empty rb_Buffered_content ring_front_def
        ring_empty_def)
next
  case False
  let ?d = "rb_content rb"
  have "rb_Read rb (bs_bytes mem c) =
      Ret (rb_consumed rb (glen ?d), go_copy (bs_bytes mem c) ?d, glen ?d, None)"
    using rb_Read_spec[OF inv _ False, of "bs_bytes mem c"] fit length_bs_bytes[of mem c]
    by (cases "bs_bytes mem c = []") (auto simp: min_def)
  with False fit inv c show ?thesis
    by (cases "rb_consumed rb (glen ?d)")
      (auto simp: rb_grow_def Let_def rb_Buffered_content ring_front_def ring_linear_def go_copy_fits)
qed

lemma rb_grow_spec:
  assumes inv: "rb_inv rb" and "rb_size rb < newCap" "newCap \<le> 2 ^ 62 \<or> 0 < rb_size rb"
  shows "\<exists>z. rb_grow mem rb newCap = Ret (ring_front (rb_content rb) z) \<and>
     newCap \<le> glen (rb_content rb) + glen z \<and> z \<noteq> []"
proof -
  let ?d = "rb_content rb"
  from inv have "0 \<le> rb_size rb" by (simp add: rb_inv_def)
  then obtain c where c: "rb_growCap (rb_size rb) newCap = Ret c" "newCap \<le> c"
    using growCap_spec assms by blast
  have fit: "glen ?d < c" using rb_content_size[OF inv] assms c by linarith
  let ?z = "drop (length ?d) (bs_bytes mem c)"
  have "rb_grow mem rb newCap = Ret (ring_front ?d ?z)"
    using fit by (intro rb_grow_to[OF inv c(1)]) auto
  moreover have "newCap \<le> glen ?d + glen ?z" "?z \<noteq> []" using fit c by auto
  ultimately show ?thesis by blast
qed

text \<open>Writing without growing: into the room behind the data, round the end, or in the gap.\<close>

lemma rb_Write_behind:
  assumes rb: "rb = \<lparr>rb_buf = a @ d @ z, rb_size = glen a + glen d + glen z, rb_r = glen a,
      rb_w = glen a + glen d, rb_isEmpty = e\<rparr>"
    and "e \<longleftrightarrow> d = []" "p \<noteq> []" "length p \<le> length z + length a" "z \<noteq> []"
  shows "rb_Write mem rb p =
    Ret (if length p < length z then ring_linear a (d @ p) (drop (length p) z)
         else ring_wrapped (drop (length z) p) (drop (length p - length z) a) (d @ take (length z) p),
         glen p, None)"
  using assms
  by (cases z) (auto simp: rb_Write_def Let_def rb_Available_def go_simps go_copy_fits ring_linear_def
      ring_wrapped_def)

lemma rb_Write_gap:
  assumes "p \<noteq> []" "length p \<le> length g" "h \<noteq> []"
  shows "rb_Write mem (ring_wrapped t g h) p = Ret (ring_wrapped (t @ p) (drop (length p) g) h, glen p, None)"
proof -
  have "g \<noteq> []" "glen t + glen p \<noteq> glen t + glen g + glen h"
    using assms by (auto, cases h, auto)
  with assms show ?thesis
    by (auto simp: rb_Write_def Let_def rb_Available_def go_simps go_copy_fits ring_wrapped_def)
qed

lemma rb_Write_room:
  assumes inv: "rb_inv rb" and p: "p \<noteq> []" and room: "glen p \<le> rb_Available rb"
  shows "\<exists>rb'. rb_Write mem rb p = Ret (rb', glen p, None) \<and> rb_inv rb' \<and>
    rb_content rb' = rb_content rb @ p \<and> rb_size rb' = rb_size rb"
  using inv
proof (cases rule: ring_cases)
  case (Empty a z)
  with inv p room have "z \<noteq> []" by (auto simp: rb_Available_def)
  moreover from Empty room have len: "length p \<le> length z + length a" by (simp add: rb_Available_def)
  ultimately have "rb_Write mem rb p =
      Ret (if length p < length z then ring_linear a p (drop (length p) z)
        else ring_wrapped (drop (length z) p) (drop (length p - length z) a) (take (length z) p),
        glen p, None)"
    using rb_Write_behind[of rb a "[]" z True p mem] Empty p by (simp add: ring_empty_def)
  with Empty len p \<open>z \<noteq> []\<close> show ?thesis by auto
next
  case (Linear a d z)
  from Linear room have len: "length p \<le> length z + length a" by (simp add: rb_Available_def)
  with Linear p have "rb_Write mem rb p =
      Ret (if length p < length z then ring_linear a (d @ p) (drop (length p) z)
        else ring_wrapped (drop (length z) p) (drop (length p - length z) a) (d @ take (length z) p),
        glen p, None)"
    using rb_Write_behind[of rb a d z False p mem] by (simp add: ring_linear_def)
  with Linear len p show ?thesis by auto
next
  case (Wrapped t g h)
  from Wrapped room inv have "length p \<le> length g" by (simp add: rb_Available_content)
  with Wrapped p show ?thesis using rb_Write_gap[of p g h mem t] by auto
qed

lemma rb_Write_grown:
  assumes "p \<noteq> []" "glen p > rb_Available rb" "rb_grow mem rb (rb_size rb + glen p - rb_Available rb) = Ret rb1"
    "glen p \<le> rb_Available rb1"
  shows "rb_Write mem rb p = rb_Write mem rb1 p"
  using assms by (simp add: rb_Write_def Let_def)

lemma rb_Write_spec:
  assumes inv: "rb_inv rb" and fits: "glen (rb_content rb) + glen p \<le> 2 ^ 62"
  shows "\<exists>rb'. rb_Write mem rb p = Ret (rb', glen p, None) \<and> rb_inv rb' \<and>
    rb_content rb' = rb_content rb @ p"
proof (cases "p = [] \<or> glen p \<le> rb_Available rb")
  case True
  show ?thesis
  proof (cases "p = []")
    case False
    with True rb_Write_room[OF inv, of p mem] show ?thesis by auto
  qed (use inv in \<open>simp add: rb_Write_def\<close>)
next
  case False
  let ?d = "rb_content rb"
  have av: "rb_size rb + glen p - rb_Available rb = glen ?d + glen p"
    using inv by (simp add: rb_Available_content)
  have "rb_size rb < glen ?d + glen p" using False inv by (simp add: rb_Available_content)
  from rb_grow_spec[OF inv this, of mem] fits obtain z where
    g: "rb_grow mem rb (glen ?d + glen p) = Ret (ring_front ?d z)" and z: "glen p \<le> glen z" "z \<noteq> []"
    by auto
  have "glen p \<le> rb_Available (ring_front ?d z)"
    using z by (simp add: rb_Available_content)
  moreover from this have "rb_Write mem rb p = rb_Write mem (ring_front ?d z) p"
    using False g by (intro rb_Write_grown) (auto simp: av)
  ultimately show ?thesis using rb_Write_room[of "ring_front ?d z" p mem] False z by auto
qed

lemma rb_WriteByte_Write:
  assumes inv: "rb_inv rb" and room: "1 \<le> rb_Available rb"
  shows "rb_WriteByte mem rb c = go_bind (rb_Write mem rb [c]) (\<lambda>(rb', _, e). Ret (rb', e))"
  using inv
proof (cases rule: ring_cases)
  case (Empty a z)
  then show ?thesis using room
    by (cases z) (auto simp: rb_WriteByte_def rb_Write_def Let_def go_store_def go_simps go_copy_def
        rb_Available_def list_update_append)
next
  case (Linear a d z)
  then show ?thesis using room
    by (cases z) (auto simp: rb_WriteByte_def rb_Write_def Let_def go_store_def go_simps go_copy_def
        rb_Available_def list_update_append)
next
  case (Wrapped t g h)
  with room inv have "g \<noteq> []" by (auto simp: rb_Available_content)
  with Wrapped show ?thesis
    by (cases g) (auto simp: rb_WriteByte_def rb_Write_def Let_def go_store_def go_simps go_copy_def
        rb_Available_def list_update_append)
qed

lemma rb_WriteByte_grown:
  assumes "rb_Available rb < 1" "rb_grow mem rb 1 = Ret rb1" "1 \<le> rb_Available rb1"
  shows "rb_WriteByte mem rb c = rb_WriteByte mem rb1 c"
  using assms by (simp add: rb_WriteByte_def)

lemma rb_WriteByte_spec:
  assumes inv: "rb_inv rb" and small: "1 \<le> rb_Available rb \<or> rb_size rb < bufferGrowThreshold"
  shows "\<exists>rb'. rb_WriteByte mem rb c = Ret (rb', None) \<and> rb_inv rb' \<and>
    rb_content rb' = rb_content rb @ [c]"
proof (cases "1 \<le> rb_Available rb")
  case True
  then obtain rb' where "rb_Write mem rb [c] = Ret (rb', 1, None)" "rb_inv rb'"
    "rb_content rb' = rb_content rb @ [c]"
    using rb_Write_room[OF inv, of "[c]" mem] by auto
  with True inv show ?thesis by (simp add: rb_WriteByte_Write)
next
  case False
  let ?d = "rb_content rb"
  have full: "glen ?d = rb_size rb"
    using False inv rb_content_size[OF inv] by (simp add: rb_Available_content)
  obtain cap where cap: "rb_growCap (rb_size rb) 1 = Ret cap" "rb_size rb < cap"
  proof (cases "rb_size rb = 0")
    case True
    then show ?thesis by (intro that[of DefaultBufferSize]) (auto simp: rb_growCap_def DefaultBufferSize_def)
  next
    case nz: False
    then have "0 < rb_size rb" using inv by (auto simp: rb_inv_def)
    with False small show ?thesis
      by (intro that[of "rb_size rb + rb_size rb"]) (auto simp: rb_growCap_def Let_def)
  qed
  let ?rb = "ring_front ?d (drop (length ?d) (bs_bytes mem cap))"
  have z: "drop (length ?d) (bs_bytes mem cap) \<noteq> []" using cap full by auto
  then have inv1: "rb_inv ?rb" by simp
  then have room: "1 \<le> rb_Available ?rb" using z cap full by (simp add: rb_Available_content)
  have "rb_grow mem rb 1 = Ret ?rb" using cap full by (intro rb_grow_to[OF inv]) auto
  then have "rb_WriteByte mem rb c = rb_WriteByte mem ?rb c"
    using False room by (intro rb_WriteByte_grown) auto
  moreover obtain rb' where "rb_Write mem ?rb [c] = Ret (rb', 1, None)" "rb_inv rb'"
    "rb_content rb' = ?d @ [c]"
    using rb_Write_room[OF inv1, of "[c]" mem] room by auto
  ultimately show ?thesis using inv1 room by (simp add: rb_WriteByte_Write)
qed

lemma growLoop_done: "newCap \<le> n \<Longrightarrow> rb_growLoop n newCap = Ret n"
  unfolding rb_growLoop_def by (subst go_loop_unfold) simp

lemma rb_WriteByte_full_panics:
  assumes inv: "rb_inv rb" and full: "rb_IsFull rb" and big: "bufferGrowThreshold \<le> rb_size rb"
  shows "rb_WriteByte mem rb c = Panic IndexOutOfRange"
proof -
  let ?d = "rb_content rb"
  have len: "rb_Available rb = 0" "glen ?d = rb_size rb"
    using inv full rb_Available_content[OF inv] by (auto simp: rb_IsFull_def rb_Available_def)
  have "rb_growCap (rb_size rb) 1 = Ret (rb_size rb)"
    using big by (simp add: rb_growCap_def Let_def growLoop_done bufferGrowThreshold_def)
  then have "rb_grow mem rb 1 = Ret (ring_front ?d (drop (length ?d) (bs_bytes mem (rb_size rb))))"
    using len big by (intro rb_grow_to[OF inv]) (auto simp: bufferGrowThreshold_def)
  moreover have "drop (length ?d) (bs_bytes mem (rb_size rb)) = []" using len by simp
  ultimately show ?thesis using len by (simp add: rb_WriteByte_def go_store_def)
qed

lemma rb_consumed_0: "rb_inv rb \<Longrightarrow> \<not> rb_IsFull rb \<Longrightarrow> rb_content rb \<noteq> [] \<Longrightarrow> rb_consumed rb 0 = rb"
  by (cases rb) (auto simp: rb_consumed_def rb_resetIfDrained_def rb_IsFull_def rb_inv_def rb_content_def)

lemma rb_consumed_upto:
  assumes "rb_inv rb" "rb_content rb \<noteq> []" "0 \<le> n" "n \<le> glen (rb_content rb)"
    "n = 0 \<longrightarrow> \<not> rb_IsFull rb"
  shows "rb_inv (rb_consumed rb n)" "rb_content (rb_consumed rb n) = drop (nat n) (rb_content rb)"
  using assms rb_consumed_spec[of rb n] rb_consumed_0[of rb] by (cases "n = 0"; simp)+

lemma writeTo_result_drained:
  assumes inv: "rb_inv rb" and ne: "rb_content rb \<noteq> []" and n: "0 \<le> n" "n \<le> glen (rb_content rb)"
    and full: "n = 0 \<longrightarrow> \<not> rb_IsFull rb" and acc: "acc s' = acc s @ take (nat n) (rb_content rb)"
  shows "\<exists>res. rb_writeTo_result (rb_consumed rb n) s' n err = Ret res \<and>
    drained_to acc s (rb_content rb) res"
  using rb_consumed_upto[OF inv ne n full] n acc
  by (auto simp: rb_writeTo_result_def drained_to_def rb_isEmpty_content split: option.split)

lemma rb_WriteTo_linear:
  assumes w: "writer_ok wr acc" and "d \<noteq> []" "z \<noteq> []"
  shows "\<exists>res. rb_WriteTo wr s (ring_linear a d z) = Ret res \<and> drained_to acc s d res"
proof -
  let ?rb = "ring_linear a d z"
  obtain s' m err where wr: "wr s d = (s', m, err)" by (cases "wr s d")
  note m = writer_okD[OF w wr]
  have "(glen a + m) mod (glen a + glen d + glen z) = glen a + m"
    using m assms by (cases z) auto
  then have "rb_resetIfDrained (?rb\<lparr>rb_r := glen a + m\<rparr>) = rb_consumed ?rb m"
    by (simp add: rb_consumed_def)
  then have "rb_WriteTo wr s ?rb = rb_writeTo_result (rb_consumed ?rb m) s' m err"
    using m wr assms by (simp add: rb_WriteTo_def Let_def go_simps)
  moreover have "\<not> rb_IsFull ?rb" using assms by (simp add: rb_IsFull_def)
  ultimately show ?thesis
    using writeTo_result_drained[of ?rb m acc s' s err] m assms by simp
qed

lemma rb_WriteTo_wrapped1:
  assumes w: "writer_ok wr acc" and "h \<noteq> []" and g: "g \<noteq> [] \<or> 0 < fst (snd (wr s h))"
  shows "\<exists>res. rb_WriteTo wr s (ring_wrapped [] g h) = Ret res \<and> drained_to acc s h res"
proof -
  let ?rb = "ring_wrapped [] g h"
  obtain s' m err where wr: "wr s h = (s', m, err)" by (cases "wr s h")
  note m = writer_okD[OF w wr]
  have pos: "0 < glen g + glen h" using assms by (cases h) auto
  then have "rb_WriteTo wr s ?rb = rb_writeTo_result (rb_consumed ?rb m) s' m err"
    using m wr assms(2) by (auto simp: rb_WriteTo_def Let_def go_simps rb_consumed_def)
  moreover have "m = 0 \<longrightarrow> \<not> rb_IsFull ?rb" using g wr by (auto simp: rb_IsFull_def)
  ultimately show ?thesis
    using writeTo_result_drained[of ?rb m acc s' s err] m assms(2) by simp
qed

lemma rb_WriteTo_wrapped2:
  assumes w: "writer_ok wr acc" and "h \<noteq> []" "t \<noteq> []"
  shows "\<exists>res. rb_WriteTo wr s (ring_wrapped t g h) = Ret res \<and> drained_to acc s (h @ t) res"
proof -
  let ?rb = "ring_wrapped t g h" and ?sz = "glen t + glen g + glen h"
  obtain s' m err where wr: "wr s h = (s', m, err)" by (cases "wr s h")
  note m = writer_okD[OF w wr]
  have pos: "0 < ?sz" using assms by (cases h) auto
  show ?thesis
  proof (cases "m < glen h")
    case True
    let ?rb' = "?rb\<lparr>rb_r := (glen t + glen g + m) mod ?sz\<rparr>"
    have "rb_inv ?rb' \<and> rb_content ?rb' = drop (nat m) (h @ t)"
    proof (cases "m = 0")
      case False
      with m have m0: "0 < m" by linarith
      have "m < glen (rb_content ?rb)" using True by simp
      from rb_advance(1,2)[OF _ m0 this] assms show ?thesis by simp
    next
      case True
      then have eq: "?rb' = ?rb" using assms by (cases h) (auto simp: ring_wrapped_def)
      show ?thesis unfolding eq using True assms by simp
    qed
    moreover have "rb_WriteTo wr s ?rb = Ret (?rb', s', m, err)"
      using True m wr assms pos
      by (auto simp: rb_WriteTo_def Let_def go_simps split: option.split)
    ultimately show ?thesis using m True by (auto simp: drained_to_def)
  next
    case False
    then have mh: "m = glen h" using m by simp
    show ?thesis
    proof (cases err)
      case (Some e)
      have "rb_WriteTo wr s ?rb = Ret (?rb\<lparr>rb_r := 0\<rparr>, s', m, err)"
        using mh wr assms pos Some by (simp add: rb_WriteTo_def Let_def go_simps)
      moreover have "?rb\<lparr>rb_r := 0\<rparr> = ring_linear [] t (g @ h)"
        by (simp add: ring_linear_def ring_wrapped_def)
      ultimately show ?thesis using m mh assms Some by (simp add: drained_to_def)
    next
      case None
      obtain s2 m2 err2 where wr2: "wr s' t = (s2, m2, err2)" by (cases "wr s' t")
      note m2 = writer_okD[OF w wr2]
      have "(glen t + glen g + (glen h + m2)) mod ?sz = m2"
        using m2 glen_pos[OF assms(2)] by (intro int_wrap_mod) (simp, linarith+)
      then have eq: "rb_resetIfDrained (?rb\<lparr>rb_r := m2\<rparr>) = rb_consumed ?rb (glen h + m2)"
        by (simp add: rb_consumed_def)
      have "rb_WriteTo wr s ?rb =
          rb_writeTo_result (rb_resetIfDrained (?rb\<lparr>rb_r := m2\<rparr>)) s2 (glen h + m2) err2"
        using m2 mh wr wr2 assms pos None
        by (simp add: rb_WriteTo_def Let_def go_simps)
      then have "rb_WriteTo wr s ?rb = rb_writeTo_result (rb_consumed ?rb (glen h + m2)) s2 (glen h + m2) err2"
        by (simp only: eq)
      moreover have "acc s2 = acc s @ take (nat (glen h + m2)) (h @ t)"
        using m m2 mh by (simp add: nat_add_distrib)
      moreover have "glen h + m2 \<noteq> 0" using m2 assms by (cases h) auto
      ultimately show ?thesis
        using writeTo_result_drained[of ?rb "glen h + m2" acc s2 s err2] m2 assms by simp
    qed
  qed
qed

lemma rb_WriteTo_spec:
  assumes w: "writer_ok wr acc" and inv: "rb_inv rb" and ne: "rb_content rb \<noteq> []"
    and front: "rb_IsFull rb \<and> rb_r rb = 0 \<longrightarrow> 0 < fst (snd (wr s (rb_content rb)))"
  shows "\<exists>res. rb_WriteTo wr s rb = Ret res \<and> drained_to acc s (rb_content rb) res"
  using inv
proof (cases rule: ring_cases)
  case (Empty a z)
  then show ?thesis using ne by simp
next
  case (Linear a d z)
  then show ?thesis using rb_WriteTo_linear[OF w] by simp
next
  case (Wrapped t g h)
  show ?thesis
  proof (cases "t = []")
    case True
    then show ?thesis
      using rb_WriteTo_wrapped1[OF w Wrapped(2), of g s] front Wrapped by (auto simp: rb_IsFull_def)
  next
    case False
    then show ?thesis using rb_WriteTo_wrapped2[OF w Wrapped(2)] Wrapped by simp
  qed
qed

lemma rb_WriteTo_full_loses:
  assumes inv: "rb_inv rb" and full: "rb_IsFull rb" "rb_r rb = 0"
    and wr: "wr s (rb_content rb) = (s', 0, Some e)"
  shows "rb_WriteTo wr s rb = Ret (rb_Reset rb, s', 0, Some e)"
  using inv
proof (cases rule: ring_cases)
  case (Wrapped t g h)
  with full wr show ?thesis
    by (cases h) (auto simp: rb_WriteTo_def Let_def go_simps rb_IsFull_def rb_resetIfDrained_def
        rb_writeTo_result_def rb_Reset_def)
qed (use full in \<open>auto simp: rb_IsFull_def\<close>)

lemma kread_okD:
  assumes "kread_ok kr" "kr len = (n, data, err)" "0 \<le> len"
  shows "(n < 0 \<and> data = []) \<or> (n = glen data \<and> n \<le> len)"
  using assms unfolding kread_ok_def by (metis (mono_tags, lifting) case_prod_conv max.absorb2)

lemma rb_CopyFromSocket_linear:
  assumes ok: "kread_ok kr" and kr: "kr (glen z + glen a) = (n, data, err)" and "d \<noteq> []" "z \<noteq> []"
  shows "\<exists>rb'. rb_CopyFromSocket mem kr (ring_linear a d z) = Ret (rb', n, err) \<and>
    received (ring_linear a d z) data rb'"
proof -
  let ?rb = "ring_linear a d z"
  consider (none) "data = []" "\<not> n > 0" | (short) "n = glen data" "data \<noteq> []" "length data < length z"
    | (round) "n = glen data" "data \<noteq> []" "length z \<le> length data" "length data \<le> length z + length a"
    using kread_okD[OF ok kr] by fastforce
  then show ?thesis
  proof cases
    case none
    then have "rb_CopyFromSocket mem kr ?rb = Ret (?rb, n, err)"
      using kr assms by (simp add: rb_CopyFromSocket_def Let_def go_simps)
    with none assms show ?thesis by (simp add: received_def)
  next
    case short
    then have "rb_CopyFromSocket mem kr ?rb = Ret (ring_linear a (d @ data) (drop (length data) z), n, err)"
      using kr assms
      by (simp add: rb_CopyFromSocket_def Let_def go_simps go_copy_fits ring_linear_def)
    with short assms show ?thesis by (simp add: received_def)
  next
    case round
    have "go_mod (glen a + glen d + n) (glen a + glen d + glen z) = Ret (n - glen z)"
      using round glen_pos[OF assms(3)] by (intro go_mod_wrap) (simp, linarith+)
    then have "rb_CopyFromSocket mem kr ?rb =
        Ret (ring_wrapped (drop (length z) data) (drop (length data - length z) a) (d @ take (length z) data), n, err)"
      using round kr assms
      by (simp add: rb_CopyFromSocket_def Let_def go_simps go_copy_def ring_linear_def ring_wrapped_def)
    with round assms show ?thesis by (simp add: received_def)
  qed
qed

lemma rb_CopyFromSocket_gap:
  assumes ok: "kread_ok kr" and kr: "kr (glen g) = (n, data, err)" and "g \<noteq> []" "h \<noteq> []"
  shows "\<exists>rb'. rb_CopyFromSocket mem kr (ring_wrapped t g h) = Ret (rb', n, err) \<and>
    received (ring_wrapped t g h) data rb'"
proof -
  let ?rb = "ring_wrapped t g h"
  consider (none) "data = []" "\<not> n > 0" | (some) "n = glen data" "data \<noteq> []" "length data \<le> length g"
    using kread_okD[OF ok kr] by fastforce
  then show ?thesis
  proof cases
    case none
    then have "rb_CopyFromSocket mem kr ?rb = Ret (?rb, n, err)"
      using kr assms by (simp add: rb_CopyFromSocket_def Let_def go_simps)
    with none assms show ?thesis by (simp add: received_def)
  next
    case some
    have "go_mod (glen t + n) (glen t + glen g + glen h) = Ret (glen t + n)"
      using some glen_pos[OF assms(4)] by (intro go_mod_small) linarith+
    then have "rb_CopyFromSocket mem kr ?rb = Ret (ring_wrapped (t @ data) (drop (length data) g) h, n, err)"
      using some kr assms
      by (simp add: rb_CopyFromSocket_def Let_def go_simps go_copy_fits ring_wrapped_def)
    with some assms show ?thesis by (simp add: received_def)
  qed
qed

lemma growCap_half:
  assumes "0 < sz"
  shows "\<exists>c. rb_growCap sz (sz + sz div 2) = Ret c \<and> sz < c"
proof (cases "sz = 1")
  case False
  with assms have "sz < sz + sz div 2" by simp
  with assms growCap_spec[of sz "sz + sz div 2"] show ?thesis by force
qed (simp add: rb_growCap_def bufferGrowThreshold_def)

lemma rb_CopyFromSocket_full:
  assumes ok: "kread_ok kr" and inv: "rb_inv rb" and full: "rb_IsFull rb"
  shows "\<exists>len rb' n data err. 0 < len \<and> kr len = (n, data, err) \<and>
    rb_CopyFromSocket mem kr rb = Ret (rb', n, err) \<and> received rb data rb'"
proof -
  let ?d = "rb_content rb"
  have d: "glen ?d = rb_size rb" "?d \<noteq> []"
    using inv full rb_Available_content[OF inv] rb_isEmpty_content[OF inv]
    by (auto simp: rb_IsFull_def rb_Available_def)
  then obtain c where c: "rb_growCap (rb_size rb) (rb_size rb + rb_size rb div 2) = Ret c" "rb_size rb < c"
    using growCap_half[of "rb_size rb"] glen_pos[of ?d] by auto
  define z where "z = drop (length ?d) (bs_bytes mem c)"
  have grow: "rb_grow mem rb (rb_size rb + rb_size rb div 2) = Ret (ring_front ?d z)"
    unfolding z_def using d c by (intro rb_grow_to[OF inv]) auto
  have z: "z \<noteq> []" using d c by (auto simp: z_def)
  obtain n data err where kr: "kr (glen z) = (n, data, err)" by (cases "kr (glen z)")
  consider (none) "data = []" "\<not> n > 0" | (short) "n = glen data" "data \<noteq> []" "length data < length z"
    | (fill) "n = glen data" "data \<noteq> []" "length data = length z"
    using kread_okD[OF ok kr] by fastforce
  then have "\<exists>rb'. rb_CopyFromSocket mem kr rb = Ret (rb', n, err) \<and> received rb data rb'"
  proof cases
    case none
    then have "rb_CopyFromSocket mem kr rb = Ret (ring_front ?d z, n, err)"
      using full kr by (simp add: rb_CopyFromSocket_def rb_IsFull_def grow go_simps)
    with none z show ?thesis by (simp add: received_def)
  next
    case short
    have "go_mod (glen ?d + n) (glen ?d + glen z) = Ret (glen ?d + n)"
      using short by (intro go_mod_small) auto
    then have "rb_CopyFromSocket mem kr rb = Ret (ring_linear [] (?d @ data) (drop (length data) z), n, err)"
      using short full kr d
      by (simp add: rb_CopyFromSocket_def rb_IsFull_def grow go_simps go_copy_fits ring_front_def ring_linear_def)
    with short z show ?thesis by (simp add: received_def)
  next
    case fill
    have "go_mod (glen ?d + n) (glen ?d + glen z) = Ret 0"
      using fill glen_pos[OF z] by (intro go_mod_wrap) (simp, simp, linarith)
    then have "rb_CopyFromSocket mem kr rb = Ret (ring_wrapped [] [] (?d @ data), n, err)"
      using fill full kr d z
      by (simp add: rb_CopyFromSocket_def rb_IsFull_def grow go_simps go_copy_fits ring_front_def
          ring_linear_def ring_wrapped_def)
    with fill z show ?thesis by (simp add: received_def)
  qed
  with kr glen_pos[OF z] show ?thesis by blast
qed

lemma rb_CopyFromSocket_empty:
  assumes ok: "kread_ok kr" and kr: "kr (rb_size rb) = (n, data, err)" and inv: "rb_inv rb"
    and e: "rb_content rb = []"
  shows "\<exists>rb'. rb_CopyFromSocket mem kr rb = Ret (rb', n, err) \<and> received rb data rb'"
proof -
  have rb: "rb_isEmpty rb" "rb_r rb = rb_w rb" "rb_size rb = glen (rb_buf rb)"
    using inv e by (auto simp: rb_inv_def rb_isEmpty_content[OF inv])
  consider (none) "data = []" "\<not> n > 0"
    | (short) "n = glen data" "data \<noteq> []" "length data < length (rb_buf rb)"
    | (fill) "n = glen data" "data \<noteq> []" "length data = length (rb_buf rb)"
    using kread_okD[OF ok kr] rb by fastforce
  then show ?thesis
  proof cases
    case none
    then have "rb_CopyFromSocket mem kr rb = Ret (rb_Reset rb, n, err)"
      using kr rb by (simp add: rb_CopyFromSocket_def Let_def rb_Reset_def)
    with none inv e show ?thesis by (simp add: received_def)
  next
    case short
    then have "go_mod n (glen (rb_buf rb)) = Ret n" by (intro go_mod_small) auto
    with short have "rb_CopyFromSocket mem kr rb = Ret (ring_linear [] data (drop (length data) (rb_buf rb)), n, err)"
      using kr rb by (cases rb) (auto simp: rb_CopyFromSocket_def Let_def go_simps go_copy_fits ring_linear_def)
    with short e show ?thesis by (simp add: received_def)
  next
    case fill
    then have "go_mod n (glen (rb_buf rb)) = Ret 0" using glen_pos[of data] by (intro go_mod_wrap) auto
    with fill have "rb_CopyFromSocket mem kr rb = Ret (ring_wrapped [] [] data, n, err)"
      using kr rb by (cases rb) (auto simp: rb_CopyFromSocket_def Let_def go_simps go_copy_fits ring_wrapped_def)
    with fill e show ?thesis by (simp add: received_def)
  qed
qed

lemma rb_CopyFromSocket_spec:
  assumes ok: "kread_ok kr" and inv: "rb_inv rb"
  shows "\<exists>len rb' n data err. (0 < rb_size rb \<longrightarrow> 0 < len) \<and> kr len = (n, data, err) \<and>
    rb_CopyFromSocket mem kr rb = Ret (rb', n, err) \<and> received rb data rb'"
proof (cases "rb_content rb = []")
  case True
  obtain n data err where kr: "kr (rb_size rb) = (n, data, err)" by (cases "kr (rb_size rb)")
  from rb_CopyFromSocket_empty[OF ok kr inv True] kr show ?thesis by blast
next
  case ne: False
  show ?thesis
  proof (cases "rb_IsFull rb")
    case True
    with rb_CopyFromSocket_full[OF ok inv, of mem] show ?thesis by blast
  next
    case False
    from inv show ?thesis
    proof (cases rule: ring_cases)
      case (Empty a z)
      with ne show ?thesis by simp
    next
      case (Linear a d z)
      obtain n data err where kr: "kr (glen z + glen a) = (n, data, err)" by (cases "kr (glen z + glen a)")
      have "0 < glen z + glen a" using glen_pos[OF Linear(3)] by linarith
      with rb_CopyFromSocket_linear[OF ok kr Linear(2,3)] kr Linear show ?thesis by blast
    next
      case (Wrapped t g h)
      then have g: "g \<noteq> []" using False by (auto simp: rb_IsFull_def)
      obtain n data err where kr: "kr (glen g) = (n, data, err)" by (cases "kr (glen g)")
      from rb_CopyFromSocket_gap[OF ok kr g Wrapped(2)] kr Wrapped glen_pos[OF g] show ?thesis by blast
    qed
  qed
qed

text \<open>\<open>Rewind\<close> keeps the content unless the data wraps round the end.\<close>

lemma rb_Rewind_front:
  assumes "h \<noteq> []"
  shows "\<exists>rb' n. rb_Rewind mem (ring_wrapped [] g h) = Ret (rb', n) \<and> rb_inv rb' \<and> rb_content rb' = h"
proof (cases "length g < length h")
  case True
  let ?rb = "ring_wrapped [] g h"
  have inv: "rb_inv ?rb" using assms by simp
  have "rb_size ?rb < rb_size ?rb + rb_size ?rb - rb_r ?rb" "0 < rb_size ?rb"
    using glen_pos[OF assms] by (simp_all, linarith)
  with rb_grow_spec[OF inv, of "rb_size ?rb + rb_size ?rb - rb_r ?rb" mem] obtain z where
    "rb_grow mem ?rb (rb_size ?rb + rb_size ?rb - rb_r ?rb) = Ret (ring_front h z)" "z \<noteq> []" by auto
  with True assms show ?thesis by (simp add: rb_Rewind_def rb_IsEmpty_def)
next
  case False
  then have "rb_Rewind mem (ring_wrapped [] g h) = Ret (ring_linear [] h (drop (length h) (g @ h)), glen h)"
    using assms
    by (simp add: rb_Rewind_def rb_IsEmpty_def go_simps go_copy_fits go_copied_def Let_def
        ring_wrapped_def ring_linear_def)
  with False assms show ?thesis by auto
qed

lemma rb_Rewind_linear:
  assumes "d \<noteq> []" "z \<noteq> []"
  shows "\<exists>rb' n. rb_Rewind mem (ring_linear a d z) = Ret (rb', n) \<and> rb_inv rb' \<and> rb_content rb' = d"
proof (cases "glen z < DefaultBufferSize")
  case False
  have "glen a + glen d \<noteq> 0" using glen_pos[OF assms(1)] by linarith
  with False assms show ?thesis by (simp add: rb_Rewind_def rb_IsEmpty_def)
next
  case near: True
  let ?rb = "ring_linear a d z"
  show ?thesis
  proof (cases "length a < length d")
    case True
    have inv: "rb_inv ?rb" using assms by simp
    have "rb_size ?rb < rb_size ?rb + rb_w ?rb - rb_r ?rb" "0 < rb_size ?rb"
      using glen_pos[OF assms(1)] by (simp_all, linarith)
    with rb_grow_spec[OF inv, of "rb_size ?rb + rb_w ?rb - rb_r ?rb" mem] assms obtain z' where
      "rb_grow mem ?rb (rb_size ?rb + rb_w ?rb - rb_r ?rb) = Ret (ring_front d z')" "z' \<noteq> []" by auto
    with True near assms show ?thesis by (auto simp: rb_Rewind_def rb_IsEmpty_def)
  next
    case False
    moreover have "glen a + glen d \<noteq> 0" using glen_pos[OF assms(1)] by linarith
    ultimately have "rb_Rewind mem ?rb = Ret (ring_linear [] d (drop (length d) (a @ d @ z)), glen d)"
      using assms near
      by (auto simp: rb_Rewind_def rb_IsEmpty_def go_simps go_copy_fits go_copied_def Let_def
          ring_linear_def)
    with False assms show ?thesis by auto
  qed
qed

lemma rb_Rewind_spec:
  assumes inv: "rb_inv rb" and nowrap: "rb_isEmpty rb \<or> rb_r rb < rb_w rb \<or> rb_w rb = 0"
  shows "\<exists>rb' n. rb_Rewind mem rb = Ret (rb', n) \<and> rb_inv rb' \<and> rb_content rb' = rb_content rb"
  using inv
proof (cases rule: ring_cases)
  case (Empty a z)
  with inv show ?thesis by (simp add: rb_Rewind_def rb_IsEmpty_def)
next
  case (Linear a d z)
  with rb_Rewind_linear[of d z mem a] show ?thesis by simp
next
  case (Wrapped t g h)
  with nowrap have "t = []" by auto
  with Wrapped rb_Rewind_front[of h mem g] show ?thesis by simp
qed

lemma rb_Rewind_wrapped_panics:
  assumes inv: "rb_inv rb" and wrap: "0 < rb_w rb" "rb_w rb < rb_r rb"
    and near: "rb_size rb - rb_w rb < DefaultBufferSize"
  shows "rb_Rewind mem rb = Panic SliceOutOfRange"
proof -
  have "\<not> rb_isEmpty rb" "\<not> rb_r rb < rb_w rb - rb_r rb" using inv wrap by (auto simp: rb_inv_def)
  with wrap near show ?thesis by (simp add: rb_Rewind_def rb_IsEmpty_def go_slice_def)
qed

lemma ring_at_front:
  assumes "rb_inv rb" "rb_r rb = 0" "0 < rb_Available rb"
  obtains z where "rb = ring_front (rb_content rb) z" "z \<noteq> []"
proof -
  have "\<exists>z. rb = ring_front (rb_content rb) z \<and> z \<noteq> []"
    using assms(1)
  proof (cases rule: ring_cases)
    case (Wrapped t g h)
    with assms show ?thesis by (auto simp: rb_Available_content)
  qed (use assms in \<open>auto simp: ring_front_def rb_Available_content\<close>)
  then show ?thesis using that by blast
qed

lemma ring_filled_sel:
  assumes "d @ x \<noteq> []" "length x \<le> length z" "z \<noteq> []"
  shows "rb_inv (ring_filled d x z)" "rb_content (ring_filled d x z) = d @ x" "rb_r (ring_filled d x z) = 0"
    "rb_buf (ring_filled d x z) = d @ x @ drop (length x) z" "rb_isEmpty (ring_filled d x z) = False"
    "rb_size (ring_filled d x z) = glen d + glen z" "0 \<le> rb_w (ring_filled d x z)"
    "rb_w (ring_filled d x z) < glen d + glen z"
  using assms glen_pos[OF assms(1)] by (auto simp: ring_filled_def)

lemma ring_front_fields: "ring_front d z = \<lparr>rb_buf = d @ z, rb_size = glen d + glen z, rb_r = 0,
    rb_w = glen d, rb_isEmpty = (d = [])\<rparr>"
  by (simp add: ring_front_def ring_shapes)

lemma first_read:
  assumes ok: "reader_ok rd rem" and rd: "rd s (glen z) = (s', x, m, err)" and ne: "d \<noteq> [] \<or> rem s \<noteq> []"
    and z: "z \<noteq> []"
  shows "go_bind (rb_readInto rd s (ring_front d z) (glen d) (glen d + glen z)) (\<lambda>(s, rb, m, err).
      rb_readAdvance (rb\<lparr>rb_isEmpty := False\<rparr>) s n m err) =
    Ret (if err = None then Inl (ring_filled d x z, s', n + m) else Inr (ring_filled d x z, s', n + m, None))"
    and "d @ x \<noteq> []" "length x \<le> length z"
proof -
  note r = reader_okD[OF ok rd, simplified]
  show "length x \<le> length z" using r(1,2) by simp
  show dx: "d @ x \<noteq> []" using r z ne by auto
  show "go_bind (rb_readInto rd s (ring_front d z) (glen d) (glen d + glen z)) (\<lambda>(s, rb, m, err).
      rb_readAdvance (rb\<lparr>rb_isEmpty := False\<rparr>) s n m err) =
    Ret (if err = None then Inl (ring_filled d x z, s', n + m) else Inr (ring_filled d x z, s', n + m, None))"
  proof (cases "length x < length z")
    case True
    then have "go_mod (glen d + m) (glen d + glen z) = Ret (glen d + m)"
      using r(1) by (intro go_mod_small) auto
    with True r rd show ?thesis
      by (auto simp: rb_readInto_def rb_readAdvance_def go_slice_Ret go_copy_at_Ret go_copy_fits
          ring_filled_def ring_front_fields ring_linear_def Let_def)
  next
    case False
    with r(1,2) have "length x = length z" by simp
    moreover have "go_mod (glen d + m) (glen d + glen z) = Ret 0"
      using False r(1,2) glen_pos[OF z] by (intro go_mod_wrap) (simp, simp, linarith)
    ultimately show ?thesis using r rd
      by (auto simp: rb_readInto_def rb_readAdvance_def go_slice_Ret go_copy_at_Ret go_copy_fits
          ring_filled_def ring_front_fields ring_wrapped_def Let_def)
  qed
qed

lemma second_read:
  assumes ok: "reader_ok rd rem" and ne: "d @ x \<noteq> []" "length x \<le> length z" "z \<noteq> []"
  shows "\<exists>s' err. rem s' = rem s \<and> (err = None \<or> err = Some EOF \<and> rem s' = []) \<and>
    go_bind (rb_readInto rd s (ring_filled d x z) 0 0) (\<lambda>(s, rb, m, err). rb_readAdvance rb s n m err) =
    Ret (if err = None then Inl (ring_filled d x z, s', n) else Inr (ring_filled d x z, s', n, None))"
proof -
  obtain s' y m err where rd: "rd s 0 = (s', y, m, err)" by (cases "rd s 0")
  note r = reader_okD[OF ok rd, simplified]
  note f = ring_filled_sel[OF ne]
  have "go_mod (rb_w (ring_filled d x z)) (glen d + glen z) = Ret (rb_w (ring_filled d x z))"
    using f by (intro go_mod_small) auto
  then have "go_bind (rb_readInto rd s (ring_filled d x z) 0 0) (\<lambda>(s, rb, m, err). rb_readAdvance rb s n m err) =
    Ret (if err = None then Inl (ring_filled d x z, s', n) else Inr (ring_filled d x z, s', n, None))"
    using r rd by (auto simp: rb_readInto_def rb_readAdvance_def go_slice_Ret go_copy_at_Ret f(6) Let_def)
  with r show ?thesis by auto
qed

lemma read_prepared:
  assumes "rb_inv rb" "rb_r rb = 0"
  shows "\<exists>z. z \<noteq> [] \<and>
    (if rb_Available rb < MinRead then rb_grow mem rb (rb_Buffered rb + MinRead) else Ret rb) =
    Ret (ring_front (rb_content rb) z)"
proof (cases "rb_Available rb < MinRead")
  case True
  have "rb_size rb < rb_Buffered rb + MinRead"
    using True assms by (simp add: rb_Available_content rb_Buffered_content)
  moreover have "rb_Buffered rb + MinRead \<le> 2 ^ 62 \<or> 0 < rb_size rb"
    using rb_content_size[OF assms(1)] assms(1) by (auto simp: rb_Buffered_content MinRead_def rb_inv_def)
  ultimately show ?thesis using rb_grow_spec[OF assms(1), of "rb_Buffered rb + MinRead" mem] True by auto
next
  case False
  then show ?thesis using ring_at_front[OF assms] by (metis MinRead_def less_le_trans not_less zero_less_numeral)
qed

lemma readFromBody_front:
  assumes "(if rb_Available rb < MinRead then rb_grow mem rb (rb_Buffered rb + MinRead) else Ret rb) =
      Ret (ring_front d z)"
  shows "rb_readFromBody mem rd (rb, s, n) =
    go_bind (go_bind (rb_readInto rd s (ring_front d z) (glen d) (glen d + glen z)) (\<lambda>(s, rb, m, err).
        rb_readAdvance (rb\<lparr>rb_isEmpty := False\<rparr>) s n m err))
      (\<lambda>x. case x of Inr res \<Rightarrow> Ret (Inr res)
         | Inl (rb, s, n) \<Rightarrow> go_bind (rb_readInto rd s rb 0 (rb_r rb)) (\<lambda>(s, rb, m, err). rb_readAdvance rb s n m err))"
proof -
  have "rb_readFromBody mem rd (rb, s, n) =
    go_bind (rb_readInto rd s (ring_front d z) (glen d) (glen d + glen z)) (\<lambda>(s, rb, m, err).
      go_bind (rb_readAdvance (rb\<lparr>rb_isEmpty := False\<rparr>) s n m err) (\<lambda>x.
        case x of Inr res \<Rightarrow> Ret (Inr res)
        | Inl (rb, s, n) \<Rightarrow> go_bind (rb_readInto rd s rb 0 (rb_r rb)) (\<lambda>(s, rb, m, err). rb_readAdvance rb s n m err)))"
    unfolding rb_readFromBody_def prod.case assms go_bind.simps by simp
  then show ?thesis
    by (simp only: go_bind_assoc) (auto intro!: arg_cong[where f = "go_bind _"])
qed

lemma read_step:
  assumes ok: "reader_ok rd rem" and I: "read_inv rem c src (rb, s, n)"
  shows "(\<exists>rb' s' n'. rb_readFromBody mem rd (rb, s, n) = Ret (Inl (rb', s', n')) \<and>
            read_inv rem c src (rb', s', n') \<and> length (rem s') < length (rem s)) \<or>
    (\<exists>rb' s'. rb_readFromBody mem rd (rb, s, n) = Ret (Inr (rb', s', glen src, None)) \<and>
       rem s' = [] \<and> rb_inv rb' \<and> rb_content rb' = c @ src)"
proof -
  let ?d = "rb_content rb"
  from I obtain xs where inv: "rb_inv rb" "rb_r rb = 0" and ne: "?d \<noteq> [] \<or> rem s \<noteq> []"
    and xs: "src = xs @ rem s" "?d = c @ xs" "n = glen xs" by (auto simp: read_inv_def)
  obtain z where z: "z \<noteq> []" and
    prep: "(if rb_Available rb < MinRead then rb_grow mem rb (rb_Buffered rb + MinRead) else Ret rb) =
      Ret (ring_front ?d z)" using read_prepared[OF inv] by blast
  obtain s1 x m err where rd: "rd s (glen z) = (s1, x, m, err)" by (cases "rd s (glen z)")
  note r = reader_okD[OF ok rd, simplified]
  note fr = first_read(1)[OF ok rd ne z, where n = n] first_read(2,3)[OF ok rd ne z]
  let ?f = "ring_filled ?d x z"
  note f = ring_filled_sel[OF fr(2,3) z]
  obtain s2 err2 where s2: "rem s2 = rem s1" "err2 = None \<or> err2 = Some EOF \<and> rem s2 = []" and
    sr: "go_bind (rb_readInto rd s1 ?f 0 0) (\<lambda>(s, rb, m', err). rb_readAdvance rb s (n + m) m' err) =
      Ret (if err2 = None then Inl (?f, s2, n + m) else Inr (?f, s2, n + m, None))"
    using second_read[OF ok fr(2,3) z, of s1 "n + m"] by blast
  have body: "rb_readFromBody mem rd (rb, s, n) =
      Ret (if err \<noteq> None then Inr (?f, s1, n + m, None)
           else if err2 = None then Inl (?f, s2, n + m) else Inr (?f, s2, n + m, None))"
    unfolding readFromBody_front[OF prep] fr(1) using sr by (simp add: f(3))
  show ?thesis
  proof (cases "err = None \<and> err2 = None")
    case True
    then have "x \<noteq> []" using r z by auto
    then have "read_inv rem c src (?f, s2, n + m) \<and> length (rem s2) < length (rem s)"
      using r f xs s2 by (auto simp: read_inv_def)
    with body True show ?thesis by simp
  next
    case False
    then have "rem s1 = []" "n + m = glen src" "?d @ x = c @ src" using r s2 xs by auto
    with body False f s2 show ?thesis by (auto split: if_splits)
  qed
qed

lemma rb_ReadFrom_spec:
  assumes ok: "reader_ok rd rem" and inv: "rb_inv rb" "rb_r rb = 0"
    and ne: "rb_content rb \<noteq> [] \<or> rem s \<noteq> []"
  shows "\<exists>rb' s'. rb_ReadFrom mem rd s rb = Ret (rb', s', glen (rem s), None) \<and> rem s' = [] \<and>
    rb_inv rb' \<and> rb_content rb' = rb_content rb @ rem s"
proof -
  let ?I = "read_inv rem (rb_content rb) (rem s)"
  let ?Q = "\<lambda>(rb', s', n, e). n = glen (rem s) \<and> e = None \<and> rem s' = [] \<and> rb_inv rb' \<and>
    rb_content rb' = rb_content rb @ rem s"
  have "?I (rb, s, 0)" using inv ne by (simp add: read_inv_def)
  then have "\<exists>r. go_loop (rb_readFromBody mem rd) (rb, s, 0) = Ret r \<and> ?Q r"
  proof (rule go_loop_total[where m = "\<lambda>(rb, s, n). length (rem s)"], goal_cases)
    case (1 st)
    then show ?case
      using read_step[OF ok, of "rb_content rb" "rem s" "fst st" "fst (snd st)" "snd (snd st)" mem]
      by (cases st) fastforce
  qed
  then show ?thesis by (auto simp: rb_ReadFrom_def)
qed

text \<open>Outside those conditions the ring breaks.\<close>

lemma rb_ReadFrom_at_EOF:
  assumes "rb_inv rb" "rb_content rb = []" "rb_r rb = 0" "\<And>len. rd s len = (s', [], 0, Some EOF)"
  shows "\<exists>rb'. rb_ReadFrom mem rd s rb = Ret (rb', s', 0, None) \<and> rb_IsFull rb'"
proof -
  obtain z where z: "z \<noteq> []" and
    prep: "(if rb_Available rb < MinRead then rb_grow mem rb (rb_Buffered rb + MinRead) else Ret rb) =
      Ret (ring_front [] z)" using read_prepared[OF assms(1,3), of mem] assms(2) by auto
  have "rb_readFromBody mem rd (rb, s, 0) = Ret (Inr (ring_front [] z \<lparr>rb_isEmpty := False\<rparr>, s', 0, None))"
    unfolding readFromBody_front[OF prep] using z assms(4)
    by (simp add: rb_readInto_def rb_readAdvance_def go_slice_Ret go_copy_at_Ret go_mod_small Let_def
        ring_front_fields)
  then show ?thesis
    unfolding rb_ReadFrom_def by (subst go_loop_unfold) (simp add: rb_IsFull_def)
qed

lemma rb_New_to:
  assumes "n \<noteq> 0" "ceil_pow2 n = Ret c" "0 < c"
  shows "rb_New n = Ret (ring_empty [] (replicate (nat c) 0))"
  using assms by (simp add: rb_New_def ring_empty_def)

lemma rb_New_spec:
  assumes "0 \<le> n" "n \<le> 2 ^ 62"
  shows "\<exists>rb. rb_New n = Ret rb \<and> rb_inv rb \<and> rb_content rb = [] \<and> n \<le> rb_Cap rb"
proof -
  consider (zero) "n = 0" | (tiny) "0 < n" "n \<le> 2" | (big) "2 < n" using assms by linarith
  then show ?thesis
  proof cases
    case zero
    then show ?thesis by (simp add: rb_New_def rb_inv_def rb_content_def rb_Cap_def)
  next
    case tiny
    with rb_New_to[of n 2] show ?thesis by (simp add: ceil_pow2_small rb_Cap_def)
  next
    case big
    obtain k where k: "ceil_pow2 n = Ret (2 ^ Suc k)" "n \<le> 2 ^ Suc k"
      using ceil_pow2_least[OF big assms(2)] by blast
    show ?thesis using rb_New_to[OF _ k(1)] big k(2) by (auto simp: rb_Cap_def)
  qed
qed

lemma two_chunks_round1:
  assumes "600 \<le> length z"
  shows "rb_readFromBody mem two_chunks (ring_linear [a, b] [5] (x # y # z), 0, 0) =
    Ret (Inl (ring_linear [8, b] [5, 7, y] z, 2, 2))"
proof -
  have "go_mod 4 (5 + glen z) = Ret 4" "go_mod 5 (5 + glen z) = Ret 5"
    using assms by (intro go_mod_small; linarith)+
  with assms show ?thesis
    by (simp add: rb_readFromBody_def rb_readInto_def rb_readAdvance_def go_slice_Ret go_copy_at_Ret
        go_copy_def two_chunks_def rb_Available_def MinRead_def Let_def ring_linear_def nat_add_distrib)
qed

lemma two_chunks_round2:
  assumes "600 \<le> length z"
  shows "rb_readFromBody mem two_chunks (ring_linear [8, b] [5, 7, y] z, 2, 2) =
    Ret (Inr (ring_linear [8, b] [5, 7, y] z, 2, 2, None))"
proof -
  have "go_mod 5 (5 + glen z) = Ret 5" using assms by (intro go_mod_small; linarith)
  moreover have "z \<noteq> []" using assms by auto
  ultimately show ?thesis using assms
    by (simp add: rb_readFromBody_def rb_readInto_def rb_readAdvance_def go_slice_Ret go_copy_at_Ret
        two_chunks_def rb_Available_def MinRead_def Let_def ring_linear_def nat_add_distrib)
qed

lemma two_chunks_misplaced:
  assumes "600 \<le> length z"
  shows "rb_ReadFrom mem two_chunks 0 (ring_linear [a, b] [5] (x # y # z)) =
    Ret (ring_linear [8, b] [5, 7, y] z, 2, 2, None)"
  unfolding rb_ReadFrom_def using two_chunks_round1[OF assms] two_chunks_round2[OF assms]
  by (subst go_loop_unfold, simp) (subst go_loop_unfold, simp)

section \<open>The ring is a byte queue\<close>

lemma go_copy_take: "go_copy p (take (length p) xs) = go_copy p xs"
  by (cases "length p \<le> length xs") (simp_all add: go_copy_def)

lemma rb_Read_rep:
  assumes "rb_rep rb xs"
  shows "\<exists>rb' e. rb_Read rb p = Ret (rb', go_copy p xs, min (glen p) (glen xs), e) \<and>
    rb_rep rb' (drop (length p) xs) \<and> (xs \<noteq> [] \<and> p \<noteq> [] \<longrightarrow> e = None)"
proof (cases "p = [] \<or> xs = []")
  case True
  then show ?thesis using assms rb_Read_none rb_Read_empty[of rb p] by (auto simp: rb_rep_def)
next
  case False
  let ?n = "min (glen p) (glen xs)"
  have inv: "rb_inv rb" "rb_content rb = xs" using assms by (auto simp: rb_rep_def)
  have "0 < ?n" using False by simp
  then have "rb_rep (rb_consumed rb ?n) (drop (length p) xs)"
    using rb_consumed_spec[OF inv(1), of ?n] inv(2) by (auto simp: rb_rep_def min_def)
  moreover have "rb_Read rb p = Ret (rb_consumed rb ?n, go_copy p xs, ?n, None)"
    using rb_Read_spec[OF inv(1), of p] False inv(2) by (simp add: go_copy_take)
  ultimately show ?thesis by blast
qed

lemma rb_peeks_rep:
  assumes "rb_rep rb xs"
  shows "\<exists>ys k. rb_peeks rb n = Ret ys \<and> concat ys = take k xs \<and> k \<le> length xs \<and>
    min (if n \<le> 0 then MaxInt32 else n) (glen xs) \<le> int k \<and> (xs \<noteq> [] \<longrightarrow> ys \<noteq> [] \<and> hd ys \<noteq> [])"
proof -
  let ?k = "if n \<le> 0 then length xs else min (nat n) (length xs)"
  obtain h t where "rb_Peek rb n = Ret (h, t)" "h @ t = (if n \<le> 0 then xs else take (nat n) xs)"
    "xs \<noteq> [] \<longrightarrow> h \<noteq> []" using rb_Peek_content[of rb n] assms by (auto simp: rb_rep_def)
  then have "rb_peeks rb n = Ret [h, t]" "concat [h, t] = take ?k xs" "?k \<le> length xs"
    "min (if n \<le> 0 then MaxInt32 else n) (glen xs) \<le> int ?k" "xs \<noteq> [] \<longrightarrow> hd [h, t] \<noteq> []"
    by (auto simp: rb_peeks_def min_def)
  then show ?thesis by blast
qed

lemma rb_Write_rep: "rb_rep rb xs \<Longrightarrow> glen xs + glen p \<le> 2 ^ 62 \<Longrightarrow>
    \<exists>rb'. rb_Write mem rb p = Ret (rb', glen p, None) \<and> rb_rep rb' (xs @ p)"
  using rb_Write_spec[of rb p mem] by (auto simp: rb_rep_def)

lemma rb_Discard_rep: "rb_rep rb xs \<Longrightarrow>
    \<exists>rb' e. rb_Discard rb n = Ret (rb', min (max 0 n) (glen xs), e) \<and> rb_rep rb' (drop (nat n) xs) \<and>
      (xs \<noteq> [] \<and> 0 < n \<longrightarrow> e = None)"
  using rb_Discard_spec[of rb n] by (auto simp: rb_rep_def max.commute)

lemma rb_Buffered_rep: "rb_rep rb xs \<Longrightarrow> rb_Buffered rb = glen xs"
  by (auto simp: rb_rep_def rb_Buffered_content)

lemma rb_IsEmpty_rep: "rb_rep rb xs \<Longrightarrow> rb_IsEmpty rb \<longleftrightarrow> xs = []"
  by (auto simp: rb_rep_def rb_IsEmpty_def rb_isEmpty_content)

interpretation rbq: byte_buffer rb_rep "rb_Write mem" rb_Read rb_Discard rb_Buffered rb_IsEmpty rb_peeks
  MaxInt32 for mem
  by unfold_locales (fact rb_Write_rep rb_Read_rep rb_Discard_rep rb_Buffered_rep rb_IsEmpty_rep rb_peeks_rep)+

end
