(* ===== verification/RingBufferPool.thy ===== *)
theory RingBufferPool
  imports RingBuffer "HOL-Library.Multiset"
begin

text \<open>
  The pool of ring buffers of \<open>pkg/pool/ringbuffer/ringbuffer.go\<close>. The \<open>sync.Pool\<close> behind it is the
  list of rings in it, and \<open>Get\<close> takes as an argument which of them it returns, if any: \<open>sync.Pool\<close>
  promises no more than that. The counters are natural numbers; \<open>calls[i]\<close> is reset before it exceeds
  the calibration threshold by more than the number of concurrent callers, far below \<open>2 ^ 64\<close>.

  \<open>calibrate\<close> depends on two things the source leaves open: the order \<open>sort.Sort\<close> gives to entries
  with equal counters, and the rounding of \<open>float64(callsSum) * 0.95\<close>. Both are arguments, \<open>srt\<close> and
  \<open>pct\<close>. What is proved is that the pool only ever hands out empty, well-formed rings, whatever the
  calibration picks, and that the sizes it picks are among the 20 size classes.
\<close>

section \<open>Model\<close>

definition minBitSize :: nat where
  "minBitSize = 6"

definition steps :: nat where
  "steps = 20"

definition minSize :: int where
  "minSize = 2 ^ minBitSize"

definition calibrateCallsThreshold :: nat where
  "calibrateCallsThreshold = 42000"

record 'r rpool =
  rp_calls :: "nat list"
  rp_calibrating :: bool
  rp_defaultSize :: int
  rp_maxSize :: int
  rp_pool :: "'r list"

text \<open>The zero value, which is what \<open>builtinPool\<close> starts from.\<close>

definition rp_zero :: "'r rpool" where
  "rp_zero = \<lparr>rp_calls = replicate steps 0, rp_calibrating = False, rp_defaultSize = 0, rp_maxSize = 0,
     rp_pool = []\<rparr>"

definition rp_Get :: "nat option \<Rightarrow> ring rpool \<Rightarrow> (ring rpool \<times> ring) go" where
  "rp_Get pick P =
     (case pick of
        Some j \<Rightarrow>
          if j < length (rp_pool P)
          then Ret (P\<lparr>rp_pool := take j (rp_pool P) @ drop (Suc j) (rp_pool P)\<rparr>, rp_pool P ! j)
          else go_bind (rb_New (rp_defaultSize P)) (\<lambda>rb. Ret (P, rb))
      | None \<Rightarrow> go_bind (rb_New (rp_defaultSize P)) (\<lambda>rb. Ret (P, rb)))"

record callSize =
  cs_calls :: nat
  cs_size :: int

text \<open>The methods \<open>sort.Sort\<close> calls: the entries are ordered by falling counters.\<close>

definition callSizes_Len :: "callSize list \<Rightarrow> int" where
  "callSizes_Len ci = glen ci"

definition callSizes_Less :: "callSize list \<Rightarrow> int \<Rightarrow> int \<Rightarrow> bool go" where
  "callSizes_Less ci i j = go_bind (go_index ci i) (\<lambda>x. go_bind (go_index ci j) (\<lambda>y. Ret (cs_calls x > cs_calls y)))"

definition callSizes_Swap :: "callSize list \<Rightarrow> int \<Rightarrow> int \<Rightarrow> callSize list go" where
  "callSizes_Swap ci i j =
     go_bind (go_index ci j) (\<lambda>y. go_bind (go_index ci i) (\<lambda>x. Ret (ci[nat i := y, nat j := x])))"

text \<open>The loop that collects and clears the counters.\<close>

definition rp_collect :: "nat list \<Rightarrow> callSize list" where
  "rp_collect calls = map (\<lambda>i. \<lparr>cs_calls = calls ! i, cs_size = minSize * 2 ^ i\<rparr>) [0..<steps]"

text \<open>The loop that takes the largest size until the percentile is passed.\<close>

fun rp_maxLoop :: "nat \<Rightarrow> callSize list \<Rightarrow> nat \<Rightarrow> int \<Rightarrow> int" where
  "rp_maxLoop maxSum [] callsSum maxSize = maxSize"
| "rp_maxLoop maxSum (c # a) callsSum maxSize =
     (if callsSum > maxSum then maxSize
      else rp_maxLoop maxSum a (callsSum + cs_calls c)
             (if cs_size c > maxSize then cs_size c else maxSize))"

definition rp_calibrate :: "(callSize list \<Rightarrow> callSize list) \<Rightarrow> (nat \<Rightarrow> nat) \<Rightarrow> 'r rpool \<Rightarrow> 'r rpool go" where
  "rp_calibrate srt pct P =
     (if rp_calibrating P then Ret P
      else
        let a = srt (rp_collect (rp_calls P));
            callsSum = sum_list (map (\<lambda>i. rp_calls P ! i) [0..<steps])
        in go_bind (go_index a 0) (\<lambda>a0.
           let defaultSize = cs_size a0;
               maxSize = rp_maxLoop (pct callsSum) (take steps a) 0 defaultSize
           in Ret (P\<lparr>rp_calls := replicate steps 0, rp_defaultSize := defaultSize,
                     rp_maxSize := maxSize, rp_calibrating := False\<rparr>)))"

function rp_indexLoop :: "int \<Rightarrow> nat \<Rightarrow> nat" where
  "rp_indexLoop n idx = (if n > 0 then rp_indexLoop (n div 2) (idx + 1) else idx)"
  by pat_completeness auto
termination by (relation "measure (\<lambda>(n, idx). nat n)") auto

declare rp_indexLoop.simps [simp del]

definition rp_index :: "int \<Rightarrow> nat" where
  "rp_index n =
     (let n = n - 1; n = n div 2 ^ minBitSize; idx = rp_indexLoop n 0
      in if idx \<ge> steps then steps - 1 else idx)"

definition rp_Put ::
  "(callSize list \<Rightarrow> callSize list) \<Rightarrow> (nat \<Rightarrow> nat) \<Rightarrow> ring rpool \<Rightarrow> ring \<Rightarrow> ring rpool go" where
  "rp_Put srt pct P b =
     (let idx = rp_index (rb_Len b)
      in go_bind (go_index (rp_calls P) (int idx)) (\<lambda>c.
         let P = P\<lparr>rp_calls := (rp_calls P)[idx := c + 1]\<rparr>
         in go_bind (if c + 1 > calibrateCallsThreshold then rp_calibrate srt pct P else Ret P) (\<lambda>P.
            Ret (if rp_maxSize P = 0 \<or> rb_Cap b \<le> rp_maxSize P
                 then P\<lparr>rp_pool := rb_Reset b # rp_pool P\<rparr> else P))))"

section \<open>Specification\<close>

definition class_sizes :: "int set" where
  "class_sizes = (\<lambda>i. minSize * 2 ^ i) ` {..<steps}"

definition rp_inv :: "ring rpool \<Rightarrow> bool" where
  "rp_inv P \<longleftrightarrow> length (rp_calls P) = steps \<and> (\<forall>rb\<in>set (rp_pool P). rb_rep rb []) \<and>
     (rp_defaultSize P = 0 \<or> rp_defaultSize P \<in> class_sizes) \<and>
     (rp_maxSize P = 0 \<or> rp_maxSize P \<in> class_sizes) \<and> rp_defaultSize P \<le> rp_maxSize P"

text \<open>What \<open>sort.Sort\<close> promises: the entries are rearranged, and none is less than one before it.\<close>

definition sorts_calls :: "(callSize list \<Rightarrow> callSize list) \<Rightarrow> bool" where
  "sorts_calls srt \<longleftrightarrow>
     (\<forall>a. mset (srt a) = mset a \<and>
        (\<forall>i j. 0 \<le> i \<and> i < j \<and> j < callSizes_Len (srt a) \<longrightarrow> callSizes_Less (srt a) j i = Ret False))"

lemma sorts_calls_iff:
  "sorts_calls srt \<longleftrightarrow> (\<forall>a. mset (srt a) = mset a \<and> sorted_wrt (\<lambda>x y. cs_calls x \<ge> cs_calls y) (srt a))"
proof -
  have "(\<forall>i j. 0 \<le> i \<and> i < j \<and> j < callSizes_Len a \<longrightarrow> callSizes_Less a j i = Ret False) \<longleftrightarrow>
      sorted_wrt (\<lambda>x y. cs_calls x \<ge> cs_calls y) a" (is "?L \<longleftrightarrow> ?R") for a
  proof
    assume ?L
    show ?R unfolding sorted_wrt_iff_nth_less
    proof (intro allI impI)
      fix i j assume ij: "i < j" "j < length a"
      with \<open>?L\<close> have "callSizes_Less a (int j) (int i) = Ret False" by (simp add: callSizes_Len_def)
      with ij show "cs_calls (a ! j) \<le> cs_calls (a ! i)" by (simp add: callSizes_Less_def go_index_def)
    qed
  next
    assume ?R
    then show ?L by (auto simp: sorted_wrt_iff_nth_less callSizes_Len_def callSizes_Less_def go_index_def not_less)
  qed
  then show ?thesis by (simp add: sorts_calls_def)
qed

text \<open>Within the bounds of the slice a swap rearranges the entries, as \<open>sort.Sort\<close> relies on.\<close>

lemma callSizes_Swap_mset:
  assumes "0 \<le> i" "i < callSizes_Len a" "0 \<le> j" "j < callSizes_Len a"
  shows "\<exists>a'. callSizes_Swap a i j = Ret a' \<and> mset a' = mset a"
proof -
  have b: "nat i < length a" "nat j < length a" using assms by (auto simp: callSizes_Len_def)
  then have "callSizes_Swap a i j = Ret (a[nat i := a ! nat j, nat j := a ! nat i])"
    using assms by (simp add: callSizes_Len_def callSizes_Swap_def go_index_def)
  with mset_swap[OF b(2,1)] show ?thesis by simp
qed

text \<open>The first ring of a pool in its initial state is \<open>ring.New(0)\<close>.\<close>

definition first_ring :: ring where
  "first_ring = \<lparr>rb_buf = [], rb_size = 0, rb_r = 0, rb_w = 0, rb_isEmpty = True\<rparr>"

text \<open>The clients of the pool rely on nothing but that a ring they get is well-formed and empty.\<close>

locale ring_source =
  fixes fresh :: ring
  assumes fresh_empty: "rb_rep fresh []"

section \<open>Sizes\<close>

lemma rp_indexLoop_step:
  "n \<le> 0 \<Longrightarrow> rp_indexLoop n idx = idx" "n > 0 \<Longrightarrow> rp_indexLoop n idx = rp_indexLoop (n div 2) (idx + 1)"
  by (subst rp_indexLoop.simps, simp)+

lemma rp_indexLoop_add: "rp_indexLoop n (idx + k) = rp_indexLoop n idx + k"
proof (induction n idx rule: rp_indexLoop.induct)
  case (1 n idx)
  then show ?case by (cases "n > 0") (simp_all add: rp_indexLoop_step)
qed

lemma rp_indexLoop_bound: "0 \<le> n \<Longrightarrow> n < 2 ^ rp_indexLoop n 0"
proof (induction "nat n" arbitrary: n rule: less_induct)
  case less
  show ?case
  proof (cases "n > 0")
    case True
    then have "n div 2 < 2 ^ rp_indexLoop (n div 2) 0" using less.hyps[of "n div 2"] by simp
    then have "n < 2 * 2 ^ rp_indexLoop (n div 2) 0" by linarith
    moreover have "rp_indexLoop n 0 = Suc (rp_indexLoop (n div 2) 0)"
      using True rp_indexLoop_add[of "n div 2" 0 1] by (simp add: rp_indexLoop_step)
    ultimately show ?thesis by simp
  qed (simp add: rp_indexLoop_step less.prems)
qed

lemma rp_indexLoop_least: "n < 2 ^ k \<Longrightarrow> rp_indexLoop n 0 \<le> k"
proof (induction k arbitrary: n)
  case (Suc k)
  show ?case
  proof (cases "n > 0")
    case True
    have "n div 2 < 2 ^ k" using Suc.prems by simp
    then have "rp_indexLoop (n div 2) 0 \<le> k" by (rule Suc.IH)
    then show ?thesis
      using True rp_indexLoop_add[of "n div 2" 0 1] by (simp add: rp_indexLoop_step)
  qed (simp add: rp_indexLoop_step)
qed (simp add: rp_indexLoop_step)

lemma rp_index_bound: "rp_index n < steps"
  by (simp add: rp_index_def Let_def steps_def)

text \<open>The class of a length is the smallest one that holds it.\<close>

lemma rp_index_fits: 
  assumes "0 < n" "n \<le> minSize * 2 ^ (steps - 1)"
  shows "n \<le> minSize * 2 ^ rp_index n"
proof -
  let ?m = "(n - 1) div 64"
  have "?m < 2 ^ rp_indexLoop ?m 0" using assms by (intro rp_indexLoop_bound) simp
  moreover have "rp_indexLoop ?m 0 \<le> 19"
    using assms by (intro rp_indexLoop_least) (simp add: minSize_def minBitSize_def steps_def)
  ultimately show ?thesis by (simp add: rp_index_def Let_def minBitSize_def steps_def minSize_def)
qed

lemma rp_index_least:
  assumes "n \<le> minSize * 2 ^ k"
  shows "rp_index n \<le> k"
proof -
  have "(n - 1) div 64 < 2 ^ k" using assms by (simp add: minSize_def minBitSize_def)
  from rp_indexLoop_least[OF this] show ?thesis
    by (auto simp: rp_index_def Let_def minBitSize_def steps_def)
qed

section \<open>The pool keeps its invariant and hands out empty rings\<close>

lemma rp_zero_inv: "rp_inv rp_zero"
  by (simp add: rp_inv_def rp_zero_def)

lemma class_sizes_bounds: "x \<in> class_sizes \<Longrightarrow> 64 \<le> x \<and> x \<le> 2 ^ 25"
proof -
  assume "x \<in> class_sizes"
  then obtain i where i: "i < 20" "x = 64 * 2 ^ i" by (auto simp: class_sizes_def minSize_def minBitSize_def steps_def)
  then have "(2::int) ^ i \<le> 2 ^ 19" by (intro power_increasing) auto
  with i show ?thesis by simp
qed

lemma rp_New_source:
  assumes "rp_inv P"
  shows "\<exists>rb. rb_New (rp_defaultSize P) = Ret rb \<and> rb_rep rb []"
proof -
  have "0 \<le> rp_defaultSize P \<and> rp_defaultSize P \<le> 2 ^ 62"
    using assms class_sizes_bounds[of "rp_defaultSize P"] by (auto simp: rp_inv_def)
  then show ?thesis using rb_New_spec[of "rp_defaultSize P"] by (auto simp: rb_rep_def)
qed

lemma rp_Get_spec:
  assumes "rp_inv P"
  shows "\<exists>P' rb. rp_Get pick P = Ret (P', rb) \<and> rp_inv P' \<and> rb_rep rb [] \<and>
    mset (rp_pool P) = mset (rp_pool P') + (if pick \<noteq> None \<and> the pick < length (rp_pool P) then {#rb#} else {#})"
proof (cases "pick \<noteq> None \<and> the pick < length (rp_pool P)")
  case True
  then obtain j where j: "pick = Some j" "j < length (rp_pool P)" by auto
  let ?rest = "take j (rp_pool P) @ drop (Suc j) (rp_pool P)"
  have split: "rp_pool P = take j (rp_pool P) @ rp_pool P ! j # drop (Suc j) (rp_pool P)"
    using j id_take_nth_drop by blast
  have "rp_inv (P\<lparr>rp_pool := ?rest\<rparr>)"
    using assms by (auto simp: rp_inv_def dest: in_set_takeD in_set_dropD)
  moreover have "rb_rep (rp_pool P ! j) []" using assms j by (simp add: rp_inv_def)
  moreover have "mset (rp_pool P) = mset ?rest + {#rp_pool P ! j#}"
    by (subst split) simp
  ultimately show ?thesis using j by (simp add: rp_Get_def)
next
  case False
  with rp_New_source[OF assms] assms show ?thesis
    by (auto simp: rp_Get_def split: option.split)
qed

lemma rp_maxLoop_class: "set (map cs_size a) \<subseteq> S \<Longrightarrow> m \<in> S \<Longrightarrow> rp_maxLoop p a c m \<in> S \<and> m \<le> rp_maxLoop p a c m"
proof (induction a arbitrary: c m)
  case (Cons x a)
  from Cons.prems Cons.IH[of m "c + cs_calls x"] Cons.IH[of "cs_size x" "c + cs_calls x"] show ?case by auto
qed simp

lemma rp_calibrate_spec:
  assumes inv: "rp_inv P" and srt: "sorts_calls srt"
  shows "\<exists>P'. rp_calibrate srt pct P = Ret P' \<and> rp_inv P' \<and> rp_pool P' = rp_pool P \<and>
    (\<not> rp_calibrating P \<longrightarrow> rp_defaultSize P' \<in> class_sizes \<and> rp_maxSize P' \<in> class_sizes)"
proof (cases "rp_calibrating P")
  case False
  let ?a = "srt (rp_collect (rp_calls P))"
  have m: "mset ?a = mset (rp_collect (rp_calls P))" using srt by (simp add: sorts_calls_iff)
  have "length ?a = steps" using mset_eq_length[OF m] by (simp add: rp_collect_def)
  then have ne: "0 < length ?a" by (simp add: steps_def)
  have sz: "cs_size ` set ?a \<subseteq> class_sizes"
    using mset_eq_setD[OF m] by (auto simp: rp_collect_def class_sizes_def)
  then have a0: "cs_size (?a ! 0) \<in> class_sizes" using ne nth_mem[OF ne] by blast
  let ?max = "rp_maxLoop (pct (sum_list (map (\<lambda>i. rp_calls P ! i) [0..<steps]))) (take steps ?a) 0 (cs_size (?a ! 0))"
  have "set (map cs_size (take steps ?a)) \<subseteq> class_sizes" using sz set_take_subset[of steps ?a] by auto
  then have "?max \<in> class_sizes \<and> cs_size (?a ! 0) \<le> ?max" using a0 by (rule rp_maxLoop_class)
  then show ?thesis using False inv a0 ne
    by (simp add: rp_calibrate_def Let_def go_index_def rp_inv_def steps_def)
qed (use inv in \<open>simp add: rp_calibrate_def\<close>)

lemma rp_Put_spec:
  assumes inv: "rp_inv P" and srt: "sorts_calls srt" and rb: "rb_inv rb"
  shows "\<exists>P'. rp_Put srt pct P rb = Ret P' \<and> rp_inv P'"
proof -
  let ?i = "rp_index (rb_Len rb)"
  have i: "?i < length (rp_calls P)" using inv rp_index_bound by (simp add: rp_inv_def)
  let ?P = "P\<lparr>rp_calls := (rp_calls P)[?i := Suc (rp_calls P ! ?i)]\<rparr>"
  have "rp_inv ?P" using inv by (simp add: rp_inv_def)
  then obtain P1 where P1: "rp_calibrate srt pct ?P = Ret P1" "rp_inv P1"
    using rp_calibrate_spec[OF _ srt] by blast
  have "rb_rep (rb_Reset rb) []" using rb by (simp add: rb_rep_def)
  with P1 \<open>rp_inv ?P\<close> i show ?thesis
    by (auto simp: rp_Put_def Let_def go_index_def rp_inv_def)
qed

lemma rp_Get_source:
  assumes "rp_inv P" "rp_Get pick P = Ret (P', rb)"
  shows "ring_source rb"
  using rp_Get_spec[OF assms(1), of pick] assms(2) by unfold_locales auto

lemma first_ring_handed_out: "rp_Get None rp_zero = Ret (rp_zero, first_ring)"
  by (simp add: rp_Get_def rp_zero_def rb_New_def first_ring_def)

interpretation first: ring_source first_ring
  using rp_Get_source[OF rp_zero_inv first_ring_handed_out] .

end
