(* ===== verification/ElasticRing.thy ===== *)
theory ElasticRing
  imports RingBufferPool
begin

text \<open>
  \<open>elastic.RingBuffer\<close> of \<open>pkg/buffer/elastic/elastic_ring_buffer.go\<close>: a ring that is taken from the
  pool on the first write and given back when it is drained. The argument \<open>fresh\<close> is the ring
  \<open>rbPool.Get\<close> returns; that it is well-formed and empty is what the pool's theory proves
  (\<open>ring_source\<close>). Giving a ring back does not change what this buffer holds.
\<close>

section \<open>Model\<close>

record er =
  er_rb :: "ring option"

definition er_zero :: er where
  "er_zero = \<lparr>er_rb = None\<rparr>"

definition er_instance :: "ring \<Rightarrow> er \<Rightarrow> er \<times> ring" where
  "er_instance fresh b =
     (case er_rb b of None \<Rightarrow> (b\<lparr>er_rb := Some fresh\<rparr>, fresh) | Some rb \<Rightarrow> (b, rb))"

definition er_Done :: "er \<Rightarrow> er" where
  "er_Done b = (if er_rb b \<noteq> None then b\<lparr>er_rb := None\<rparr> else b)"

definition er_done :: "er \<Rightarrow> er" where
  "er_done b =
     (case er_rb b of
        Some rb \<Rightarrow> if rb_IsEmpty rb then b\<lparr>er_rb := None\<rparr> else b
      | None \<Rightarrow> b)"

definition er_Peek :: "er \<Rightarrow> int \<Rightarrow> (byte list \<times> byte list) go" where
  "er_Peek b n = (case er_rb b of None \<Rightarrow> Ret ([], []) | Some rb \<Rightarrow> rb_Peek rb n)"

definition er_Discard :: "er \<Rightarrow> int \<Rightarrow> (er \<times> int \<times> gerror option) go" where
  "er_Discard b n =
     (case er_rb b of
        None \<Rightarrow> Ret (b, 0, Some ErrIsEmpty)
      | Some rb \<Rightarrow> go_bind (rb_Discard rb n) (\<lambda>(rb, m, e). Ret (er_done (b\<lparr>er_rb := Some rb\<rparr>), m, e)))"

definition er_Read :: "er \<Rightarrow> byte list \<Rightarrow> (er \<times> byte list \<times> int \<times> gerror option) go" where
  "er_Read b p =
     (case er_rb b of
        None \<Rightarrow> Ret (b, p, 0, Some ErrIsEmpty)
      | Some rb \<Rightarrow>
          go_bind (rb_Read rb p) (\<lambda>(rb, p, m, e). Ret (er_done (b\<lparr>er_rb := Some rb\<rparr>), p, m, e)))"

definition er_ReadByte :: "er \<Rightarrow> (er \<times> byte \<times> gerror option) go" where
  "er_ReadByte b =
     (case er_rb b of
        None \<Rightarrow> Ret (b, 0, Some ErrIsEmpty)
      | Some rb \<Rightarrow> go_bind (rb_ReadByte rb) (\<lambda>(rb, c, e). Ret (er_done (b\<lparr>er_rb := Some rb\<rparr>), c, e)))"

definition er_Write :: "stale \<Rightarrow> ring \<Rightarrow> er \<Rightarrow> byte list \<Rightarrow> (er \<times> int \<times> gerror option) go" where
  "er_Write mem fresh b p =
     (if glen p = 0 then Ret (b, 0, None)
      else case er_instance fresh b of (b, rb) \<Rightarrow>
        go_bind (rb_Write mem rb p) (\<lambda>(rb, n, e). Ret (b\<lparr>er_rb := Some rb\<rparr>, n, e)))"

definition er_WriteByte :: "stale \<Rightarrow> ring \<Rightarrow> er \<Rightarrow> byte \<Rightarrow> (er \<times> gerror option) go" where
  "er_WriteByte mem fresh b c =
     (case er_instance fresh b of (b, rb) \<Rightarrow>
        go_bind (rb_WriteByte mem rb c) (\<lambda>(rb, e). Ret (b\<lparr>er_rb := Some rb\<rparr>, e)))"

definition er_Buffered :: "er \<Rightarrow> int" where
  "er_Buffered b = (case er_rb b of None \<Rightarrow> 0 | Some rb \<Rightarrow> rb_Buffered rb)"

definition er_Len :: "er \<Rightarrow> int" where
  "er_Len b = (case er_rb b of None \<Rightarrow> 0 | Some rb \<Rightarrow> rb_Len rb)"

definition er_Cap :: "er \<Rightarrow> int" where
  "er_Cap b = (case er_rb b of None \<Rightarrow> 0 | Some rb \<Rightarrow> rb_Cap rb)"

definition er_Available :: "er \<Rightarrow> int" where
  "er_Available b = (case er_rb b of None \<Rightarrow> 0 | Some rb \<Rightarrow> rb_Available rb)"

definition er_WriteString :: "stale \<Rightarrow> ring \<Rightarrow> er \<Rightarrow> byte list \<Rightarrow> (er \<times> int \<times> gerror option) go" where
  "er_WriteString mem fresh b s =
     (if glen s = 0 then Ret (b, 0, None)
      else case er_instance fresh b of (b, rb) \<Rightarrow>
        go_bind (rb_WriteString mem rb s) (\<lambda>(rb, n, e). Ret (b\<lparr>er_rb := Some rb\<rparr>, n, e)))"

definition er_Bytes :: "er \<Rightarrow> byte list go" where
  "er_Bytes b = (case er_rb b of None \<Rightarrow> Ret [] | Some rb \<Rightarrow> rb_Bytes rb)"

definition er_ReadFrom ::
  "stale \<Rightarrow> ring \<Rightarrow> 's reader \<Rightarrow> 's \<Rightarrow> er \<Rightarrow> (er \<times> 's \<times> int \<times> gerror option) go" where
  "er_ReadFrom mem fresh rd s b =
     (case er_instance fresh b of (b, rb) \<Rightarrow>
        go_bind (rb_ReadFrom mem rd s rb) (\<lambda>(rb, s, n, e). Ret (b\<lparr>er_rb := Some rb\<rparr>, s, n, e)))"

definition er_WriteTo :: "'s writer \<Rightarrow> 's \<Rightarrow> er \<Rightarrow> (er \<times> 's \<times> int \<times> gerror option) go" where
  "er_WriteTo wr s b =
     (case er_rb b of
        None \<Rightarrow> Ret (b, s, 0, Some ErrIsEmpty)
      | Some rb \<Rightarrow>
          go_bind (rb_WriteTo wr s rb) (\<lambda>(rb, s, n, e). Ret (er_done (b\<lparr>er_rb := Some rb\<rparr>), s, n, e)))"

definition er_IsFull :: "er \<Rightarrow> bool" where
  "er_IsFull b = (case er_rb b of None \<Rightarrow> False | Some rb \<Rightarrow> rb_IsFull rb)"

definition er_IsEmpty :: "er \<Rightarrow> bool" where
  "er_IsEmpty b = (case er_rb b of None \<Rightarrow> True | Some rb \<Rightarrow> rb_IsEmpty rb)"

definition er_Reset :: "er \<Rightarrow> er" where
  "er_Reset b = (case er_rb b of None \<Rightarrow> b | Some rb \<Rightarrow> b\<lparr>er_rb := Some (rb_Reset rb)\<rparr>)"

section \<open>Specification\<close>

definition er_rep :: "er \<Rightarrow> byte list \<Rightarrow> bool" where
  "er_rep b xs \<longleftrightarrow> (case er_rb b of None \<Rightarrow> xs = [] | Some rb \<Rightarrow> rb_rep rb xs)"

definition er_peeks :: "er \<Rightarrow> int \<Rightarrow> byte list list go" where
  "er_peeks b n = go_bind (er_Peek b n) (\<lambda>(head, tail). Ret [head, tail])"

lemma er_rep_simps [simp]:
  "er_rep \<lparr>er_rb = None\<rparr> xs \<longleftrightarrow> xs = []" "er_rep \<lparr>er_rb = Some rb\<rparr> xs \<longleftrightarrow> rb_rep rb xs"
  "er_rep er_zero xs \<longleftrightarrow> xs = []"
  by (auto simp: er_rep_def er_zero_def)

lemma er_cases:
  obtains (Nil) "b = \<lparr>er_rb = None\<rparr>" | (Ring) rb where "b = \<lparr>er_rb = Some rb\<rparr>"
  by (cases b; cases "er_rb b") auto

lemma er_done_rep: "rb_rep rb xs \<Longrightarrow> er_rep (er_done \<lparr>er_rb = Some rb\<rparr>) xs"
  by (auto simp: er_done_def rb_IsEmpty_rep)

text \<open>A drained buffer has given its ring back.\<close>

lemma er_done_drained: "rb_rep rb [] \<Longrightarrow> er_done \<lparr>er_rb = Some rb\<rparr> = er_zero"
  by (simp add: er_done_def rb_IsEmpty_rep er_zero_def)

lemma er_Read_rep:
  assumes "er_rep b xs"
  shows "\<exists>b' e. er_Read b p = Ret (b', go_copy p xs, min (glen p) (glen xs), e) \<and>
    er_rep b' (drop (length p) xs) \<and> (xs \<noteq> [] \<and> p \<noteq> [] \<longrightarrow> e = None)"
proof (cases b rule: er_cases)
  case (Ring rb)
  with assms rb_Read_rep[of rb xs p] er_done_rep show ?thesis by (fastforce simp: er_Read_def)
qed (use assms in \<open>auto simp: er_Read_def\<close>)

lemma er_Discard_rep:
  assumes "er_rep b xs"
  shows "\<exists>b' e. er_Discard b n = Ret (b', min (max 0 n) (glen xs), e) \<and> er_rep b' (drop (nat n) xs) \<and>
    (xs \<noteq> [] \<and> 0 < n \<longrightarrow> e = None)"
proof (cases b rule: er_cases)
  case (Ring rb)
  with assms rb_Discard_rep[of rb xs n] er_done_rep show ?thesis by (fastforce simp: er_Discard_def)
qed (use assms in \<open>auto simp: er_Discard_def\<close>)

lemma er_Buffered_rep: "er_rep b xs \<Longrightarrow> er_Buffered b = glen xs"
  by (cases b rule: er_cases) (auto simp: er_Buffered_def rb_Buffered_rep)

lemma er_IsEmpty_rep: "er_rep b xs \<Longrightarrow> er_IsEmpty b \<longleftrightarrow> xs = []"
  by (cases b rule: er_cases) (auto simp: er_IsEmpty_def rb_IsEmpty_rep)

lemma er_Available_nonneg: "er_rep b xs \<Longrightarrow> 0 \<le> er_Available b"
  using rb_content_size
  by (cases b rule: er_cases) (auto simp: er_Available_def rb_rep_def rb_Available_content)

lemma er_Peek_rep:
  assumes "er_rep b xs"
  shows "\<exists>h t. er_Peek b n = Ret (h, t) \<and> h @ t = (if n \<le> 0 then xs else take (nat n) xs) \<and>
    (xs \<noteq> [] \<longrightarrow> h \<noteq> [])"
proof (cases b rule: er_cases)
  case (Ring rb)
  with assms have "rb_inv rb" "rb_content rb = xs" by (auto simp: rb_rep_def)
  with rb_Peek_content[of rb n] Ring show ?thesis by (auto simp: er_Peek_def split: if_splits)
qed (use assms in \<open>simp add: er_Peek_def\<close>)

lemma er_peeks_rep:
  assumes "er_rep b xs"
  shows "\<exists>ys k. er_peeks b n = Ret ys \<and> concat ys = take k xs \<and> k \<le> length xs \<and>
    min (if n \<le> 0 then MaxInt32 else n) (glen xs) \<le> int k \<and> (xs \<noteq> [] \<longrightarrow> ys \<noteq> [] \<and> hd ys \<noteq> [])"
proof (cases b rule: er_cases)
  case (Ring rb)
  then have "er_peeks b n = rb_peeks rb n" by (simp add: er_peeks_def rb_peeks_def er_Peek_def)
  with rb_peeks_rep[of rb xs n] Ring assms show ?thesis by simp
qed (use assms in \<open>simp add: er_peeks_def er_Peek_def\<close>)

lemma er_Bytes_rep: "er_rep b xs \<Longrightarrow> er_Bytes b = Ret xs"
  by (cases b rule: er_cases) (auto simp: er_Bytes_def rb_rep_def rb_Bytes_content)

lemma er_Reset_rep: "er_rep b xs \<Longrightarrow> er_rep (er_Reset b) []"
  by (cases b rule: er_cases) (auto simp: er_Reset_def rb_rep_def)

lemma er_Done_rep: "er_rep (er_Done b) []"
  by (cases b rule: er_cases) (auto simp: er_Done_def)

section \<open>Given a source of empty rings, the elastic ring is a byte queue\<close>

context ring_source
begin

lemma er_instance_rep:
  assumes "er_rep b xs"
  shows "\<exists>rb. er_instance fresh b = (\<lparr>er_rb = Some rb\<rparr>, rb) \<and> rb_rep rb xs"
  using assms fresh_empty by (cases b rule: er_cases) (auto simp: er_instance_def)

lemma er_Write_rep:
  assumes "er_rep b xs" "glen xs + glen p \<le> 2 ^ 62"
  shows "\<exists>b'. er_Write mem fresh b p = Ret (b', glen p, None) \<and> er_rep b' (xs @ p)"
  using er_instance_rep[OF assms(1)] rb_Write_rep[OF _ assms(2), of _ mem] assms(1)
  by (fastforce simp: er_Write_def)

end

sublocale ring_source \<subseteq> erq: byte_buffer er_rep "er_Write mem fresh" er_Read er_Discard er_Buffered
  er_IsEmpty er_peeks MaxInt32 for mem
  by unfold_locales (fact er_Write_rep er_Read_rep er_Discard_rep er_Buffered_rep er_IsEmpty_rep er_peeks_rep)+

end
