(* ===== verification/LinkedListBuffer.thy ===== *)
theory LinkedListBuffer
  imports ByteSlicePool ByteQueue
begin

text \<open>
  The linked list of byte slices of \<open>pkg/buffer/linkedlist/linked_list_buffer.go\<close>. Nodes live in a
  store indexed by addresses, and \<open>head\<close>, \<open>tail\<close> and \<open>next\<close> are addresses or \<open>nil\<close>, so that the
  pointer surgery of \<open>pop\<close>, \<open>pushFront\<close> and \<open>pushBack\<close> is the code's. The relation \<open>ll_rep\<close> ties the
  pointers to the list of slices they stand for, and every operation is specified on the
  concatenation of these slices. The field \<open>bs\<close>, scratch space for the result of \<open>Peek\<close>, is left
  out, and so are the calls that give memory back to the byte-slice pool.
\<close>

section \<open>Model\<close>

record ll_node =
  nd_buf :: "byte list"
  nd_next :: "nat option"

record llist =
  ll_heap :: "nat \<Rightarrow> ll_node"
  ll_brk :: nat
  ll_head :: "nat option"
  ll_tail :: "nat option"
  ll_size :: int
  ll_bytes :: int

definition nd_len :: "llist \<Rightarrow> nat \<Rightarrow> int" where
  "nd_len l b = glen (nd_buf (ll_heap l b))"

text \<open>The zero value of \<open>linkedlist.Buffer\<close>, and the assignments and allocations the code makes.\<close>

definition ll_zero :: llist where
  "ll_zero = \<lparr>ll_heap = (\<lambda>_. \<lparr>nd_buf = [], nd_next = None\<rparr>), ll_brk = 0, ll_head = None, ll_tail = None,
     ll_size = 0, ll_bytes = 0\<rparr>"

definition set_next :: "llist \<Rightarrow> nat \<Rightarrow> nat option \<Rightarrow> llist" where
  "set_next l b nx = l\<lparr>ll_heap := (ll_heap l)(b := (ll_heap l b)\<lparr>nd_next := nx\<rparr>)\<rparr>"

definition set_buf :: "llist \<Rightarrow> nat \<Rightarrow> byte list \<Rightarrow> llist" where
  "set_buf l b bs = l\<lparr>ll_heap := (ll_heap l)(b := (ll_heap l b)\<lparr>nd_buf := bs\<rparr>)\<rparr>"

definition new_node :: "llist \<Rightarrow> byte list \<Rightarrow> nat \<times> llist" where
  "new_node l bs =
     (ll_brk l, l\<lparr>ll_heap := (ll_heap l)(ll_brk l := \<lparr>nd_buf = bs, nd_next = None\<rparr>), ll_brk := Suc (ll_brk l)\<rparr>)"

definition ll_pop :: "llist \<Rightarrow> nat option \<times> llist" where
  "ll_pop l =
     (case ll_head l of
        None \<Rightarrow> (None, l)
      | Some b \<Rightarrow>
          let l = l\<lparr>ll_head := nd_next (ll_heap l b)\<rparr>;
              l = (if ll_head l = None then l\<lparr>ll_tail := None\<rparr> else l);
              l = set_next l b None;
              l = l\<lparr>ll_size := ll_size l - 1\<rparr>;
              l = l\<lparr>ll_bytes := ll_bytes l - nd_len l b\<rparr>
          in (Some b, l))"

definition ll_pushFront :: "llist \<Rightarrow> nat option \<Rightarrow> llist" where
  "ll_pushFront l node =
     (case node of
        None \<Rightarrow> l
      | Some b \<Rightarrow>
          let l = (if ll_head l = None then (set_next l b None)\<lparr>ll_tail := Some b\<rparr>
                   else set_next l b (ll_head l));
              l = l\<lparr>ll_head := Some b\<rparr>;
              l = l\<lparr>ll_size := ll_size l + 1\<rparr>
          in l\<lparr>ll_bytes := ll_bytes l + nd_len l b\<rparr>)"

definition ll_pushBack :: "llist \<Rightarrow> nat option \<Rightarrow> llist" where
  "ll_pushBack l node =
     (case node of
        None \<Rightarrow> l
      | Some b \<Rightarrow>
          let l = (case ll_tail l of None \<Rightarrow> l\<lparr>ll_head := Some b\<rparr> | Some t \<Rightarrow> set_next l t (Some b));
              l = set_next l b None;
              l = l\<lparr>ll_tail := Some b\<rparr>;
              l = l\<lparr>ll_size := ll_size l + 1\<rparr>
          in l\<lparr>ll_bytes := ll_bytes l + nd_len l b\<rparr>)"

definition ll_readBody ::
  "llist \<times> byte list \<times> int \<Rightarrow> (llist \<times> byte list \<times> int + llist \<times> byte list \<times> int \<times> gerror option) go" where
  "ll_readBody st =
     (case st of (l, p, n) \<Rightarrow>
       (case ll_pop l of
          (None, l) \<Rightarrow> Ret (Inr (l, p, n, None))
        | (Some b, l) \<Rightarrow>
            go_bind (go_slice p n (glen p)) (\<lambda>dst.
            let buf = nd_buf (ll_heap l b); m = go_copied dst buf
            in go_bind (go_copy_at p n buf) (\<lambda>p.
               let n = n + m
               in go_bind (if m < nd_len l b
                           then go_bind (go_slice buf m (glen buf)) (\<lambda>buf.
                                Ret (ll_pushFront (set_buf l b buf) (Some b)))
                           else Ret l) (\<lambda>l.
                  if n = glen p then Ret (Inr (l, p, n, None)) else Ret (Inl (l, p, n)))))))"

definition ll_Read :: "llist \<Rightarrow> byte list \<Rightarrow> (llist \<times> byte list \<times> int \<times> gerror option) go" where
  "ll_Read l p = (if glen p = 0 then Ret (l, p, 0, None) else go_loop ll_readBody (l, p, 0))"

text \<open>\<open>b := bsPool.Get(n); copy(b, p)\<close> makes a copy of \<open>p\<close>, since \<open>len(b) = n = len(p)\<close>.\<close>

definition ll_PushFront :: "llist \<Rightarrow> byte list \<Rightarrow> llist" where
  "ll_PushFront l p =
     (if glen p = 0 then l else case new_node l p of (b, l) \<Rightarrow> ll_pushFront l (Some b))"

definition ll_PushBack :: "llist \<Rightarrow> byte list \<Rightarrow> llist" where
  "ll_PushBack l p =
     (if glen p = 0 then l else case new_node l p of (b, l) \<Rightarrow> ll_pushBack l (Some b))"

text \<open>The walk \<open>for iter := llb.head; iter != nil; iter = iter.next\<close> of the two peeks.\<close>

definition ll_peekBody ::
  "llist \<Rightarrow> int \<Rightarrow> nat option \<times> byte list list \<times> int \<Rightarrow> (nat option \<times> byte list list \<times> int + byte list list) go" where
  "ll_peekBody l maxBytes st =
     (case st of (iter, bs, cum) \<Rightarrow>
        (case iter of
           None \<Rightarrow> Ret (Inr bs)
         | Some a \<Rightarrow>
             let bs = bs @ [nd_buf (ll_heap l a)]; cum = cum + nd_len l a
             in if cum \<ge> maxBytes then Ret (Inr bs) else Ret (Inl (nd_next (ll_heap l a), bs, cum))))"

definition ll_Peek :: "llist \<Rightarrow> int \<Rightarrow> byte list list go" where
  "ll_Peek l maxBytes =
     (let maxBytes = (if maxBytes \<le> 0 then MaxInt32 else maxBytes)
      in go_loop (ll_peekBody l maxBytes) (ll_head l, [], 0))"

text \<open>The loop over \<open>bs\<close>: \<open>Inr\<close> is the early return, \<open>Inl\<close> what it leaves behind.\<close>

fun ll_peekGiven ::
  "int \<Rightarrow> byte list list \<Rightarrow> byte list list \<Rightarrow> int \<Rightarrow> byte list list \<times> int + byte list list" where
  "ll_peekGiven maxBytes [] acc cum = Inl (acc, cum)"
| "ll_peekGiven maxBytes (b # bs) acc cum =
     (let n = glen b
      in if n > 0 then
           let acc = acc @ [b]; cum = cum + n
           in if cum \<ge> maxBytes then Inr acc else ll_peekGiven maxBytes bs acc cum
         else ll_peekGiven maxBytes bs acc cum)"

definition ll_PeekWithBytes :: "llist \<Rightarrow> int \<Rightarrow> byte list list \<Rightarrow> byte list list go" where
  "ll_PeekWithBytes l maxBytes bs =
     (let maxBytes = (if maxBytes \<le> 0 then MaxInt32 else maxBytes)
      in case ll_peekGiven maxBytes bs [] 0 of
           Inr acc \<Rightarrow> Ret acc
         | Inl (acc, cum) \<Rightarrow> go_loop (ll_peekBody l maxBytes) (ll_head l, acc, cum))"

definition ll_discardBody ::
  "llist \<times> int \<times> int \<Rightarrow> (llist \<times> int \<times> int + llist \<times> int \<times> gerror option) go" where
  "ll_discardBody st =
     (case st of (l, n, discarded) \<Rightarrow>
        if n = 0 then Ret (Inr (l, discarded, None))
        else (case ll_pop l of
                (None, l) \<Rightarrow> Ret (Inr (l, discarded, None))
              | (Some b, l) \<Rightarrow>
                  if n < nd_len l b then
                    go_bind (go_slice (nd_buf (ll_heap l b)) n (nd_len l b)) (\<lambda>buf.
                    Ret (Inr (ll_pushFront (set_buf l b buf) (Some b), discarded + n, None)))
                  else Ret (Inl (l, n - nd_len l b, discarded + nd_len l b))))"

definition ll_Discard :: "llist \<Rightarrow> int \<Rightarrow> (llist \<times> int \<times> gerror option) go" where
  "ll_Discard l n = (if n \<le> 0 then Ret (l, 0, None) else go_loop ll_discardBody (l, n, 0))"

definition ll_minRead :: int where
  "ll_minRead = 512"

text \<open>
  One round of \<open>ReadFrom\<close>. The reader gets a slice of \<open>minRead\<close> bytes with stale content; the bytes it
  leaves there, followed by the stale rest, make up \<open>b\<close>, of which \<open>b[:m]\<close> is kept.
\<close>

definition ll_readFromBody ::
  "stale \<Rightarrow> 's reader \<Rightarrow> llist \<times> 's \<times> int \<Rightarrow> (llist \<times> 's \<times> int + llist \<times> 's \<times> int \<times> gerror option) go" where
  "ll_readFromBody mem rd st =
     (case st of (l, s, n) \<Rightarrow>
        let old = bs_bytes mem ll_minRead
        in (case rd s (glen old) of (s, data, m, err) \<Rightarrow>
           if m < 0 then Panic (PanicMsg ''Buffer.ReadFrom: reader returned negative count from Read'')
           else
             let n = n + m
             in go_bind (go_slice (go_copy old data) 0 m) (\<lambda>b.
                case err of
                  Some EOF \<Rightarrow> Ret (Inr (l, s, n, None))
                | Some e \<Rightarrow> Ret (Inr (l, s, n, Some e))
                | None \<Rightarrow> (case new_node l b of (a, l) \<Rightarrow> Ret (Inl (ll_pushBack l (Some a), s, n))))))"

definition ll_ReadFrom ::
  "stale \<Rightarrow> 's reader \<Rightarrow> 's \<Rightarrow> llist \<Rightarrow> (llist \<times> 's \<times> int \<times> gerror option) go" where
  "ll_ReadFrom mem rd s l = go_loop (ll_readFromBody mem rd) (l, s, 0)"

definition ll_writeToBody ::
  "'s writer \<Rightarrow> llist \<times> 's \<times> int \<Rightarrow> (llist \<times> 's \<times> int + llist \<times> 's \<times> int \<times> gerror option) go" where
  "ll_writeToBody wr st =
     (case st of (l, s, n) \<Rightarrow>
        (case ll_pop l of
           (None, l) \<Rightarrow> Ret (Inr (l, s, n, None))
         | (Some b, l) \<Rightarrow>
             let buf = nd_buf (ll_heap l b)
             in (case wr s buf of (s, m, err) \<Rightarrow>
                   if m > nd_len l b then Panic (PanicMsg ''Buffer.WriteTo: invalid Write count'')
                   else
                     let n = n + m
                     in (case err of
                           Some e \<Rightarrow> Ret (Inr (l, s, n, Some e))
                         | None \<Rightarrow>
                             if m < nd_len l b then
                               go_bind (go_slice buf m (glen buf)) (\<lambda>buf.
                               Ret (Inr (ll_pushFront (set_buf l b buf) (Some b), s, n, Some ErrShortWrite)))
                             else Ret (Inl (l, s, n))))))"

definition ll_WriteTo :: "'s writer \<Rightarrow> 's \<Rightarrow> llist \<Rightarrow> (llist \<times> 's \<times> int \<times> gerror option) go" where
  "ll_WriteTo wr s l = go_loop (ll_writeToBody wr) (l, s, 0)"

definition ll_Len :: "llist \<Rightarrow> int" where
  "ll_Len l = ll_size l"

definition ll_Buffered :: "llist \<Rightarrow> int" where
  "ll_Buffered l = ll_bytes l"

definition ll_IsEmpty :: "llist \<Rightarrow> bool" where
  "ll_IsEmpty l \<longleftrightarrow> ll_head l = None"

definition ll_Reset :: "llist \<Rightarrow> llist go" where
  "ll_Reset l =
     go_bind (go_loop (\<lambda>l. case ll_pop l of (None, l) \<Rightarrow> Ret (Inr l) | (Some b, l) \<Rightarrow> Ret (Inl l)) l) (\<lambda>l.
     Ret (l\<lparr>ll_head := None, ll_tail := None, ll_size := 0, ll_bytes := 0\<rparr>))"

section \<open>What the pointers stand for\<close>

fun ll_path :: "(nat \<Rightarrow> ll_node) \<Rightarrow> nat option \<Rightarrow> nat list \<Rightarrow> bool" where
  "ll_path h p [] \<longleftrightarrow> p = None"
| "ll_path h p (a # as) \<longleftrightarrow> p = Some a \<and> ll_path h (nd_next (h a)) as"

definition ll_repA :: "llist \<Rightarrow> nat list \<Rightarrow> byte list list \<Rightarrow> bool" where
  "ll_repA l as bs \<longleftrightarrow>
     ll_path (ll_heap l) (ll_head l) as \<and> distinct as \<and> (\<forall>a\<in>set as. a < ll_brk l) \<and>
     map (\<lambda>a. nd_buf (ll_heap l a)) as = bs \<and> [] \<notin> set bs \<and>
     ll_tail l = (if as = [] then None else Some (last as)) \<and>
     ll_size l = glen as \<and> ll_bytes l = glen (concat bs)"

text \<open>An address that is allocated and not on the list holds the slice \<open>b\<close>.\<close>

definition ll_loose :: "llist \<Rightarrow> nat list \<Rightarrow> nat \<Rightarrow> byte list \<Rightarrow> bool" where
  "ll_loose l as a b \<longleftrightarrow> a \<notin> set as \<and> a < ll_brk l \<and> nd_buf (ll_heap l a) = b"

definition ll_rep :: "llist \<Rightarrow> byte list \<Rightarrow> bool" where
  "ll_rep l xs \<longleftrightarrow> (\<exists>as bs. ll_repA l as bs \<and> concat bs = xs)"

text \<open>The slices a peek of \<open>m\<close> bytes returns: the shortest prefix of the list that holds them.\<close>

fun chunks_upto :: "int \<Rightarrow> byte list list \<Rightarrow> byte list list" where
  "chunks_upto m [] = []"
| "chunks_upto m (b # bs) = b # (if glen b \<ge> m then [] else chunks_upto (m - glen b) bs)"

text \<open>\<open>PushBack\<close> with the result type of a write.\<close>

definition ll_put :: "llist \<Rightarrow> byte list \<Rightarrow> (llist \<times> int \<times> gerror option) go" where
  "ll_put l p = Ret (ll_PushBack l p, glen p, None)"

section \<open>Pointer surgery\<close>

lemma ll_path_cong: "\<forall>a\<in>set as. nd_next (h a) = nd_next (h' a) \<Longrightarrow> ll_path h p as = ll_path h' p as"
  by (induction as arbitrary: p) auto

lemma ll_path_upd: "a \<notin> set as \<Longrightarrow> ll_path (h(a := v)) p as = ll_path h p as"
  by (rule ll_path_cong) auto

lemma ll_path_append: "ll_path h p (as @ [a]) \<Longrightarrow> a' \<notin> set (as @ [a]) \<Longrightarrow> distinct (as @ [a]) \<Longrightarrow>
    nd_next v = Some a' \<Longrightarrow> ll_path ((h(a := v))(a' := (h' a')\<lparr>nd_next := None\<rparr>)) p (as @ [a, a'])"
  by (induction as arbitrary: p) (auto simp: ll_path_upd)

lemma ll_repA_zero: "ll_repA ll_zero [] []"
  by (simp add: ll_repA_def ll_zero_def)

lemma ll_pop_Nil: "ll_repA l [] bs \<Longrightarrow> ll_pop l = (None, l)"
  by (simp add: ll_repA_def ll_pop_def)

lemma ll_pop_Cons:
  assumes "ll_repA l (a # as) (b # bs)"
  obtains l' where "ll_pop l = (Some a, l')" "ll_repA l' as bs" "ll_loose l' as a b"
proof -
  let ?l = "snd (ll_pop l)"
  have "ll_pop l = (Some a, ?l)" using assms by (simp add: ll_repA_def ll_pop_def Let_def)
  moreover have "ll_repA ?l as bs"
    using assms by (cases as) (auto simp: ll_repA_def ll_pop_def Let_def set_next_def nd_len_def ll_path_upd)
  moreover have "ll_loose ?l as a b"
    using assms by (auto simp: ll_repA_def ll_loose_def ll_pop_def Let_def set_next_def)
  ultimately show ?thesis by (rule that)
qed

lemma ll_set_buf:
  assumes "ll_repA l as bs" "ll_loose l as a b"
  shows "ll_repA (set_buf l a b') as bs" "ll_loose (set_buf l a b') as a b'"
  using assms by (auto simp: ll_repA_def ll_loose_def set_buf_def ll_path_upd)

lemma ll_new_node:
  assumes "ll_repA l as bs" "new_node l b = (a, l')"
  shows "ll_repA l' as bs" "ll_loose l' as a b"
  using assms by (auto simp: ll_repA_def ll_loose_def new_node_def ll_path_upd)

lemma ll_pushFront_rep:
  assumes "ll_repA l as bs" "ll_loose l as a b" "b \<noteq> []"
  shows "ll_repA (ll_pushFront l (Some a)) (a # as) (b # bs)"
  using assms
  by (cases as) (auto simp: ll_repA_def ll_loose_def ll_pushFront_def Let_def set_next_def nd_len_def ll_path_upd)

lemma ll_pushBack_rep:
  assumes "ll_repA l as bs" "ll_loose l as a b" "b \<noteq> []"
  shows "ll_repA (ll_pushBack l (Some a)) (as @ [a]) (bs @ [b])"
proof (cases as rule: rev_cases)
  case Nil
  with assms show ?thesis
    by (auto simp: ll_repA_def ll_loose_def ll_pushBack_def Let_def set_next_def nd_len_def)
next
  case (snoc as' t)
  have "ll_path (ll_heap (ll_pushBack l (Some a))) (ll_head l) (as' @ [t, a])"
    using assms snoc unfolding ll_repA_def ll_loose_def
    by (auto simp: ll_pushBack_def Let_def set_next_def intro!: ll_path_append)
  with assms snoc show ?thesis
    by (auto simp: ll_repA_def ll_loose_def ll_pushBack_def Let_def set_next_def nd_len_def)
qed

section \<open>What the operations do to the stored bytes\<close>

lemma ll_repA_length: "ll_repA l as bs \<Longrightarrow> length as = length bs"
  by (auto simp: ll_repA_def)

lemma ll_repA_pop_cases:
  assumes "ll_repA l as bs"
  obtains (Nil) "as = []" "bs = []" "ll_pop l = (None, l)"
  | (Cons) a as' b bs' l' where "as = a # as'" "bs = b # bs'" "b \<noteq> []" "ll_pop l = (Some a, l')"
      "ll_repA l' as' bs'" "ll_loose l' as' a b"
proof (cases as)
  case Nil
  with assms show ?thesis using that(1) ll_pop_Nil by (auto simp: ll_repA_def)
next
  case (Cons a as')
  with assms obtain b bs' where bs: "bs = b # bs'" "b \<noteq> []" by (cases bs) (auto simp: ll_repA_def)
  with assms Cons obtain l' where "ll_pop l = (Some a, l')" "ll_repA l' as' bs'" "ll_loose l' as' a b"
    by (metis ll_pop_Cons)
  with Cons bs that(2) show ?thesis by blast
qed

lemma ll_put_back:
  assumes "ll_repA l as bs" "ll_loose l as a b" "k < length b"
  shows "\<exists>as'. ll_repA (ll_pushFront (set_buf l a (drop k b)) (Some a)) as' (drop k b # bs)"
  using ll_pushFront_rep[OF ll_set_buf[OF assms(1,2)], of "drop k b"] assms(3) by auto

lemma ll_repI: "ll_repA l as bs \<Longrightarrow> concat bs = xs \<Longrightarrow> ll_rep l xs"
  unfolding ll_rep_def by blast

lemma ll_looseD: "ll_loose l as a b \<Longrightarrow> nd_buf (ll_heap l a) = b" "ll_loose l as a b \<Longrightarrow> nd_len l a = glen b"
  by (auto simp: ll_loose_def nd_len_def)

lemma ll_read_loop:
  assumes "ll_repA l as bs" "0 \<le> n" "n < glen p"
  shows "\<exists>l' p'. go_loop ll_readBody (l, p, n) =
      Ret (l', p', min (glen p) (n + glen (concat bs)), None) \<and>
    p' = take (nat n) p @ go_copy (drop (nat n) p) (concat bs) \<and>
    ll_rep l' (drop (length p - nat n) (concat bs))"
  using assms
proof (induction bs arbitrary: l as p n)
  case Nil
  then have "ll_pop l = (None, l)" by (cases rule: ll_repA_pop_cases) auto
  with Nil ll_repI[OF Nil.prems(1)] show ?case by (subst go_loop_unfold) (simp add: ll_readBody_def)
next
  case (Cons b bs)
  from Cons.prems(1) obtain a as' l' where pop: "b \<noteq> []" "ll_pop l = (Some a, l')" "ll_repA l' as' bs"
    "ll_loose l' as' a b" by (cases rule: ll_repA_pop_cases) auto
  note lo = ll_looseD[OF pop(4)]
  show ?case
  proof (cases "glen p - n < glen b")
    case True
    let ?k = "length p - nat n"
    have k: "?k < length b" "go_copied (drop (nat n) p) b = int ?k" "nat (glen p - n) = ?k"
      using True Cons.prems by (auto simp: go_copied_def)
    obtain as2 where "ll_repA (ll_pushFront (set_buf l' a (drop ?k b)) (Some a)) as2 (drop ?k b # bs)"
      using ll_put_back[OF pop(3,4) k(1)] by blast
    then have "ll_rep (ll_pushFront (set_buf l' a (drop ?k b)) (Some a)) (drop ?k b @ concat bs)"
      unfolding ll_rep_def by force
    with True k Cons.prems show ?thesis
      by (subst go_loop_unfold)
        (auto simp: ll_readBody_def pop lo go_slice_Ret go_copy_at_Ret Let_def go_copy_def)
  next
    case False
    let ?p = "take (nat n) p @ b @ drop (nat n + length b) p"
    have k: "go_copied (drop (nat n) p) b = glen b" using False Cons.prems by (auto simp: go_copied_def)
    have cp: "go_copy_at p n b = Ret ?p"
      using False Cons.prems by (simp add: go_copy_at_Ret go_copy_fits add.commute)
    have len: "length ?p = length p" using False Cons.prems by auto
    have step: "go_loop ll_readBody (l, p, n) =
        (if n + glen b = glen p then Ret (l', ?p, n + glen b, None)
         else go_loop ll_readBody (l', ?p, n + glen b))"
      using False Cons.prems len
      by (subst go_loop_unfold) (simp add: ll_readBody_def pop lo go_slice_Ret k cp Let_def)
    show ?thesis
    proof (cases "n + glen b = glen p")
      case True
      moreover have "ll_rep l' (concat bs)" using pop ll_rep_def by blast
      ultimately show ?thesis using step Cons.prems by (auto simp: go_copy_def)
    next
      case False2: False
      then have lt: "n + glen b < glen ?p" using len False by linarith
      have n0: "0 \<le> n + glen b" "nat (n + glen b) = nat n + length b" using Cons.prems by auto
      obtain l2 where
        "go_loop ll_readBody (l', ?p, n + glen b) = Ret (l2, take (nat n + length b) ?p @
           go_copy (drop (nat n + length b) ?p) (concat bs), min (glen p) (n + glen b + glen (concat bs)), None)"
        "ll_rep l2 (drop (length p - (nat n + length b)) (concat bs))"
        using Cons.IH[OF pop(3) n0(1) lt] unfolding len n0(2) by blast
      moreover have "take (nat n + length b) ?p @ go_copy (drop (nat n + length b) ?p) (concat bs) =
         take (nat n) p @ go_copy (drop (nat n) p) (b @ concat bs)"
        using lt len Cons.prems by (auto simp: go_copy_def ac_simps)
      moreover have "drop (length p - nat n) b = []" using lt len Cons.prems by simp
      ultimately show ?thesis unfolding step using False2 by (auto simp: add.assoc)
    qed
  qed
qed

lemma ll_Read_spec:
  assumes "ll_rep l xs"
  shows "\<exists>l' k. ll_Read l p = Ret (l', go_copy p xs, int k, None) \<and> k = min (length p) (length xs) \<and>
    ll_rep l' (drop k xs)"
proof (cases "p = []")
  case False
  from assms obtain as bs where "ll_repA l as bs" "concat bs = xs" by (auto simp: ll_rep_def)
  with ll_read_loop[of l as bs 0 p] False show ?thesis by (auto simp: ll_Read_def min_def)
qed (use assms in \<open>simp add: ll_Read_def\<close>)


lemma ll_PushBack_spec: "ll_rep l xs \<Longrightarrow> ll_rep (ll_PushBack l p) (xs @ p)"
proof (cases "p = []")
  case False
  assume "ll_rep l xs"
  then obtain as bs where rep: "ll_repA l as bs" "concat bs = xs" by (auto simp: ll_rep_def)
  obtain a l' where new: "new_node l p = (a, l')" by (cases "new_node l p")
  from ll_pushBack_rep[OF ll_new_node[OF rep(1) new] False] rep(2) False new show ?thesis
    by (auto simp: ll_PushBack_def ll_rep_def intro!: exI[of _ "as @ [a]"] exI[of _ "bs @ [p]"])
qed (simp add: ll_PushBack_def)

lemma ll_PushFront_spec: "ll_rep l xs \<Longrightarrow> ll_rep (ll_PushFront l p) (p @ xs)"
proof (cases "p = []")
  case False
  assume "ll_rep l xs"
  then obtain as bs where rep: "ll_repA l as bs" "concat bs = xs" by (auto simp: ll_rep_def)
  obtain a l' where new: "new_node l p = (a, l')" by (cases "new_node l p")
  from ll_pushFront_rep[OF ll_new_node[OF rep(1) new] False] rep(2) False new show ?thesis
    by (auto simp: ll_PushFront_def ll_rep_def intro!: exI[of _ "a # as"] exI[of _ "p # bs"])
qed (simp add: ll_PushFront_def)

lemma ll_Buffered_rep: "ll_rep l xs \<Longrightarrow> ll_Buffered l = glen xs"
  by (auto simp: ll_rep_def ll_repA_def ll_Buffered_def)

lemma ll_IsEmpty_rep: "ll_rep l xs \<Longrightarrow> ll_IsEmpty l \<longleftrightarrow> xs = []"
proof -
  assume "ll_rep l xs"
  then obtain as bs where "ll_repA l as bs" "concat bs = xs" by (auto simp: ll_rep_def)
  then show ?thesis by (cases as; cases bs) (auto simp: ll_repA_def ll_IsEmpty_def)
qed

lemma ll_discard_loop:
  assumes "ll_repA l as bs" "0 \<le> n"
  shows "\<exists>l'. go_loop ll_discardBody (l, n, d) = Ret (l', d + min n (glen (concat bs)), None) \<and>
    ll_rep l' (drop (nat n) (concat bs))"
  using assms
proof (induction bs arbitrary: l as n d)
  case Nil
  then have "ll_pop l = (None, l)" by (cases rule: ll_repA_pop_cases) auto
  with Nil ll_repI[OF Nil.prems(1)] show ?case by (subst go_loop_unfold) (simp add: ll_discardBody_def)
next
  case (Cons b bs)
  show ?case
  proof (cases "n = 0")
    case True
    with ll_repI[OF Cons.prems(1)] show ?thesis by (subst go_loop_unfold) (simp add: ll_discardBody_def)
  next
    case nz: False
    from Cons.prems(1) obtain a as' l' where pop: "b \<noteq> []" "ll_pop l = (Some a, l')" "ll_repA l' as' bs"
      "ll_loose l' as' a b" by (cases rule: ll_repA_pop_cases) auto
    note lo = ll_looseD[OF pop(4)]
    show ?thesis
    proof (cases "n < glen b")
      case True
      then have k: "nat n < length b" using Cons.prems by simp
      obtain as2 where "ll_repA (ll_pushFront (set_buf l' a (drop (nat n) b)) (Some a)) as2 (drop (nat n) b # bs)"
        using ll_put_back[OF pop(3,4) k] by blast
      then have "ll_rep (ll_pushFront (set_buf l' a (drop (nat n) b)) (Some a)) (drop (nat n) b @ concat bs)"
        unfolding ll_rep_def by force
      with True k nz Cons.prems show ?thesis
        by (subst go_loop_unfold) (auto simp: ll_discardBody_def pop lo go_slice_Ret)
    next
      case False
      then have "go_loop ll_discardBody (l, n, d) = go_loop ll_discardBody (l', n - glen b, d + glen b)"
        using nz by (subst go_loop_unfold) (simp add: ll_discardBody_def pop lo)
      moreover have "min n (glen (concat (b # bs))) = glen b + min (n - glen b) (glen (concat bs))"
        by (simp add: min_def)
      moreover have "drop (nat n) (concat (b # bs)) = drop (nat (n - glen b)) (concat bs)"
        using False by (simp add: nat_minus_int)
      ultimately show ?thesis using Cons.IH[OF pop(3), of "n - glen b" "d + glen b"] False
        by (simp add: add.assoc)
    qed
  qed
qed

lemma ll_Discard_spec:
  assumes "ll_rep l xs"
  shows "\<exists>l' k. ll_Discard l n = Ret (l', int k, None) \<and> k = min (nat n) (length xs) \<and> ll_rep l' (drop k xs)"
proof (cases "n \<le> 0")
  case False
  from assms obtain as bs where "ll_repA l as bs" "concat bs = xs" by (auto simp: ll_rep_def)
  with ll_discard_loop[of l as bs n 0] False show ?thesis by (auto simp: ll_Discard_def min_def)
qed (use assms in \<open>simp add: ll_Discard_def\<close>)

lemma ll_peek_loop:
  assumes "ll_path (ll_heap l) p as" "cum < m"
  shows "go_loop (ll_peekBody l m) (p, acc, cum) =
    Ret (acc @ chunks_upto (m - cum) (map (\<lambda>a. nd_buf (ll_heap l a)) as))"
  using assms
proof (induction as arbitrary: p acc cum)
  case Nil
  then show ?case by (subst go_loop_unfold) (simp add: ll_peekBody_def)
next
  case (Cons a as)
  let ?b = "nd_buf (ll_heap l a)"
  have "go_loop (ll_peekBody l m) (p, acc, cum) =
      (if cum + glen ?b \<ge> m then Ret (acc @ [?b])
       else go_loop (ll_peekBody l m) (nd_next (ll_heap l a), acc @ [?b], cum + glen ?b))"
    using Cons.prems by (subst go_loop_unfold) (simp add: ll_peekBody_def Let_def nd_len_def)
  with Cons show ?case by (simp add: algebra_simps)
qed

lemma ll_peekGiven_spec:
  assumes "cum < m"
  shows "(case ll_peekGiven m gs acc cum of
       Inr acc' \<Rightarrow> Ret acc'
     | Inl (acc', cum') \<Rightarrow> Ret (acc' @ chunks_upto (m - cum') bs)) =
    Ret (acc @ chunks_upto (m - cum) (filter (\<lambda>b. b \<noteq> []) gs @ bs))
   \<and> (\<forall>acc' cum'. ll_peekGiven m gs acc cum = Inl (acc', cum') \<longrightarrow> cum' < m)"
  using assms
proof (induction gs arbitrary: acc cum)
  case (Cons g gs)
  show ?case
  proof (cases "g = []")
    case False
    with Cons.prems Cons.IH[of "cum + glen g" "acc @ [g]"] show ?thesis
      by (auto simp: Let_def algebra_simps)
  qed (use Cons in \<open>auto simp: Let_def\<close>)
qed auto

lemma chunks_upto_hd: "bs \<noteq> [] \<Longrightarrow> [] \<notin> set bs \<Longrightarrow> chunks_upto m bs \<noteq> [] \<and> hd (chunks_upto m bs) \<noteq> []"
  by (cases bs) auto

lemma chunks_upto_prefix:
  "\<exists>k. concat (chunks_upto m bs) = take k (concat bs) \<and> k \<le> length (concat bs) \<and> (m \<le> int k \<or> k = length (concat bs))"
proof (induction bs arbitrary: m)
  case (Cons b bs)
  from Cons[of "m - glen b"] obtain k where "concat (chunks_upto (m - glen b) bs) = take k (concat bs)"
    "k \<le> length (concat bs)" "m - glen b \<le> int k \<or> k = length (concat bs)" by blast
  then show ?case
    by (cases "m \<le> glen b") (force intro: exI[of _ "length b"], force intro: exI[of _ "length b + k"])
qed simp


lemma ll_Peek_spec:
  assumes "ll_repA l as bs"
  shows "ll_Peek l m = Ret (chunks_upto (if m \<le> 0 then MaxInt32 else m) bs)"
  using assms ll_peek_loop[of l "ll_head l" as 0 "if m \<le> 0 then MaxInt32 else m" "[]"]
  by (auto simp: ll_Peek_def ll_repA_def MaxInt32_def)

lemma ll_PeekWithBytes_spec:
  assumes "ll_repA l as bs"
  shows "ll_PeekWithBytes l m gs =
    Ret (chunks_upto (if m \<le> 0 then MaxInt32 else m) (filter (\<lambda>b. b \<noteq> []) gs @ bs))"
proof -
  define k where "k = (if m \<le> 0 then MaxInt32 else m)"
  have k: "0 < k" by (simp add: k_def MaxInt32_def)
  note g = ll_peekGiven_spec[OF k, where gs = gs and acc = "[]" and bs = bs]
  have "go_loop (ll_peekBody l k) (ll_head l, acc, cum) = Ret (acc @ chunks_upto (k - cum) bs)"
    if "cum < k" for acc cum
    using ll_peek_loop[of l "ll_head l" as cum k acc] assms that by (simp add: ll_repA_def)
  note loop = this
  show ?thesis
  proof (cases "ll_peekGiven k gs [] 0")
    case (Inl r)
    then obtain acc cum where "ll_peekGiven k gs [] 0 = Inl (acc, cum)" by (cases r) auto
    with g loop show ?thesis unfolding ll_PeekWithBytes_def Let_def k_def[symmetric] by simp
  next
    case (Inr acc)
    with g show ?thesis unfolding ll_PeekWithBytes_def Let_def k_def[symmetric] by simp
  qed
qed

lemma ll_Reset_spec:
  assumes "ll_rep l xs"
  shows "\<exists>l'. ll_Reset l = Ret l' \<and> ll_rep l' []"
proof -
  let ?body = "\<lambda>l. case ll_pop l of (None, l) \<Rightarrow> Ret (Inr l) | (Some b, l) \<Rightarrow> Ret (Inl l)"
  have "\<exists>l'. go_loop ?body l = Ret l' \<and> ll_repA l' [] []" if "ll_repA l as bs" for as bs
    using that
  proof (induction bs arbitrary: l as)
    case Nil
    then have "ll_pop l = (None, l)" "as = []" by (cases rule: ll_repA_pop_cases; auto)+
    with Nil show ?case by (subst go_loop_unfold) simp
  next
    case (Cons b bs)
    from Cons.prems obtain a as' l' where "ll_pop l = (Some a, l')" "ll_repA l' as' bs"
      by (cases rule: ll_repA_pop_cases) auto
    with Cons.IH[of l' as'] show ?case by (subst go_loop_unfold) simp
  qed
  then obtain l' where l': "go_loop ?body l = Ret l'" "ll_repA l' [] []"
    using assms by (auto simp: ll_rep_def)
  then have "ll_repA (l'\<lparr>ll_head := None, ll_tail := None, ll_size := 0, ll_bytes := 0\<rparr>) [] []"
    by (simp add: ll_repA_def)
  with l' show ?thesis by (auto simp: ll_Reset_def intro: ll_repI)
qed

lemma ll_write_loop:
  assumes w: "writer_ok wr acc" and "ll_repA l as bs"
  shows "\<exists>l' s' m k e. go_loop (ll_writeToBody wr) (l, s, n) = Ret (l', s', n + int m, e) \<and>
    acc s' = acc s @ take m (concat bs) \<and> m \<le> k \<and> k \<le> length (concat bs) \<and>
    ll_rep l' (drop k (concat bs)) \<and> (e = None \<longrightarrow> m = length (concat bs))"
  using assms(2)
proof (induction bs arbitrary: l as s n)
  case Nil
  then have "ll_pop l = (None, l)" by (cases rule: ll_repA_pop_cases) auto
  with ll_repI[OF Nil] show ?case by (subst go_loop_unfold) (auto simp: ll_writeToBody_def)
next
  case (Cons b bs)
  from Cons.prems(1) obtain a as' l' where pop: "b \<noteq> []" "ll_pop l = (Some a, l')" "ll_repA l' as' bs"
    "ll_loose l' as' a b" by (cases rule: ll_repA_pop_cases) auto
  note lo = ll_looseD[OF pop(4)]
  obtain s1 m err where wr: "wr s b = (s1, m, err)" by (cases "wr s b")
  note m = writer_okD[OF w wr]
  show ?case
  proof (cases err)
    case (Some e)
    have "go_loop (ll_writeToBody wr) (l, s, n) = Ret (l', s1, n + int (nat m), Some e)"
      using m Some by (subst go_loop_unfold) (simp add: ll_writeToBody_def pop lo wr Let_def)
    moreover have "ll_rep l' (drop (length b) (concat (b # bs)))" using pop ll_repI by simp
    ultimately show ?thesis using m
      by (intro exI[of _ l'] exI[of _ s1] exI[of _ "nat m"] exI[of _ "length b"] exI[of _ "Some e"]) auto
  next
    case None
    then have mb: "m = glen b" using m by auto
    have "go_loop (ll_writeToBody wr) (l, s, n) = go_loop (ll_writeToBody wr) (l', s1, n + glen b)"
      using None mb by (subst go_loop_unfold) (simp add: ll_writeToBody_def pop lo wr Let_def)
    moreover obtain l2 s2 m2 k e where
      "go_loop (ll_writeToBody wr) (l', s1, n + glen b) = Ret (l2, s2, n + glen b + int m2, e)"
      "acc s2 = acc s1 @ take m2 (concat bs)" "m2 \<le> k" "k \<le> length (concat bs)"
      "ll_rep l2 (drop k (concat bs))" "e = None \<longrightarrow> m2 = length (concat bs)"
      using Cons.IH[OF pop(3), of s1 "n + glen b"] by blast
    ultimately show ?thesis using m mb
      by (intro exI[of _ l2] exI[of _ s2] exI[of _ "length b + m2"] exI[of _ "length b + k"] exI[of _ e]) auto
  qed
qed

lemma ll_WriteTo_spec:
  assumes w: "writer_ok wr acc" and "ll_rep l xs"
  shows "\<exists>l' s' n k e. ll_WriteTo wr s l = Ret (l', s', int n, e) \<and> acc s' = acc s @ take n xs \<and>
    n \<le> k \<and> k \<le> length xs \<and> ll_rep l' (drop k xs) \<and> (e = None \<longrightarrow> n = length xs)"
  using assms(2) ll_write_loop[OF w, of l _ _ s 0] by (force simp: ll_rep_def ll_WriteTo_def)

lemma ll_read_step:
  assumes ok: "reader_ok rd rem" and rd: "rd s ll_minRead = (s', data, m, err)" and rep: "ll_rep l xs"
  shows "ll_readFromBody mem rd (l, s, n) =
      (if err = None then Ret (Inl (ll_PushBack l data, s', n + m)) else Ret (Inr (l, s', n + m, None)))"
proof -
  note r = reader_okD[OF ok rd, unfolded ll_minRead_def, simplified]
  have "data \<noteq> [] \<or> err \<noteq> None" using r by auto
  moreover have "go_slice (go_copy (bs_bytes mem ll_minRead) data) 0 m = Ret data"
    using r by (simp add: go_slice_Ret go_copy_def ll_minRead_def)
  moreover have "glen (bs_bytes mem ll_minRead) = ll_minRead" by (simp add: ll_minRead_def)
  ultimately show ?thesis using r rd
    by (auto simp: ll_readFromBody_def Let_def ll_PushBack_def simp del: length_bs_bytes split: prod.splits)
qed

lemma ll_ReadFrom_spec:
  assumes ok: "reader_ok rd rem" and rep: "ll_rep l xs"
    and alone: "\<And>s len s' data m. rd s len = (s', data, m, Some EOF) \<Longrightarrow> data = []"
  shows "\<exists>l' s'. ll_ReadFrom mem rd s l = Ret (l', s', glen (rem s), None) \<and> rem s' = [] \<and>
    ll_rep l' (xs @ rem s)"
proof -
  let ?I = "\<lambda>(l', s', n). \<exists>ys. rem s = ys @ rem s' \<and> n = glen ys \<and> ll_rep l' (xs @ ys)"
  let ?Q = "\<lambda>(l', s', n, e). n = glen (rem s) \<and> e = None \<and> rem s' = [] \<and> ll_rep l' (xs @ rem s)"
  have "?I (l, s, 0)" using rep by simp
  then have "\<exists>r. go_loop (ll_readFromBody mem rd) (l, s, 0) = Ret r \<and> ?Q r"
  proof (rule go_loop_total[where m = "\<lambda>(l, s, n). length (rem s)"], goal_cases)
    case (1 st)
    obtain l1 s1 n where st: "st = (l1, s1, n)" by (cases st)
    with 1 obtain ys where ys: "rem s = ys @ rem s1" "n = glen ys" "ll_rep l1 (xs @ ys)" by auto
    obtain s2 data m err where rd: "rd s1 ll_minRead = (s2, data, m, err)" by (cases "rd s1 ll_minRead")
    note r = reader_okD[OF ok rd, unfolded ll_minRead_def, simplified]
    note step = ll_read_step[OF ok rd ys(3), of mem n]
    show ?case
    proof (cases "err = None")
      case True
      then have "data \<noteq> []" using r by auto
      with True step r ys ll_PushBack_spec[OF ys(3), of data] st show ?thesis by auto
    next
      case False
      then have "data = []" "err = Some EOF" "rem s2 = []" using r alone rd by auto
      with False step r ys st show ?thesis by auto
    qed
  qed
  then show ?thesis by (auto simp: ll_ReadFrom_def)
qed

lemma ll_ReadFrom_drops_last:
  assumes "ll_rep l xs" "rd s ll_minRead = (s', data, glen data, Some EOF)" "glen data \<le> ll_minRead"
  shows "ll_ReadFrom mem rd s l = Ret (l, s', glen data, None)"
proof -
  have "glen (bs_bytes mem ll_minRead) = ll_minRead" by (simp add: ll_minRead_def)
  moreover have "go_slice (go_copy (bs_bytes mem ll_minRead) data) 0 (glen data) = Ret data"
    using assms by (simp add: go_slice_Ret go_copy_def)
  ultimately show ?thesis
    unfolding ll_ReadFrom_def using assms
    by (subst go_loop_unfold) (simp add: ll_readFromBody_def Let_def del: length_bs_bytes)
qed

lemma ll_WriteTo_loses_node:
  assumes "ll_repA l as (b # bs)" "wr s b = (s', m, Some e)" "m \<le> glen b"
  shows "\<exists>l'. ll_WriteTo wr s l = Ret (l', s', m, Some e) \<and> ll_rep l' (concat bs)"
proof -
  from assms(1) obtain a as' l' where pop: "ll_pop l = (Some a, l')" "ll_repA l' as' bs"
    "ll_loose l' as' a b" by (cases rule: ll_repA_pop_cases) auto
  with assms have "ll_WriteTo wr s l = Ret (l', s', m, Some e)"
    unfolding ll_WriteTo_def
    by (subst go_loop_unfold) (simp add: ll_writeToBody_def Let_def ll_looseD[OF pop(3)])
  with pop ll_repI show ?thesis by blast
qed

section \<open>The list is a byte queue\<close>

lemma ll_Peek_rep:
  assumes "ll_rep l xs"
  shows "\<exists>ys k. ll_Peek l n = Ret ys \<and> concat ys = take k xs \<and> k \<le> length xs \<and>
    min (if n \<le> 0 then MaxInt32 else n) (glen xs) \<le> int k \<and> (xs \<noteq> [] \<longrightarrow> ys \<noteq> [] \<and> hd ys \<noteq> [])"
proof -
  let ?m = "if n \<le> 0 then MaxInt32 else n"
  from assms obtain as bs where bs: "ll_repA l as bs" "concat bs = xs" by (auto simp: ll_rep_def)
  from chunks_upto_prefix[of ?m bs] obtain k where
    "concat (chunks_upto ?m bs) = take k xs" "k \<le> length xs" "?m \<le> int k \<or> k = length xs"
    using bs(2) by blast
  moreover from this have "min ?m (glen xs) \<le> int k" by linarith
  moreover have "xs \<noteq> [] \<longrightarrow> chunks_upto ?m bs \<noteq> [] \<and> hd (chunks_upto ?m bs) \<noteq> []"
    using bs by (cases bs) (auto simp: ll_repA_def)
  ultimately show ?thesis using ll_Peek_spec[OF bs(1), of n] by blast
qed

lemma ll_put_rep: "ll_rep l xs \<Longrightarrow> glen xs + glen p \<le> 2 ^ 62 \<Longrightarrow>
    \<exists>l'. ll_put l p = Ret (l', glen p, None) \<and> ll_rep l' (xs @ p)"
  using ll_PushBack_spec by (simp add: ll_put_def)

lemma ll_Read_all:
  assumes "ll_rep l xs"
  shows "\<exists>l'. ll_Read l p = Ret (l', go_copy p xs, min (glen p) (glen xs), None) \<and> ll_rep l' (drop (length p) xs)"
proof -
  let ?k = "min (length p) (length xs)"
  have "drop ?k xs = drop (length p) xs" "int ?k = min (glen p) (glen xs)" by (auto simp: min_def)
  with ll_Read_spec[OF assms, of p] show ?thesis by auto
qed

lemma ll_Discard_all:
  assumes "ll_rep l xs"
  shows "\<exists>l'. ll_Discard l n = Ret (l', min (max 0 n) (glen xs), None) \<and> ll_rep l' (drop (nat n) xs)"
proof -
  let ?k = "min (nat n) (length xs)"
  have "drop ?k xs = drop (nat n) xs" "int ?k = min (max 0 n) (glen xs)" by (auto simp: min_def)
  with ll_Discard_spec[OF assms, of n] show ?thesis by auto
qed

lemma ll_Read_rep: "ll_rep l xs \<Longrightarrow>
    \<exists>l' e. ll_Read l p = Ret (l', go_copy p xs, min (glen p) (glen xs), e) \<and>
      ll_rep l' (drop (length p) xs) \<and> (xs \<noteq> [] \<and> p \<noteq> [] \<longrightarrow> e = None)"
  using ll_Read_all by blast

lemma ll_Discard_rep: "ll_rep l xs \<Longrightarrow>
    \<exists>l' e. ll_Discard l n = Ret (l', min (max 0 n) (glen xs), e) \<and> ll_rep l' (drop (nat n) xs) \<and>
      (xs \<noteq> [] \<and> 0 < n \<longrightarrow> e = None)"
  using ll_Discard_all by blast

interpretation llq: byte_buffer ll_rep ll_put ll_Read ll_Discard ll_Buffered ll_IsEmpty ll_Peek MaxInt32
  by unfold_locales (fact ll_put_rep ll_Read_rep ll_Discard_rep ll_Buffered_rep ll_IsEmpty_rep ll_Peek_rep)+

end
