(* ===== verification/ElasticBuffer.thy ===== *)
theory ElasticBuffer
  imports ElasticRing LinkedListBuffer
begin

text \<open>
  \<open>elastic.Buffer\<close> of \<open>pkg/buffer/elastic/elastic_ring_list_buffer.go\<close>, the outbound buffer of a
  connection: a ring for the first \<open>maxStaticBytes\<close> bytes and a linked list for the overflow. The bytes
  it holds are those of the ring followed by those of the list; every operation is specified on that
  sequence.
\<close>

section \<open>Model\<close>

record ebuf =
  eb_maxStatic :: int
  eb_ring :: er
  eb_list :: llist

definition eb_New :: "int \<Rightarrow> gerror + ebuf" where
  "eb_New maxStaticBytes =
     (if maxStaticBytes \<le> 0 then Inl ErrNegativeSize
      else Inr \<lparr>eb_maxStatic = maxStaticBytes, eb_ring = er_zero, eb_list = ll_zero\<rparr>)"

definition eb_Read :: "ebuf \<Rightarrow> byte list \<Rightarrow> (ebuf \<times> byte list \<times> int \<times> gerror option) go" where
  "eb_Read mb p =
     go_bind (er_Read (eb_ring mb) p) (\<lambda>(r, p, n, err).
     let mb = mb\<lparr>eb_ring := r\<rparr>
     in if n = glen p then Ret (mb, p, n, err)
        else go_bind (go_slice p n (glen p)) (\<lambda>rest.
             go_bind (ll_Read (eb_list mb) rest) (\<lambda>(l, rest, m, err).
             Ret (mb\<lparr>eb_list := l\<rparr>, take (nat n) p @ rest, n + m, err))))"

definition eb_Peek :: "ebuf \<Rightarrow> int \<Rightarrow> byte list list go" where
  "eb_Peek mb n =
     (let n = (if n \<le> 0 then MaxInt32 else n)
      in go_bind (er_Peek (eb_ring mb) n) (\<lambda>(head, tail).
         if er_Buffered (eb_ring mb) \<ge> n then Ret [head, tail]
         else ll_PeekWithBytes (eb_list mb) n [head, tail]))"

definition eb_Discard :: "ebuf \<Rightarrow> int \<Rightarrow> (ebuf \<times> int \<times> gerror option) go" where
  "eb_Discard mb n =
     go_bind (er_Discard (eb_ring mb) n) (\<lambda>(r, discarded, err).
     let mb = mb\<lparr>eb_ring := r\<rparr>
     in if n \<le> discarded then Ret (mb, discarded, err)
        else go_bind (ll_Discard (eb_list mb) (n - discarded)) (\<lambda>(l, m, err).
             Ret (mb\<lparr>eb_list := l\<rparr>, discarded + m, err)))"

definition eb_Write :: "stale \<Rightarrow> ring \<Rightarrow> ebuf \<Rightarrow> byte list \<Rightarrow> (ebuf \<times> int \<times> gerror option) go" where
  "eb_Write mem fresh mb p =
     (if \<not> ll_IsEmpty (eb_list mb) \<or> er_Buffered (eb_ring mb) \<ge> eb_maxStatic mb then
        Ret (mb\<lparr>eb_list := ll_PushBack (eb_list mb) p\<rparr>, glen p, None)
      else
        let writable = er_Available (eb_ring mb); n = glen p
        in if er_Len (eb_ring mb) \<ge> eb_maxStatic mb \<and> n > writable then
             go_bind (go_slice p 0 writable) (\<lambda>p1.
             go_bind (er_Write mem fresh (eb_ring mb) p1) (\<lambda>(r, _, _).
             go_bind (go_slice p writable (glen p)) (\<lambda>p2.
             Ret (mb\<lparr>eb_ring := r, eb_list := ll_PushBack (eb_list mb) p2\<rparr>, n, None))))
           else
             go_bind (er_Write mem fresh (eb_ring mb) p) (\<lambda>(r, n, err).
             Ret (mb\<lparr>eb_ring := r\<rparr>, n, err)))"

text \<open>\<open>for ... { mb.listBuffer.PushBack(b); n += len(b) }\<close>\<close>

fun eb_pushAll :: "ebuf \<Rightarrow> byte list list \<Rightarrow> int \<Rightarrow> ebuf \<times> int" where
  "eb_pushAll mb [] n = (mb, n)"
| "eb_pushAll mb (b # bs) n = eb_pushAll (mb\<lparr>eb_list := ll_PushBack (eb_list mb) b\<rparr>) bs (n + glen b)"

text \<open>The loop over \<open>bs\<close> with the break, and the loop that follows it.\<close>

fun eb_writevLoop ::
  "stale \<Rightarrow> ring \<Rightarrow> ebuf \<Rightarrow> int \<Rightarrow> byte list list \<Rightarrow> int \<Rightarrow> (ebuf \<times> int) go" where
  "eb_writevLoop mem fresh mb writable [] cum = Ret (mb, cum)"
| "eb_writevLoop mem fresh mb writable (b # bs) cum =
     (let cum = cum + glen b
      in if glen b > writable then
           go_bind (go_slice b 0 writable) (\<lambda>b1.
           go_bind (er_Write mem fresh (eb_ring mb) b1) (\<lambda>(r, _, _).
           go_bind (go_slice b writable (glen b)) (\<lambda>b2.
           Ret (eb_pushAll (mb\<lparr>eb_ring := r, eb_list := ll_PushBack (eb_list mb) b2\<rparr>) bs cum))))
         else
           go_bind (er_Write mem fresh (eb_ring mb) b) (\<lambda>(r, n, _).
           eb_writevLoop mem fresh (mb\<lparr>eb_ring := r\<rparr>) (writable - n) bs cum))"

definition eb_Writev ::
  "stale \<Rightarrow> ring \<Rightarrow> ebuf \<Rightarrow> byte list list \<Rightarrow> (ebuf \<times> int \<times> gerror option) go" where
  "eb_Writev mem fresh mb bs =
     (if \<not> ll_IsEmpty (eb_list mb) \<or> er_Buffered (eb_ring mb) \<ge> eb_maxStatic mb then
        (case eb_pushAll mb bs 0 of (mb, n) \<Rightarrow> Ret (mb, n, None))
      else
        let writable = er_Available (eb_ring mb);
            writable = (if er_Len (eb_ring mb) < eb_maxStatic mb
                        then eb_maxStatic mb - er_Buffered (eb_ring mb) else writable)
        in go_bind (eb_writevLoop mem fresh mb writable bs 0) (\<lambda>(mb, cum). Ret (mb, cum, None)))"

definition eb_ReadFrom ::
  "stale \<Rightarrow> ring \<Rightarrow> 's reader \<Rightarrow> 's \<Rightarrow> ebuf \<Rightarrow> (ebuf \<times> 's \<times> int \<times> gerror option) go" where
  "eb_ReadFrom mem fresh rd s mb =
     (if \<not> ll_IsEmpty (eb_list mb) \<or> er_Buffered (eb_ring mb) \<ge> eb_maxStatic mb then
        go_bind (ll_ReadFrom mem rd s (eb_list mb)) (\<lambda>(l, s, n, e). Ret (mb\<lparr>eb_list := l\<rparr>, s, n, e))
      else
        go_bind (er_ReadFrom mem fresh rd s (eb_ring mb)) (\<lambda>(r, s, n, e). Ret (mb\<lparr>eb_ring := r\<rparr>, s, n, e)))"

definition eb_WriteTo :: "'s writer \<Rightarrow> 's \<Rightarrow> ebuf \<Rightarrow> (ebuf \<times> 's \<times> int \<times> gerror option) go" where
  "eb_WriteTo wr s mb =
     go_bind (er_WriteTo wr s (eb_ring mb)) (\<lambda>(r, s, n, err).
     let mb = mb\<lparr>eb_ring := r\<rparr>
     in if err \<noteq> None then Ret (mb, s, n, err)
        else go_bind (ll_WriteTo wr s (eb_list mb)) (\<lambda>(l, s, m, err).
             Ret (mb\<lparr>eb_list := l\<rparr>, s, n + m, err)))"

definition eb_Buffered :: "ebuf \<Rightarrow> int" where
  "eb_Buffered mb = er_Buffered (eb_ring mb) + ll_Buffered (eb_list mb)"

definition eb_IsEmpty :: "ebuf \<Rightarrow> bool" where
  "eb_IsEmpty mb \<longleftrightarrow> er_IsEmpty (eb_ring mb) \<and> ll_IsEmpty (eb_list mb)"

definition eb_Reset :: "ebuf \<Rightarrow> int \<Rightarrow> ebuf go" where
  "eb_Reset mb maxStaticBytes =
     (let mb = mb\<lparr>eb_ring := er_Reset (eb_ring mb)\<rparr>
      in go_bind (ll_Reset (eb_list mb)) (\<lambda>l.
         let mb = mb\<lparr>eb_list := l\<rparr>
         in Ret (if maxStaticBytes > 0 then mb\<lparr>eb_maxStatic := maxStaticBytes\<rparr> else mb)))"

definition eb_Release :: "ebuf \<Rightarrow> ebuf go" where
  "eb_Release mb =
     (let mb = mb\<lparr>eb_ring := er_Done (eb_ring mb)\<rparr>
      in go_bind (ll_Reset (eb_list mb)) (\<lambda>l. Ret (mb\<lparr>eb_list := l\<rparr>)))"

section \<open>Specification\<close>

definition eb_rep :: "ebuf \<Rightarrow> byte list \<Rightarrow> bool" where
  "eb_rep mb xs \<longleftrightarrow> 0 < eb_maxStatic mb \<and>
     (\<exists>rs ls. er_rep (eb_ring mb) rs \<and> ll_rep (eb_list mb) ls \<and> xs = rs @ ls)"

lemma eb_repI:
  "0 < eb_maxStatic mb \<Longrightarrow> er_rep (eb_ring mb) rs \<Longrightarrow> ll_rep (eb_list mb) ls \<Longrightarrow> rs @ ls = xs \<Longrightarrow> eb_rep mb xs"
  unfolding eb_rep_def by blast

lemma eb_repE:
  assumes "eb_rep mb xs"
  obtains rs ls where "0 < eb_maxStatic mb" "er_rep (eb_ring mb) rs" "ll_rep (eb_list mb) ls" "xs = rs @ ls"
  using assms unfolding eb_rep_def by blast

lemma ll_zero_rep: "ll_rep ll_zero []"
  using ll_repI[OF ll_repA_zero] by simp

lemma eb_New_rep: "0 < n \<Longrightarrow> \<exists>mb. eb_New n = Inr mb \<and> eb_rep mb []"
  using ll_zero_rep by (auto simp: eb_New_def intro: eb_repI)

lemma eb_Buffered_rep: "eb_rep mb xs \<Longrightarrow> eb_Buffered mb = glen xs"
  by (elim eb_repE) (simp add: eb_Buffered_def er_Buffered_rep ll_Buffered_rep)

lemma eb_IsEmpty_rep: "eb_rep mb xs \<Longrightarrow> eb_IsEmpty mb \<longleftrightarrow> xs = []"
  by (elim eb_repE) (simp add: eb_IsEmpty_def er_IsEmpty_rep ll_IsEmpty_rep)

lemma eb_Read_rep:
  assumes "eb_rep mb xs"
  shows "\<exists>mb' e. eb_Read mb p = Ret (mb', go_copy p xs, min (glen p) (glen xs), e) \<and>
    eb_rep mb' (drop (length p) xs) \<and> (xs \<noteq> [] \<and> p \<noteq> [] \<longrightarrow> e = None)"
proof -
  from assms obtain rs ls where r: "0 < eb_maxStatic mb" "er_rep (eb_ring mb) rs" "ll_rep (eb_list mb) ls"
    and xs: "xs = rs @ ls" by (rule eb_repE)
  from er_Read_rep[OF r(2), of p] obtain b1 e1 where
    b1: "er_Read (eb_ring mb) p = Ret (b1, go_copy p rs, min (glen p) (glen rs), e1)"
    "er_rep b1 (drop (length p) rs)" "rs \<noteq> [] \<and> p \<noteq> [] \<longrightarrow> e1 = None" by blast
  show ?thesis
  proof (cases "length p \<le> length rs")
    case True
    then have "eb_Read mb p = Ret (mb\<lparr>eb_ring := b1\<rparr>, go_copy p xs, min (glen p) (glen xs), e1)"
      using b1 xs by (auto simp: eb_Read_def Let_def go_copy_def)
    moreover have "eb_rep (mb\<lparr>eb_ring := b1\<rparr>) (drop (length p) xs)"
      using True r b1 xs by (intro eb_repI) auto
    ultimately show ?thesis using b1(3) True by fastforce
  next
    case False
    let ?rest = "drop (length rs) p"
    from ll_Read_all[OF r(3), of ?rest] obtain l1 where
      l1: "ll_Read (eb_list mb) ?rest = Ret (l1, go_copy ?rest ls, min (glen ?rest) (glen ls), None)"
      "ll_rep l1 (drop (length ?rest) ls)" by blast
    let ?mb = "mb\<lparr>eb_ring := b1, eb_list := l1\<rparr>"
    have "go_slice (go_copy p rs) (glen rs) (glen p) = Ret ?rest"
      using False by (simp add: go_slice_Ret go_copy_def)
    then have "eb_Read mb p = Ret (?mb, rs @ go_copy ?rest ls, min (glen p) (glen xs), None)"
      using False b1 l1 xs by (simp add: eb_Read_def Let_def go_copy_fits min_def)
    moreover have "rs @ go_copy ?rest ls = go_copy p xs" using False xs by (simp add: go_copy_def add.commute)
    moreover have "eb_rep ?mb (drop (length p) xs)" using False r b1 l1 xs by (intro eb_repI) auto
    ultimately show ?thesis by auto
  qed
qed

lemma eb_Discard_rep:
  assumes "eb_rep mb xs"
  shows "\<exists>mb' e. eb_Discard mb n = Ret (mb', min (max 0 n) (glen xs), e) \<and> eb_rep mb' (drop (nat n) xs) \<and>
    (xs \<noteq> [] \<and> 0 < n \<longrightarrow> e = None)"
proof -
  from assms obtain rs ls where r: "0 < eb_maxStatic mb" "er_rep (eb_ring mb) rs" "ll_rep (eb_list mb) ls"
    and xs: "xs = rs @ ls" by (rule eb_repE)
  from er_Discard_rep[OF r(2), of n] obtain b1 e1 where
    b1: "er_Discard (eb_ring mb) n = Ret (b1, min (max 0 n) (glen rs), e1)"
    "er_rep b1 (drop (nat n) rs)" "rs \<noteq> [] \<and> 0 < n \<longrightarrow> e1 = None" by blast
  show ?thesis
  proof (cases "n \<le> glen rs")
    case True
    then have "eb_Discard mb n = Ret (mb\<lparr>eb_ring := b1\<rparr>, min (max 0 n) (glen xs), e1)"
      using b1 xs by (simp add: eb_Discard_def Let_def min_def max_def)
    moreover have "eb_rep (mb\<lparr>eb_ring := b1\<rparr>) (drop (nat n) xs)"
      using True r b1 xs by (intro eb_repI) auto
    moreover have "0 < n \<longrightarrow> rs \<noteq> []" using True by auto
    ultimately show ?thesis using b1(3) by blast
  next
    case False
    from ll_Discard_all[OF r(3), of "n - glen rs"] obtain l1 where
      l1: "ll_Discard (eb_list mb) (n - glen rs) = Ret (l1, min (n - glen rs) (glen ls), None)"
      "ll_rep l1 (drop (nat (n - glen rs)) ls)" using False by auto
    let ?mb = "mb\<lparr>eb_ring := b1, eb_list := l1\<rparr>"
    have "eb_Discard mb n = Ret (?mb, min (max 0 n) (glen xs), None)"
      using False b1 l1 xs by (simp add: eb_Discard_def Let_def min_def max_def)
    moreover have "eb_rep ?mb (drop (nat n) xs)"
      using False r b1 l1 xs by (intro eb_repI) (auto simp: nat_minus_int)
    ultimately show ?thesis by blast
  qed
qed

lemma concat_filter_nonempty: "concat (filter (\<lambda>b. b \<noteq> []) bs) = concat bs"
  by (induction bs) auto

lemma eb_Peek_rep:
  assumes "eb_rep mb xs"
  shows "\<exists>ys k. eb_Peek mb n = Ret ys \<and> concat ys = take k xs \<and> k \<le> length xs \<and>
    min (if n \<le> 0 then MaxInt32 else n) (glen xs) \<le> int k \<and> (xs \<noteq> [] \<longrightarrow> ys \<noteq> [] \<and> hd ys \<noteq> [])"
proof -
  define m where "m = (if n \<le> 0 then MaxInt32 else n)"
  have m: "0 < m" by (simp add: m_def MaxInt32_def)
  from assms obtain rs ls where r: "er_rep (eb_ring mb) rs" "ll_rep (eb_list mb) ls"
    and xs: "xs = rs @ ls" by (rule eb_repE)
  obtain h t where ht: "er_Peek (eb_ring mb) m = Ret (h, t)" "h @ t = take (nat m) rs" "rs \<noteq> [] \<longrightarrow> h \<noteq> []"
    using er_Peek_rep[OF r(1), of m] m by auto
  have buf: "er_Buffered (eb_ring mb) = glen rs" using r er_Buffered_rep by blast
  show ?thesis
  proof (cases "glen rs \<ge> m")
    case True
    then have "eb_Peek mb n = Ret [h, t]" using ht buf by (simp add: eb_Peek_def m_def Let_def)
    moreover have "concat [h, t] = take (nat m) xs" "nat m \<le> length xs" "min m (glen xs) \<le> int (nat m)"
      using True ht xs m by auto
    moreover have "hd [h, t] \<noteq> []" using ht True m by auto
    ultimately show ?thesis unfolding m_def by blast
  next
    case False
    obtain as bs where bs: "ll_repA (eb_list mb) as bs" "concat bs = ls" using r(2) by (auto simp: ll_rep_def)
    let ?cs = "filter (\<lambda>b. b \<noteq> []) [h, t] @ bs"
    have "concat ?cs = xs"
      unfolding concat_append concat_filter_nonempty using ht False bs xs by simp
    moreover obtain k where k: "concat (chunks_upto m ?cs) = take k (concat ?cs)" "k \<le> length (concat ?cs)"
      "m \<le> int k \<or> k = length (concat ?cs)" using chunks_upto_prefix by blast
    moreover have "eb_Peek mb n = Ret (chunks_upto m ?cs)"
      using False ht buf ll_PeekWithBytes_spec[OF bs(1), of m "[h, t]"] m
      by (simp add: eb_Peek_def m_def[symmetric] Let_def)
    moreover have "min m (glen xs) \<le> int k" using calculation by auto
    moreover have "chunks_upto m ?cs \<noteq> [] \<and> hd (chunks_upto m ?cs) \<noteq> []" if "xs \<noteq> []"
    proof -
      have "?cs \<noteq> []" using that \<open>concat ?cs = xs\<close> by auto
      moreover have "[] \<notin> set ?cs" using bs(1) by (auto simp: ll_repA_def)
      ultimately show ?thesis by (rule chunks_upto_hd)
    qed
    ultimately show ?thesis unfolding m_def by auto
  qed
qed

lemma eb_pushAll_rep:
  "0 < eb_maxStatic mb \<Longrightarrow> er_rep (eb_ring mb) rs \<Longrightarrow> ll_rep (eb_list mb) ls \<Longrightarrow>
   \<exists>mb'. eb_pushAll mb bs n = (mb', n + glen (concat bs)) \<and> eb_rep mb' (rs @ ls @ concat bs)"
proof (induction bs arbitrary: mb ls n)
  case Nil
  then show ?case by (auto intro: eb_repI)
next
  case (Cons b bs)
  from Cons.IH[of "mb\<lparr>eb_list := ll_PushBack (eb_list mb) b\<rparr>" "ls @ b" "n + glen b"] Cons.prems
    ll_PushBack_spec[OF Cons.prems(3), of b]
  show ?case by (auto simp: add.assoc)
qed

lemma eb_Reset_rep:
  assumes "eb_rep mb xs"
  shows "\<exists>mb'. eb_Reset mb n = Ret mb' \<and> eb_rep mb' []"
  using assms ll_Reset_spec er_Reset_rep by (elim eb_repE) (fastforce simp: eb_Reset_def Let_def intro: eb_repI)

lemma eb_Release_rep:
  assumes "eb_rep mb xs"
  shows "\<exists>mb'. eb_Release mb = Ret mb' \<and> eb_rep mb' [] \<and> eb_ring mb' = er_zero"
proof -
  from assms obtain rs ls where r: "0 < eb_maxStatic mb" "er_rep (eb_ring mb) rs" "ll_rep (eb_list mb) ls"
    by (rule eb_repE)
  obtain l where "ll_Reset (eb_list mb) = Ret l" "ll_rep l []" using ll_Reset_spec[OF r(3)] by blast
  moreover have "er_Done (eb_ring mb) = er_zero"
    by (cases "eb_ring mb" rule: er_cases) (auto simp: er_Done_def er_zero_def)
  ultimately show ?thesis using r(1) by (auto simp: eb_Release_def Let_def intro: eb_repI)
qed

text \<open>With the ring nil, \<open>WriteTo\<close> gives up although the list holds data.\<close>

lemma eb_WriteTo_ring_nil:
  "eb_ring mb = er_zero \<Longrightarrow> eb_WriteTo wr s mb = Ret (mb, s, 0, Some ErrIsEmpty)"
  by (cases mb) (simp add: eb_WriteTo_def er_WriteTo_def er_zero_def)

context ring_source
begin

lemma eb_Write_rep:
  assumes rep: "eb_rep mb xs" and fits: "glen xs + glen p \<le> 2 ^ 62"
  shows "\<exists>mb'. eb_Write mem fresh mb p = Ret (mb', glen p, None) \<and> eb_rep mb' (xs @ p)"
proof -
  from rep obtain rs ls where r: "0 < eb_maxStatic mb" "er_rep (eb_ring mb) rs" "ll_rep (eb_list mb) ls"
    and xs: "xs = rs @ ls" by (rule eb_repE)
  have pushed: "ll_rep (ll_PushBack (eb_list mb) q) (ls @ q)" for q by (rule ll_PushBack_spec[OF r(3)])
  let ?w = "er_Available (eb_ring mb)"
  consider (list) "\<not> ll_IsEmpty (eb_list mb) \<or> er_Buffered (eb_ring mb) \<ge> eb_maxStatic mb"
    | (both) "ll_IsEmpty (eb_list mb)" "er_Buffered (eb_ring mb) < eb_maxStatic mb"
        "er_Len (eb_ring mb) \<ge> eb_maxStatic mb \<and> glen p > ?w"
    | (ring) "ll_IsEmpty (eb_list mb)" "er_Buffered (eb_ring mb) < eb_maxStatic mb"
        "\<not> (er_Len (eb_ring mb) \<ge> eb_maxStatic mb \<and> glen p > ?w)" by linarith
  then show ?thesis
  proof cases
    case list
    then show ?thesis using r xs pushed[of p] by (auto simp: eb_Write_def intro!: eb_repI)
  next
    case both
    then have w: "0 \<le> ?w" "?w \<le> glen p" using er_Available_nonneg[OF r(2)] by auto
    let ?p1 = "take (nat ?w) p" and ?p2 = "drop (nat ?w) p"
    have "glen rs + glen ?p1 \<le> 2 ^ 62" using fits xs by simp
    from er_Write_rep[OF r(2) this, of mem] obtain r' where
      "er_Write mem fresh (eb_ring mb) ?p1 = Ret (r', glen ?p1, None)" "er_rep r' (rs @ ?p1)" by blast
    then have "eb_Write mem fresh mb p =
        Ret (mb\<lparr>eb_ring := r', eb_list := ll_PushBack (eb_list mb) ?p2\<rparr>, glen p, None)"
      using both w by (simp add: eb_Write_def Let_def go_slice_Ret nat_minus_int)
    moreover have "ls = []" using both r ll_IsEmpty_rep by blast
    ultimately show ?thesis
      using r(1) pushed[of ?p2] \<open>er_rep r' _\<close> xs by (auto intro!: eb_repI)
  next
    case ring
    have "glen rs + glen p \<le> 2 ^ 62" using fits xs by simp
    from er_Write_rep[OF r(2) this, of mem] obtain r' where
      "er_Write mem fresh (eb_ring mb) p = Ret (r', glen p, None)" "er_rep r' (rs @ p)" by blast
    moreover have "ls = []" using ring r ll_IsEmpty_rep by blast
    ultimately show ?thesis using ring r xs by (auto simp: eb_Write_def Let_def intro!: eb_repI)
  qed
qed

lemma eb_writevLoop_rep:
  assumes "0 < eb_maxStatic mb" "er_rep (eb_ring mb) rs" "ll_rep (eb_list mb) []" "0 \<le> w"
    "glen rs + glen (concat bs) \<le> 2 ^ 62"
  shows "\<exists>mb'. eb_writevLoop mem fresh mb w bs cum = Ret (mb', cum + glen (concat bs)) \<and>
    eb_rep mb' (rs @ concat bs)"
  using assms
proof (induction bs arbitrary: mb rs w cum)
  case Nil
  then show ?case by (auto intro: eb_repI)
next
  case (Cons b bs)
  show ?case
  proof (cases "glen b > w")
    case True
    let ?b1 = "take (nat w) b" and ?b2 = "drop (nat w) b"
    have "glen rs + glen ?b1 \<le> 2 ^ 62" using Cons.prems(5) by simp
    from er_Write_rep[OF Cons.prems(2) this, of mem] obtain r' where
      r': "er_Write mem fresh (eb_ring mb) ?b1 = Ret (r', glen ?b1, None)" "er_rep r' (rs @ ?b1)" by blast
    let ?mb = "mb\<lparr>eb_ring := r', eb_list := ll_PushBack (eb_list mb) ?b2\<rparr>"
    have "ll_rep (eb_list ?mb) ?b2" using ll_PushBack_spec[OF Cons.prems(3), of ?b2] by simp
    with eb_pushAll_rep[of ?mb "rs @ ?b1" ?b2 bs "cum + glen b"] Cons.prems(1) r' obtain mb' where
      "eb_pushAll ?mb bs (cum + glen b) = (mb', cum + glen b + glen (concat bs))"
      "eb_rep mb' (rs @ ?b1 @ ?b2 @ concat bs)" by auto
    with True r' Cons.prems show ?thesis
      by (simp add: Let_def go_slice_Ret nat_minus_int add.assoc append_assoc[symmetric] del: append_assoc)
  next
    case False
    have "glen rs + glen b \<le> 2 ^ 62" using Cons.prems(5) by simp
    from er_Write_rep[OF Cons.prems(2) this, of mem] obtain r' where
      r': "er_Write mem fresh (eb_ring mb) b = Ret (r', glen b, None)" "er_rep r' (rs @ b)" by blast
    with False Cons.IH[of "mb\<lparr>eb_ring := r'\<rparr>" "rs @ b" "w - glen b" "cum + glen b"] Cons.prems
    show ?thesis by (simp add: Let_def add.assoc)
  qed
qed

lemma eb_Writev_rep:
  assumes rep: "eb_rep mb xs" and fits: "glen xs + glen (concat bs) \<le> 2 ^ 62"
  shows "\<exists>mb'. eb_Writev mem fresh mb bs = Ret (mb', glen (concat bs), None) \<and> eb_rep mb' (xs @ concat bs)"
proof -
  from rep obtain rs ls where r: "0 < eb_maxStatic mb" "er_rep (eb_ring mb) rs" "ll_rep (eb_list mb) ls"
    and xs: "xs = rs @ ls" by (rule eb_repE)
  show ?thesis
  proof (cases "\<not> ll_IsEmpty (eb_list mb) \<or> er_Buffered (eb_ring mb) \<ge> eb_maxStatic mb")
    case True
    with eb_pushAll_rep[OF r, of bs 0] xs show ?thesis by (auto simp: eb_Writev_def)
  next
    case False
    then have ls: "ls = []" using r ll_IsEmpty_rep by blast
    let ?w = "if er_Len (eb_ring mb) < eb_maxStatic mb then eb_maxStatic mb - er_Buffered (eb_ring mb)
      else er_Available (eb_ring mb)"
    have "0 \<le> ?w" using False er_Available_nonneg[OF r(2)] by simp
    with eb_writevLoop_rep[OF r(1,2) _ this, of bs mem 0] r(3) ls fits xs obtain mb' where
      "eb_writevLoop mem fresh mb ?w bs 0 = Ret (mb', glen (concat bs))" "eb_rep mb' (rs @ concat bs)" by auto
    then show ?thesis using False ls xs unfolding eb_Writev_def Let_def by auto
  qed
qed

end

sublocale ring_source \<subseteq> ebq: byte_buffer eb_rep "eb_Write mem fresh" eb_Read eb_Discard eb_Buffered
  eb_IsEmpty eb_Peek MaxInt32 for mem
  by unfold_locales (fact eb_Write_rep eb_Read_rep eb_Discard_rep eb_Buffered_rep eb_IsEmpty_rep eb_Peek_rep)+

context ring_source
begin

lemma eb_run_refines:
  assumes "eb_rep mb xs" "glen xs + glen (q_written ops) \<le> 2 ^ 62"
  shows "\<exists>mb' ys outs. q_run (eb_Write mem fresh) eb_Read eb_Discard mb ops = Ret (mb', outs) \<and>
    q_spec xs ops = (ys, outs) \<and> eb_rep mb' ys"
  by (rule ebq.run_refines[OF assms])

end

end
