(* ===== verification/Connection.thy ===== *)
theory Connection
  imports ElasticBuffer SockAddr
begin

text \<open>
  A connection of \<open>connection.go\<close>: its record, its creation and release, and the operations a callback
  uses to consume what the peer sent. They read two places in turn, the ring with the bytes earlier
  callbacks left over and the slice with the bytes of the latest read, and are specified on the
  concatenation of the two. The operations that write, which involve the event loop, are in the theory
  of the event loop.

  Slices are values here, so the model does not show that \<open>c.buffer\<close> shares memory with the buffer of
  the event loop, nor that \<open>Next\<close> and \<open>Peek\<close> may return memory of the ring or of \<open>loop.cache\<close>, whose only
  purpose is to hold that result.
\<close>

section \<open>Model\<close>

record conn =
  c_ctx :: "nat option"
  c_peer :: "sockaddr option"
  c_localAddr :: "netaddr option"
  c_remoteAddr :: "netaddr option"
  c_out :: "ebuf option"
  c_attached :: bool
  c_in :: er
  c_buf :: "byte list"
  c_fd :: int
  c_isDatagram :: bool
  c_opened :: bool
  c_isWebSock :: bool

text \<open>\<open>c.outboundBuffer, _ = elastic.New(cap)\<close> drops the error and leaves \<open>nil\<close> behind.\<close>

definition newTCPConn ::
  "int \<Rightarrow> int \<Rightarrow> sockaddr option \<Rightarrow> netaddr option \<Rightarrow> netaddr option \<Rightarrow> conn" where
  "newTCPConn writeBufferCap fd sa localAddr remoteAddr =
     \<lparr>c_ctx = None, c_peer = sa, c_localAddr = localAddr, c_remoteAddr = remoteAddr,
      c_out = (case eb_New writeBufferCap of Inl e \<Rightarrow> None | Inr mb \<Rightarrow> Some mb), c_attached = True,
      c_in = er_zero, c_buf = [], c_fd = fd, c_isDatagram = False, c_opened = False, c_isWebSock = False\<rparr>"

definition releaseTCP :: "conn \<Rightarrow> conn go" where
  "releaseTCP c =
     (let c = c\<lparr>c_opened := False, c_peer := None, c_ctx := None, c_buf := [], c_localAddr := None,
                c_remoteAddr := None, c_in := er_Done (c_in c)\<rparr>
      in case c_out c of
           None \<Rightarrow> Panic NilDereference
         | Some mb \<Rightarrow> go_bind (eb_Release mb) (\<lambda>mb. Ret (c\<lparr>c_out := Some mb, c_attached := False\<rparr>)))"

definition newUDPConn ::
  "(int \<Rightarrow> string option) \<Rightarrow> stale \<Rightarrow> int \<Rightarrow> netaddr option \<Rightarrow> sockaddr option \<Rightarrow> bool \<Rightarrow> conn go" where
  "newUDPConn ifname mem fd localAddr sa connected =
     go_bind (SockaddrToUDPAddr ifname mem sa) (\<lambda>remoteAddr.
     Ret \<lparr>c_ctx = None, c_peer = (if connected then None else sa), c_localAddr = localAddr,
       c_remoteAddr = remoteAddr, c_out = None, c_attached = False, c_in = er_zero, c_buf = [], c_fd = fd,
       c_isDatagram = True, c_opened = False, c_isWebSock = False\<rparr>)"

definition releaseUDP :: "conn \<Rightarrow> conn" where
  "releaseUDP c =
     c\<lparr>c_ctx := None, c_localAddr := None, c_remoteAddr := None, c_buf := [], c_attached := False\<rparr>"

definition c_resetBuffer :: "conn \<Rightarrow> conn" where
  "c_resetBuffer c = c\<lparr>c_buf := [], c_in := er_Reset (c_in c)\<rparr>"

definition c_Read :: "conn \<Rightarrow> byte list \<Rightarrow> (conn \<times> byte list \<times> int \<times> gerror option) go" where
  "c_Read c p =
     (if er_IsEmpty (c_in c) then
        let n = go_copied p (c_buf c)
        in go_bind (go_slice (c_buf c) n (glen (c_buf c))) (\<lambda>buf.
           Ret (c\<lparr>c_buf := buf\<rparr>, go_copy p (c_buf c), n, None))
      else
        go_bind (er_Read (c_in c) p) (\<lambda>(r, p, n, _).
        let c = c\<lparr>c_in := r\<rparr>
        in if n = glen p then Ret (c, p, n, None)
           else
             go_bind (go_slice p n (glen p)) (\<lambda>dst.
             let m = go_copied dst (c_buf c)
             in go_bind (go_copy_at p n (c_buf c)) (\<lambda>p.
                go_bind (go_slice (c_buf c) m (glen (c_buf c))) (\<lambda>buf.
                Ret (c\<lparr>c_buf := buf\<rparr>, p, n + m, None))))))"

definition c_Next :: "conn \<Rightarrow> int \<Rightarrow> (conn \<times> byte list \<times> gerror option) go" where
  "c_Next c n =
     (let inBufferLen = er_Buffered (c_in c); totalLen = inBufferLen + glen (c_buf c)
      in if n > totalLen then Ret (c, [], Some ErrShortBuffer)
         else
           let n = (if n \<le> 0 then totalLen else n)
           in if er_IsEmpty (c_in c) then
                go_bind (go_slice (c_buf c) 0 n) (\<lambda>res.
                go_bind (go_slice (c_buf c) n (glen (c_buf c))) (\<lambda>buf.
                Ret (c\<lparr>c_buf := buf\<rparr>, res, None)))
              else
                go_bind (er_Peek (c_in c) n) (\<lambda>(head, tail).
                go_bind
                  (if glen head \<ge> n then go_bind (go_slice head 0 n) (\<lambda>res. Ret (c, res))
                   else if inBufferLen \<ge> n then Ret (c, head @ tail)
                   else
                     let remaining = n - inBufferLen
                     in go_bind (go_slice (c_buf c) 0 remaining) (\<lambda>more.
                        go_bind (go_slice (c_buf c) remaining (glen (c_buf c))) (\<lambda>buf.
                        Ret (c\<lparr>c_buf := buf\<rparr>, head @ tail @ more))))
                  (\<lambda>(c, res).
                    go_bind (er_Discard (c_in c) n) (\<lambda>(r, _, _). Ret (c\<lparr>c_in := r\<rparr>, res, None)))))"

definition c_Peek :: "conn \<Rightarrow> int \<Rightarrow> (byte list \<times> gerror option) go" where
  "c_Peek c n =
     (let inBufferLen = er_Buffered (c_in c); totalLen = inBufferLen + glen (c_buf c)
      in if n > totalLen then Ret ([], Some ErrShortBuffer)
         else
           let n = (if n \<le> 0 then totalLen else n)
           in if er_IsEmpty (c_in c) then go_bind (go_slice (c_buf c) 0 n) (\<lambda>res. Ret (res, None))
              else
                go_bind (er_Peek (c_in c) n) (\<lambda>(head, tail).
                if glen head \<ge> n then go_bind (go_slice head 0 n) (\<lambda>res. Ret (res, None))
                else if inBufferLen \<ge> n then Ret (head @ tail, None)
                else
                  go_bind (go_slice (c_buf c) 0 (n - inBufferLen)) (\<lambda>more.
                  Ret (head @ tail @ more, None))))"

definition c_Discard :: "conn \<Rightarrow> int \<Rightarrow> (conn \<times> int \<times> gerror option) go" where
  "c_Discard c n =
     (let inBufferLen = er_Buffered (c_in c); tempBufferLen = glen (c_buf c)
      in if inBufferLen + tempBufferLen < n \<or> n \<le> 0 then
           Ret (c_resetBuffer c, inBufferLen + tempBufferLen, None)
         else if er_IsEmpty (c_in c) then
           go_bind (go_slice (c_buf c) n (glen (c_buf c))) (\<lambda>buf. Ret (c\<lparr>c_buf := buf\<rparr>, n, None))
         else
           go_bind (er_Discard (c_in c) n) (\<lambda>(r, discarded, _).
           let c = c\<lparr>c_in := r\<rparr>
           in if discarded < inBufferLen then Ret (c, discarded, None)
              else
                let remaining = n - inBufferLen
                in go_bind (go_slice (c_buf c) remaining (glen (c_buf c))) (\<lambda>buf.
                   Ret (c\<lparr>c_buf := buf\<rparr>, n, None))))"

definition c_WriteTo :: "'s writer \<Rightarrow> 's \<Rightarrow> conn \<Rightarrow> (conn \<times> 's \<times> int \<times> gerror option) go" where
  "c_WriteTo wr s c =
     go_bind
       (if \<not> er_IsEmpty (c_in c) then
          go_bind (er_WriteTo wr s (c_in c)) (\<lambda>(r, s, n, err). Ret (c\<lparr>c_in := r\<rparr>, s, n, err))
        else Ret (c, s, 0, None))
       (\<lambda>(c, s, n, err).
         if err \<noteq> None then Ret (c, s, n, err)
         else (case wr s (c_buf c) of (s, m, err) \<Rightarrow>
                go_bind (go_slice (c_buf c) m (glen (c_buf c))) (\<lambda>buf.
                Ret (c\<lparr>c_buf := buf\<rparr>, s, n + m, err))))"

definition c_InboundBuffered :: "conn \<Rightarrow> int" where
  "c_InboundBuffered c = er_Buffered (c_in c) + glen (c_buf c)"

definition c_OutboundBuffered :: "conn \<Rightarrow> int go" where
  "c_OutboundBuffered c =
     (case c_out c of None \<Rightarrow> Panic NilDereference | Some mb \<Rightarrow> Ret (eb_Buffered mb))"

section \<open>The contract of the inbound side\<close>

text \<open>What a protocol codec relies on: a stream of bytes it can look at and drop from the front.\<close>

locale inbound_stream =
  fixes holds :: "'c \<Rightarrow> byte list \<Rightarrow> bool"
    and peekc :: "'c \<Rightarrow> int \<Rightarrow> (byte list \<times> gerror option) go"
    and discardc :: "'c \<Rightarrow> int \<Rightarrow> ('c \<times> int \<times> gerror option) go"
  assumes peekc_short: "holds c xs \<Longrightarrow> glen xs < n \<Longrightarrow> peekc c n = Ret ([], Some ErrShortBuffer)"
    and peekc_some: "holds c xs \<Longrightarrow> 0 < n \<Longrightarrow> n \<le> glen xs \<Longrightarrow> peekc c n = Ret (take (nat n) xs, None)"
    and discardc_some: "holds c xs \<Longrightarrow> 0 < n \<Longrightarrow> n \<le> glen xs \<Longrightarrow>
      \<exists>c'. discardc c n = Ret (c', n, None) \<and> holds c' (drop (nat n) xs)"

definition c_holds :: "conn \<Rightarrow> byte list \<Rightarrow> bool" where
  "c_holds c xs \<longleftrightarrow> (\<exists>rs. er_rep (c_in c) rs \<and> xs = rs @ c_buf c)"

lemma c_holdsE:
  assumes "c_holds c xs"
  obtains rs where "er_rep (c_in c) rs" "xs = rs @ c_buf c" "er_Buffered (c_in c) = glen rs"
    "er_IsEmpty (c_in c) \<longleftrightarrow> rs = []"
  using assms er_Buffered_rep er_IsEmpty_rep unfolding c_holds_def by blast

lemma c_Read_spec:
  assumes "c_holds c xs"
  shows "\<exists>c'. c_Read c p = Ret (c', go_copy p xs, min (glen p) (glen xs), None) \<and> c_holds c' (drop (length p) xs)"
proof -
  from assms obtain rs where rs: "er_rep (c_in c) rs" "xs = rs @ c_buf c" "er_IsEmpty (c_in c) \<longleftrightarrow> rs = []"
    by (rule c_holdsE)
  show ?thesis
  proof (cases "rs = []")
    case True
    let ?n = "min (length p) (length xs)"
    have "go_copied p xs = int ?n" by (simp add: go_copied_def of_nat_min)
    then have "c_Read c p = Ret (c\<lparr>c_buf := drop ?n xs\<rparr>, go_copy p xs, min (glen p) (glen xs), None)"
      using True rs by (simp add: c_Read_def Let_def go_slice_Ret of_nat_min nat_min_int)
    moreover have "c_holds (c\<lparr>c_buf := drop ?n xs\<rparr>) (drop (length p) xs)"
      using True rs by (auto simp: c_holds_def min_def)
    ultimately show ?thesis by blast
  next
    case False
    from er_Read_rep[OF rs(1), of p] obtain r e where
      r: "er_Read (c_in c) p = Ret (r, go_copy p rs, min (glen p) (glen rs), e)" "er_rep r (drop (length p) rs)"
      by blast
    show ?thesis
    proof (cases "length p \<le> length rs")
      case True
      then have "c_Read c p = Ret (c\<lparr>c_in := r\<rparr>, go_copy p xs, min (glen p) (glen xs), None)"
        using False rs r by (simp add: c_Read_def Let_def go_copy_def)
      moreover have "c_holds (c\<lparr>c_in := r\<rparr>) (drop (length p) xs)"
        using True rs r by (auto simp: c_holds_def)
      ultimately show ?thesis by blast
    next
      case more: False
      let ?m = "min (length p - length rs) (length (c_buf c))"
      let ?c = "c\<lparr>c_in := r, c_buf := drop ?m (c_buf c)\<rparr>"
      have m: "go_copied (drop (length rs) p) (c_buf c) = int ?m"
        by (simp add: go_copied_def of_nat_min)
      have cnt: "glen rs + int ?m = min (glen p) (glen xs)" using more rs(2) by auto
      have cp: "rs @ go_copy (drop (length rs) p) (c_buf c) = go_copy p xs"
        using more rs(2) by (simp add: go_copy_def add.commute)
      have "c_Read c p = Ret (?c, rs @ go_copy (drop (length rs) p) (c_buf c), glen rs + int ?m, None)"
        using False more rs(3) r m
        by (simp add: c_Read_def Let_def go_slice_Ret go_copy_at_Ret go_copy_fits del: of_nat_min)
      then have "c_Read c p = Ret (?c, go_copy p xs, min (glen p) (glen xs), None)"
        by (simp only: cp cnt)
      moreover have "drop (length p) rs = []" using more by simp
      then have "c_holds ?c (drop (length p) xs)" using more rs r by (auto simp: c_holds_def min_def)
      ultimately show ?thesis by blast
    qed
  qed
qed


text \<open>The shared front part of \<open>Next\<close> and \<open>Peek\<close>: the first \<open>n\<close> bytes out of the two places.\<close>

lemma c_front_bytes:
  assumes "h @ t = take (nat n) rs" "0 < n" "n \<le> glen rs + glen b"
  shows "glen h \<ge> n \<Longrightarrow> take (nat n) h = take (nat n) (rs @ b)"
    "glen rs \<ge> n \<Longrightarrow> h @ t = take (nat n) (rs @ b)"
    "glen rs < n \<Longrightarrow> h @ t @ take (nat n - length rs) b = take (nat n) (rs @ b)"
proof -
  have len: "length h + length t = min (length rs) (nat n)" using arg_cong[OF assms(1), of length] by simp
  show "take (nat n) h = take (nat n) (rs @ b)" if "glen h \<ge> n"
  proof -
    have "length h + length t \<le> nat n" "length h + length t \<le> length rs" using len by auto
    then have "length t = 0" "nat n \<le> length rs" using that by linarith+
    with assms show ?thesis by simp
  qed
  show "h @ t = take (nat n) (rs @ b)" if "glen rs \<ge> n" using assms that by simp
  show "h @ t @ take (nat n - length rs) b = take (nat n) (rs @ b)" if "glen rs < n"
    using assms that by (simp add: append_assoc[symmetric] del: append_assoc)
qed

lemma c_Peek_spec:
  assumes "c_holds c xs"
  shows "c_Peek c n =
    (if n > glen xs then Ret ([], Some ErrShortBuffer)
     else Ret (take (if n \<le> 0 then length xs else nat n) xs, None))"
proof (cases "n > glen xs")
  case True
  with assms show ?thesis by (elim c_holdsE) (simp add: c_Peek_def Let_def)
next
  case False
  from assms obtain rs where rs: "er_rep (c_in c) rs" "xs = rs @ c_buf c" "er_Buffered (c_in c) = glen rs"
    "er_IsEmpty (c_in c) \<longleftrightarrow> rs = []" by (rule c_holdsE)
  define m where "m = (if n \<le> 0 then glen xs else n)"
  have m: "nat m = (if n \<le> 0 then length xs else nat n)" "m \<le> glen rs + glen (c_buf c)" "0 \<le> m"
    using False rs by (auto simp: m_def)
  have m_eq: "(if n \<le> 0 then glen rs + glen (c_buf c) else n) = m" using rs(2) by (simp add: m_def)
  show ?thesis
  proof (cases "rs = []")
    case True
    then have "c_Peek c n = go_bind (go_slice xs 0 m) (\<lambda>res. Ret (res, None))"
      using False rs by (simp add: c_Peek_def Let_def m_def)
    then show ?thesis using False True rs(2) m by (simp add: go_slice_Ret)
  next
    case ne: False
    then have "0 < glen xs" using rs(2) by (intro glen_pos) simp
    then have "0 < m" by (simp add: m_def)
    then obtain h t where ht: "er_Peek (c_in c) m = Ret (h, t)" "h @ t = take (nat m) rs"
      using er_Peek_rep[OF rs(1), of m] by auto
    note fb = c_front_bytes[OF ht(2) \<open>0 < m\<close> m(2)]
    have "c_Peek c n = (if glen h \<ge> m then go_bind (go_slice h 0 m) (\<lambda>res. Ret (res, None))
        else if glen rs \<ge> m then Ret (h @ t, None)
        else go_bind (go_slice (c_buf c) 0 (m - glen rs)) (\<lambda>more. Ret (h @ t @ more, None)))"
      unfolding c_Peek_def Let_def rs(3) m_eq using False ne rs(2,4) ht(1) by simp
    also have "\<dots> = Ret (take (nat m) xs, None)"
      using fb rs(2) m \<open>0 < m\<close> by (auto simp: go_slice_Ret nat_minus_int)
    finally show ?thesis using False m(1) by simp
  qed
qed


lemma c_Next_spec:
  assumes "c_holds c xs"
  shows "if n > glen xs then c_Next c n = Ret (c, [], Some ErrShortBuffer)
    else \<exists>c'. c_Next c n = Ret (c', take (if n \<le> 0 then length xs else nat n) xs, None) \<and>
           c_holds c' (drop (if n \<le> 0 then length xs else nat n) xs)"
proof (cases "n > glen xs")
  case True
  with assms show ?thesis by (elim c_holdsE) (simp add: c_Next_def Let_def)
next
  case False
  from assms obtain rs where rs: "er_rep (c_in c) rs" "xs = rs @ c_buf c" "er_Buffered (c_in c) = glen rs"
    "er_IsEmpty (c_in c) \<longleftrightarrow> rs = []" by (rule c_holdsE)
  define m where "m = (if n \<le> 0 then glen xs else n)"
  have m: "(if n \<le> 0 then length xs else nat n) = nat m" "m \<le> glen rs + glen (c_buf c)" "0 \<le> m"
    using False rs by (auto simp: m_def)
  have m_eq: "(if n \<le> 0 then glen rs + glen (c_buf c) else n) = m" using rs(2) by (simp add: m_def)
  have "\<exists>c'. c_Next c n = Ret (c', take (nat m) xs, None) \<and> c_holds c' (drop (nat m) xs)"
  proof (cases "rs = []")
    case True
    then have "c_Next c n = go_bind (go_slice xs 0 m) (\<lambda>res.
        go_bind (go_slice xs m (glen xs)) (\<lambda>buf. Ret (c\<lparr>c_buf := buf\<rparr>, res, None)))"
      using False rs by (simp add: c_Next_def Let_def m_def)
    then show ?thesis using True rs m by (auto simp: go_slice_Ret c_holds_def)
  next
    case ne: False
    then have "0 < glen xs" using rs(2) by (intro glen_pos) simp
    then have m0: "0 < m" by (simp add: m_def)
    then obtain h t where ht: "er_Peek (c_in c) m = Ret (h, t)" "h @ t = take (nat m) rs"
      using er_Peek_rep[OF rs(1), of m] by auto
    note fb = c_front_bytes[OF ht(2) m0 m(2)]
    from er_Discard_rep[OF rs(1), of m] obtain r e where
      r: "er_Discard (c_in c) m = Ret (r, min (max 0 m) (glen rs), e)" "er_rep r (drop (nat m) rs)" by blast
    let ?buf = "drop (nat m - length rs) (c_buf c)"
    have "c_Next c n = go_bind
        (if glen h \<ge> m then go_bind (go_slice h 0 m) (\<lambda>res. Ret (c, res))
         else if glen rs \<ge> m then Ret (c, h @ t)
         else go_bind (go_slice (c_buf c) 0 (m - glen rs)) (\<lambda>more.
              go_bind (go_slice (c_buf c) (m - glen rs) (glen (c_buf c))) (\<lambda>buf.
              Ret (c\<lparr>c_buf := buf\<rparr>, h @ t @ more))))
        (\<lambda>(c, res). go_bind (er_Discard (c_in c) m) (\<lambda>(r, _, _). Ret (c\<lparr>c_in := r\<rparr>, res, None)))"
      unfolding c_Next_def Let_def rs(3) m_eq using False ne rs(2,4) ht(1) by simp
    also have "\<dots> = Ret (c\<lparr>c_buf := ?buf, c_in := r\<rparr>, take (nat m) xs, None)"
    proof -
      have "length h \<le> length rs" using arg_cong[OF ht(2), of length] by simp
      then show ?thesis using fb rs(2) m m0 r(1) by (auto simp: go_slice_Ret nat_minus_int)
    qed
    finally show ?thesis using r(2) rs(2) by (auto simp: c_holds_def)
  qed
  then show ?thesis using False unfolding m(1) by simp
qed

lemma c_resetBuffer_holds: "c_holds c xs \<Longrightarrow> c_holds (c_resetBuffer c) []"
  using er_Reset_rep by (auto simp: c_holds_def c_resetBuffer_def)

lemma c_Discard_spec:
  assumes "c_holds c xs"
  shows "\<exists>c'. c_Discard c n = Ret (c', if n \<le> 0 \<or> n > glen xs then glen xs else n, None) \<and>
    c_holds c' (if n \<le> 0 then [] else drop (nat n) xs)"
proof -
  from assms obtain rs where rs: "er_rep (c_in c) rs" "xs = rs @ c_buf c" "er_Buffered (c_in c) = glen rs"
    "er_IsEmpty (c_in c) \<longleftrightarrow> rs = []" by (rule c_holdsE)
  consider (all) "n \<le> 0 \<or> n > glen xs" | (buf) "0 < n" "n \<le> glen xs" "rs = []"
    | (ring) "0 < n" "n \<le> glen xs" "rs \<noteq> []" by linarith
  then show ?thesis
  proof cases
    case all
    then have "c_Discard c n = Ret (c_resetBuffer c, glen xs, None)" using rs by (auto simp: c_Discard_def Let_def)
    with all c_resetBuffer_holds[OF assms] show ?thesis by auto
  next
    case buf
    then show ?thesis using rs by (auto simp: c_Discard_def Let_def go_slice_Ret c_holds_def)
  next
    case ring
    from er_Discard_rep[OF rs(1), of n] obtain r e where
      r: "er_Discard (c_in c) n = Ret (r, min (max 0 n) (glen rs), e)" "er_rep r (drop (nat n) rs)" by blast
    have "c_Discard c n = Ret (c\<lparr>c_in := r, c_buf := drop (nat n - length rs) (c_buf c)\<rparr>, n, None)"
    proof (cases "n < glen rs")
      case True
      then show ?thesis using ring rs r(1) by (cases c) (simp add: c_Discard_def Let_def)
    next
      case False
      then show ?thesis using ring rs r(1)
        by (simp add: c_Discard_def Let_def go_slice_Ret nat_minus_int)
    qed
    then show ?thesis using ring rs(2) r(2) by (auto simp: c_holds_def)
  qed
qed

lemma c_InboundBuffered_spec: "c_holds c xs \<Longrightarrow> c_InboundBuffered c = glen xs"
  by (elim c_holdsE) (simp add: c_InboundBuffered_def)

interpretation conn_in: inbound_stream c_holds c_Peek c_Discard
proof unfold_locales
  show "\<exists>c'. c_Discard c n = Ret (c', n, None) \<and> c_holds c' (drop (nat n) xs)"
    if "c_holds c xs" "0 < n" "n \<le> glen xs" for c xs n
    using c_Discard_spec[OF that(1), of n] that(2,3) by auto
qed (simp_all add: c_Peek_spec)

end
