(* ===== verification/EventLoop.thy ===== *)
theory EventLoop
  imports Connection
begin

text \<open>
  The event loop of \<open>eventloop.go\<close> together with the operations of \<open>connection.go\<close> that write, the
  dispatch of \<open>reactor_default_linux.go\<close> and \<open>connection_linux.go\<close>, and the poller operations of
  \<open>internal/netpoll/epoll_default_poller.go\<close> they use.

  The kernel is an argument, the record \<open>world\<close> of system calls over an unknown state \<open>'k\<close>; so are the
  memory and the rings the pools hand out (the \<open>i\<close>-th demand is answered by \<open>w_env i\<close>). Connections are
  objects in a store, addressed by natural numbers, because the code compares them by identity and
  keeps released ones reachable. User callbacks are programs over the connection's own methods
  (\<open>cprog\<close>): what a callback does next may depend on every result it has seen, and it returns after
  finitely many calls. Callbacks touch only the connection they are called for, and \<open>OnClose\<close> does not
  call methods of the connection that is being closed.
\<close>

section \<open>The environment\<close>

datatype ctlop = EPOLL_CTL_ADD | EPOLL_CTL_MOD | EPOLL_CTL_DEL

record 'k world =
  w_env :: "nat \<Rightarrow> stale \<times> ring"
  w_read :: "'k \<Rightarrow> int \<Rightarrow> int \<Rightarrow> 'k \<times> int \<times> byte list \<times> errno option"
  w_write :: "'k \<Rightarrow> int \<Rightarrow> byte list \<Rightarrow> 'k \<times> int \<times> errno option"
  w_writev :: "'k \<Rightarrow> int \<Rightarrow> byte list list \<Rightarrow> 'k \<times> int \<times> errno option"
  w_close :: "'k \<Rightarrow> int \<Rightarrow> 'k \<times> errno option"
  w_ctl :: "'k \<Rightarrow> ctlop \<Rightarrow> int \<Rightarrow> 32 word \<Rightarrow> 'k \<times> errno option"
  w_send :: "'k \<Rightarrow> int \<Rightarrow> byte list \<Rightarrow> 'k \<times> errno option"
  w_sendto :: "'k \<Rightarrow> int \<Rightarrow> byte list \<Rightarrow> sockaddr \<Rightarrow> 'k \<times> errno option"
  w_recvfrom :: "'k \<Rightarrow> int \<Rightarrow> int \<Rightarrow> 'k \<times> int \<times> byte list \<times> sockaddr option \<times> errno option"
  w_ifname :: "int \<Rightarrow> string option"

datatype action = ActNone | ActClose | ActShutdown

text \<open>A callback, as the calls it makes on its connection.\<close>

datatype 'r cprog =
    Finish 'r
  | PRead nat "byte list \<Rightarrow> 'r cprog"
  | PNext int "byte list \<times> gerror option \<Rightarrow> 'r cprog"
  | PPeek int "byte list \<times> gerror option \<Rightarrow> 'r cprog"
  | PDiscard int "int \<Rightarrow> 'r cprog"
  | PInboundBuffered "int \<Rightarrow> 'r cprog"
  | PWrite "byte list" "int \<times> gerror option \<Rightarrow> 'r cprog"
  | PWritev "byte list list" "int \<times> gerror option \<Rightarrow> 'r cprog"
  | PFlush "gerror option \<Rightarrow> 'r cprog"
  | PAsyncWrite "byte list" "gerror option \<Rightarrow> 'r cprog"
  | PAsyncWritev "byte list list" "gerror option \<Rightarrow> 'r cprog"
  | POutboundBuffered "int \<Rightarrow> 'r cprog"
  | PWake "gerror option \<Rightarrow> 'r cprog"
  | PClose "gerror option \<Rightarrow> 'r cprog"

record 'u handler =
  h_OnOpen :: "nat \<Rightarrow> 'u \<Rightarrow> ('u \<times> byte list option \<times> action) cprog"
  h_OnTraffic :: "nat \<Rightarrow> 'u \<Rightarrow> ('u \<times> action) cprog"
  h_OnClose :: "nat \<Rightarrow> gerror option \<Rightarrow> 'u \<Rightarrow> 'u \<times> action"

section \<open>The state of an event loop\<close>

datatype 'u task =
    TAsyncWrite nat "byte list" "('u \<Rightarrow> 'u) option"
  | TAsyncWritev nat "byte list list" "('u \<Rightarrow> 'u) option"
  | TClose nat "('u \<Rightarrow> 'u) option"
  | TWake nat "('u \<Rightarrow> 'u) option"
  | TRegister nat
  | TShutdown

record ('k, 'u) lstate =
  ls_k :: 'k
  ls_user :: 'u
  ls_tick :: nat
  ls_conn :: "nat \<Rightarrow> conn"
  ls_connections :: "int \<rightharpoonup> nat"
  ls_udpSockets :: "int \<rightharpoonup> nat"
  ls_connCount :: int
  ls_lnfd :: int
  ls_lnaddr :: "netaddr option"
  ls_bufLen :: int
  ls_efd :: int
  ls_wakeup :: bool
  ls_urgent :: "'u task list"
  ls_async :: "'u task list"

abbreviation upd_conn :: "('k, 'u) lstate \<Rightarrow> nat \<Rightarrow> conn \<Rightarrow> ('k, 'u) lstate" where
  "upd_conn st c x \<equiv> st\<lparr>ls_conn := (ls_conn st)(c := x)\<rparr>"

definition el_addConn :: "('k, 'u) lstate \<Rightarrow> int \<Rightarrow> ('k, 'u) lstate" where
  "el_addConn st delta = st\<lparr>ls_connCount := ls_connCount st + delta\<rparr>"

section \<open>The poller\<close>

definition EPOLLIN :: "32 word" where "EPOLLIN = 1"
definition EPOLLPRI :: "32 word" where "EPOLLPRI = 2"
definition EPOLLOUT :: "32 word" where "EPOLLOUT = 4"
definition EPOLLERR :: "32 word" where "EPOLLERR = 8"
definition EPOLLHUP :: "32 word" where "EPOLLHUP = 16"
definition EPOLLRDHUP :: "32 word" where "EPOLLRDHUP = 8192"

definition readEvents :: "32 word" where "readEvents = or EPOLLPRI EPOLLIN"
definition writeEvents :: "32 word" where "writeEvents = EPOLLOUT"
definition readWriteEvents :: "32 word" where "readWriteEvents = or readEvents writeEvents"

definition ErrEvents :: "32 word" where "ErrEvents = or (or EPOLLERR EPOLLHUP) EPOLLRDHUP"
definition OutEvents :: "32 word" where "OutEvents = or ErrEvents EPOLLOUT"
definition InEvents :: "32 word" where "InEvents = or (or ErrEvents EPOLLIN) EPOLLPRI"

definition pl_ctl ::
  "'k world \<Rightarrow> ('k, 'u) lstate \<Rightarrow> string \<Rightarrow> ctlop \<Rightarrow> int \<Rightarrow> 32 word \<Rightarrow> ('k, 'u) lstate \<times> gerror option" where
  "pl_ctl W st call op' fd ev =
     (case w_ctl W (ls_k st) op' fd ev of (k, e) \<Rightarrow> (st\<lparr>ls_k := k\<rparr>, NewSyscallError call e))"

text \<open>The attachment of connection \<open>c\<close> is dereferenced: a released connection has none.\<close>

definition pl_attached ::
  "('k, 'u) lstate \<Rightarrow> nat \<Rightarrow> (int \<Rightarrow> ('k, 'u) lstate \<times> gerror option) \<Rightarrow> (('k, 'u) lstate \<times> gerror option) go" where
  "pl_attached st c f =
     (if c_attached (ls_conn st c) then Ret (f (c_fd (ls_conn st c))) else Panic NilDereference)"

definition pl_AddRead :: "'k world \<Rightarrow> ('k, 'u) lstate \<Rightarrow> nat \<Rightarrow> (('k, 'u) lstate \<times> gerror option) go" where
  "pl_AddRead W st c = pl_attached st c (\<lambda>fd. pl_ctl W st ''epoll_ctl add'' EPOLL_CTL_ADD fd readEvents)"

definition pl_AddWrite :: "'k world \<Rightarrow> ('k, 'u) lstate \<Rightarrow> nat \<Rightarrow> (('k, 'u) lstate \<times> gerror option) go" where
  "pl_AddWrite W st c = pl_attached st c (\<lambda>fd. pl_ctl W st ''epoll_ctl add'' EPOLL_CTL_ADD fd writeEvents)"

definition pl_AddReadWrite :: "'k world \<Rightarrow> ('k, 'u) lstate \<Rightarrow> nat \<Rightarrow> (('k, 'u) lstate \<times> gerror option) go" where
  "pl_AddReadWrite W st c =
     pl_attached st c (\<lambda>fd. pl_ctl W st ''epoll_ctl add'' EPOLL_CTL_ADD fd readWriteEvents)"

definition pl_ModRead :: "'k world \<Rightarrow> ('k, 'u) lstate \<Rightarrow> nat \<Rightarrow> (('k, 'u) lstate \<times> gerror option) go" where
  "pl_ModRead W st c = pl_attached st c (\<lambda>fd. pl_ctl W st ''epoll_ctl mod'' EPOLL_CTL_MOD fd readEvents)"

definition pl_ModReadWrite :: "'k world \<Rightarrow> ('k, 'u) lstate \<Rightarrow> nat \<Rightarrow> (('k, 'u) lstate \<times> gerror option) go" where
  "pl_ModReadWrite W st c =
     pl_attached st c (\<lambda>fd. pl_ctl W st ''epoll_ctl mod'' EPOLL_CTL_MOD fd readWriteEvents)"

definition pl_Delete :: "'k world \<Rightarrow> ('k, 'u) lstate \<Rightarrow> int \<Rightarrow> ('k, 'u) lstate \<times> gerror option" where
  "pl_Delete W st fd = pl_ctl W st ''epoll_ctl del'' EPOLL_CTL_DEL fd 0"

text \<open>Waking the poller up: one byte pattern written to the event descriptor, unless already done.\<close>

definition pl_wakeup :: "'k world \<Rightarrow> ('k, 'u) lstate \<Rightarrow> ('k, 'u) lstate \<times> gerror option" where
  "pl_wakeup W st =
     (if \<not> ls_wakeup st then
        (case w_write W (ls_k st) (ls_efd st) [1, 0, 0, 0, 0, 0, 0, 0] of (k, n, e) \<Rightarrow>
           (st\<lparr>ls_wakeup := True, ls_k := k\<rparr>,
            NewSyscallError ''write'' (if e = Some EAGAIN then None else e)))
      else (st, None))"

definition pl_Trigger :: "'k world \<Rightarrow> ('k, 'u) lstate \<Rightarrow> 'u task \<Rightarrow> ('k, 'u) lstate \<times> gerror option" where
  "pl_Trigger W st t = pl_wakeup W (st\<lparr>ls_async := ls_async st @ [t]\<rparr>)"

definition pl_UrgentTrigger :: "'k world \<Rightarrow> ('k, 'u) lstate \<Rightarrow> 'u task \<Rightarrow> ('k, 'u) lstate \<times> gerror option" where
  "pl_UrgentTrigger W st t = pl_wakeup W (st\<lparr>ls_urgent := ls_urgent st @ [t]\<rparr>)"

section \<open>Outbound data\<close>

text \<open>Access to \<open>c.outboundBuffer\<close>, which is \<open>nil\<close> for datagram sockets.\<close>

definition with_out :: "('k, 'u) lstate \<Rightarrow> nat \<Rightarrow> (ebuf \<Rightarrow> 'a go) \<Rightarrow> 'a go" where
  "with_out st c f = (case c_out (ls_conn st c) of None \<Rightarrow> Panic NilDereference | Some mb \<Rightarrow> f mb)"

definition set_out :: "('k, 'u) lstate \<Rightarrow> nat \<Rightarrow> ebuf \<Rightarrow> ('k, 'u) lstate" where
  "set_out st c mb = upd_conn st c ((ls_conn st c)\<lparr>c_out := Some mb\<rparr>)"

definition out_IsEmpty :: "('k, 'u) lstate \<Rightarrow> nat \<Rightarrow> bool go" where
  "out_IsEmpty st c = with_out st c (\<lambda>mb. Ret (eb_IsEmpty mb))"

definition out_Write :: "'k world \<Rightarrow> ('k, 'u) lstate \<Rightarrow> nat \<Rightarrow> byte list \<Rightarrow> ('k, 'u) lstate go" where
  "out_Write W st c data =
     with_out st c (\<lambda>mb. case w_env W (ls_tick st) of (mem, fresh) \<Rightarrow>
       go_bind (eb_Write mem fresh mb data) (\<lambda>(mb, _, _).
       Ret ((set_out st c mb)\<lparr>ls_tick := Suc (ls_tick st)\<rparr>)))"

definition out_Writev :: "'k world \<Rightarrow> ('k, 'u) lstate \<Rightarrow> nat \<Rightarrow> byte list list \<Rightarrow> ('k, 'u) lstate go" where
  "out_Writev W st c bs =
     with_out st c (\<lambda>mb. case w_env W (ls_tick st) of (mem, fresh) \<Rightarrow>
       go_bind (eb_Writev mem fresh mb bs) (\<lambda>(mb, _, _).
       Ret ((set_out st c mb)\<lparr>ls_tick := Suc (ls_tick st)\<rparr>)))"

definition out_Discard :: "('k, 'u) lstate \<Rightarrow> nat \<Rightarrow> int \<Rightarrow> ('k, 'u) lstate go" where
  "out_Discard st c n =
     with_out st c (\<lambda>mb. go_bind (eb_Discard mb n) (\<lambda>(mb, _, _). Ret (set_out st c mb)))"

definition out_Peek :: "('k, 'u) lstate \<Rightarrow> nat \<Rightarrow> int \<Rightarrow> byte list list go" where
  "out_Peek st c n = with_out st c (\<lambda>mb. eb_Peek mb n)"

definition iovMax :: nat where
  "iovMax = 1024"

text \<open>\<open>io.Writev\<close> does not enter the kernel for an empty vector.\<close>

definition io_Writev :: "'k world \<Rightarrow> 'k \<Rightarrow> int \<Rightarrow> byte list list \<Rightarrow> 'k \<times> int \<times> errno option" where
  "io_Writev W k fd iov = (if iov = [] then (k, 0, None) else w_writev W k fd iov)"

section \<open>Closing\<close>

definition el_flushBody ::
  "'k world \<Rightarrow> nat \<Rightarrow> ('k, 'u) lstate \<Rightarrow> (('k, 'u) lstate + ('k, 'u) lstate) go" where
  "el_flushBody W c st =
     go_bind (out_IsEmpty st c) (\<lambda>e.
     if e then Ret (Inr st)
     else
       go_bind (out_Peek st c 0) (\<lambda>iov.
       let iov = (if length iov > iovMax then take iovMax iov else iov)
       in case io_Writev W (ls_k st) (c_fd (ls_conn st c)) iov of (k, n, e) \<Rightarrow>
            let st = st\<lparr>ls_k := k\<rparr>
            in if e \<noteq> None then Ret (Inr st)
               else go_bind (out_Discard st c n) (\<lambda>st. Ret (Inl st))))"

definition el_releaseTCP :: "('k, 'u) lstate \<Rightarrow> nat \<Rightarrow> ('k, 'u) lstate go" where
  "el_releaseTCP st c = go_bind (releaseTCP (ls_conn st c)) (\<lambda>x. Ret (upd_conn st c x))"

definition el_OnClose ::
  "'u handler \<Rightarrow> ('k, 'u) lstate \<Rightarrow> nat \<Rightarrow> gerror option \<Rightarrow> ('k, 'u) lstate \<times> action" where
  "el_OnClose h st c err =
     (case h_OnClose h c err (ls_user st) of (u, a) \<Rightarrow> (st\<lparr>ls_user := u\<rparr>, a))"

definition is_udp :: "conn \<Rightarrow> bool" where
  "is_udp x \<longleftrightarrow> (case c_localAddr x of None \<Rightarrow> False | Some a \<Rightarrow> take 3 (addr_Network a) = ''udp'')"

definition el_closeUDP ::
  "'k world \<Rightarrow> 'u handler \<Rightarrow> ('k, 'u) lstate \<Rightarrow> nat \<Rightarrow> gerror option \<Rightarrow> ('k, 'u) lstate \<times> gerror option" where
  "el_closeUDP W h st c err =
     (let fd = c_fd (ls_conn st c)
      in case pl_Delete W st fd of (st, rerr) \<Rightarrow>
         (case (if fd \<noteq> ls_lnfd st
                then (case w_close W (ls_k st) fd of (k, e) \<Rightarrow>
                        (st\<lparr>ls_k := k, ls_udpSockets := (ls_udpSockets st)(fd := None)\<rparr>, map_option Errno e))
                else (st, rerr)) of (st, rerr) \<Rightarrow>
            (case el_OnClose h st c err of (st, a) \<Rightarrow>
               if a = ActShutdown then (st, Some ErrEngineShutdown)
               else (upd_conn st c (releaseUDP (ls_conn st c)), rerr))))"

text \<open>The error strings leave out the numbers \<open>fmt.Errorf\<close> puts into them.\<close>

definition close_errors :: "gerror option \<Rightarrow> errno option \<Rightarrow> gerror option" where
  "close_errors err0 err1 =
     (case (err0, err1) of
        (None, None) \<Rightarrow> None
      | (Some _, None) \<Rightarrow> Some (Errorf ''failed to delete fd from poller'')
      | (None, Some _) \<Rightarrow> Some (Errorf ''failed to close fd'')
      | (Some _, Some _) \<Rightarrow> Some (Errorf ''failed to delete fd from poller & failed to close fd''))"

definition el_closeConn ::
  "'k world \<Rightarrow> 'u handler \<Rightarrow> ('k, 'u) lstate \<Rightarrow> nat \<Rightarrow> gerror option \<Rightarrow> (('k, 'u) lstate \<times> gerror option) go" where
  "el_closeConn W h st c err =
     (if is_udp (ls_conn st c) then Ret (el_closeUDP W h st c err)
      else if \<not> c_opened (ls_conn st c) then Ret (st, None)
      else
        go_bind (go_loop (el_flushBody W c) st) (\<lambda>st.
        let fd = c_fd (ls_conn st c)
        in case pl_Delete W st fd of (st, err0) \<Rightarrow>
           (case w_close W (ls_k st) fd of (k, err1) \<Rightarrow>
              let rerr = close_errors err0 err1;
                  st = st\<lparr>ls_k := k, ls_connections := (ls_connections st)(fd := None)\<rparr>;
                  st = el_addConn st (-1)
              in case el_OnClose h st c err of (st, a) \<Rightarrow>
                   let rerr = (if a = ActShutdown then Some ErrEngineShutdown else rerr)
                   in go_bind (el_releaseTCP st c) (\<lambda>st. Ret (st, rerr)))))"

section \<open>Writing\<close>

definition c_open :: "'k world \<Rightarrow> ('k, 'u) lstate \<Rightarrow> nat \<Rightarrow> byte list \<Rightarrow> (('k, 'u) lstate \<times> gerror option) go" where
  "c_open W st c buf =
     (case w_write W (ls_k st) (c_fd (ls_conn st c)) buf of (k, n, e) \<Rightarrow>
        let st = st\<lparr>ls_k := k\<rparr>
        in if e = Some EAGAIN then go_bind (out_Write W st c buf) (\<lambda>st. Ret (st, None))
           else
             go_bind
               (if e = None \<and> n < glen buf
                then go_bind (go_slice buf n (glen buf)) (\<lambda>rest. out_Write W st c rest)
                else Ret st)
               (\<lambda>st. Ret (st, map_option Errno e)))"

definition c_write ::
  "'k world \<Rightarrow> 'u handler \<Rightarrow> ('k, 'u) lstate \<Rightarrow> nat \<Rightarrow> byte list \<Rightarrow> (('k, 'u) lstate \<times> int \<times> gerror option) go" where
  "c_write W h st c data =
     (let n = glen data
      in go_bind (out_IsEmpty st c) (\<lambda>empty.
         if \<not> empty then go_bind (out_Write W st c data) (\<lambda>st. Ret (st, n, None))
         else
           case w_write W (ls_k st) (c_fd (ls_conn st c)) data of (k, sent, e) \<Rightarrow>
             let st = st\<lparr>ls_k := k\<rparr>
             in (case e of
                   Some err \<Rightarrow>
                     if err = EAGAIN then
                       go_bind (out_Write W st c data) (\<lambda>st.
                       go_bind (pl_ModReadWrite W st c) (\<lambda>(st, err). Ret (st, n, err)))
                     else
                       go_bind (el_closeConn W h st c (Some (SyscallError ''write'' err))) (\<lambda>(st, err).
                       Ret (st, -1, err))
                 | None \<Rightarrow>
                     if sent < n then
                       go_bind (go_slice data sent (glen data)) (\<lambda>rest.
                       go_bind (out_Write W st c rest) (\<lambda>st.
                       go_bind (pl_ModReadWrite W st c) (\<lambda>(st, err). Ret (st, n, err))))
                     else Ret (st, n, None))))"

text \<open>The loop that finds the first slice \<open>writev\<close> did not send completely, and cuts it.\<close>

fun cut_sent :: "byte list list \<Rightarrow> int \<Rightarrow> byte list list go" where
  "cut_sent [] sent = Ret []"
| "cut_sent (b # bs) sent =
     (if sent < glen b then go_bind (go_slice b sent (glen b)) (\<lambda>b. Ret (b # bs))
      else cut_sent bs (sent - glen b))"

definition c_writev ::
  "'k world \<Rightarrow> 'u handler \<Rightarrow> ('k, 'u) lstate \<Rightarrow> nat \<Rightarrow> byte list list \<Rightarrow> (('k, 'u) lstate \<times> int \<times> gerror option) go" where
  "c_writev W h st c bs =
     (let n = sum_list (map glen bs)
      in go_bind (out_IsEmpty st c) (\<lambda>empty.
         if \<not> empty then go_bind (out_Writev W st c bs) (\<lambda>st. Ret (st, n, None))
         else
           case io_Writev W (ls_k st) (c_fd (ls_conn st c)) bs of (k, sent, e) \<Rightarrow>
             let st = st\<lparr>ls_k := k\<rparr>
             in (case e of
                   Some err \<Rightarrow>
                     if err = EAGAIN then
                       go_bind (out_Writev W st c bs) (\<lambda>st.
                       go_bind (pl_ModReadWrite W st c) (\<lambda>(st, err). Ret (st, n, err)))
                     else
                       go_bind (el_closeConn W h st c (Some (SyscallError ''write'' err))) (\<lambda>(st, err).
                       Ret (st, -1, err))
                 | None \<Rightarrow>
                     if sent < n then
                       go_bind (cut_sent bs sent) (\<lambda>rest.
                       go_bind (out_Writev W st c rest) (\<lambda>st.
                       go_bind (pl_ModReadWrite W st c) (\<lambda>(st, err). Ret (st, n, err))))
                     else Ret (st, n, None))))"

definition el_write ::
  "'k world \<Rightarrow> 'u handler \<Rightarrow> ('k, 'u) lstate \<Rightarrow> nat \<Rightarrow> (('k, 'u) lstate \<times> gerror option) go" where
  "el_write W h st c =
     go_bind (out_Peek st c (-1)) (\<lambda>iov.
     go_bind
       (if length iov > 1 then
          let iov = (if length iov > iovMax then take iovMax iov else iov)
          in Ret (io_Writev W (ls_k st) (c_fd (ls_conn st c)) iov)
        else go_bind (go_index iov 0) (\<lambda>b. Ret (w_write W (ls_k st) (c_fd (ls_conn st c)) b)))
       (\<lambda>(k, n, e).
         go_bind (out_Discard (st\<lparr>ls_k := k\<rparr>) c n) (\<lambda>st.
         case e of
           Some err \<Rightarrow>
             if err = EAGAIN then Ret (st, None)
             else el_closeConn W h st c (Some (SyscallError ''write'' err))
         | None \<Rightarrow>
             go_bind (out_IsEmpty st c) (\<lambda>empty.
             if empty then go_bind (pl_ModRead W st c) (\<lambda>(st, _). Ret (st, None)) else Ret (st, None)))))"

definition c_Flush ::
  "'k world \<Rightarrow> 'u handler \<Rightarrow> ('k, 'u) lstate \<Rightarrow> nat \<Rightarrow> (('k, 'u) lstate \<times> gerror option) go" where
  "c_Flush W h st c =
     go_bind (out_IsEmpty st c) (\<lambda>empty. if empty then Ret (st, None) else el_write W h st c)"

definition c_sendTo :: "'k world \<Rightarrow> ('k, 'u) lstate \<Rightarrow> nat \<Rightarrow> byte list \<Rightarrow> ('k, 'u) lstate \<times> gerror option" where
  "c_sendTo W st c buf =
     (case (case c_peer (ls_conn st c) of
              None \<Rightarrow> w_send W (ls_k st) (c_fd (ls_conn st c)) buf
            | Some sa \<Rightarrow> w_sendto W (ls_k st) (c_fd (ls_conn st c)) buf sa) of
        (k, e) \<Rightarrow> (st\<lparr>ls_k := k\<rparr>, map_option Errno e))"

definition c_Write ::
  "'k world \<Rightarrow> 'u handler \<Rightarrow> ('k, 'u) lstate \<Rightarrow> nat \<Rightarrow> byte list \<Rightarrow> (('k, 'u) lstate \<times> int \<times> gerror option) go" where
  "c_Write W h st c p =
     (if c_isDatagram (ls_conn st c) then
        (case c_sendTo W st c p of (st, err) \<Rightarrow>
           if err \<noteq> None then Ret (st, -1, err) else Ret (st, glen p, None))
      else c_write W h st c p)"

definition c_Writev ::
  "'k world \<Rightarrow> 'u handler \<Rightarrow> ('k, 'u) lstate \<Rightarrow> nat \<Rightarrow> byte list list \<Rightarrow> (('k, 'u) lstate \<times> int \<times> gerror option) go" where
  "c_Writev W h st c bs =
     (if c_isDatagram (ls_conn st c) then Ret (st, -1, Some ErrUnsupportedOp) else c_writev W h st c bs)"

definition c_AsyncWrite ::
  "'k world \<Rightarrow> ('k, 'u) lstate \<Rightarrow> nat \<Rightarrow> byte list \<Rightarrow> ('u \<Rightarrow> 'u) option \<Rightarrow> ('k, 'u) lstate \<times> gerror option" where
  "c_AsyncWrite W st c buf callback =
     (if c_isDatagram (ls_conn st c) then
        (case c_sendTo W st c buf of (st, err) \<Rightarrow>
           (case callback of None \<Rightarrow> (st, err) | Some f \<Rightarrow> (st\<lparr>ls_user := f (ls_user st)\<rparr>, err)))
      else pl_Trigger W st (TAsyncWrite c buf callback))"

definition c_AsyncWritev ::
  "'k world \<Rightarrow> ('k, 'u) lstate \<Rightarrow> nat \<Rightarrow> byte list list \<Rightarrow> ('u \<Rightarrow> 'u) option \<Rightarrow> ('k, 'u) lstate \<times> gerror option" where
  "c_AsyncWritev W st c bs callback =
     (if c_isDatagram (ls_conn st c) then (st, Some ErrUnsupportedOp)
      else pl_Trigger W st (TAsyncWritev c bs callback))"

definition c_Wake ::
  "'k world \<Rightarrow> ('k, 'u) lstate \<Rightarrow> nat \<Rightarrow> ('u \<Rightarrow> 'u) option \<Rightarrow> ('k, 'u) lstate \<times> gerror option" where
  "c_Wake W st c callback = pl_UrgentTrigger W st (TWake c callback)"

definition c_CloseWithCallback ::
  "'k world \<Rightarrow> ('k, 'u) lstate \<Rightarrow> nat \<Rightarrow> ('u \<Rightarrow> 'u) option \<Rightarrow> ('k, 'u) lstate \<times> gerror option" where
  "c_CloseWithCallback W st c callback = pl_Trigger W st (TClose c callback)"

definition c_Close :: "'k world \<Rightarrow> ('k, 'u) lstate \<Rightarrow> nat \<Rightarrow> ('k, 'u) lstate \<times> gerror option" where
  "c_Close W st c = pl_Trigger W st (TClose c None)"

section \<open>Callbacks\<close>

primrec run_prog ::
  "'k world \<Rightarrow> 'u handler \<Rightarrow> nat \<Rightarrow> 'r cprog \<Rightarrow> ('k, 'u) lstate \<Rightarrow> (('k, 'u) lstate \<times> 'r) go" where
  "run_prog W h c (Finish r) st = Ret (st, r)"
| "run_prog W h c (PRead n f) st =
     go_bind (c_Read (ls_conn st c) (replicate n 0)) (\<lambda>(x, p, m, e).
     run_prog W h c (f (take (nat m) p)) (upd_conn st c x))"
| "run_prog W h c (PNext n f) st =
     go_bind (c_Next (ls_conn st c) n) (\<lambda>(x, b, e). run_prog W h c (f (b, e)) (upd_conn st c x))"
| "run_prog W h c (PPeek n f) st =
     go_bind (c_Peek (ls_conn st c) n) (\<lambda>(b, e). run_prog W h c (f (b, e)) st)"
| "run_prog W h c (PDiscard n f) st =
     go_bind (c_Discard (ls_conn st c) n) (\<lambda>(x, m, e). run_prog W h c (f m) (upd_conn st c x))"
| "run_prog W h c (PInboundBuffered f) st = run_prog W h c (f (c_InboundBuffered (ls_conn st c))) st"
| "run_prog W h c (PWrite p f) st =
     go_bind (c_Write W h st c p) (\<lambda>(st, n, e). run_prog W h c (f (n, e)) st)"
| "run_prog W h c (PWritev bs f) st =
     go_bind (c_Writev W h st c bs) (\<lambda>(st, n, e). run_prog W h c (f (n, e)) st)"
| "run_prog W h c (PFlush f) st =
     go_bind (c_Flush W h st c) (\<lambda>(st, e). run_prog W h c (f e) st)"
| "run_prog W h c (PAsyncWrite p f) st =
     (case c_AsyncWrite W st c p None of (st, e) \<Rightarrow> run_prog W h c (f e) st)"
| "run_prog W h c (PAsyncWritev bs f) st =
     (case c_AsyncWritev W st c bs None of (st, e) \<Rightarrow> run_prog W h c (f e) st)"
| "run_prog W h c (POutboundBuffered f) st =
     go_bind (c_OutboundBuffered (ls_conn st c)) (\<lambda>n. run_prog W h c (f n) st)"
| "run_prog W h c (PWake f) st = (case c_Wake W st c None of (st, e) \<Rightarrow> run_prog W h c (f e) st)"
| "run_prog W h c (PClose f) st = (case c_Close W st c of (st, e) \<Rightarrow> run_prog W h c (f e) st)"

definition el_OnTraffic ::
  "'k world \<Rightarrow> 'u handler \<Rightarrow> ('k, 'u) lstate \<Rightarrow> nat \<Rightarrow> (('k, 'u) lstate \<times> action) go" where
  "el_OnTraffic W h st c =
     go_bind (run_prog W h c (h_OnTraffic h c (ls_user st)) st) (\<lambda>(st, u, a). Ret (st\<lparr>ls_user := u\<rparr>, a))"

definition el_OnOpen ::
  "'k world \<Rightarrow> 'u handler \<Rightarrow> ('k, 'u) lstate \<Rightarrow> nat \<Rightarrow> (('k, 'u) lstate \<times> byte list option \<times> action) go" where
  "el_OnOpen W h st c =
     go_bind (run_prog W h c (h_OnOpen h c (ls_user st)) st) (\<lambda>(st, u, out, a).
     Ret (st\<lparr>ls_user := u\<rparr>, out, a))"

section \<open>The handlers of the loop\<close>

definition el_handleAction ::
  "'k world \<Rightarrow> 'u handler \<Rightarrow> ('k, 'u) lstate \<Rightarrow> nat \<Rightarrow> action \<Rightarrow> (('k, 'u) lstate \<times> gerror option) go" where
  "el_handleAction W h st c a =
     (case a of
        ActNone \<Rightarrow> Ret (st, None)
      | ActClose \<Rightarrow> el_closeConn W h st c None
      | ActShutdown \<Rightarrow> Ret (st, Some ErrEngineShutdown))"

definition el_open ::
  "'k world \<Rightarrow> 'u handler \<Rightarrow> ('k, 'u) lstate \<Rightarrow> nat \<Rightarrow> (('k, 'u) lstate \<times> gerror option) go" where
  "el_open W h st c =
     (let st = upd_conn st c ((ls_conn st c)\<lparr>c_opened := True\<rparr>); st = el_addConn st 1
      in go_bind (el_OnOpen W h st c) (\<lambda>(st, out, a).
         go_bind (case out of None \<Rightarrow> Ret (st, None) | Some buf \<Rightarrow> c_open W st c buf) (\<lambda>(st, err).
         if err \<noteq> None then Ret (st, err)
         else
           go_bind (out_IsEmpty st c) (\<lambda>empty.
           go_bind (if \<not> empty then pl_AddWrite W st c else Ret (st, None)) (\<lambda>(st, err).
           if err \<noteq> None then Ret (st, err) else el_handleAction W h st c a)))))"

definition el_register ::
  "'k world \<Rightarrow> 'u handler \<Rightarrow> ('k, 'u) lstate \<Rightarrow> nat \<Rightarrow> (('k, 'u) lstate \<times> gerror option) go" where
  "el_register W h st c =
     (let fd = c_fd (ls_conn st c)
      in if \<not> c_attached (ls_conn st c) then
           let st = upd_conn st c ((ls_conn st c)\<lparr>c_attached := True\<rparr>)
           in go_bind (pl_AddRead W st c) (\<lambda>(st, err).
              if err \<noteq> None then
                (case w_close W (ls_k st) fd of (k, _) \<Rightarrow>
                   Ret (upd_conn (st\<lparr>ls_k := k\<rparr>) c (releaseUDP (ls_conn st c)), err))
              else Ret (st\<lparr>ls_udpSockets := (ls_udpSockets st)(fd \<mapsto> c)\<rparr>, None))
         else
           go_bind (pl_AddRead W st c) (\<lambda>(st, err).
           if err \<noteq> None then
             (case w_close W (ls_k st) fd of (k, _) \<Rightarrow>
                go_bind (el_releaseTCP (st\<lparr>ls_k := k\<rparr>) c) (\<lambda>st. Ret (st, err)))
           else el_open W h (st\<lparr>ls_connections := (ls_connections st)(fd \<mapsto> c)\<rparr>) c))"

definition el_read ::
  "'k world \<Rightarrow> 'u handler \<Rightarrow> ('k, 'u) lstate \<Rightarrow> nat \<Rightarrow> (('k, 'u) lstate \<times> gerror option) go" where
  "el_read W h st c =
     (case w_read W (ls_k st) (c_fd (ls_conn st c)) (ls_bufLen st) of (k, n, data, e) \<Rightarrow>
        let st = st\<lparr>ls_k := k\<rparr>
        in if e \<noteq> None \<or> n = 0 then
             if e = Some EAGAIN then Ret (st, None)
             else
               let err = (if n = 0 then ECONNRESET else the e)
               in el_closeConn W h st c (Some (SyscallError ''read'' err))
           else
             let st = upd_conn st c ((ls_conn st c)\<lparr>c_buf := take (nat n) data\<rparr>)
             in go_bind (el_OnTraffic W h st c) (\<lambda>(st, a).
                case a of
                  ActClose \<Rightarrow> el_closeConn W h st c None
                | ActShutdown \<Rightarrow> Ret (st, Some ErrEngineShutdown)
                | ActNone \<Rightarrow>
                    (case w_env W (ls_tick st) of (mem, fresh) \<Rightarrow>
                       go_bind (er_Write mem fresh (c_in (ls_conn st c)) (c_buf (ls_conn st c))) (\<lambda>(r, _, _).
                       Ret (upd_conn (st\<lparr>ls_tick := Suc (ls_tick st)\<rparr>) c ((ls_conn st c)\<lparr>c_in := r\<rparr>), None)))))"

definition el_wake ::
  "'k world \<Rightarrow> 'u handler \<Rightarrow> ('k, 'u) lstate \<Rightarrow> nat \<Rightarrow> (('k, 'u) lstate \<times> gerror option) go" where
  "el_wake W h st c =
     (if ls_connections st (c_fd (ls_conn st c)) \<noteq> Some c then Ret (st, None)
      else go_bind (el_OnTraffic W h st c) (\<lambda>(st, a). el_handleAction W h st c a))"

text \<open>\<open>conn.handleEvents\<close> on Linux, which the sub-reactor's callback repeats.\<close>

definition c_handleEvents ::
  "'k world \<Rightarrow> 'u handler \<Rightarrow> ('k, 'u) lstate \<Rightarrow> nat \<Rightarrow> 32 word \<Rightarrow> (('k, 'u) lstate \<times> gerror option) go" where
  "c_handleEvents W h st c ev =
     go_bind (if and ev OutEvents \<noteq> 0 then out_IsEmpty st c else Ret True) (\<lambda>empty.
     go_bind (if and ev OutEvents \<noteq> 0 \<and> \<not> empty then el_write W h st c else Ret (st, None)) (\<lambda>(st, err).
     if err \<noteq> None then Ret (st, err)
     else if and ev InEvents \<noteq> 0 then el_read W h st c
     else Ret (st, None)))"

definition el_onEvent ::
  "'k world \<Rightarrow> 'u handler \<Rightarrow> ('k, 'u) lstate \<Rightarrow> int \<Rightarrow> 32 word \<Rightarrow> (('k, 'u) lstate \<times> gerror option) go" where
  "el_onEvent W h st fd ev =
     (case ls_connections st fd of
        Some c \<Rightarrow> c_handleEvents W h st c ev
      | None \<Rightarrow> Ret (st, None))"

text \<open>\<open>closeAllSockets\<close> ranges over two maps, whose order Go leaves open: the arguments are the orders.\<close>

fun el_closeEach ::
  "'k world \<Rightarrow> 'u handler \<Rightarrow> ('k, 'u) lstate \<Rightarrow> nat list \<Rightarrow> ('k, 'u) lstate go" where
  "el_closeEach W h st [] = Ret st"
| "el_closeEach W h st (c # cs) =
     go_bind (el_closeConn W h st c None) (\<lambda>(st, _). el_closeEach W h st cs)"

definition el_closeAllSockets ::
  "'k world \<Rightarrow> 'u handler \<Rightarrow> nat list \<Rightarrow> nat list \<Rightarrow> ('k, 'u) lstate \<Rightarrow> ('k, 'u) lstate go" where
  "el_closeAllSockets W h conns udps st =
     go_bind (el_closeEach W h st conns) (\<lambda>st. el_closeEach W h st udps)"

text \<open>\<open>c0\<close> is the address of the connection object a datagram on the listener gets.\<close>

definition el_readUDP ::
  "'k world \<Rightarrow> 'u handler \<Rightarrow> ('k, 'u) lstate \<Rightarrow> int \<Rightarrow> nat \<Rightarrow> (('k, 'u) lstate \<times> gerror option) go" where
  "el_readUDP W h st fd c0 =
     (case w_recvfrom W (ls_k st) fd (ls_bufLen st) of (k, n, data, sa, e) \<Rightarrow>
        let st = st\<lparr>ls_k := k\<rparr>
        in if e \<noteq> None then
             if e = Some EAGAIN \<or> e = Some EWOULDBLOCK then Ret (st, None)
             else Ret (st, Some (Errorf ''failed to read UDP packet''))
           else
             go_bind
               (if fd = ls_lnfd st
                then go_bind (newUDPConn (w_ifname W) (fst (w_env W (ls_tick st))) fd (ls_lnaddr st) sa False) (\<lambda>x.
                     Ret (c0, upd_conn (st\<lparr>ls_tick := Suc (ls_tick st)\<rparr>) c0 x))
                else (case ls_udpSockets st fd of None \<Rightarrow> Panic NilDereference | Some c \<Rightarrow> Ret (c, st)))
               (\<lambda>(c, st).
                 let st = upd_conn st c ((ls_conn st c)\<lparr>c_buf := take (nat n) data\<rparr>)
                 in go_bind (el_OnTraffic W h st c) (\<lambda>(st, a).
                    let st = (if c_peer (ls_conn st c) \<noteq> None
                              then upd_conn st c (releaseUDP (ls_conn st c)) else st)
                    in Ret (st, if a = ActShutdown then Some ErrEngineShutdown else None))))"

section \<open>Tasks\<close>

definition run_callback :: "('u \<Rightarrow> 'u) option \<Rightarrow> ('k, 'u) lstate \<Rightarrow> ('k, 'u) lstate" where
  "run_callback cb st = (case cb of None \<Rightarrow> st | Some f \<Rightarrow> st\<lparr>ls_user := f (ls_user st)\<rparr>)"

definition c_asyncWrite ::
  "'k world \<Rightarrow> 'u handler \<Rightarrow> ('k, 'u) lstate \<Rightarrow> nat \<Rightarrow> byte list \<Rightarrow> ('u \<Rightarrow> 'u) option \<Rightarrow>
   (('k, 'u) lstate \<times> gerror option) go" where
  "c_asyncWrite W h st c data cb =
     (if \<not> c_opened (ls_conn st c) then Ret (st, None)
      else go_bind (c_write W h st c data) (\<lambda>(st, _, err). Ret (run_callback cb st, err)))"

definition c_asyncWritev ::
  "'k world \<Rightarrow> 'u handler \<Rightarrow> ('k, 'u) lstate \<Rightarrow> nat \<Rightarrow> byte list list \<Rightarrow> ('u \<Rightarrow> 'u) option \<Rightarrow>
   (('k, 'u) lstate \<times> gerror option) go" where
  "c_asyncWritev W h st c bs cb =
     (if \<not> c_opened (ls_conn st c) then Ret (st, None)
      else go_bind (c_writev W h st c bs) (\<lambda>(st, _, err). Ret (run_callback cb st, err)))"

fun run_task ::
  "'k world \<Rightarrow> 'u handler \<Rightarrow> ('k, 'u) lstate \<Rightarrow> 'u task \<Rightarrow> (('k, 'u) lstate \<times> gerror option) go" where
  "run_task W h st (TAsyncWrite c data cb) = c_asyncWrite W h st c data cb"
| "run_task W h st (TAsyncWritev c bs cb) = c_asyncWritev W h st c bs cb"
| "run_task W h st (TClose c cb) =
     go_bind (el_closeConn W h st c None) (\<lambda>(st, err). Ret (run_callback cb st, err))"
| "run_task W h st (TWake c cb) = go_bind (el_wake W h st c) (\<lambda>(st, err). Ret (run_callback cb st, err))"
| "run_task W h st (TRegister c) = el_register W h st c"
| "run_task W h st TShutdown = Ret (st, Some ErrEngineShutdown)"

definition MaxAsyncTasksAtOneTime :: nat where
  "MaxAsyncTasksAtOneTime = 256"

text \<open>
  The chores of \<open>Polling\<close>: all urgent tasks, then at most a given number of others, 256 of them on Linux; \<open>Some\<close> is
  the early return.
\<close>

definition pl_urgentBody ::
  "'k world \<Rightarrow> 'u handler \<Rightarrow> ('k, 'u) lstate \<Rightarrow> (('k, 'u) lstate + ('k, 'u) lstate \<times> gerror option) go" where
  "pl_urgentBody W h st =
     (case ls_urgent st of
        [] \<Rightarrow> Ret (Inr (st, None))
      | t # ts \<Rightarrow>
          go_bind (run_task W h (st\<lparr>ls_urgent := ts\<rparr>) t) (\<lambda>(st, err).
          Ret (if err = Some ErrEngineShutdown then Inr (st, err) else Inl st)))"

fun pl_asyncLoop ::
  "'k world \<Rightarrow> 'u handler \<Rightarrow> nat \<Rightarrow> ('k, 'u) lstate \<Rightarrow> (('k, 'u) lstate \<times> gerror option) go" where
  "pl_asyncLoop W h 0 st = Ret (st, None)"
| "pl_asyncLoop W h (Suc i) st =
     (case ls_async st of
        [] \<Rightarrow> Ret (st, None)
      | t # ts \<Rightarrow>
          go_bind (run_task W h (st\<lparr>ls_async := ts\<rparr>) t) (\<lambda>(st, err).
          if err = Some ErrEngineShutdown then Ret (st, err) else pl_asyncLoop W h i st))"

definition run_chores ::
  "nat \<Rightarrow> 'k world \<Rightarrow> 'u handler \<Rightarrow> ('k, 'u) lstate \<Rightarrow> (('k, 'u) lstate \<times> bool \<times> gerror option) go" where
  "run_chores limit W h st =
     go_bind (go_loop (pl_urgentBody W h) st) (\<lambda>(st, err).
     if err \<noteq> None then Ret (st, False, err)
     else
       go_bind (pl_asyncLoop W h limit st) (\<lambda>(st, err).
       if err \<noteq> None then Ret (st, False, err)
       else
         let st = st\<lparr>ls_wakeup := False\<rparr>
         in if ls_async st \<noteq> [] \<or> ls_urgent st \<noteq> [] then
              (case pl_wakeup W st of (st, e) \<Rightarrow> Ret (st, e \<noteq> None, None))
            else Ret (st, False, None)))"

definition pl_chores ::
  "'k world \<Rightarrow> 'u handler \<Rightarrow> ('k, 'u) lstate \<Rightarrow> (('k, 'u) lstate \<times> bool \<times> gerror option) go" where
  "pl_chores = run_chores MaxAsyncTasksAtOneTime"

section \<open>What the kernel promises\<close>

text \<open>
  \<open>peer k fd\<close> is everything the kernel has accepted for sending on \<open>fd\<close>. A successful write takes a
  non-empty prefix of a non-empty argument; a failed one takes nothing and returns \<open>-1\<close>.
\<close>

definition sends :: "('k \<Rightarrow> int \<Rightarrow> byte list) \<Rightarrow> 'k \<Rightarrow> int \<Rightarrow> byte list \<Rightarrow> 'k \<times> int \<times> errno option \<Rightarrow> bool" where
  "sends peer k fd d res = (case res of (k', n, e) \<Rightarrow>
     (\<forall>fd'. fd' \<noteq> fd \<longrightarrow> peer k' fd' = peer k fd') \<and>
     (if e = None then 0 \<le> n \<and> n \<le> glen d \<and> (d \<noteq> [] \<longrightarrow> 0 < n) \<and> peer k' fd = peer k fd @ take (nat n) d
      else n = -1 \<and> peer k' fd = peer k fd))"

definition kernel_ok :: "'k world \<Rightarrow> ('k \<Rightarrow> int \<Rightarrow> byte list) \<Rightarrow> bool" where
  "kernel_ok W peer \<longleftrightarrow>
     (\<forall>k fd d. sends peer k fd d (w_write W k fd d)) \<and>
     (\<forall>k fd iov. sends peer k fd (concat iov) (w_writev W k fd iov)) \<and>
     (\<forall>k fd len. peer (fst (w_read W k fd len)) = peer k) \<and>
     (\<forall>k fd. peer (fst (w_close W k fd)) = peer k) \<and>
     (\<forall>k op fd ev. peer (fst (w_ctl W k op fd ev)) = peer k)"

text \<open>
  \<open>reg k fd\<close> is the interest set registered for \<open>fd\<close>. \<open>epoll_ctl\<close> refuses to add a descriptor twice and
  to modify one that is not registered; the other calls leave the interest list alone.
\<close>

definition ctl_step ::
  "('k \<Rightarrow> int \<Rightarrow> 32 word option) \<Rightarrow> 'k \<Rightarrow> ctlop \<Rightarrow> int \<Rightarrow> 32 word \<Rightarrow> 'k \<times> errno option \<Rightarrow> bool" where
  "ctl_step reg k op' fd ev res = (case res of (k', e) \<Rightarrow>
     reg k' = (if e \<noteq> None then reg k else (reg k)(fd := if op' = EPOLL_CTL_DEL then None else Some ev)) \<and>
     (op' = EPOLL_CTL_ADD \<and> reg k fd \<noteq> None \<longrightarrow> e = Some EEXIST) \<and>
     (op' \<noteq> EPOLL_CTL_ADD \<and> reg k fd = None \<longrightarrow> e = Some ENOENT))"

definition epoll_ok :: "'k world \<Rightarrow> ('k \<Rightarrow> int \<Rightarrow> 32 word option) \<Rightarrow> bool" where
  "epoll_ok W reg \<longleftrightarrow>
     (\<forall>k op' fd ev. ctl_step reg k op' fd ev (w_ctl W k op' fd ev)) \<and>
     (\<forall>k fd d. reg (fst (w_write W k fd d)) = reg k) \<and>
     (\<forall>k fd iov. reg (fst (w_writev W k fd iov)) = reg k) \<and>
     (\<forall>k fd len. reg (fst (w_read W k fd len)) = reg k)"

text \<open>The part of this the loop relies on: a descriptor that was modified successfully is watched for writing.\<close>

definition ctl_ok :: "'k world \<Rightarrow> ('k \<Rightarrow> int \<Rightarrow> 32 word option) \<Rightarrow> bool" where
  "ctl_ok W reg \<longleftrightarrow>
     (\<forall>k fd. snd (w_ctl W k EPOLL_CTL_MOD fd readWriteEvents) = None \<longrightarrow>
        reg (fst (w_ctl W k EPOLL_CTL_MOD fd readWriteEvents)) = (reg k)(fd \<mapsto> readWriteEvents)) \<and>
     (\<forall>k fd d. reg (fst (w_write W k fd d)) = reg k) \<and>
     (\<forall>k fd iov. reg (fst (w_writev W k fd iov)) = reg k) \<and>
     (\<forall>k fd len. reg (fst (w_read W k fd len)) = reg k)"

text \<open>A read fills a prefix of the slice it is given.\<close>

definition reads_ok :: "'k world \<Rightarrow> bool" where
  "reads_ok W \<longleftrightarrow> (\<forall>k fd len. case w_read W k fd len of (k', n, data, e) \<Rightarrow>
     if e = None then n = glen data \<and> n \<le> len else n = -1)"

text \<open>\<open>isopen k fd\<close>: the descriptor is open. A call on a closed one fails, and closing closes.\<close>

definition fds_ok :: "'k world \<Rightarrow> ('k \<Rightarrow> int \<Rightarrow> bool) \<Rightarrow> bool" where
  "fds_ok W isopen \<longleftrightarrow>
     (\<forall>k fd d. isopen (fst (w_write W k fd d)) = isopen k \<and>
        (\<not> isopen k fd \<longrightarrow> snd (snd (w_write W k fd d)) = Some EBADF)) \<and>
     (\<forall>k fd iov. isopen (fst (w_writev W k fd iov)) = isopen k \<and>
        (\<not> isopen k fd \<longrightarrow> snd (snd (w_writev W k fd iov)) = Some EBADF)) \<and>
     (\<forall>k fd len. isopen (fst (w_read W k fd len)) = isopen k \<and>
        (\<not> isopen k fd \<longrightarrow> snd (snd (snd (w_read W k fd len))) = Some EBADF)) \<and>
     (\<forall>k op' fd ev. isopen (fst (w_ctl W k op' fd ev)) = isopen k) \<and>
     (\<forall>k fd. \<not> isopen (fst (w_close W k fd)) fd)"

definition env_ok :: "'k world \<Rightarrow> bool" where
  "env_ok W \<longleftrightarrow> (\<forall>i. ring_source (snd (w_env W i)))"

text \<open>The kernel may refuse a vector on \<open>fd\<close>.\<close>

definition may_fail :: "'k world \<Rightarrow> int \<Rightarrow> bool" where
  "may_fail W fd \<longleftrightarrow> (\<exists>k iov. snd (snd (w_writev W k fd iov)) \<noteq> None)"

definition out_rep :: "('k, 'u) lstate \<Rightarrow> nat \<Rightarrow> byte list \<Rightarrow> bool" where
  "out_rep st c xs \<longleftrightarrow> (\<exists>mb. c_out (ls_conn st c) = Some mb \<and> eb_rep mb xs)"

text \<open>The state after outbound operations on \<open>c\<close>: only its buffer, the kernel and the tick differ.\<close>

definition out_upd :: "('k, 'u) lstate \<Rightarrow> nat \<Rightarrow> ebuf \<Rightarrow> 'k \<Rightarrow> nat \<Rightarrow> ('k, 'u) lstate" where
  "out_upd st c mb k t = (set_out st c mb)\<lparr>ls_k := k, ls_tick := t\<rparr>"

lemma out_upd_sel [simp]:
  "ls_k (out_upd st c mb k t) = k" "ls_tick (out_upd st c mb k t) = t"
  "ls_conn (out_upd st c mb k t) = (ls_conn st)(c := (ls_conn st c)\<lparr>c_out := Some mb\<rparr>)"
  "ls_connections (out_upd st c mb k t) = ls_connections st" "ls_user (out_upd st c mb k t) = ls_user st"
  "ls_connCount (out_upd st c mb k t) = ls_connCount st" "ls_udpSockets (out_upd st c mb k t) = ls_udpSockets st"
  "ls_lnfd (out_upd st c mb k t) = ls_lnfd st" "ls_efd (out_upd st c mb k t) = ls_efd st"
  "ls_async (out_upd st c mb k t) = ls_async st" "ls_urgent (out_upd st c mb k t) = ls_urgent st"
  "ls_bufLen (out_upd st c mb k t) = ls_bufLen st" "ls_wakeup (out_upd st c mb k t) = ls_wakeup st"
  "out_upd (out_upd st c mb k t) c mb' k' t' = out_upd st c mb' k' t'"
  "(out_upd st c mb k t)\<lparr>ls_k := k'\<rparr> = out_upd st c mb k' t"
  "out_upd (st\<lparr>ls_k := k'\<rparr>) c mb k t = out_upd st c mb k t"
  by (simp_all add: out_upd_def set_out_def)

lemma out_rep_upd [simp]: "out_rep (out_upd st c mb k t) c xs \<longleftrightarrow> eb_rep mb xs"
  by (simp add: out_rep_def)

lemma out_rep_k [simp]: "out_rep (st\<lparr>ls_k := k\<rparr>) c xs \<longleftrightarrow> out_rep st c xs"
  by (simp add: out_rep_def)

lemma out_repE:
  assumes "out_rep st c xs"
  obtains mb where "c_out (ls_conn st c) = Some mb" "eb_rep mb xs" "st = out_upd st c mb (ls_k st) (ls_tick st)"
proof -
  from assms obtain mb where mb: "c_out (ls_conn st c) = Some mb" "eb_rep mb xs" by (auto simp: out_rep_def)
  then have "(ls_conn st c)\<lparr>c_out := Some mb\<rparr> = ls_conn st c" by (cases "ls_conn st c") simp
  then have "st = out_upd st c mb (ls_k st) (ls_tick st)" by (cases st) (simp add: out_upd_def set_out_def)
  with mb show ?thesis by (rule that)
qed

lemma out_IsEmpty_rep: "out_rep st c xs \<Longrightarrow> out_IsEmpty st c = Ret (xs = [])"
  by (auto simp: out_rep_def out_IsEmpty_def with_out_def eb_IsEmpty_rep)

lemma env_source: "env_ok W \<Longrightarrow> w_env W t = (mem, fresh) \<Longrightarrow> ring_source fresh"
  by (metis env_ok_def snd_conv)

lemma out_Write_rep:
  assumes "env_ok W" "out_rep st c xs" "glen xs + glen d \<le> 2 ^ 62"
  shows "\<exists>mb. out_Write W st c d = Ret (out_upd st c mb (ls_k st) (Suc (ls_tick st))) \<and> eb_rep mb (xs @ d)"
proof -
  from assms(2) obtain mb where mb: "c_out (ls_conn st c) = Some mb" "eb_rep mb xs" by (auto simp: out_rep_def)
  obtain mem fresh where e: "w_env W (ls_tick st) = (mem, fresh)" by (cases "w_env W (ls_tick st)")
  obtain mb' where "eb_Write mem fresh mb d = Ret (mb', glen d, None)" "eb_rep mb' (xs @ d)"
    using ring_source.eb_Write_rep[OF env_source[OF assms(1) e] mb(2) assms(3)] by blast
  with mb e show ?thesis by (auto simp: out_Write_def with_out_def out_upd_def set_out_def)
qed

lemma out_Writev_rep:
  assumes "env_ok W" "out_rep st c xs" "glen xs + glen (concat bs) \<le> 2 ^ 62"
  shows "\<exists>mb. out_Writev W st c bs = Ret (out_upd st c mb (ls_k st) (Suc (ls_tick st))) \<and> eb_rep mb (xs @ concat bs)"
proof -
  from assms(2) obtain mb where mb: "c_out (ls_conn st c) = Some mb" "eb_rep mb xs" by (auto simp: out_rep_def)
  obtain mem fresh where e: "w_env W (ls_tick st) = (mem, fresh)" by (cases "w_env W (ls_tick st)")
  obtain mb' where "eb_Writev mem fresh mb bs = Ret (mb', glen (concat bs), None)" "eb_rep mb' (xs @ concat bs)"
    using ring_source.eb_Writev_rep[OF env_source[OF assms(1) e] mb(2) assms(3)] by blast
  with mb e show ?thesis by (auto simp: out_Writev_def with_out_def out_upd_def set_out_def)
qed

lemma out_Discard_rep:
  assumes "out_rep st c xs"
  shows "\<exists>mb. out_Discard st c n = Ret (out_upd st c mb (ls_k st) (ls_tick st)) \<and> eb_rep mb (drop (nat n) xs)"
proof -
  from assms obtain mb where mb: "c_out (ls_conn st c) = Some mb" "eb_rep mb xs" by (auto simp: out_rep_def)
  obtain mb' e where "eb_Discard mb n = Ret (mb', min (max 0 n) (glen xs), e)" "eb_rep mb' (drop (nat n) xs)"
    using eb_Discard_rep[OF mb(2)] by blast
  with mb show ?thesis by (auto simp: out_Discard_def with_out_def out_upd_def set_out_def)
qed

text \<open>The vector a flush passes to the kernel is a non-empty prefix of the pending bytes.\<close>

lemma take_concat_take: "m \<le> length (concat (take j ys)) \<Longrightarrow> take m (concat (take j ys)) = take m (concat ys)"
  by (subst (2) append_take_drop_id[of j ys, symmetric]) (simp del: append_take_drop_id)

lemma out_Peek_iov:
  assumes "out_rep st c xs" "xs \<noteq> []"
  shows "\<exists>iov k. out_Peek st c n = Ret iov \<and> iov \<noteq> [] \<and> hd iov \<noteq> [] \<and> concat iov = take k xs \<and> k \<le> length xs"
proof -
  from assms obtain mb where mb: "c_out (ls_conn st c) = Some mb" "eb_rep mb xs" by (auto simp: out_rep_def)
  with first.ebq.peek_then_skip[OF mb(2) assms(2), of n] show ?thesis by (auto simp: out_Peek_def with_out_def)
qed

lemma sendsD:
  assumes "sends peer k fd d (k', n, e)"
  shows "fd' \<noteq> fd \<Longrightarrow> peer k' fd' = peer k fd'" "e = None \<Longrightarrow> 0 \<le> n" "e = None \<Longrightarrow> n \<le> glen d"
    "e = None \<Longrightarrow> d \<noteq> [] \<Longrightarrow> 0 < n" "e = None \<Longrightarrow> peer k' fd = peer k fd @ take (nat n) d"
    "e \<noteq> None \<Longrightarrow> n = -1" "e \<noteq> None \<Longrightarrow> peer k' fd = peer k fd"
  using assms by (auto simp: sends_def)

lemma kernel_okD:
  assumes "kernel_ok W peer"
  shows "w_write W k fd d = r \<Longrightarrow> sends peer k fd d r"
    "w_writev W k fd iov = r \<Longrightarrow> sends peer k fd (concat iov) r"
    "w_read W k fd len = (k', x) \<Longrightarrow> peer k' = peer k"
    "w_close W k fd = (k', y) \<Longrightarrow> peer k' = peer k"
    "w_ctl W k op fd ev = (k', z) \<Longrightarrow> peer k' = peer k"
  using assms unfolding kernel_ok_def by (metis fst_conv)+

lemma io_Writev_sends:
  "kernel_ok W peer \<Longrightarrow> io_Writev W k fd iov = r \<Longrightarrow> sends peer k fd (concat iov) r"
  by (cases "iov = []") (auto simp: io_Writev_def sends_def, auto simp: sends_def dest!: kernel_okD(2))

lemma sends_prefix:
  assumes "sends peer k fd (concat iov) (k', n, None)" "concat iov = take j xs" "j \<le> length xs"
  shows "peer k' fd = peer k fd @ take (nat n) xs" "nat n \<le> length xs"
proof -
  have n: "nat n \<le> j" using sendsD(2,3)[OF assms(1)] assms(2,3) by simp
  then show "nat n \<le> length xs" using assms(3) by simp
  show "peer k' fd = peer k fd @ take (nat n) xs" using sendsD(5)[OF assms(1)] n assms(2) by (simp add: min_def)
qed

lemma iov_cut:
  assumes "iov0 \<noteq> []" "hd iov0 \<noteq> []" "concat iov0 = take j xs" "j \<le> length xs"
    and iov: "iov = (if length iov0 > iovMax then take iovMax iov0 else iov0)"
  shows "\<exists>j. concat iov = take j xs \<and> j \<le> length xs" "concat iov \<noteq> []" "iov \<noteq> []" "hd iov \<noteq> []"
proof -
  have eq: "iov = take iovMax iov0" using iov by simp
  have "concat iov @ concat (drop iovMax iov0) = take j xs"
    unfolding eq assms(3)[symmetric] concat_append[symmetric] by simp
  then have "take (length (concat iov)) (take j xs) = concat iov" "length (concat iov) \<le> length (take j xs)"
    by (metis append_eq_conv_conj, metis length_append le_add1)
  then have "concat iov = take (length (concat iov)) xs" "length (concat iov) \<le> length xs"
    using assms(4) by (auto simp: min_def split: if_splits)
  then show "\<exists>j. concat iov = take j xs \<and> j \<le> length xs" by blast
  show "iov \<noteq> []" "hd iov \<noteq> []" using assms(1,2) by (cases iov0; simp add: eq iovMax_def)+
  then show "concat iov \<noteq> []" by (cases iov) auto
qed

text \<open>One round of the flush in \<open>closeConn\<close>.\<close>

lemma el_flush_step:
  assumes K: "kernel_ok W peer" and rep: "out_rep st c xs" and fd: "fd = c_fd (ls_conn st c)"
  shows "(xs = [] \<and> el_flushBody W c st = Ret (Inr st)) \<or>
    (\<exists>k. xs \<noteq> [] \<and> may_fail W fd \<and> el_flushBody W c st = Ret (Inr (st\<lparr>ls_k := k\<rparr>)) \<and> peer k = peer (ls_k st)) \<or>
    (\<exists>mb k n. 0 < n \<and> n \<le> length xs \<and> el_flushBody W c st = Ret (Inl (out_upd st c mb k (ls_tick st))) \<and>
       eb_rep mb (drop n xs) \<and> peer k fd = peer (ls_k st) fd @ take n xs \<and>
       (\<forall>fd'. fd' \<noteq> fd \<longrightarrow> peer k fd' = peer (ls_k st) fd'))"
proof (cases "xs = []")
  case True
  then show ?thesis using out_IsEmpty_rep[OF rep] by (simp add: el_flushBody_def)
next
  case ne: False
  obtain iov0 j where iov0: "out_Peek st c 0 = Ret iov0" "iov0 \<noteq> []" "hd iov0 \<noteq> []" "concat iov0 = take j xs"
    "j \<le> length xs" using out_Peek_iov[OF rep ne] by blast
  define iov where "iov = (if length iov0 > iovMax then take iovMax iov0 else iov0)"
  obtain k n e where w: "io_Writev W (ls_k st) fd iov = (k, n, e)" by (cases "io_Writev W (ls_k st) fd iov")
  note s = io_Writev_sends[OF K w]
  note iov = iov_cut(1)[OF iov0(2-5) iov_def] and ne' = iov_cut(2)[OF iov0(2-5) iov_def]
  show ?thesis
  proof (cases "e = None")
    case True
    obtain j' where j': "concat iov = take j' xs" "j' \<le> length xs" using iov by blast
    note p = sends_prefix[OF s[unfolded True] j']
    obtain mb where "out_Discard (st\<lparr>ls_k := k\<rparr>) c n = Ret (out_upd st c mb k (ls_tick st))" "eb_rep mb (drop (nat n) xs)"
      using out_Discard_rep[of "st\<lparr>ls_k := k\<rparr>" c xs n] rep by auto
    moreover have "0 < nat n" using sendsD(4)[OF s True ne'] by simp
    ultimately show ?thesis
      using ne p True w iov0 fd out_IsEmpty_rep[OF rep] sendsD(1)[OF s]
      by (auto simp: el_flushBody_def iov_def[symmetric] intro!: exI[of _ mb] exI[of _ k] exI[of _ "nat n"])
  next
    case False
    have "peer k = peer (ls_k st)" using sendsD(1,7)[OF s] False by (metis ext)
    moreover have "may_fail W fd" using w False unfolding may_fail_def io_Writev_def
      by (metis prod.inject snd_conv)
    ultimately show ?thesis using False ne w iov0 fd out_IsEmpty_rep[OF rep]
      by (auto simp: el_flushBody_def iov_def[symmetric])
  qed
qed


lemma el_flush_loop:
  assumes K: "kernel_ok W peer" and "out_rep st c xs" and "fd = c_fd (ls_conn st c)"
  shows "\<exists>mb k n. go_loop (el_flushBody W c) st = Ret (out_upd st c mb k (ls_tick st)) \<and> n \<le> length xs \<and>
    eb_rep mb (drop n xs) \<and> peer k fd = peer (ls_k st) fd @ take n xs \<and>
    (\<forall>fd'. fd' \<noteq> fd \<longrightarrow> peer k fd' = peer (ls_k st) fd') \<and> (n = length xs \<or> may_fail W fd)"
  using assms(2,3)
proof (induction "length xs" arbitrary: st xs rule: less_induct)
  case less
  from less.prems(1) obtain mb0 where mb0: "eb_rep mb0 xs" "st = out_upd st c mb0 (ls_k st) (ls_tick st)"
    by (rule out_repE)
  from el_flush_step[OF K less.prems] show ?case
  proof (elim disjE)
    assume "xs = [] \<and> el_flushBody W c st = Ret (Inr st)"
    then show ?thesis using mb0
      by (subst go_loop_unfold) (force intro!: exI[of _ mb0] exI[of _ "ls_k st"])
  next
    assume "\<exists>k. xs \<noteq> [] \<and> may_fail W fd \<and> el_flushBody W c st = Ret (Inr (st\<lparr>ls_k := k\<rparr>)) \<and> peer k = peer (ls_k st)"
    then obtain k where k: "may_fail W fd" "el_flushBody W c st = Ret (Inr (st\<lparr>ls_k := k\<rparr>))"
      "peer k = peer (ls_k st)" by blast
    have "st\<lparr>ls_k := k\<rparr> = out_upd st c mb0 k (ls_tick st)" by (subst mb0(2)) simp
    with k mb0(1) show ?thesis
      by (subst go_loop_unfold) (force intro!: exI[of _ mb0] exI[of _ k] exI[of _ 0])
  next
    assume "\<exists>mb k n. 0 < n \<and> n \<le> length xs \<and> el_flushBody W c st = Ret (Inl (out_upd st c mb k (ls_tick st))) \<and>
       eb_rep mb (drop n xs) \<and> peer k fd = peer (ls_k st) fd @ take n xs \<and>
       (\<forall>fd'. fd' \<noteq> fd \<longrightarrow> peer k fd' = peer (ls_k st) fd')"
    then obtain mb k n where n: "0 < n" "n \<le> length xs"
      "el_flushBody W c st = Ret (Inl (out_upd st c mb k (ls_tick st)))" "eb_rep mb (drop n xs)"
      "peer k fd = peer (ls_k st) fd @ take n xs" "\<forall>fd'. fd' \<noteq> fd \<longrightarrow> peer k fd' = peer (ls_k st) fd'" by blast
    let ?st = "out_upd st c mb k (ls_tick st)"
    have "length (drop n xs) < length xs" using n by simp
    from less.hyps[OF this, of ?st] n(4) less.prems(2) obtain mb' k' n' where
      "go_loop (el_flushBody W c) ?st = Ret (out_upd st c mb' k' (ls_tick st))" "n' \<le> length (drop n xs)"
      "eb_rep mb' (drop n' (drop n xs))" "peer k' fd = peer k fd @ take n' (drop n xs)"
      "\<forall>fd'. fd' \<noteq> fd \<longrightarrow> peer k' fd' = peer k fd'" "n' = length (drop n xs) \<or> may_fail W fd" by auto
    moreover have "take (n + n') xs = take n xs @ take n' (drop n xs)" by (rule take_add)
    moreover have "drop n' (drop n xs) = drop (n + n') xs" by (simp add: add.commute)
    ultimately show ?thesis using n
      by (subst go_loop_unfold) (auto intro!: exI[of _ mb'] exI[of _ k'] exI[of _ "n + n'"] simp del: drop_drop)
  qed
qed


section \<open>Closing a connection\<close>

text \<open>What no operation on connection \<open>c\<close> changes.\<close>

definition frame_ok :: "('k, 'u) lstate \<Rightarrow> nat \<Rightarrow> ('k, 'u) lstate \<Rightarrow> bool" where
  "frame_ok st c st' \<longleftrightarrow>
     (\<forall>c'. c' \<noteq> c \<longrightarrow> ls_conn st' c' = ls_conn st c') \<and> c_fd (ls_conn st' c) = c_fd (ls_conn st c) \<and>
     (\<forall>fd. fd \<noteq> c_fd (ls_conn st c) \<longrightarrow> ls_connections st' fd = ls_connections st fd) \<and>
     ls_udpSockets st' = ls_udpSockets st \<and> ls_lnfd st' = ls_lnfd st \<and> ls_efd st' = ls_efd st \<and>
     ls_bufLen st' = ls_bufLen st"

text \<open>
  \<open>closeConn\<close> with reason \<open>err\<close> on a connection whose pending bytes are \<open>xs\<close>: the kernel got \<open>n\<close> of them,
  the connection left the table and the count, \<open>OnClose\<close> ran once, and the buffers are empty.
\<close>

definition closes ::
  "'k world \<Rightarrow> ('k \<Rightarrow> int \<Rightarrow> byte list) \<Rightarrow> 'u handler \<Rightarrow> ('k, 'u) lstate \<Rightarrow> nat \<Rightarrow> gerror option \<Rightarrow> byte list \<Rightarrow>
   ('k, 'u) lstate \<Rightarrow> gerror option \<Rightarrow> bool" where
  "closes W peer h st c err xs st' rerr \<longleftrightarrow>
     (let fd = c_fd (ls_conn st c) in
      (\<exists>n\<le>length xs. peer (ls_k st') fd = peer (ls_k st) fd @ take n xs \<and> (n = length xs \<or> may_fail W fd)) \<and>
      (\<forall>fd'. fd' \<noteq> fd \<longrightarrow> peer (ls_k st') fd' = peer (ls_k st) fd') \<and>
      ls_connections st' = (ls_connections st)(fd := None) \<and> ls_connCount st' = ls_connCount st - 1 \<and>
      \<not> c_opened (ls_conn st' c) \<and> \<not> c_attached (ls_conn st' c) \<and> out_rep st' c [] \<and> c_holds (ls_conn st' c) [] \<and>
      c_localAddr (ls_conn st' c) = None \<and> c_isDatagram (ls_conn st' c) = c_isDatagram (ls_conn st c) \<and>
      ls_user st' = fst (h_OnClose h c err (ls_user st)) \<and>
      (snd (h_OnClose h c err (ls_user st)) = ActShutdown \<longrightarrow> rerr = Some ErrEngineShutdown) \<and>
      (snd (h_OnClose h c err (ls_user st)) \<noteq> ActShutdown \<longrightarrow> rerr \<notin> {Some ErrAcceptSocket, Some ErrEngineShutdown}) \<and>
      (\<forall>isopen. fds_ok W isopen \<longrightarrow> \<not> isopen (ls_k st') fd) \<and> (\<exists>k. ls_k st' = fst (w_close W k fd)) \<and>
      ls_async st' = ls_async st \<and> ls_urgent st' = ls_urgent st \<and> frame_ok st c st')"

lemma releaseTCP_spec:
  assumes "c_out x = Some mb" "eb_rep mb xs"
  shows "\<exists>mb'. releaseTCP x = Ret (x\<lparr>c_opened := False, c_peer := None, c_ctx := None, c_buf := [], c_localAddr := None,
      c_remoteAddr := None, c_in := er_Done (c_in x), c_out := Some mb', c_attached := False\<rparr>) \<and> eb_rep mb' []"
  using eb_Release_rep[OF assms(2)] assms(1) by (auto simp: releaseTCP_def Let_def)

lemma close_errors_harmless: "close_errors err0 err1 \<notin> {Some ErrAcceptSocket, Some ErrEngineShutdown}"
  by (simp add: close_errors_def split: option.splits)

lemma el_closeConn_spec:
  assumes K: "kernel_ok W peer" and rep: "out_rep st c xs" and op: "c_opened (ls_conn st c)"
    and tcp: "\<not> is_udp (ls_conn st c)"
  shows "\<exists>st' rerr. el_closeConn W h st c err = Ret (st', rerr) \<and> closes W peer h st c err xs st' rerr"
proof -
  define fd where "fd = c_fd (ls_conn st c)"
  obtain mb k n where fl: "go_loop (el_flushBody W c) st = Ret (out_upd st c mb k (ls_tick st))" "n \<le> length xs"
    "eb_rep mb (drop n xs)" "peer k fd = peer (ls_k st) fd @ take n xs"
    "\<forall>fd'. fd' \<noteq> fd \<longrightarrow> peer k fd' = peer (ls_k st) fd'" "n = length xs \<or> may_fail W fd"
    using el_flush_loop[OF K rep fd_def] by blast
  obtain k1 e1 where c1: "w_ctl W k EPOLL_CTL_DEL fd 0 = (k1, e1)" by (cases "w_ctl W k EPOLL_CTL_DEL fd 0")
  obtain k2 e2 where c2: "w_close W k1 fd = (k2, e2)" by (cases "w_close W k1 fd")
  have peer2: "peer k2 = peer k" using kernel_okD(4)[OF K c2] kernel_okD(5)[OF K c1] by simp
  have closed: "\<not> isopen k2 fd" if "fds_ok W isopen" for isopen
    using that c2 unfolding fds_ok_def by (metis fst_conv)
  obtain u a where h: "h_OnClose h c err (ls_user st) = (u, a)" by (cases "h_OnClose h c err (ls_user st)")
  obtain mb' where rel: "releaseTCP ((ls_conn st c)\<lparr>c_out := Some mb\<rparr>) =
      Ret ((ls_conn st c)\<lparr>c_opened := False, c_peer := None, c_ctx := None, c_buf := [], c_localAddr := None,
      c_remoteAddr := None, c_in := er_Done (c_in (ls_conn st c)), c_out := Some mb', c_attached := False\<rparr>)" "eb_rep mb' []"
    using releaseTCP_spec[of "(ls_conn st c)\<lparr>c_out := Some mb\<rparr>" mb] fl(3) by auto
  let ?x = "(ls_conn st c)\<lparr>c_opened := False, c_peer := None, c_ctx := None, c_buf := [], c_localAddr := None,
      c_remoteAddr := None, c_in := er_Done (c_in (ls_conn st c)), c_out := Some mb', c_attached := False\<rparr>"
  let ?st = "(out_upd st c mb k2 (ls_tick st))\<lparr>ls_connections := (ls_connections st)(fd := None),
      ls_connCount := ls_connCount st - 1, ls_user := u, ls_conn := (ls_conn st)(c := ?x)\<rparr>"
  let ?e = "if a = ActShutdown then Some ErrEngineShutdown
    else close_errors (NewSyscallError ''epoll_ctl del'' e1) e2"
  have "el_closeConn W h st c err = Ret (?st, ?e)"
    using op tcp by (simp add: el_closeConn_def fl(1) Let_def pl_Delete_def pl_ctl_def c1 c2 fd_def[symmetric]
        el_addConn_def el_OnClose_def h el_releaseTCP_def rel out_upd_def set_out_def)
  moreover have "closes W peer h st c err xs ?st ?e"
    using fl peer2 h rel er_Done_rep closed close_errors_harmless arg_cong[OF c2, of fst, symmetric]
    by (auto simp: closes_def Let_def fd_def frame_ok_def out_rep_def c_holds_def)
  ultimately show ?thesis by blast
qed

lemma el_closeConn_closed:
  "\<not> is_udp (ls_conn st c) \<Longrightarrow> \<not> c_opened (ls_conn st c) \<Longrightarrow> el_closeConn W h st c err = Ret (st, None)"
  by (simp add: el_closeConn_def)


section \<open>Writing to a connection\<close>

lemma ctl_okD:
  assumes "ctl_ok W reg"
  shows "w_ctl W k EPOLL_CTL_MOD fd readWriteEvents = (k', None) \<Longrightarrow> reg k' = (reg k)(fd \<mapsto> readWriteEvents)"
    "w_write W k fd d = (k', r) \<Longrightarrow> reg k' = reg k"
    "w_writev W k fd iov = (k', r2) \<Longrightarrow> reg k' = reg k"
    "w_read W k fd len = (k', r3) \<Longrightarrow> reg k' = reg k"
  using assms unfolding ctl_ok_def by (metis fst_conv snd_conv)+

lemma epoll_ctl_ok:
  assumes "epoll_ok W reg"
  shows "ctl_ok W reg"
proof -
  have "reg (fst (w_ctl W k EPOLL_CTL_MOD fd readWriteEvents)) = (reg k)(fd \<mapsto> readWriteEvents)"
    if "snd (w_ctl W k EPOLL_CTL_MOD fd readWriteEvents) = None" for k fd
  proof -
    have "ctl_step reg k EPOLL_CTL_MOD fd readWriteEvents (w_ctl W k EPOLL_CTL_MOD fd readWriteEvents)"
      using assms by (simp add: epoll_ok_def)
    then show ?thesis using that by (simp add: ctl_step_def case_prod_unfold)
  qed
  with assms show ?thesis by (simp add: ctl_ok_def epoll_ok_def)
qed

text \<open>An open stream connection with pending bytes \<open>xs\<close>.\<close>

definition conn_open :: "('k, 'u) lstate \<Rightarrow> nat \<Rightarrow> byte list \<Rightarrow> bool" where
  "conn_open st c xs \<longleftrightarrow> c_opened (ls_conn st c) \<and> c_attached (ls_conn st c) \<and> \<not> is_udp (ls_conn st c) \<and>
     \<not> c_isDatagram (ls_conn st c) \<and> out_rep st c xs"

definition watched :: "('k \<Rightarrow> int \<Rightarrow> 32 word option) \<Rightarrow> 'k \<Rightarrow> int \<Rightarrow> byte list \<Rightarrow> bool" where
  "watched reg k fd xs \<longleftrightarrow> (xs \<noteq> [] \<longrightarrow> reg k fd = Some readWriteEvents)"

text \<open>
  \<open>data\<close> was accepted: what the kernel got followed by what is still pending is what it was before,
  followed by \<open>data\<close>; and unless an error is reported, pending bytes are watched for.
\<close>

definition accepted ::
  "('k \<Rightarrow> int \<Rightarrow> byte list) \<Rightarrow> ('k \<Rightarrow> int \<Rightarrow> 32 word option) \<Rightarrow> ('k, 'u) lstate \<Rightarrow> nat \<Rightarrow> byte list \<Rightarrow>
   byte list \<Rightarrow> ('k, 'u) lstate \<Rightarrow> gerror option \<Rightarrow> bool" where
  "accepted peer reg st c xs data st' e \<longleftrightarrow>
     (let fd = c_fd (ls_conn st c) in
      \<exists>mb k t ys. st' = out_upd st c mb k t \<and> eb_rep mb ys \<and> length ys \<le> length xs + length data \<and>
        peer k fd @ ys = peer (ls_k st) fd @ xs @ data \<and> (\<forall>fd'. fd' \<noteq> fd \<longrightarrow> peer k fd' = peer (ls_k st) fd') \<and>
        (watched reg (ls_k st) fd xs \<and> e = None \<longrightarrow> watched reg k fd ys))"

lemma acceptedI:
  "st' = out_upd st c mb k t \<Longrightarrow> eb_rep mb ys \<Longrightarrow> fd = c_fd (ls_conn st c) \<Longrightarrow> length ys \<le> length xs + length data \<Longrightarrow>
   peer k fd @ ys = peer (ls_k st) fd @ xs @ data \<Longrightarrow> \<forall>fd'. fd' \<noteq> fd \<longrightarrow> peer k fd' = peer (ls_k st) fd' \<Longrightarrow>
   (watched reg (ls_k st) fd xs \<Longrightarrow> e = None \<Longrightarrow> watched reg k fd ys) \<Longrightarrow> accepted peer reg st c xs data st' e"
  unfolding accepted_def Let_def by blast

lemma conn_open_upd: "conn_open st c xs \<Longrightarrow> eb_rep mb ys \<Longrightarrow> conn_open (out_upd st c mb k t) c ys"
  by (auto simp: conn_open_def is_udp_def)

lemma accepted_conn_open: "conn_open st c xs \<Longrightarrow> accepted peer reg st c xs d st' e \<Longrightarrow> \<exists>ys. conn_open st' c ys"
  unfolding accepted_def Let_def by (elim exE conjE) (simp, blast intro: conn_open_upd)

lemma pl_ModReadWrite_spec:
  assumes K: "kernel_ok W peer" and R: "ctl_ok W reg" and att: "c_attached (ls_conn st c)"
  shows "\<exists>k e. pl_ModReadWrite W st c = Ret (st\<lparr>ls_k := k\<rparr>, e) \<and> peer k = peer (ls_k st) \<and>
    (e = None \<longrightarrow> reg k (c_fd (ls_conn st c)) = Some readWriteEvents)"
proof -
  let ?fd = "c_fd (ls_conn st c)"
  obtain k e where c: "w_ctl W (ls_k st) EPOLL_CTL_MOD ?fd readWriteEvents = (k, e)"
    by (cases "w_ctl W (ls_k st) EPOLL_CTL_MOD ?fd readWriteEvents")
  show ?thesis using att c kernel_okD(5)[OF K c] ctl_okD(1)[OF R]
    by (cases e) (auto simp: pl_ModReadWrite_def pl_attached_def pl_ctl_def NewSyscallError_def)
qed

text \<open>Buffering \<open>rest\<close> after the kernel took the bytes before it, then asking for write events.\<close>

lemma watch_rest:
  assumes K: "kernel_ok W peer" and R: "ctl_ok W reg" and st: "conn_open st c []" and mb: "eb_rep mb rest" and len: "length rest \<le> length data"
    and k: "peer k fd @ rest = peer (ls_k st) fd @ data" "\<forall>fd'. fd' \<noteq> fd \<longrightarrow> peer k fd' = peer (ls_k st) fd'"
    and fd: "fd = c_fd (ls_conn st c)"
  shows "\<exists>st' e. pl_ModReadWrite W (out_upd st c mb k t) c = Ret (st', e) \<and> accepted peer reg st c [] data st' e"
proof -
  have "c_attached (ls_conn (out_upd st c mb k t) c)" using st by (simp add: conn_open_def)
  from pl_ModReadWrite_spec[OF K R this] obtain k' e where
    mod: "pl_ModReadWrite W (out_upd st c mb k t) c = Ret (out_upd st c mb k' t, e)"
    "peer k' = peer k" "e = None \<longrightarrow> reg k' fd = Some readWriteEvents" using fd by auto
  have "accepted peer reg st c [] data (out_upd st c mb k' t) e"
    by (rule acceptedI[OF refl mb fd]) (use mod k len in \<open>auto simp: watched_def\<close>)
  with mod show ?thesis by auto
qed

lemma buffer_rest:
  assumes K: "kernel_ok W peer" and R: "ctl_ok W reg" and E: "env_ok W" and st: "conn_open st c []"
    and k: "peer k fd @ rest = peer (ls_k st) fd @ data" "\<forall>fd'. fd' \<noteq> fd \<longrightarrow> peer k fd' = peer (ls_k st) fd'"
    and fd: "fd = c_fd (ls_conn st c)" and small: "glen rest \<le> 2 ^ 62" and len: "length rest \<le> length data"
  shows "\<exists>st' e. go_bind (out_Write W (st\<lparr>ls_k := k\<rparr>) c rest) (\<lambda>st. pl_ModReadWrite W st c) = Ret (st', e) \<and>
    accepted peer reg st c [] data st' e"
proof -
  have "out_rep (st\<lparr>ls_k := k\<rparr>) c []" using st by (simp add: conn_open_def)
  from out_Write_rep[OF E this, of rest] small obtain mb where
    "out_Write W (st\<lparr>ls_k := k\<rparr>) c rest = Ret (out_upd st c mb k (Suc (ls_tick st)))" "eb_rep mb rest"
    by auto
  with watch_rest[OF K R st _ len k fd] show ?thesis by simp
qed

lemma buffer_restv:
  assumes K: "kernel_ok W peer" and R: "ctl_ok W reg" and E: "env_ok W" and st: "conn_open st c []"
    and k: "peer k fd @ concat rest = peer (ls_k st) fd @ data" "\<forall>fd'. fd' \<noteq> fd \<longrightarrow> peer k fd' = peer (ls_k st) fd'"
    and fd: "fd = c_fd (ls_conn st c)" and small: "glen (concat rest) \<le> 2 ^ 62"
    and len: "length (concat rest) \<le> length data"
  shows "\<exists>st' e. go_bind (out_Writev W (st\<lparr>ls_k := k\<rparr>) c rest) (\<lambda>st. pl_ModReadWrite W st c) = Ret (st', e) \<and>
    accepted peer reg st c [] data st' e"
proof -
  have "out_rep (st\<lparr>ls_k := k\<rparr>) c []" using st by (simp add: conn_open_def)
  from out_Writev_rep[OF E this, of rest] small obtain mb where
    "out_Writev W (st\<lparr>ls_k := k\<rparr>) c rest = Ret (out_upd st c mb k (Suc (ls_tick st)))" "eb_rep mb (concat rest)"
    by auto
  with watch_rest[OF K R st _ len k fd] show ?thesis by simp
qed

lemma c_write_spec:
  assumes K: "kernel_ok W peer" and R: "ctl_ok W reg" and E: "env_ok W" and st: "conn_open st c xs"
    and small: "glen xs + glen data \<le> 2 ^ 62"
  shows "\<exists>st' n e. c_write W h st c data = Ret (st', n, e) \<and>
    (n = glen data \<and> accepted peer reg st c xs data st' e \<or>
     n = -1 \<and> xs = [] \<and> (\<exists>k er. peer k = peer (ls_k st) \<and>
       closes W peer h (st\<lparr>ls_k := k\<rparr>) c (Some (SyscallError ''write'' er)) [] st' e))"
proof -
  define fd where "fd = c_fd (ls_conn st c)"
  have rep: "out_rep st c xs" using st by (simp add: conn_open_def)
  show ?thesis
  proof (cases "xs = []")
    case False
    obtain mb where "out_Write W st c data = Ret (out_upd st c mb (ls_k st) (Suc (ls_tick st)))" "eb_rep mb (xs @ data)"
      using out_Write_rep[OF E rep small] by blast
    moreover from this have "accepted peer reg st c xs data (out_upd st c mb (ls_k st) (Suc (ls_tick st))) None"
      using False by (intro acceptedI[OF refl _ fd_def]) (auto simp: watched_def)
    ultimately show ?thesis using False out_IsEmpty_rep[OF rep] by (auto simp: c_write_def Let_def)
  next
    case True
    obtain k n e where w: "w_write W (ls_k st) fd data = (k, n, e)" by (cases "w_write W (ls_k st) fd data")
    note s = kernel_okD(1)[OF K w]
    show ?thesis
    proof (cases e)
      case None
      show ?thesis
      proof (cases "n < glen data")
        case less: True
        let ?rest = "drop (nat n) data"
        have "go_slice data n (glen data) = Ret ?rest" using sendsD(2,3)[OF s None] by (simp add: go_slice_Ret)
        moreover obtain st' e' where
          "go_bind (out_Write W (st\<lparr>ls_k := k\<rparr>) c ?rest) (\<lambda>st. pl_ModReadWrite W st c) = Ret (st', e')"
          "accepted peer reg st c [] data st' e'"
        proof -
          have "peer k fd @ ?rest = peer (ls_k st) fd @ data" using sendsD(5)[OF s None] by simp
          moreover have "\<forall>fd'. fd' \<noteq> fd \<longrightarrow> peer k fd' = peer (ls_k st) fd'" using sendsD(1)[OF s] by blast
          moreover have "glen ?rest \<le> 2 ^ 62" "length ?rest \<le> length data" using small by simp_all
          ultimately show ?thesis using that buffer_rest[OF K R E st[unfolded True] _ _ fd_def] by blast
        qed
        ultimately show ?thesis using True None less w out_IsEmpty_rep[OF rep]
          by (auto simp: c_write_def Let_def fd_def[symmetric] go_bind_Ret_iff)
      next
        case all: False
        obtain mb where mb: "eb_rep mb []" "st = out_upd st c mb (ls_k st) (ls_tick st)"
          using out_repE[OF rep] True by metis
        have "st\<lparr>ls_k := k\<rparr> = out_upd st c mb k (ls_tick st)" by (subst mb(2)) simp
        moreover have "peer k fd = peer (ls_k st) fd @ data" using sendsD(3,5)[OF s None] all by simp
        ultimately have "accepted peer reg st c xs data (st\<lparr>ls_k := k\<rparr>) None"
          using sendsD(1)[OF s] True by (intro acceptedI[OF _ mb(1) fd_def]) (auto simp: watched_def)
        then show ?thesis using True None all w out_IsEmpty_rep[OF rep]
          by (simp add: c_write_def Let_def fd_def[symmetric])
      qed
    next
      case (Some er)
      then have p: "peer k = peer (ls_k st)" using sendsD(1,7)[OF s] by (metis ext option.discI)
      show ?thesis
      proof (cases "er = EAGAIN")
        case True2: True
        obtain st' e' where
          "go_bind (out_Write W (st\<lparr>ls_k := k\<rparr>) c data) (\<lambda>st. pl_ModReadWrite W st c) = Ret (st', e')"
          "accepted peer reg st c [] data st' e'"
          using buffer_rest[OF K R E st[unfolded True], of k fd data data] p fd_def small True by auto
        then show ?thesis using True Some True2 w out_IsEmpty_rep[OF rep]
          by (auto simp: c_write_def Let_def fd_def[symmetric] go_bind_Ret_iff)
      next
        case False
        have "out_rep (st\<lparr>ls_k := k\<rparr>) c []" using rep True by simp
        from el_closeConn_spec[OF K this] st obtain st' rerr where
          "el_closeConn W h (st\<lparr>ls_k := k\<rparr>) c (Some (SyscallError ''write'' er)) = Ret (st', rerr)"
          "closes W peer h (st\<lparr>ls_k := k\<rparr>) c (Some (SyscallError ''write'' er)) [] st' rerr"
          by (fastforce simp: conn_open_def is_udp_def)
        then show ?thesis using True Some False w out_IsEmpty_rep[OF rep] p
          by (auto simp: c_write_def Let_def fd_def[symmetric])
      qed
    qed
  qed
qed


lemma cut_sent_spec:
  "0 \<le> sent \<Longrightarrow> sent < glen (concat bs) \<Longrightarrow>
   \<exists>rest. cut_sent bs sent = Ret rest \<and> concat rest = drop (nat sent) (concat bs)"
proof (induction bs arbitrary: sent)
  case (Cons b bs)
  show ?case
  proof (cases "sent < glen b")
    case True
    then show ?thesis using Cons.prems by (simp add: go_slice_Ret)
  next
    case False
    with Cons.IH[of "sent - glen b"] Cons.prems show ?thesis by (auto simp: nat_minus_int)
  qed
qed simp

lemma sum_glen: "sum_list (map glen bs) = glen (concat bs)"
  by (induction bs) auto

lemma c_writev_spec:
  assumes K: "kernel_ok W peer" and R: "ctl_ok W reg" and E: "env_ok W" and st: "conn_open st c xs"
    and small: "glen xs + glen (concat bs) \<le> 2 ^ 62"
  shows "\<exists>st' n e. c_writev W h st c bs = Ret (st', n, e) \<and>
    (n = glen (concat bs) \<and> accepted peer reg st c xs (concat bs) st' e \<or>
     n = -1 \<and> xs = [] \<and> (\<exists>k er. peer k = peer (ls_k st) \<and>
       closes W peer h (st\<lparr>ls_k := k\<rparr>) c (Some (SyscallError ''write'' er)) [] st' e))"
proof -
  define fd where "fd = c_fd (ls_conn st c)"
  let ?d = "concat bs"
  have rep: "out_rep st c xs" using st by (simp add: conn_open_def)
  note defs = c_writev_def Let_def fd_def[symmetric] sum_glen out_IsEmpty_rep[OF rep]
  show ?thesis
  proof (cases "xs = []")
    case False
    obtain mb where "out_Writev W st c bs = Ret (out_upd st c mb (ls_k st) (Suc (ls_tick st)))" "eb_rep mb (xs @ ?d)"
      using out_Writev_rep[OF E rep small] by blast
    moreover from this have "accepted peer reg st c xs ?d (out_upd st c mb (ls_k st) (Suc (ls_tick st))) None"
      using False by (intro acceptedI[OF refl _ fd_def]) (auto simp: watched_def)
    ultimately show ?thesis using False by (auto simp: defs)
  next
    case True
    obtain k n e where w: "io_Writev W (ls_k st) fd bs = (k, n, e)" by (cases "io_Writev W (ls_k st) fd bs")
    note s = io_Writev_sends[OF K w]
    have others: "\<forall>fd'. fd' \<noteq> fd \<longrightarrow> peer k fd' = peer (ls_k st) fd'" using sendsD(1)[OF s] by blast
    note buf = buffer_restv[OF K R E st[unfolded True] _ others fd_def]
    show ?thesis
    proof (cases e)
      case None
      show ?thesis
      proof (cases "n < glen ?d")
        case less: True
        obtain rest where rest: "cut_sent bs n = Ret rest" "concat rest = drop (nat n) ?d"
          using cut_sent_spec[OF sendsD(2)[OF s None] less] by blast
        have "peer k fd @ concat rest = peer (ls_k st) fd @ ?d" "glen (concat rest) \<le> 2 ^ 62"
          "length (concat rest) \<le> length ?d"
          using sendsD(5)[OF s None] small rest by auto
        from buf[OF this] rest True None less w show ?thesis by (auto simp: defs go_bind_Ret_iff)
      next
        case all: False
        obtain mb where mb: "eb_rep mb []" "st = out_upd st c mb (ls_k st) (ls_tick st)"
          using out_repE[OF rep] True by metis
        have "st\<lparr>ls_k := k\<rparr> = out_upd st c mb k (ls_tick st)" by (subst mb(2)) simp
        moreover have "peer k fd = peer (ls_k st) fd @ ?d" using sendsD(3,5)[OF s None] all by simp
        ultimately have "accepted peer reg st c xs ?d (st\<lparr>ls_k := k\<rparr>) None"
          using others True by (intro acceptedI[OF _ mb(1) fd_def]) (auto simp: watched_def)
        then show ?thesis using True None all w by (simp add: defs)
      qed
    next
      case (Some er)
      then have p: "peer k = peer (ls_k st)" using sendsD(1,7)[OF s] by (metis ext option.discI)
      show ?thesis
      proof (cases "er = EAGAIN")
        case True2: True
        from buf[of bs ?d] p small True Some True2 w show ?thesis by (auto simp: defs go_bind_Ret_iff)
      next
        case False
        have "out_rep (st\<lparr>ls_k := k\<rparr>) c []" using rep True by simp
        from el_closeConn_spec[OF K this] st obtain st' rerr where
          "el_closeConn W h (st\<lparr>ls_k := k\<rparr>) c (Some (SyscallError ''write'' er)) = Ret (st', rerr)"
          "closes W peer h (st\<lparr>ls_k := k\<rparr>) c (Some (SyscallError ''write'' er)) [] st' rerr"
          by (fastforce simp: conn_open_def is_udp_def)
        then show ?thesis using True Some False w p by (auto simp: defs)
      qed
    qed
  qed
qed

lemma pl_ModRead_spec:
  assumes K: "kernel_ok W peer" and att: "c_attached (ls_conn st c)"
  shows "\<exists>k e. pl_ModRead W st c = Ret (st\<lparr>ls_k := k\<rparr>, e) \<and> peer k = peer (ls_k st)"
proof -
  let ?fd = "c_fd (ls_conn st c)"
  obtain k e where c: "w_ctl W (ls_k st) EPOLL_CTL_MOD ?fd readEvents = (k, e)"
    by (cases "w_ctl W (ls_k st) EPOLL_CTL_MOD ?fd readEvents")
  show ?thesis using att c kernel_okD(5)[OF K c]
    by (auto simp: pl_ModRead_def pl_attached_def pl_ctl_def)
qed

lemma el_write_spec:
  assumes K: "kernel_ok W peer" and R: "ctl_ok W reg" and st: "conn_open st c xs" and ne: "xs \<noteq> []"
  shows "\<exists>st' e. el_write W h st c = Ret (st', e) \<and>
    (e = None \<and> accepted peer reg st c xs [] st' None \<or>
     (\<exists>k er mb. peer k = peer (ls_k st) \<and> eb_rep mb xs \<and>
       closes W peer h (out_upd st c mb k (ls_tick st)) c (Some (SyscallError ''write'' er)) xs st' e))"
proof -
  define fd where "fd = c_fd (ls_conn st c)"
  have rep: "out_rep st c xs" using st by (simp add: conn_open_def)
  obtain iov0 j where iov0: "out_Peek st c (-1) = Ret iov0" "iov0 \<noteq> []" "hd iov0 \<noteq> []" "concat iov0 = take j xs"
    "j \<le> length xs" using out_Peek_iov[OF rep ne] by blast
  define iov where "iov = (if length iov0 > iovMax then take iovMax iov0 else iov0)"
  note iov = iov_cut(1)[OF iov0(2-5) iov_def]
  let ?call = "if length iov0 > 1 then io_Writev W (ls_k st) fd iov else w_write W (ls_k st) fd (hd iov0)"
  obtain k n e where w: "?call = (k, n, e)" by (cases ?call)
  have s: "sends peer (ls_k st) fd (concat iov) (k, n, e)"
  proof (cases "length iov0 > 1")
    case True
    then have "io_Writev W (ls_k st) fd iov = (k, n, e)" using w by simp
    then show ?thesis by (rule io_Writev_sends[OF K])
  next
    case False
    then obtain b where "iov0 = [b]" using iov0(2) by (cases iov0) auto
    then have "concat iov = hd iov0" by (simp add: iov_def iovMax_def)
    moreover have "w_write W (ls_k st) fd (hd iov0) = (k, n, e)" using w False by simp
    ultimately show ?thesis using kernel_okD(1)[OF K] by metis
  qed
  obtain mb where dis: "out_Discard (st\<lparr>ls_k := k\<rparr>) c n = Ret (out_upd st c mb k (ls_tick st))" "eb_rep mb (drop (nat n) xs)"
    using out_Discard_rep[of "st\<lparr>ls_k := k\<rparr>" c xs n] rep by auto
  let ?st = "out_upd st c mb k (ls_tick st)"
  have run: "el_write W h st c = (case e of
      Some err \<Rightarrow> if err = EAGAIN then Ret (?st, None) else el_closeConn W h ?st c (Some (SyscallError ''write'' err))
    | None \<Rightarrow> go_bind (out_IsEmpty ?st c) (\<lambda>empty.
        if empty then go_bind (pl_ModRead W ?st c) (\<lambda>(st, _). Ret (st, None)) else Ret (?st, None)))"
  proof -
    have "go_index iov0 0 = Ret (hd iov0)" using iov0(2) by (simp add: go_index_def hd_conv_nth)
    then have "(if length iov0 > 1 then
          let iov = (if length iov0 > iovMax then take iovMax iov0 else iov0)
          in Ret (io_Writev W (ls_k st) fd iov)
        else go_bind (go_index iov0 0) (\<lambda>b. Ret (w_write W (ls_k st) fd b))) = Ret (k, n, e)"
      using w unfolding Let_def iov_def[symmetric] by (auto split: if_splits)
    then show ?thesis unfolding el_write_def fd_def[symmetric] using iov0(1) dis(1) by simp
  qed
  show ?thesis
  proof (cases e)
    case None
    obtain j' where j': "concat iov = take j' xs" "j' \<le> length xs" using iov by blast
    note p = sends_prefix[OF s[unfolded None] j']
    have full: "peer k fd @ drop (nat n) xs = peer (ls_k st) fd @ xs @ []" using p by simp
    have others: "\<forall>fd'. fd' \<noteq> fd \<longrightarrow> peer k fd' = peer (ls_k st) fd'" using sendsD(1)[OF s] by blast
    show ?thesis
    proof (cases "drop (nat n) xs = []")
      case True
      have "c_attached (ls_conn ?st c)" using st by (simp add: conn_open_def)
      from pl_ModRead_spec[OF K this] obtain k' e' where
        m: "pl_ModRead W ?st c = Ret (out_upd st c mb k' (ls_tick st), e')" "peer k' = peer k" by auto
      have "accepted peer reg st c xs [] (out_upd st c mb k' (ls_tick st)) None"
        by (rule acceptedI[OF refl dis(2) fd_def]) (use full others m True in \<open>auto simp: watched_def\<close>)
      then show ?thesis using run None m True out_IsEmpty_rep[of ?st c "drop (nat n) xs"] dis(2) by auto
    next
      case False
      have "reg k = reg (ls_k st)"
        using w ctl_okD(2,3)[OF R] unfolding io_Writev_def by (metis prod.inject)
      then have "accepted peer reg st c xs [] ?st None"
        by (intro acceptedI[OF refl dis(2) fd_def]) (use full others ne in \<open>auto simp: watched_def\<close>)
      then show ?thesis using run None False out_IsEmpty_rep[of ?st c "drop (nat n) xs"] dis(2) by auto
    qed
  next
    case (Some er)
    have n: "drop (nat n) xs = xs" using sendsD(6)[OF s] Some by simp
    have p: "peer k = peer (ls_k st)" using sendsD(1,7)[OF s] Some by (metis ext option.discI)
    show ?thesis
    proof (cases "er = EAGAIN")
      case True
      have "reg k = reg (ls_k st)"
        using w ctl_okD(2,3)[OF R] unfolding io_Writev_def by (metis prod.inject)
      then have "accepted peer reg st c xs [] ?st None"
        by (intro acceptedI[OF refl dis(2) fd_def]) (use n p in \<open>auto simp: watched_def\<close>)
      then show ?thesis using run Some True by simp
    next
      case False
      have "out_rep ?st c xs" "c_opened (ls_conn ?st c)" "\<not> is_udp (ls_conn ?st c)"
        using dis(2) n st by (auto simp: conn_open_def is_udp_def)
      from el_closeConn_spec[OF K this, of h "Some (SyscallError ''write'' er)"] run Some False p dis(2) n
      show ?thesis by (auto intro!: exI[of _ k] exI[of _ er] exI[of _ mb])
    qed
  qed
qed


section \<open>The invariant of the loop\<close>

text \<open>
  The connection table and the open connections are the same thing: the table maps every descriptor
  to the open connection that has it, and the counter counts the table.
\<close>

definition table_ok :: "('k, 'u) lstate \<Rightarrow> bool" where
  "table_ok st \<longleftrightarrow> finite (dom (ls_connections st)) \<and> ls_connCount st = int (card (dom (ls_connections st))) \<and>
     (\<forall>fd c. ls_connections st fd = Some c \<longrightarrow> c_fd (ls_conn st c) = fd \<and> c_opened (ls_conn st c)) \<and>
     (\<forall>c. c_opened (ls_conn st c) \<longrightarrow> ls_connections st (c_fd (ls_conn st c)) = Some c)"

text \<open>
  A stream connection with \<open>xs\<close> to send and \<open>zs\<close> received. Once closed it has nothing to send and its
  descriptor is closed.
\<close>

definition live :: "('k \<Rightarrow> int \<Rightarrow> bool) \<Rightarrow> ('k, 'u) lstate \<Rightarrow> nat \<Rightarrow> byte list \<Rightarrow> byte list \<Rightarrow> bool" where
  "live isopen st c xs zs \<longleftrightarrow>
     c_holds (ls_conn st c) zs \<and> out_rep st c xs \<and> \<not> is_udp (ls_conn st c) \<and> \<not> c_isDatagram (ls_conn st c) \<and>
     (if c_opened (ls_conn st c) then c_attached (ls_conn st c)
      else xs = [] \<and> \<not> isopen (ls_k st) (c_fd (ls_conn st c)))"

text \<open>The bytes a callback may write, whatever it is answered.\<close>

primrec prog_fits :: "nat \<Rightarrow> 'r cprog \<Rightarrow> bool" where
  "prog_fits N (Finish r) = True"
| "prog_fits N (PRead n f) = (\<forall>x. prog_fits N (f x))"
| "prog_fits N (PNext n f) = (\<forall>x. prog_fits N (f x))"
| "prog_fits N (PPeek n f) = (\<forall>x. prog_fits N (f x))"
| "prog_fits N (PDiscard n f) = (\<forall>x. prog_fits N (f x))"
| "prog_fits N (PInboundBuffered f) = (\<forall>x. prog_fits N (f x))"
| "prog_fits N (PWrite p f) = (length p \<le> N \<and> (\<forall>x. prog_fits (N - length p) (f x)))"
| "prog_fits N (PWritev bs f) = (length (concat bs) \<le> N \<and> (\<forall>x. prog_fits (N - length (concat bs)) (f x)))"
| "prog_fits N (PFlush f) = (\<forall>x. prog_fits N (f x))"
| "prog_fits N (PAsyncWrite p f) = (\<forall>x. prog_fits N (f x))"
| "prog_fits N (PAsyncWritev bs f) = (\<forall>x. prog_fits N (f x))"
| "prog_fits N (POutboundBuffered f) = (\<forall>x. prog_fits N (f x))"
| "prog_fits N (PWake f) = (\<forall>x. prog_fits N (f x))"
| "prog_fits N (PClose f) = (\<forall>x. prog_fits N (f x))"

text \<open>A step that keeps the invariant, writes at most \<open>N\<close> bytes and receives none.\<close>

definition keeps :: "('k \<Rightarrow> int \<Rightarrow> bool) \<Rightarrow> nat \<Rightarrow> ('k, 'u) lstate \<Rightarrow> nat \<Rightarrow> byte list \<Rightarrow> byte list \<Rightarrow> ('k, 'u) lstate \<Rightarrow> bool" where
  "keeps isopen N st c xs zs st' \<longleftrightarrow> table_ok st' \<and> frame_ok st c st' \<and>
     (\<exists>xs' zs'. live isopen st' c xs' zs' \<and> length xs' \<le> length xs + N \<and> length zs' \<le> length zs)"

lemma live_open: "live isopen st c xs zs \<Longrightarrow> c_opened (ls_conn st c) \<Longrightarrow> conn_open st c xs"
  by (simp add: live_def conn_open_def)

lemma frame_refl: "frame_ok st c st"
  by (simp add: frame_ok_def)

lemma frame_trans: "frame_ok st c st1 \<Longrightarrow> frame_ok st1 c st2 \<Longrightarrow> frame_ok st c st2"
  by (auto simp: frame_ok_def)

lemma keepsI:
  "table_ok st' \<Longrightarrow> frame_ok st c st' \<Longrightarrow> live isopen st' c xs' zs' \<Longrightarrow> length xs' \<le> length xs + N \<Longrightarrow>
   length zs' \<le> length zs \<Longrightarrow> keeps isopen N st c xs zs st'"
  unfolding keeps_def by blast

text \<open>Changes to a connection that leave its descriptor and its state alone keep the table.\<close>

lemma table_ok_conn:
  assumes "table_ok st" "c_fd x = c_fd (ls_conn st c)" "c_opened x = c_opened (ls_conn st c)"
    "ls_conn st' = (ls_conn st)(c := x)" "ls_connections st' = ls_connections st" "ls_connCount st' = ls_connCount st"
  shows "table_ok st'"
  using assms by (simp add: table_ok_def)

lemma table_ok_same:
  assumes "table_ok st" "ls_conn st' = ls_conn st" "ls_connections st' = ls_connections st"
    "ls_connCount st' = ls_connCount st"
  shows "table_ok st'"
  using assms by (simp add: table_ok_def)

lemma keeps_accepted:
  assumes "table_ok st" "live isopen st c xs zs" "c_opened (ls_conn st c)" "accepted peer reg st c xs data st' e"
  shows "keeps isopen (length data) st c xs zs st'"
proof -
  from assms(4) obtain mb k t ys where st': "st' = out_upd st c mb k t" "eb_rep mb ys"
    "length ys \<le> length xs + length data" unfolding accepted_def Let_def by blast
  show ?thesis
  proof (rule keepsI)
    show "table_ok st'" unfolding st'(1) by (rule table_ok_conn[OF assms(1)]) auto
    show "frame_ok st c st'" by (simp add: st' frame_ok_def)
    show "live isopen st' c ys zs" using assms(2,3) st' by (simp add: live_def is_udp_def c_holds_def)
  qed (use st' in auto)
qed

lemma keeps_closes:
  assumes "table_ok st" "c_opened (ls_conn st c)" "fds_ok W isopen" "c_isDatagram (ls_conn st c) = False"
    "closes W peer h st c err ys st' e"
  shows "keeps isopen N st c xs zs st'"
proof -
  let ?fd = "c_fd (ls_conn st c)"
  have reg: "ls_connections st ?fd = Some c" using assms(1,2) by (simp add: table_ok_def)
  have c: "ls_connections st' = (ls_connections st)(?fd := None)" "ls_connCount st' = ls_connCount st - 1"
    "\<not> c_opened (ls_conn st' c)" "frame_ok st c st'" "out_rep st' c []" "c_holds (ls_conn st' c) []"
    "c_localAddr (ls_conn st' c) = None" "\<not> c_isDatagram (ls_conn st' c)" "\<not> isopen (ls_k st') ?fd"
    using assms(3,4,5) by (auto simp: closes_def Let_def)
  have fr: "ls_conn st' c' = ls_conn st c'" if "c' \<noteq> c" for c' using c(4) that by (simp add: frame_ok_def)
  show ?thesis
  proof (rule keepsI)
    have fin: "finite (dom (ls_connections st))" using assms(1) by (simp add: table_ok_def)
    have "card (dom (ls_connections st)) = Suc (card (dom (ls_connections st) - {?fd}))"
      using fin reg by (metis card_Suc_Diff1 domI)
    then have "ls_connCount st' = int (card (dom (ls_connections st')))"
      using assms(1) c by (simp add: table_ok_def)
    moreover have "c_fd (ls_conn st' c') = fd \<and> c_opened (ls_conn st' c')" if "ls_connections st' fd = Some c'" for fd c'
    proof -
      have "ls_connections st fd = Some c'" "fd \<noteq> ?fd" using that c(1) by (auto split: if_splits)
      moreover from this have "c' \<noteq> c" using assms(1) by (auto simp: table_ok_def)
      ultimately show ?thesis using assms(1) fr by (auto simp: table_ok_def)
    qed
    moreover have "ls_connections st' (c_fd (ls_conn st' c')) = Some c'" if "c_opened (ls_conn st' c')" for c'
    proof -
      have "c' \<noteq> c" using that c(3) by auto
      then have "ls_connections st (c_fd (ls_conn st c')) = Some c'"
        using that fr assms(1) by (simp add: table_ok_def)
      then show ?thesis using \<open>c' \<noteq> c\<close> reg c(1) fr by auto
    qed
    ultimately show "table_ok st'" using fin c(1) by (simp add: table_ok_def)
    show "frame_ok st c st'" by (rule c(4))
    show "live isopen st' c [] []"
      using c by (simp add: live_def is_udp_def frame_ok_def)
  qed auto
qed

lemma keeps_trans:
  assumes "keeps isopen N st c xs zs st1"
    "\<And>xs1 zs1. live isopen st1 c xs1 zs1 \<Longrightarrow> length xs1 \<le> length xs + N \<Longrightarrow> length zs1 \<le> length zs \<Longrightarrow>
      table_ok st1 \<Longrightarrow> keeps isopen M st1 c xs1 zs1 st2"
  shows "keeps isopen (N + M) st c xs zs st2"
proof -
  from assms(1) obtain xs1 zs1 where 1: "table_ok st1" "frame_ok st c st1" "live isopen st1 c xs1 zs1"
    "length xs1 \<le> length xs + N" "length zs1 \<le> length zs" by (auto simp: keeps_def)
  from assms(2)[OF 1(3,4,5,1)] obtain xs2 zs2 where 2: "table_ok st2" "frame_ok st1 c st2"
    "live isopen st2 c xs2 zs2" "length xs2 \<le> length xs1 + M" "length zs2 \<le> length zs1" by (auto simp: keeps_def)
  show ?thesis by (rule keepsI[OF 2(1) frame_trans[OF 1(2) 2(2)] 2(3)]) (use 1 2 in auto)
qed

lemma fds_okD:
  assumes "fds_ok W isopen"
  shows "w_write W k fd d = (k', n, e) \<Longrightarrow> isopen k' = isopen k" "w_write W k fd d = (k', n, e) \<Longrightarrow> \<not> isopen k fd \<Longrightarrow> e = Some EBADF"
    "w_writev W k fd iov = (k', n, e) \<Longrightarrow> isopen k' = isopen k" "w_writev W k fd iov = (k', n, e) \<Longrightarrow> \<not> isopen k fd \<Longrightarrow> e = Some EBADF"
    "w_read W k fd len = (k', y) \<Longrightarrow> isopen k' = isopen k"
    "w_read W k fd len = (k', n, data, e) \<Longrightarrow> \<not> isopen k fd \<Longrightarrow> e = Some EBADF" "w_ctl W k op' fd ev = (k', z) \<Longrightarrow> isopen k' = isopen k"
  using assms unfolding fds_ok_def by (metis fst_conv snd_conv)+

lemma keeps_k:
  assumes "table_ok st" "live isopen st c xs zs" "isopen k = isopen (ls_k st)"
  shows "keeps isopen N st c xs zs (st\<lparr>ls_k := k\<rparr>)"
  by (rule keepsI[OF table_ok_same[OF assms(1)], where xs' = xs and zs' = zs])
    (use assms in \<open>auto simp: live_def frame_ok_def\<close>)

lemma c_Write_keeps:
  assumes K: "kernel_ok W peer" and R: "ctl_ok W reg" and E: "env_ok W" and F: "fds_ok W isopen"
    and T: "table_ok st" and L: "live isopen st c xs zs" and small: "glen xs + glen p \<le> 2 ^ 62"
  shows "\<exists>st' n e. c_Write W h st c p = Ret (st', n, e) \<and> keeps isopen (length p) st c xs zs st'"
proof (cases "c_opened (ls_conn st c)")
  case True
  have nd: "\<not> c_isDatagram (ls_conn st c)" using L by (simp add: live_def)
  from c_write_spec[OF K R E live_open[OF L True] small, of h] obtain st' n e where
    w: "c_write W h st c p = Ret (st', n, e)" and
    "accepted peer reg st c xs p st' e \<or> (\<exists>k er. peer k = peer (ls_k st) \<and>
       closes W peer h (st\<lparr>ls_k := k\<rparr>) c (Some (SyscallError ''write'' er)) [] st' e)" by blast
  then have "keeps isopen (length p) st c xs zs st'"
  proof (elim disjE exE conjE)
    assume "accepted peer reg st c xs p st' e"
    then show ?thesis by (rule keeps_accepted[OF T L True])
  next
    fix k er assume cl: "closes W peer h (st\<lparr>ls_k := k\<rparr>) c (Some (SyscallError ''write'' er)) [] st' e"
    have "table_ok (st\<lparr>ls_k := k\<rparr>)" by (rule table_ok_same[OF T]) auto
    from keeps_closes[OF this _ F _ cl, of "length p" xs zs] True nd show ?thesis
      by (simp add: keeps_def frame_ok_def)
  qed
  with w nd show ?thesis by (simp add: c_Write_def)
next
  case False
  obtain k n e where w: "w_write W (ls_k st) (c_fd (ls_conn st c)) p = (k, n, e)"
    by (cases "w_write W (ls_k st) (c_fd (ls_conn st c)) p")
  have "e = Some EBADF" "isopen k = isopen (ls_k st)" using L False fds_okD(1,2)[OF F w] by (auto simp: live_def)
  moreover have "out_rep st c []" using L False by (auto simp: live_def)
  then have "out_IsEmpty st c = Ret True" using out_IsEmpty_rep by fastforce
  ultimately have "c_Write W h st c p = Ret (st\<lparr>ls_k := k\<rparr>, -1, None)"
    using L False w by (simp add: c_Write_def c_write_def Let_def live_def el_closeConn_def)
  with keeps_k[OF T L \<open>isopen k = _\<close>] show ?thesis by simp
qed


lemma keeps_via: "frame_ok st c st1 \<Longrightarrow> keeps isopen N st1 c xs zs st' \<Longrightarrow> keeps isopen N st c xs zs st'"
  unfolding keeps_def using frame_trans by blast

lemma c_Writev_keeps:
  assumes K: "kernel_ok W peer" and R: "ctl_ok W reg" and E: "env_ok W" and F: "fds_ok W isopen"
    and T: "table_ok st" and L: "live isopen st c xs zs" and small: "glen xs + glen (concat bs) \<le> 2 ^ 62"
  shows "\<exists>st' n e. c_Writev W h st c bs = Ret (st', n, e) \<and> keeps isopen (length (concat bs)) st c xs zs st'"
proof (cases "c_opened (ls_conn st c)")
  case True
  have nd: "\<not> c_isDatagram (ls_conn st c)" using L by (simp add: live_def)
  from c_writev_spec[OF K R E live_open[OF L True] small, of h] obtain st' n e where
    w: "c_writev W h st c bs = Ret (st', n, e)" and
    "accepted peer reg st c xs (concat bs) st' e \<or> (\<exists>k er. peer k = peer (ls_k st) \<and>
       closes W peer h (st\<lparr>ls_k := k\<rparr>) c (Some (SyscallError ''write'' er)) [] st' e)" by blast
  then have "keeps isopen (length (concat bs)) st c xs zs st'"
  proof (elim disjE exE conjE)
    assume "accepted peer reg st c xs (concat bs) st' e"
    then show ?thesis by (rule keeps_accepted[OF T L True])
  next
    fix k er assume cl: "closes W peer h (st\<lparr>ls_k := k\<rparr>) c (Some (SyscallError ''write'' er)) [] st' e"
    have "table_ok (st\<lparr>ls_k := k\<rparr>)" by (rule table_ok_same[OF T]) auto
    from keeps_closes[OF this _ F _ cl] True nd show ?thesis
      by (intro keeps_via[of st c "st\<lparr>ls_k := k\<rparr>"]) (auto simp: frame_ok_def)
  qed
  with w nd show ?thesis by (simp add: c_Writev_def)
next
  case False
  let ?fd = "c_fd (ls_conn st c)"
  obtain k n e where w: "io_Writev W (ls_k st) ?fd bs = (k, n, e)" by (cases "io_Writev W (ls_k st) ?fd bs")
  have k: "isopen k = isopen (ls_k st)"
    using w fds_okD(3)[OF F] unfolding io_Writev_def by (metis prod.inject)
  have e: "bs \<noteq> [] \<longrightarrow> e = Some EBADF"
    using w L False fds_okD(4)[OF F] unfolding io_Writev_def live_def by metis
  have "out_rep st c []" using L False by (auto simp: live_def)
  then have "out_IsEmpty st c = Ret True" using out_IsEmpty_rep by fastforce
  then have "\<exists>n e. c_Writev W h st c bs = Ret (st\<lparr>ls_k := k\<rparr>, n, e)"
    using L False w e
    by (cases "bs = []") (auto simp: c_Writev_def c_writev_def Let_def live_def el_closeConn_def io_Writev_def)
  with keeps_k[OF T L k] show ?thesis by blast
qed

lemma el_write_keeps:
  assumes K: "kernel_ok W peer" and R: "ctl_ok W reg" and F: "fds_ok W isopen"
    and T: "table_ok st" and L: "live isopen st c xs zs" and op: "c_opened (ls_conn st c)" "xs \<noteq> []"
  shows "\<exists>st' e. el_write W h st c = Ret (st', e) \<and> keeps isopen 0 st c xs zs st'"
proof -
  from el_write_spec[OF K R live_open[OF L op(1)] op(2), of h] obtain st' e where
    w: "el_write W h st c = Ret (st', e)" and
    "accepted peer reg st c xs [] st' None \<or> (\<exists>k er mb. peer k = peer (ls_k st) \<and> eb_rep mb xs \<and>
       closes W peer h (out_upd st c mb k (ls_tick st)) c (Some (SyscallError ''write'' er)) xs st' e)" by blast
  then have "keeps isopen 0 st c xs zs st'"
  proof (elim disjE exE conjE)
    assume "accepted peer reg st c xs [] st' None"
    from keeps_accepted[OF T L op(1) this] show ?thesis by simp
  next
    fix k er mb assume cl: "closes W peer h (out_upd st c mb k (ls_tick st)) c (Some (SyscallError ''write'' er)) xs st' e"
    have "table_ok (out_upd st c mb k (ls_tick st))" by (rule table_ok_conn[OF T]) auto
    from keeps_closes[OF this _ F _ cl] op L show ?thesis
      by (intro keeps_via[of st c "out_upd st c mb k (ls_tick st)"]) (auto simp: frame_ok_def live_def)
  qed
  with w show ?thesis by blast
qed

lemma c_Flush_keeps:
  assumes K: "kernel_ok W peer" and R: "ctl_ok W reg" and F: "fds_ok W isopen"
    and T: "table_ok st" and L: "live isopen st c xs zs"
  shows "\<exists>st' e. c_Flush W h st c = Ret (st', e) \<and> keeps isopen 0 st c xs zs st'"
proof (cases "xs = []")
  case True
  then have "c_Flush W h st c = Ret (st, None)"
    using L out_IsEmpty_rep[of st c xs] by (auto simp: c_Flush_def live_def)
  moreover have "keeps isopen 0 st c xs zs st" by (rule keepsI[OF T frame_refl L]) auto
  ultimately show ?thesis by blast
next
  case False
  then have op: "c_opened (ls_conn st c)" using L by (auto simp: live_def split: if_splits)
  have "c_Flush W h st c = el_write W h st c"
    using False L out_IsEmpty_rep[of st c xs] by (auto simp: c_Flush_def live_def)
  with el_write_keeps[OF K R F T L op False] show ?thesis by simp
qed

lemma pl_wakeup_keeps:
  assumes F: "fds_ok W isopen" and T: "table_ok st" and L: "live isopen st c xs zs"
    and q: "st1 = st\<lparr>ls_async := as\<rparr> \<or> st1 = st\<lparr>ls_urgent := us\<rparr>"
  shows "\<exists>st' e. pl_wakeup W st1 = (st', e) \<and> keeps isopen 0 st c xs zs st'"
proof -
  obtain k n e where w: "w_write W (ls_k st) (ls_efd st) [1, 0, 0, 0, 0, 0, 0, 0] = (k, n, e)"
    by (cases "w_write W (ls_k st) (ls_efd st) [1, 0, 0, 0, 0, 0, 0, 0]")
  let ?st = "if ls_wakeup st then st1 else st1\<lparr>ls_wakeup := True, ls_k := k\<rparr>"
  have "\<exists>e. pl_wakeup W st1 = (?st, e)" using w q by (auto simp: pl_wakeup_def)
  moreover have "keeps isopen 0 st c xs zs ?st"
    by (rule keepsI[OF table_ok_same[OF T], where xs' = xs and zs' = zs])
      (use L fds_okD(1)[OF F w] q in \<open>auto simp: live_def frame_ok_def out_rep_def\<close>)
  ultimately show ?thesis by blast
qed

lemma pl_Trigger_keeps:
  assumes "fds_ok W isopen" "table_ok st" "live isopen st c xs zs"
  shows "\<exists>st' e. pl_Trigger W st t = (st', e) \<and> keeps isopen 0 st c xs zs st'"
  unfolding pl_Trigger_def by (rule pl_wakeup_keeps[OF assms, OF disjI1]) (rule refl)

lemma pl_UrgentTrigger_keeps:
  assumes "fds_ok W isopen" "table_ok st" "live isopen st c xs zs"
  shows "\<exists>st' e. pl_UrgentTrigger W st t = (st', e) \<and> keeps isopen 0 st c xs zs st'"
  unfolding pl_UrgentTrigger_def by (rule pl_wakeup_keeps[OF assms, OF disjI2]) (rule refl)

text \<open>Consuming received bytes.\<close>

definition conn_rest :: "conn \<Rightarrow> int \<times> bool \<times> ebuf option \<times> bool \<times> bool \<times> netaddr option" where
  "conn_rest x = (c_fd x, c_opened x, c_out x, c_attached x, c_isDatagram x, c_localAddr x)"

lemma c_Read_rest: "c_Read x p = Ret (x', r) \<Longrightarrow> conn_rest x' = conn_rest x"
  by (auto simp: c_Read_def Let_def go_bind_Ret_iff conn_rest_def split: if_splits)

lemma c_Next_rest:
  assumes "c_Next x n = Ret (x', r)"
  shows "conn_rest x' = conn_rest x"
proof -
  let ?in = "er_Buffered (c_in x)"
  define m where "m = (if n \<le> 0 then ?in + glen (c_buf x) else n)"
  have "c_Next x n = (if n > ?in + glen (c_buf x) then Ret (x, [], Some ErrShortBuffer)
      else if er_IsEmpty (c_in x) then
        go_bind (go_slice (c_buf x) 0 m) (\<lambda>res. go_bind (go_slice (c_buf x) m (glen (c_buf x))) (\<lambda>buf.
        Ret (x\<lparr>c_buf := buf\<rparr>, res, None)))
      else go_bind (er_Peek (c_in x) m) (\<lambda>(head, tail). go_bind
        (if glen head \<ge> m then go_bind (go_slice head 0 m) (\<lambda>res. Ret (x, res))
         else if ?in \<ge> m then Ret (x, head @ tail)
         else go_bind (go_slice (c_buf x) 0 (m - ?in)) (\<lambda>more.
              go_bind (go_slice (c_buf x) (m - ?in) (glen (c_buf x))) (\<lambda>buf. Ret (x\<lparr>c_buf := buf\<rparr>, head @ tail @ more))))
        (\<lambda>(x, res). go_bind (er_Discard (c_in x) m) (\<lambda>(r, _, _). Ret (x\<lparr>c_in := r\<rparr>, res, None)))))"
    unfolding c_Next_def Let_def m_def ..
  with assms show ?thesis by (auto simp: go_bind_Ret_iff conn_rest_def split: if_split_asm)
qed

lemma c_Discard_rest: "c_Discard x n = Ret (x', r) \<Longrightarrow> conn_rest x' = conn_rest x"
  by (auto simp: c_Discard_def c_resetBuffer_def Let_def go_bind_Ret_iff conn_rest_def split: if_splits)

lemma consume_keeps:
  assumes T: "table_ok st" and L: "live isopen st c xs zs" and x: "c_holds x zs'" "length zs' \<le> length zs"
    "conn_rest x = conn_rest (ls_conn st c)"
  shows "keeps isopen 0 st c xs zs (upd_conn st c x)"
  by (rule keepsI[OF table_ok_conn[OF T], where xs' = xs and zs' = zs'])
    (use L x in \<open>auto simp: live_def frame_ok_def out_rep_def is_udp_def conn_rest_def\<close>)

lemma c_Read_keeps:
  assumes T: "table_ok st" and L: "live isopen st c xs zs"
  shows "\<exists>x r. c_Read (ls_conn st c) p = Ret (x, r) \<and> keeps isopen 0 st c xs zs (upd_conn st c x)"
proof -
  from L obtain x where x: "c_Read (ls_conn st c) p = Ret (x, go_copy p zs, min (glen p) (glen zs), None)"
    "c_holds x (drop (length p) zs)" using c_Read_spec[of "ls_conn st c" zs p] by (auto simp: live_def)
  with consume_keeps[OF T L x(2)] c_Read_rest[OF x(1)] show ?thesis by auto
qed

lemma c_Next_keeps:
  assumes T: "table_ok st" and L: "live isopen st c xs zs"
  shows "\<exists>x r. c_Next (ls_conn st c) n = Ret (x, r) \<and> keeps isopen 0 st c xs zs (upd_conn st c x)"
proof -
  let ?k = "if n \<le> 0 then length zs else nat n"
  have h: "c_holds (ls_conn st c) zs" using L by (simp add: live_def)
  have "\<exists>x r zs'. c_Next (ls_conn st c) n = Ret (x, r) \<and> c_holds x zs' \<and> length zs' \<le> length zs"
  proof (cases "n > glen zs")
    case True
    then show ?thesis using c_Next_spec[OF h, of n] h by auto
  next
    case False
    then obtain x where "c_Next (ls_conn st c) n = Ret (x, take ?k zs, None)" "c_holds x (drop ?k zs)"
      using c_Next_spec[OF h, of n] by (auto split: if_splits)
    moreover have "length (drop ?k zs) \<le> length zs" by simp
    ultimately show ?thesis by blast
  qed
  then obtain x r zs' where x: "c_Next (ls_conn st c) n = Ret (x, r)" "c_holds x zs'" "length zs' \<le> length zs" by blast
  with consume_keeps[OF T L x(2,3)] c_Next_rest[OF x(1)] show ?thesis by auto
qed

lemma c_Discard_keeps:
  assumes T: "table_ok st" and L: "live isopen st c xs zs"
  shows "\<exists>x m e. c_Discard (ls_conn st c) n = Ret (x, m, e) \<and> keeps isopen 0 st c xs zs (upd_conn st c x)"
proof -
  have h: "c_holds (ls_conn st c) zs" using L by (simp add: live_def)
  obtain x m where x: "c_Discard (ls_conn st c) n = Ret (x, m, None)"
    "c_holds x (if n \<le> 0 then [] else drop (nat n) zs)" using c_Discard_spec[OF h, of n] by blast
  have "length (if n \<le> 0 then [] else drop (nat n) zs) \<le> length zs" by simp
  from consume_keeps[OF T L x(2) this c_Discard_rest[OF x(1)]] x(1) show ?thesis by blast
qed

lemma c_OutboundBuffered_live: "live isopen st c xs zs \<Longrightarrow> c_OutboundBuffered (ls_conn st c) = Ret (glen xs)"
  by (auto simp: live_def out_rep_def c_OutboundBuffered_def eb_Buffered_rep split: option.splits)

section \<open>Callbacks keep the invariant\<close>

lemma prog_step:
  assumes "keeps isopen N st c xs zs st1" "N \<le> M" "length xs + M \<le> 2 ^ 62"
    and IH: "\<And>xs1 zs1. table_ok st1 \<Longrightarrow> live isopen st1 c xs1 zs1 \<Longrightarrow> length xs1 + (M - N) \<le> 2 ^ 62 \<Longrightarrow>
      \<exists>st' r. run_prog W h c p st1 = Ret (st', r) \<and> keeps isopen (M - N) st1 c xs1 zs1 st'"
  shows "\<exists>st' r. run_prog W h c p st1 = Ret (st', r) \<and> keeps isopen M st c xs zs st'"
proof -
  from assms(1) obtain xs1 zs1 where 1: "table_ok st1" "frame_ok st c st1" "live isopen st1 c xs1 zs1"
    "length xs1 \<le> length xs + N" "length zs1 \<le> length zs" by (auto simp: keeps_def)
  have "length xs1 + (M - N) \<le> 2 ^ 62" using 1(4) assms(2,3) by simp
  from IH[OF 1(1,3) this] obtain st' r where st': "run_prog W h c p st1 = Ret (st', r)"
    "keeps isopen (M - N) st1 c xs1 zs1 st'" by blast
  then obtain xs2 zs2 where 2: "table_ok st'" "frame_ok st1 c st'"
    "live isopen st' c xs2 zs2" "length xs2 \<le> length xs1 + (M - N)" "length zs2 \<le> length zs1" by (auto simp: keeps_def)
  have "keeps isopen M st c xs zs st'"
    by (rule keepsI[OF 2(1) frame_trans[OF 1(2) 2(2)] 2(3)]) (use 1 2 assms(2) in auto)
  with st' show ?thesis by blast
qed

lemma run_prog_keeps:
  assumes K: "kernel_ok W peer" and R: "ctl_ok W reg" and E: "env_ok W" and F: "fds_ok W isopen"
  shows "prog_fits M p \<Longrightarrow> table_ok st \<Longrightarrow> live isopen st c xs zs \<Longrightarrow> length xs + M \<le> 2 ^ 62 \<Longrightarrow>
    \<exists>st' r. run_prog W h c p st = Ret (st', r) \<and> keeps isopen M st c xs zs st'"
proof (induction p arbitrary: M st xs zs)
  case (Finish r)
  then show ?case using keepsI[OF Finish(2) frame_refl Finish(3)] by simp
next
  case (PRead n f)
  obtain x q m e where x: "c_Read (ls_conn st c) (replicate n 0) = Ret (x, q, m, e)"
    "keeps isopen 0 st c xs zs (upd_conn st c x)" using c_Read_keeps[OF PRead.prems(2,3)] by (metis prod_cases3)
  from prog_step[OF x(2) _ PRead.prems(4), of W h "f (take (nat m) q)"] PRead.IH[OF rangeI] PRead.prems(1) x(1)
  show ?case by simp
next
  case (PNext n f)
  obtain x b e where x: "c_Next (ls_conn st c) n = Ret (x, b, e)"
    "keeps isopen 0 st c xs zs (upd_conn st c x)" using c_Next_keeps[OF PNext.prems(2,3)] by (metis prod.exhaust)
  from prog_step[OF x(2) _ PNext.prems(4), of W h "f (b, e)"] PNext.IH[OF rangeI] PNext.prems(1) x(1)
  show ?case by simp
next
  case (PPeek n f)
  have h: "c_holds (ls_conn st c) zs" using PPeek.prems(3) by (simp add: live_def)
  obtain b e where "c_Peek (ls_conn st c) n = Ret (b, e)" using c_Peek_spec[OF h, of n] by (auto split: if_splits)
  with PPeek.IH[OF rangeI] PPeek.prems show ?case by simp
next
  case (PDiscard n f)
  obtain x m e where x: "c_Discard (ls_conn st c) n = Ret (x, m, e)"
    "keeps isopen 0 st c xs zs (upd_conn st c x)" using c_Discard_keeps[OF PDiscard.prems(2,3)] by blast
  from prog_step[OF x(2) _ PDiscard.prems(4), of W h "f m"] PDiscard.IH[OF rangeI] PDiscard.prems(1) x(1)
  show ?case by simp
next
  case (PInboundBuffered f)
  then show ?case by simp
next
  case (PWrite q f)
  have fit: "length q \<le> M" "\<And>x. prog_fits (M - length q) (f x)" using PWrite.prems(1) by auto
  have "glen xs + glen q \<le> 2 ^ 62" using PWrite.prems(4) fit(1) by simp
  from c_Write_keeps[OF K R E F PWrite.prems(2,3) this, of h] obtain st1 n e where
    w: "c_Write W h st c q = Ret (st1, n, e)" "keeps isopen (length q) st c xs zs st1" by blast
  from prog_step[OF w(2) fit(1) PWrite.prems(4), of W h "f (n, e)"] PWrite.IH[OF rangeI fit(2)] w(1)
  show ?case by simp
next
  case (PWritev bs f)
  have fit: "length (concat bs) \<le> M" "\<And>x. prog_fits (M - length (concat bs)) (f x)" using PWritev.prems(1) by auto
  have "glen xs + glen (concat bs) \<le> 2 ^ 62" using PWritev.prems(4) fit(1) by simp
  from c_Writev_keeps[OF K R E F PWritev.prems(2,3) this, of h] obtain st1 n e where
    w: "c_Writev W h st c bs = Ret (st1, n, e)" "keeps isopen (length (concat bs)) st c xs zs st1" by blast
  from prog_step[OF w(2) fit(1) PWritev.prems(4), of W h "f (n, e)"] PWritev.IH[OF rangeI fit(2)] w(1)
  show ?case by simp
next
  case (PFlush f)
  obtain st1 e where w: "c_Flush W h st c = Ret (st1, e)" "keeps isopen 0 st c xs zs st1"
    using c_Flush_keeps[OF K R F PFlush.prems(2,3)] by blast
  from prog_step[OF w(2) _ PFlush.prems(4), of W h "f e"] PFlush.IH[OF rangeI] PFlush.prems(1) w(1) show ?case by simp
next
  case (PAsyncWrite q f)
  obtain st1 e where w: "pl_Trigger W st (TAsyncWrite c q None) = (st1, e)" "keeps isopen 0 st c xs zs st1"
    using pl_Trigger_keeps[OF F PAsyncWrite.prems(2,3)] by blast
  moreover have "c_AsyncWrite W st c q None = (st1, e)"
    using w PAsyncWrite.prems(3) by (simp add: c_AsyncWrite_def live_def)
  ultimately show ?case
    using prog_step[OF w(2) _ PAsyncWrite.prems(4), of W h "f e"] PAsyncWrite.IH[OF rangeI] PAsyncWrite.prems(1) by simp
next
  case (PAsyncWritev bs f)
  obtain st1 e where w: "pl_Trigger W st (TAsyncWritev c bs None) = (st1, e)" "keeps isopen 0 st c xs zs st1"
    using pl_Trigger_keeps[OF F PAsyncWritev.prems(2,3)] by blast
  moreover have "c_AsyncWritev W st c bs None = (st1, e)"
    using w PAsyncWritev.prems(3) by (simp add: c_AsyncWritev_def live_def)
  ultimately show ?case
    using prog_step[OF w(2) _ PAsyncWritev.prems(4), of W h "f e"] PAsyncWritev.IH[OF rangeI] PAsyncWritev.prems(1) by simp
next
  case (POutboundBuffered f)
  then show ?case using c_OutboundBuffered_live[OF POutboundBuffered.prems(3)] by simp
next
  case (PWake f)
  obtain st1 e where w: "pl_UrgentTrigger W st (TWake c None) = (st1, e)" "keeps isopen 0 st c xs zs st1"
    using pl_UrgentTrigger_keeps[OF F PWake.prems(2,3)] by blast
  with prog_step[OF w(2) _ PWake.prems(4), of W h "f e"] PWake.IH[OF rangeI] PWake.prems(1)
  show ?case by (simp add: c_Wake_def)
next
  case (PClose f)
  obtain st1 e where w: "pl_Trigger W st (TClose c None) = (st1, e)" "keeps isopen 0 st c xs zs st1"
    using pl_Trigger_keeps[OF F PClose.prems(2,3)] by blast
  with prog_step[OF w(2) _ PClose.prems(4), of W h "f e"] PClose.IH[OF rangeI] PClose.prems(1)
  show ?case by (simp add: c_Close_def)
qed


end
