(* ===== verification/LoopInvariant.thy ===== *)
theory LoopInvariant
  imports EventLoop
begin

text \<open>
  The invariant of the event loop (\<open>src/eventloop.go\<close>): the connection table, the connection count and
  the buffers of every open connection are consistent before and after each event callback and each queued
  task, and no handler panics or runs for ever. The handlers are composed into a transition system, whose
  reachable states satisfy the invariant.
\<close>

section \<open>Handlers keep the invariant\<close>

text \<open>All results a callback may return satisfy \<open>P\<close>.\<close>

primrec prog_all :: "('r \<Rightarrow> bool) \<Rightarrow> 'r cprog \<Rightarrow> bool" where
  "prog_all P (Finish r) = P r"
| "prog_all P (PRead n f) = (\<forall>x. prog_all P (f x))"
| "prog_all P (PNext n f) = (\<forall>x. prog_all P (f x))"
| "prog_all P (PPeek n f) = (\<forall>x. prog_all P (f x))"
| "prog_all P (PDiscard n f) = (\<forall>x. prog_all P (f x))"
| "prog_all P (PInboundBuffered f) = (\<forall>x. prog_all P (f x))"
| "prog_all P (PWrite p f) = (\<forall>x. prog_all P (f x))"
| "prog_all P (PWritev bs f) = (\<forall>x. prog_all P (f x))"
| "prog_all P (PFlush f) = (\<forall>x. prog_all P (f x))"
| "prog_all P (PAsyncWrite p f) = (\<forall>x. prog_all P (f x))"
| "prog_all P (PAsyncWritev bs f) = (\<forall>x. prog_all P (f x))"
| "prog_all P (POutboundBuffered f) = (\<forall>x. prog_all P (f x))"
| "prog_all P (PWake f) = (\<forall>x. prog_all P (f x))"
| "prog_all P (PClose f) = (\<forall>x. prog_all P (f x))"

text \<open>Callbacks write at most \<open>M\<close> bytes, and \<open>OnOpen\<close> returns at most \<open>M\<close>.\<close>

definition handler_fits :: "nat \<Rightarrow> 'u handler \<Rightarrow> bool" where
  "handler_fits M h \<longleftrightarrow> (\<forall>c u. prog_fits M (h_OnTraffic h c u) \<and> prog_fits M (h_OnOpen h c u) \<and>
     prog_all (\<lambda>(u, out, a). case out of None \<Rightarrow> True | Some buf \<Rightarrow> length buf \<le> M) (h_OnOpen h c u))"

definition loop_inv :: "('k \<Rightarrow> int \<Rightarrow> bool) \<Rightarrow> ('k, 'u) lstate \<Rightarrow> bool" where
  "loop_inv isopen st \<longleftrightarrow> table_ok st \<and> (\<forall>c. c_opened (ls_conn st c) \<longrightarrow> (\<exists>xs zs. live isopen st c xs zs))"

text \<open>After a handler ran for \<open>c\<close>.\<close>

definition handled :: "('k \<Rightarrow> int \<Rightarrow> bool) \<Rightarrow> ('k, 'u) lstate \<Rightarrow> nat \<Rightarrow> ('k, 'u) lstate \<Rightarrow> bool" where
  "handled isopen st c st' \<longleftrightarrow> table_ok st' \<and> frame_ok st c st' \<and> (\<exists>xs zs. live isopen st' c xs zs)"

lemma keeps_handled: "keeps isopen N st c xs zs st' \<Longrightarrow> handled isopen st c st'"
  by (auto simp: keeps_def handled_def)

lemma handled_trans: "handled isopen st c st1 \<Longrightarrow> handled isopen st1 c st2 \<Longrightarrow> handled isopen st c st2"
  unfolding handled_def using frame_trans by blast

lemma handled_loop_inv:
  assumes "loop_inv isopen st" "handled isopen st c st'"
  shows "loop_inv isopen st'"
proof -
  have "\<exists>xs zs. live isopen st' c' xs zs" if "c_opened (ls_conn st' c')" for c'
  proof (cases "c' = c")
    case True
    with assms(2) show ?thesis by (auto simp: handled_def)
  next
    case False
    then have "ls_conn st' c' = ls_conn st c'" using assms(2) by (simp add: handled_def frame_ok_def)
    with that assms(1) show ?thesis by (fastforce simp: loop_inv_def live_def out_rep_def)
  qed
  with assms(2) show ?thesis by (auto simp: loop_inv_def handled_def)
qed

lemma el_closeConn_handled:
  assumes K: "kernel_ok W peer" and F: "fds_ok W isopen" and T: "table_ok st" and L: "live isopen st c xs zs"
  shows "\<exists>st' e. el_closeConn W h st c err = Ret (st', e) \<and> handled isopen st c st' \<and> \<not> c_opened (ls_conn st' c)"
proof (cases "c_opened (ls_conn st c)")
  case True
  have l: "out_rep st c xs" "\<not> is_udp (ls_conn st c)" "\<not> c_isDatagram (ls_conn st c)" using L by (auto simp: live_def)
  obtain st' e where c: "el_closeConn W h st c err = Ret (st', e)" "closes W peer h st c err xs st' e"
    using el_closeConn_spec[OF K l(1) True l(2)] by blast
  moreover have "keeps isopen 0 st c xs zs st'" using keeps_closes[OF T True F _ c(2)] l by simp
  moreover have "\<not> c_opened (ls_conn st' c)" using c(2) by (simp add: closes_def Let_def)
  ultimately show ?thesis using keeps_handled by blast
next
  case False
  then have "el_closeConn W h st c err = Ret (st, None)" using L by (simp add: el_closeConn_closed live_def)
  moreover have "handled isopen st c st" using T L frame_refl by (auto simp: handled_def)
  ultimately show ?thesis using False by blast
qed

lemma user_upd:
  "table_ok (st\<lparr>ls_user := u\<rparr>) = table_ok st" "frame_ok st0 c (st\<lparr>ls_user := u\<rparr>) = frame_ok st0 c st"
  "live isopen (st\<lparr>ls_user := u\<rparr>) c xs zs = live isopen st c xs zs"
  by (simp_all add: table_ok_def frame_ok_def live_def out_rep_def)

lemma el_OnTraffic_keeps:
  assumes K: "kernel_ok W peer" and R: "ctl_ok W reg" and E: "env_ok W" and F: "fds_ok W isopen"
    and H: "handler_fits M h" and T: "table_ok st" and L: "live isopen st c xs zs" and small: "length xs + M \<le> 2 ^ 62"
  shows "\<exists>st' a. el_OnTraffic W h st c = Ret (st', a) \<and> keeps isopen M st c xs zs st'"
proof -
  have "prog_fits M (h_OnTraffic h c (ls_user st))" using H by (simp add: handler_fits_def)
  from run_prog_keeps[OF K R E F this T L small, of h] obtain st1 u a where
    r: "run_prog W h c (h_OnTraffic h c (ls_user st)) st = Ret (st1, u, a)" "keeps isopen M st c xs zs st1"
    by (metis prod.exhaust)
  have "keeps isopen M st c xs zs (st1\<lparr>ls_user := u\<rparr>)"
    using r(2) by (simp add: keeps_def user_upd)
  with r(1) show ?thesis by (simp add: el_OnTraffic_def)
qed

lemma el_handleAction_handled:
  assumes K: "kernel_ok W peer" and F: "fds_ok W isopen" and T: "table_ok st" and L: "live isopen st c xs zs"
  shows "\<exists>st' e. el_handleAction W h st c a = Ret (st', e) \<and> handled isopen st c st'"
proof (cases a)
  case ActClose
  with el_closeConn_handled[OF K F T L, of h None] show ?thesis by (auto simp: el_handleAction_def)
qed (use T L frame_refl in \<open>auto simp: el_handleAction_def handled_def\<close>)

lemma el_wake_handled:
  assumes K: "kernel_ok W peer" and R: "ctl_ok W reg" and E: "env_ok W" and F: "fds_ok W isopen"
    and H: "handler_fits M h" and T: "table_ok st" and L: "live isopen st c xs zs" and small: "length xs + M \<le> 2 ^ 62"
  shows "\<exists>st' e. el_wake W h st c = Ret (st', e) \<and> handled isopen st c st'"
proof (cases "ls_connections st (c_fd (ls_conn st c)) = Some c")
  case True
  obtain st1 a where 1: "el_OnTraffic W h st c = Ret (st1, a)" "keeps isopen M st c xs zs st1"
    using el_OnTraffic_keeps[OF K R E F H T L small] by blast
  then obtain xs1 zs1 where "table_ok st1" "live isopen st1 c xs1 zs1" by (auto simp: keeps_def)
  from el_handleAction_handled[OF K F this, of h a] 1 True keeps_handled[OF 1(2)] handled_trans
  show ?thesis by (fastforce simp: el_wake_def)
qed (use T L frame_refl in \<open>auto simp: el_wake_def handled_def\<close>)

text \<open>Appending what the callback left to the ring.\<close>

lemma keep_leftover:
  assumes E: "env_ok W" and T: "table_ok st" and L: "live isopen st c xs zs" and small: "length zs \<le> 2 ^ 62"
    and w: "w_env W t = (mem, fresh)"
  shows "\<exists>r n e. er_Write mem fresh (c_in (ls_conn st c)) (c_buf (ls_conn st c)) = Ret (r, n, e) \<and> er_rep r zs \<and>
    handled isopen st c (upd_conn (st\<lparr>ls_tick := t'\<rparr>) c ((ls_conn st c)\<lparr>c_in := r\<rparr>))"
proof -
  let ?x = "ls_conn st c"
  from L obtain rs where rs: "er_rep (c_in ?x) rs" "zs = rs @ c_buf ?x" by (auto simp: live_def c_holds_def)
  have "glen rs + glen (c_buf ?x) \<le> 2 ^ 62" using small rs(2) by simp
  from ring_source.er_Write_rep[OF env_source[OF E w] rs(1) this, of mem] obtain r where
    r: "er_Write mem fresh (c_in ?x) (c_buf ?x) = Ret (r, glen (c_buf ?x), None)" "er_rep r zs"
    using rs(2) by auto
  let ?st = "upd_conn (st\<lparr>ls_tick := t'\<rparr>) c (?x\<lparr>c_in := r\<rparr>)"
  have "table_ok ?st" by (rule table_ok_conn[OF T]) auto
  moreover have "live isopen ?st c xs (zs @ c_buf ?x)"
    using L r(2) by (auto simp: live_def c_holds_def is_udp_def out_rep_def)
  moreover have "frame_ok st c ?st" by (simp add: frame_ok_def)
  ultimately show ?thesis using r by (auto simp: handled_def)
qed

lemma el_read_handled:
  assumes K: "kernel_ok W peer" and R: "ctl_ok W reg" and E: "env_ok W" and F: "fds_ok W isopen" and D: "reads_ok W"
    and H: "handler_fits M h" and T: "table_ok st" and L: "live isopen st c xs zs"
    and small: "length xs + M \<le> 2 ^ 62" "glen zs + ls_bufLen st \<le> 2 ^ 62"
  shows "\<exists>st' e. el_read W h st c = Ret (st', e) \<and> handled isopen st c st'"
proof -
  let ?fd = "c_fd (ls_conn st c)"
  obtain k n data e where r: "w_read W (ls_k st) ?fd (ls_bufLen st) = (k, n, data, e)"
    by (cases "w_read W (ls_k st) ?fd (ls_bufLen st)")
  have d: "if e = None then n = glen data \<and> n \<le> ls_bufLen st else n = -1"
    using D r unfolding reads_ok_def by (metis (mono_tags, lifting) case_prod_conv)
  let ?st = "st\<lparr>ls_k := k\<rparr>"
  have io: "isopen k = isopen (ls_k st)" using fds_okD(5)[OF F r] .
  have k1: "table_ok ?st" "live isopen ?st c xs zs" "frame_ok st c ?st"
    by (rule table_ok_same[OF T]; simp) (use L io in \<open>auto simp: live_def frame_ok_def out_rep_def\<close>)
  then have h1: "handled isopen st c ?st" by (auto simp: handled_def)
  show ?thesis
  proof (cases "e \<noteq> None \<or> n = 0")
    case True
    let ?err = "Some (SyscallError ''read'' (if n = 0 then ECONNRESET else the e))"
    from el_closeConn_handled[OF K F k1(1,2), of h ?err] obtain st' e' where
      "el_closeConn W h ?st c ?err = Ret (st', e')" "handled isopen ?st c st'" by blast
    with True r h1 handled_trans[OF h1] show ?thesis by (auto simp: el_read_def Let_def)
  next
    case False
    then have op: "c_opened (ls_conn st c)"
      using L fds_okD(6)[OF F r] by (auto simp: live_def split: if_splits)
    from L obtain rs where rs: "er_rep (c_in (ls_conn st c)) rs" "zs = rs @ c_buf (ls_conn st c)"
      by (auto simp: live_def c_holds_def)
    let ?b = "take (nat n) data"
    let ?s = "upd_conn ?st c ((ls_conn st c)\<lparr>c_buf := ?b\<rparr>)"
    have T2: "table_ok ?s" by (rule table_ok_conn[OF T]) auto
    have L2: "live isopen ?s c xs (rs @ ?b)"
      using L op rs(1) by (auto simp: live_def c_holds_def out_rep_def is_udp_def)
    have h2: "handled isopen st c ?s" using T2 L2 by (auto simp: handled_def frame_ok_def)
    obtain st1 a where 1: "el_OnTraffic W h ?s c = Ret (st1, a)" "keeps isopen M ?s c xs (rs @ ?b) st1"
      using el_OnTraffic_keeps[OF K R E F H T2 L2 small(1)] by blast
    then obtain xs1 zs1 where L3: "table_ok st1" "live isopen st1 c xs1 zs1" "length zs1 \<le> length (rs @ ?b)"
      by (auto simp: keeps_def)
    have h3: "handled isopen st c st1" using handled_trans[OF h2 keeps_handled[OF 1(2)]] .
    have run: "el_read W h st c = (case a of
        ActClose \<Rightarrow> el_closeConn W h st1 c None
      | ActShutdown \<Rightarrow> Ret (st1, Some ErrEngineShutdown)
      | ActNone \<Rightarrow> (case w_env W (ls_tick st1) of (mem, fresh) \<Rightarrow>
           go_bind (er_Write mem fresh (c_in (ls_conn st1 c)) (c_buf (ls_conn st1 c))) (\<lambda>(r, _, _).
           Ret (upd_conn (st1\<lparr>ls_tick := Suc (ls_tick st1)\<rparr>) c ((ls_conn st1 c)\<lparr>c_in := r\<rparr>), None))))"
      using False r 1(1) by (cases a) (simp_all add: el_read_def Let_def)
    show ?thesis
    proof (cases a)
      case ActClose
      from el_closeConn_handled[OF K F L3(1,2), of h None] run ActClose handled_trans[OF h3] show ?thesis by auto
    next
      case ActShutdown
      with run h3 show ?thesis by simp
    next
      case ActNone
      have "length zs1 \<le> 2 ^ 62" using L3(3) small(2) rs(2) d False by simp
      moreover obtain mem fresh where w: "w_env W (ls_tick st1) = (mem, fresh)" by (cases "w_env W (ls_tick st1)")
      ultimately obtain r' n' e' where
        "er_Write mem fresh (c_in (ls_conn st1 c)) (c_buf (ls_conn st1 c)) = Ret (r', n', e')"
        "handled isopen st1 c (upd_conn (st1\<lparr>ls_tick := Suc (ls_tick st1)\<rparr>) c ((ls_conn st1 c)\<lparr>c_in := r'\<rparr>))"
        using keep_leftover[OF E L3(1,2) _ w] by blast
      with run ActNone w handled_trans[OF h3] show ?thesis by simp
    qed
  qed
qed

lemma c_handleEvents_handled:
  assumes K: "kernel_ok W peer" and R: "ctl_ok W reg" and E: "env_ok W" and F: "fds_ok W isopen" and D: "reads_ok W"
    and H: "handler_fits M h" and T: "table_ok st" and L: "live isopen st c xs zs"
    and small: "length xs + M \<le> 2 ^ 62" "glen zs + ls_bufLen st \<le> 2 ^ 62"
  shows "\<exists>st' e. c_handleEvents W h st c ev = Ret (st', e) \<and> handled isopen st c st'"
proof -
  let ?out = "and ev OutEvents \<noteq> 0"
  have em: "out_IsEmpty st c = Ret (xs = [])" using L out_IsEmpty_rep by (auto simp: live_def)
  have "\<exists>st1 e1. (if ?out \<and> xs \<noteq> [] then el_write W h st c else Ret (st, None)) = Ret (st1, e1) \<and>
    keeps isopen 0 st c xs zs st1"
  proof (cases "?out \<and> xs \<noteq> []")
    case True
    then have op: "c_opened (ls_conn st c)" using L by (auto simp: live_def split: if_splits)
    from el_write_keeps[OF K R F T L op] True show ?thesis by simp
  next
    case False
    have "keeps isopen 0 st c xs zs st" by (rule keepsI[OF T frame_refl L]) auto
    with False show ?thesis by auto
  qed
  then obtain st1 e1 where 1: "(if ?out \<and> xs \<noteq> [] then el_write W h st c else Ret (st, None)) = Ret (st1, e1)"
    "keeps isopen 0 st c xs zs st1" by blast
  from 1(2) obtain xs1 zs1 where L1: "table_ok st1" "live isopen st1 c xs1 zs1" "length xs1 \<le> length xs"
    "length zs1 \<le> length zs" "ls_bufLen st1 = ls_bufLen st" by (auto simp: keeps_def frame_ok_def)
  have h1: "handled isopen st c st1" using keeps_handled[OF 1(2)] .
  have run: "c_handleEvents W h st c ev =
      (if e1 \<noteq> None then Ret (st1, e1) else if and ev InEvents \<noteq> 0 then el_read W h st1 c else Ret (st1, None))"
  proof -
    have "c_handleEvents W h st c ev = go_bind (if ?out \<and> xs \<noteq> [] then el_write W h st c else Ret (st, None)) (\<lambda>(st, err).
      if err \<noteq> None then Ret (st, err) else if and ev InEvents \<noteq> 0 then el_read W h st c else Ret (st, None))"
      using em by (simp add: c_handleEvents_def)
    then show ?thesis unfolding 1(1) by simp
  qed
  have "length xs1 + M \<le> 2 ^ 62" "glen zs1 + ls_bufLen st1 \<le> 2 ^ 62" using small L1 by auto
  from el_read_handled[OF K R E F D H L1(1,2) this] run h1 handled_trans[OF h1] show ?thesis by auto
qed


section \<open>Opening a connection\<close>

lemma run_prog_result:
  "prog_all P p \<Longrightarrow> run_prog W h c p st = Ret (st', r) \<Longrightarrow> P r"
proof (induction p arbitrary: st)
  case (PRead n f)
  note step = PRead.IH[OF rangeI spec[OF PRead.prems(1)[unfolded prog_all.simps]]]
  from PRead.prems(2) show ?case by (auto elim!: go_bind_RetE intro: step)
next
  case (PNext n f)
  note step = PNext.IH[OF rangeI spec[OF PNext.prems(1)[unfolded prog_all.simps]]]
  from PNext.prems(2) show ?case by (auto elim!: go_bind_RetE intro: step)
next
  case (PPeek n f)
  note step = PPeek.IH[OF rangeI spec[OF PPeek.prems(1)[unfolded prog_all.simps]]]
  from PPeek.prems(2) show ?case by (auto elim!: go_bind_RetE intro: step)
next
  case (PDiscard n f)
  note step = PDiscard.IH[OF rangeI spec[OF PDiscard.prems(1)[unfolded prog_all.simps]]]
  from PDiscard.prems(2) show ?case by (auto elim!: go_bind_RetE intro: step)
next
  case (PWrite p f)
  note step = PWrite.IH[OF rangeI spec[OF PWrite.prems(1)[unfolded prog_all.simps]]]
  from PWrite.prems(2) show ?case by (auto elim!: go_bind_RetE intro: step)
next
  case (PWritev bs f)
  note step = PWritev.IH[OF rangeI spec[OF PWritev.prems(1)[unfolded prog_all.simps]]]
  from PWritev.prems(2) show ?case by (auto elim!: go_bind_RetE intro: step)
next
  case (PFlush f)
  note step = PFlush.IH[OF rangeI spec[OF PFlush.prems(1)[unfolded prog_all.simps]]]
  from PFlush.prems(2) show ?case by (auto elim!: go_bind_RetE intro: step)
next
  case (POutboundBuffered f)
  note step = POutboundBuffered.IH[OF rangeI spec[OF POutboundBuffered.prems(1)[unfolded prog_all.simps]]]
  from POutboundBuffered.prems(2) show ?case by (auto elim!: go_bind_RetE intro: step)
qed (fastforce split: prod.splits)+

lemma c_open_keeps:
  assumes K: "kernel_ok W peer" and E: "env_ok W" and F: "fds_ok W isopen"
    and T: "table_ok st" and L: "live isopen st c xs zs" and small: "length xs + length buf \<le> 2 ^ 62"
  shows "\<exists>st' e. c_open W st c buf = Ret (st', e) \<and> keeps isopen (length buf) st c xs zs st'"
proof -
  let ?fd = "c_fd (ls_conn st c)"
  obtain k n e where w: "w_write W (ls_k st) ?fd buf = (k, n, e)" by (cases "w_write W (ls_k st) ?fd buf")
  note s = kernel_okD(1)[OF K w]
  have k: "isopen k = isopen (ls_k st)" using fds_okD(1)[OF F w] .
  have keep: "\<exists>st'. out_Write W (st\<lparr>ls_k := k\<rparr>) c d = Ret st' \<and> keeps isopen (length buf) st c xs zs st'"
    if d: "length d \<le> length buf" and op: "c_opened (ls_conn st c)" for d
  proof -
    have "out_rep (st\<lparr>ls_k := k\<rparr>) c xs" "glen xs + glen d \<le> 2 ^ 62" using L small d by (auto simp: live_def)
    from out_Write_rep[OF E this] obtain mb where
      mb: "out_Write W (st\<lparr>ls_k := k\<rparr>) c d = Ret (out_upd st c mb k (Suc (ls_tick st)))" "eb_rep mb (xs @ d)" by auto
    have "keeps isopen (length buf) st c xs zs (out_upd st c mb k (Suc (ls_tick st)))"
    proof (rule keepsI)
      show "table_ok (out_upd st c mb k (Suc (ls_tick st)))" by (rule table_ok_conn[OF T]) auto
      show "live isopen (out_upd st c mb k (Suc (ls_tick st))) c (xs @ d) zs"
        using L op mb(2) by (simp add: live_def is_udp_def c_holds_def)
    qed (use d in \<open>auto simp: frame_ok_def\<close>)
    with mb show ?thesis by blast
  qed
  have dead: "e = Some EBADF" if "\<not> c_opened (ls_conn st c)"
    using fds_okD(2)[OF F w] L that by (auto simp: live_def)
  consider (again) "e = Some EAGAIN" | (part) "e = None" "n < glen buf" | (rest) "e \<noteq> Some EAGAIN" "\<not> (e = None \<and> n < glen buf)"
    by blast
  then show ?thesis
  proof cases
    case again
    then have "c_opened (ls_conn st c)" using dead by auto
    from keep[OF _ this, of buf] again w show ?thesis by (auto simp: c_open_def Let_def)
  next
    case part
    then have "c_opened (ls_conn st c)" using dead by auto
    moreover have "go_slice buf n (glen buf) = Ret (drop (nat n) buf)"
      using sendsD(2)[OF s] part by (simp add: go_slice_Ret)
    ultimately show ?thesis using keep[of "drop (nat n) buf"] part w by (auto simp: c_open_def Let_def)
  next
    case rest
    then have "c_open W st c buf = Ret (st\<lparr>ls_k := k\<rparr>, map_option Errno e)"
      using w by (auto simp: c_open_def Let_def)
    with keeps_k[OF T L k] show ?thesis by blast
  qed
qed

text \<open>A connection that is about to be opened.\<close>

definition newborn :: "('k, 'u) lstate \<Rightarrow> nat \<Rightarrow> bool" where
  "newborn st c \<longleftrightarrow> \<not> c_opened (ls_conn st c) \<and> c_attached (ls_conn st c) \<and> \<not> is_udp (ls_conn st c) \<and>
     \<not> c_isDatagram (ls_conn st c) \<and> out_rep st c [] \<and> c_holds (ls_conn st c) [] \<and>
     ls_connections st (c_fd (ls_conn st c)) = None"

lemma newTCPConn_newborn:
  assumes "ls_conn st c = newTCPConn cap fd sa l r" "0 < cap" "ls_connections st fd = None"
    "\<forall>a. l = Some a \<longrightarrow> take 3 (addr_Network a) \<noteq> ''udp''"
  shows "newborn st c"
proof -
  obtain mb where "eb_New cap = Inr mb" "eb_rep mb []" using eb_New_rep[OF assms(2)] by blast
  with assms show ?thesis
    by (auto simp: newborn_def newTCPConn_def is_udp_def out_rep_def c_holds_def split: option.split)
qed

lemma table_ok_open:
  assumes T: "table_ok st" and "\<not> c_opened (ls_conn st c)" "ls_connections st (c_fd x) = None"
    and x: "c_fd x = c_fd (ls_conn st c)" "c_opened x"
    and st': "ls_conn st' = (ls_conn st)(c := x)" "ls_connections st' = (ls_connections st)(c_fd x \<mapsto> c)"
      "ls_connCount st' = ls_connCount st + 1"
  shows "table_ok st'"
proof -
  have fin: "finite (dom (ls_connections st))" "c_fd x \<notin> dom (ls_connections st)"
    and cnt: "ls_connCount st = int (card (dom (ls_connections st)))"
    and tab: "\<And>fd c. ls_connections st fd = Some c \<Longrightarrow> c_fd (ls_conn st c) = fd \<and> c_opened (ls_conn st c)"
      "\<And>c. c_opened (ls_conn st c) \<Longrightarrow> ls_connections st (c_fd (ls_conn st c)) = Some c"
    using T assms(3) by (auto simp: table_ok_def)
  have notc: "ls_connections st fd \<noteq> Some c" for fd using tab(1) assms(2) by blast
  have other: "c_fd (ls_conn st c') \<noteq> c_fd x" if "c_opened (ls_conn st c')" for c'
    using tab(2)[OF that] assms(3) by auto
  have 1: "finite (dom (ls_connections st'))" "ls_connCount st' = int (card (dom (ls_connections st')))"
    using fin cnt st' by simp_all
  have 2: "c_fd (ls_conn st' c') = fd \<and> c_opened (ls_conn st' c')" if "ls_connections st' fd = Some c'" for fd c'
  proof (cases "c' = c")
    case True
    with that x notc show ?thesis by (auto simp: st' split: if_splits)
  next
    case False
    with that tab(1) show ?thesis by (simp add: st' split: if_splits)
  qed
  have 3: "ls_connections st' (c_fd (ls_conn st' c')) = Some c'" if "c_opened (ls_conn st' c')" for c'
    using that tab(2) other by (cases "c' = c") (simp_all add: st')
  show ?thesis unfolding table_ok_def using 1 2 3 by blast
qed

lemma el_open_handled:
  assumes K: "kernel_ok W peer" and R: "ctl_ok W reg" and E: "env_ok W" and F: "fds_ok W isopen"
    and H: "handler_fits M h" and T: "table_ok st0" and N: "newborn st0 c" and small: "2 * M \<le> 2 ^ 62"
    and st: "st = st0\<lparr>ls_connections := (ls_connections st0)(c_fd (ls_conn st0 c) \<mapsto> c)\<rparr>"
  shows "\<exists>st' e. el_open W h st c = Ret (st', e) \<and> handled isopen st0 c st'"
proof -
  let ?fd = "c_fd (ls_conn st0 c)"
  let ?st = "el_addConn (upd_conn st c ((ls_conn st c)\<lparr>c_opened := True\<rparr>)) 1"
  have T1: "table_ok ?st"
    by (rule table_ok_open[OF T, where c = c and x = "(ls_conn st0 c)\<lparr>c_opened := True\<rparr>"])
      (use N in \<open>auto simp: newborn_def st el_addConn_def\<close>)
  have L1: "live isopen ?st c [] []" using N by (auto simp: live_def st el_addConn_def newborn_def out_rep_def c_holds_def is_udp_def)
  have F1: "frame_ok st0 c ?st" by (simp add: frame_ok_def st el_addConn_def)
  have fit: "prog_fits M (h_OnOpen h c (ls_user ?st))" and out: "prog_all (\<lambda>(u, out, a). case out of None \<Rightarrow> True
      | Some buf \<Rightarrow> length buf \<le> M) (h_OnOpen h c (ls_user ?st))" using H unfolding handler_fits_def by blast+
  have "length [] + M \<le> 2 ^ 62" using small by simp
  from run_prog_keeps[OF K R E F fit T1 L1 this, of h] obtain st1 u o1 a where
    r: "run_prog W h c (h_OnOpen h c (ls_user ?st)) ?st = Ret (st1, u, o1, a)" "keeps isopen M ?st c [] [] st1"
    by (metis prod.exhaust)
  have o1: "case o1 of None \<Rightarrow> True | Some buf \<Rightarrow> length buf \<le> M" using run_prog_result[OF out r(1)] by simp
  let ?st2 = "st1\<lparr>ls_user := u\<rparr>"
  from r(2) obtain xs2 zs2 where L2: "table_ok ?st2" "live isopen ?st2 c xs2 zs2" "frame_ok ?st c ?st2" "length xs2 \<le> M"
    by (auto simp: keeps_def user_upd)
  have open1: "el_OnOpen W h ?st c = Ret (?st2, o1, a)" using r(1) by (simp add: el_OnOpen_def)
  obtain st3 e3 where c3: "(case o1 of None \<Rightarrow> Ret (?st2, None) | Some buf \<Rightarrow> c_open W ?st2 c buf) = Ret (st3, e3)"
    "handled isopen ?st2 c st3"
  proof (cases o1)
    case None
    with L2 that show ?thesis by (auto simp: handled_def frame_refl)
  next
    case (Some buf)
    then have "length xs2 + length buf \<le> 2 ^ 62" using o1 L2(4) small by simp
    from c_open_keeps[OF K E F L2(1,2) this] Some that keeps_handled show ?thesis by fastforce
  qed
  have h3: "handled isopen st0 c st3"
    using c3(2) frame_trans[OF F1 frame_trans[OF L2(3)]] by (auto simp: handled_def)
  from c3(2) obtain xs3 zs3 where L3: "table_ok st3" "live isopen st3 c xs3 zs3" by (auto simp: handled_def)
  have em: "out_IsEmpty st3 c = Ret (xs3 = [])" using L3(2) out_IsEmpty_rep by (auto simp: live_def)
  obtain st4 e4 where c4: "(if xs3 \<noteq> [] then pl_AddWrite W st3 c else Ret (st3, None)) = Ret (st4, e4)"
    "handled isopen st3 c st4"
  proof (cases "xs3 = []")
    case True
    with L3 that show ?thesis by (auto simp: handled_def frame_refl)
  next
    case False
    then have att: "c_attached (ls_conn st3 c)" using L3(2) by (auto simp: live_def split: if_splits)
    obtain k e where c: "w_ctl W (ls_k st3) EPOLL_CTL_ADD (c_fd (ls_conn st3 c)) writeEvents = (k, e)"
      by (cases "w_ctl W (ls_k st3) EPOLL_CTL_ADD (c_fd (ls_conn st3 c)) writeEvents")
    have "handled isopen st3 c (st3\<lparr>ls_k := k\<rparr>)"
      using keeps_handled[OF keeps_k[OF L3 fds_okD(7)[OF F c]]] .
    with that att c False show ?thesis by (auto simp: pl_AddWrite_def pl_attached_def pl_ctl_def)
  qed
  have h4: "handled isopen st0 c st4" using handled_trans[OF h3 c4(2)] .
  from c4(2) obtain xs4 zs4 where L4: "table_ok st4" "live isopen st4 c xs4 zs4" by (auto simp: handled_def)
  have run: "el_open W h st c = (if e3 \<noteq> None then Ret (st3, e3) else if e4 \<noteq> None then Ret (st4, e4)
      else el_handleAction W h st4 c a)"
    using open1 c3(1) em c4(1) by (simp add: el_open_def Let_def)
  from el_handleAction_handled[OF K F L4, of h a] run h3 h4 handled_trans[OF h4] show ?thesis by auto
qed

lemma el_register_handled:
  assumes K: "kernel_ok W peer" and R: "ctl_ok W reg" and E: "env_ok W" and F: "fds_ok W isopen"
    and H: "handler_fits M h" and T: "table_ok st" and N: "newborn st c" and small: "2 * M \<le> 2 ^ 62"
  shows "\<exists>st' e. el_register W h st c = Ret (st', e) \<and> handled isopen st c st'"
proof -
  let ?fd = "c_fd (ls_conn st c)"
  obtain k e where c: "w_ctl W (ls_k st) EPOLL_CTL_ADD ?fd readEvents = (k, e)"
    by (cases "w_ctl W (ls_k st) EPOLL_CTL_ADD ?fd readEvents")
  let ?st = "st\<lparr>ls_k := k\<rparr>"
  have add: "pl_AddRead W st c = Ret (?st, NewSyscallError ''epoll_ctl add'' e)"
    using N c by (simp add: pl_AddRead_def pl_attached_def pl_ctl_def newborn_def)
  have T1: "table_ok ?st" by (rule table_ok_same[OF T]) auto
  have N1: "newborn ?st c" using N by (simp add: newborn_def)
  have fr: "frame_ok st c ?st" by (simp add: frame_ok_def)
  show ?thesis
  proof (cases e)
    case None
    from el_open_handled[OF K R E F H T1 N1 small refl] obtain st' e' where
      "el_open W h (?st\<lparr>ls_connections := (ls_connections ?st)(c_fd (ls_conn ?st c) \<mapsto> c)\<rparr>) c = Ret (st', e')"
      "handled isopen ?st c st'" by blast
    moreover from this(2) have "handled isopen st c st'" using frame_trans[OF fr] by (auto simp: handled_def)
    ultimately show ?thesis using add N None by (auto simp: el_register_def Let_def newborn_def NewSyscallError_def)
  next
    case (Some er)
    obtain k2 e2 where c2: "w_close W k ?fd = (k2, e2)" by (cases "w_close W k ?fd")
    from N obtain mb where "c_out (ls_conn st c) = Some mb" "eb_rep mb []" by (auto simp: newborn_def out_rep_def)
    from releaseTCP_spec[OF this] obtain mb' where
      rel: "releaseTCP (ls_conn st c) = Ret ((ls_conn st c)\<lparr>c_opened := False, c_peer := None, c_ctx := None, c_buf := [],
        c_localAddr := None, c_remoteAddr := None, c_in := er_Done (c_in (ls_conn st c)), c_out := Some mb', c_attached := False\<rparr>)"
      "eb_rep mb' []" by blast
    let ?x = "(ls_conn st c)\<lparr>c_opened := False, c_peer := None, c_ctx := None, c_buf := [],
        c_localAddr := None, c_remoteAddr := None, c_in := er_Done (c_in (ls_conn st c)), c_out := Some mb', c_attached := False\<rparr>"
    let ?s = "upd_conn (st\<lparr>ls_k := k2\<rparr>) c ?x"
    have "\<not> isopen k2 ?fd" using F c2 unfolding fds_ok_def by (metis fst_conv)
    then have "live isopen ?s c [] []"
      using N rel(2) er_Done_rep by (auto simp: live_def c_holds_def out_rep_def is_udp_def newborn_def)
    moreover have "table_ok ?s" using N by (intro table_ok_conn[OF T]) (auto simp: newborn_def)
    moreover have "frame_ok st c ?s" by (simp add: frame_ok_def)
    ultimately have "handled isopen st c ?s" by (auto simp: handled_def)
    moreover have "\<exists>e. el_register W h st c = Ret (?s, e)"
      using add N Some c2 rel by (auto simp: el_register_def Let_def newborn_def NewSyscallError_def el_releaseTCP_def)
    ultimately show ?thesis by blast
  qed
qed

section \<open>The loop as a transition system\<close>

text \<open>The buffers of \<open>c\<close> are far from the end of the integer range.\<close>

definition out_room :: "nat \<Rightarrow> ('k, 'u) lstate \<Rightarrow> nat \<Rightarrow> bool" where
  "out_room N st c \<longleftrightarrow> (case c_OutboundBuffered (ls_conn st c) of Ret n \<Rightarrow> n + int N \<le> 2 ^ 62 | _ \<Rightarrow> True)"

definition in_room :: "('k, 'u) lstate \<Rightarrow> nat \<Rightarrow> bool" where
  "in_room st c \<longleftrightarrow> c_InboundBuffered (ls_conn st c) + ls_bufLen st \<le> 2 ^ 62"

text \<open>
  What a queued task relies on: it is for a stream connection, its data fits, and a connection to be
  registered is new.
\<close>

fun task_ok :: "nat \<Rightarrow> ('k, 'u) lstate \<Rightarrow> 'u task \<Rightarrow> bool" where
  "task_ok M st (TAsyncWrite c data cb) = out_room (length data) st c"
| "task_ok M st (TAsyncWritev c bs cb) = out_room (length (concat bs)) st c"
| "task_ok M st (TClose c cb) = (\<not> is_udp (ls_conn st c))"
| "task_ok M st (TWake c cb) = out_room M st c"
| "task_ok M st (TRegister c) = newborn st c"
| "task_ok M st TShutdown = True"

text \<open>
  One step of the engine as the loop sees it: the callback for an event, the head of one of the two task
  queues, a task queued by some goroutine, a connection object created by the acceptor, and the kernel
  moving on.
\<close>

inductive el_step :: "'k world \<Rightarrow> 'u handler \<Rightarrow> nat \<Rightarrow> ('k, 'u) lstate \<Rightarrow> ('k, 'u) lstate \<Rightarrow> bool"
  for W h M where
  event: "\<lbrakk>\<And>c. ls_connections st fd = Some c \<Longrightarrow> out_room M st c \<and> in_room st c;
    el_onEvent W h st fd ev = Ret (st', e)\<rbrakk> \<Longrightarrow> el_step W h M st st'"
| urgent: "\<lbrakk>ls_urgent st = t # ts; task_ok M st t; run_task W h (st\<lparr>ls_urgent := ts\<rparr>) t = Ret (st', e)\<rbrakk> \<Longrightarrow>
    el_step W h M st st'"
| async: "\<lbrakk>ls_async st = t # ts; task_ok M st t; run_task W h (st\<lparr>ls_async := ts\<rparr>) t = Ret (st', e)\<rbrakk> \<Longrightarrow>
    el_step W h M st st'"
| trigger: "pl_Trigger W st t = (st', e) \<Longrightarrow> el_step W h M st st'"
| urgent_trigger: "pl_UrgentTrigger W st t = (st', e) \<Longrightarrow> el_step W h M st st'"
| create: "\<not> c_opened (ls_conn st c) \<Longrightarrow> el_step W h M st (upd_conn st c (newTCPConn cap fd sa l r))"
| kernel: "el_step W h M st (st\<lparr>ls_k := k\<rparr>)"

definition loop_start :: "('k, 'u) lstate \<Rightarrow> bool" where
  "loop_start st \<longleftrightarrow> ls_connections st = Map.empty \<and> ls_connCount st = 0 \<and> (\<forall>c. \<not> c_opened (ls_conn st c))"

lemma loop_start_inv: "loop_start st \<Longrightarrow> loop_inv isopen st"
  by (simp add: loop_start_def loop_inv_def table_ok_def)

lemma live_ext:
  "ls_conn st' c = ls_conn st c \<Longrightarrow> c_opened (ls_conn st c) \<Longrightarrow> live isopen st' c xs zs = live isopen st c xs zs"
  by (simp add: live_def out_rep_def)

lemma loop_inv_same:
  assumes "loop_inv isopen st" "ls_conn st' = ls_conn st" "ls_connections st' = ls_connections st"
    "ls_connCount st' = ls_connCount st"
  shows "loop_inv isopen st'"
  unfolding loop_inv_def using assms table_ok_same[of st st'] live_ext[of st' _ st]
  by (simp add: loop_inv_def) metis

lemma loop_inv_live:
  assumes "loop_inv isopen st" "c_opened (ls_conn st c)"
  obtains xs zs where "table_ok st" "live isopen st c xs zs" "c_OutboundBuffered (ls_conn st c) = Ret (glen xs)"
    "c_InboundBuffered (ls_conn st c) = glen zs"
proof -
  from assms obtain xs zs where L: "table_ok st" "live isopen st c xs zs" by (auto simp: loop_inv_def)
  then have "c_OutboundBuffered (ls_conn st c) = Ret (glen xs)"
    by (auto simp: live_def out_rep_def c_OutboundBuffered_def eb_Buffered_rep)
  moreover have "c_InboundBuffered (ls_conn st c) = glen zs"
    using L c_InboundBuffered_spec by (auto simp: live_def)
  ultimately show ?thesis using that L by blast
qed

lemma pl_wakeup_inv: "pl_wakeup W st = (st', e) \<Longrightarrow> loop_inv isopen st \<Longrightarrow> loop_inv isopen st'"
  by (auto simp: pl_wakeup_def split: if_splits prod.splits intro: loop_inv_same[of isopen st])

lemma run_callback_inv: "loop_inv isopen (run_callback cb st) = loop_inv isopen st"
proof -
  have "loop_inv isopen (st\<lparr>ls_user := u\<rparr>) = loop_inv isopen st" for u
    using loop_inv_same[of isopen st "st\<lparr>ls_user := u\<rparr>"] loop_inv_same[of isopen "st\<lparr>ls_user := u\<rparr>" st] by auto
  then show ?thesis by (simp add: run_callback_def split: option.split)
qed

lemma table_entry: "table_ok st \<Longrightarrow> ls_connections st fd = Some c \<Longrightarrow> c_opened (ls_conn st c)"
  by (simp add: table_ok_def)

lemma el_onEvent_inv:
  assumes K: "kernel_ok W peer" and R: "ctl_ok W reg" and E: "env_ok W" and F: "fds_ok W isopen" and D: "reads_ok W"
    and H: "handler_fits M h" and I: "loop_inv isopen st"
    and room: "\<And>c. ls_connections st fd = Some c \<Longrightarrow> out_room M st c \<and> in_room st c"
  shows "\<exists>st' e. el_onEvent W h st fd ev = Ret (st', e) \<and> loop_inv isopen st'"
proof (cases "ls_connections st fd")
  case None
  with I show ?thesis by (simp add: el_onEvent_def)
next
  case (Some c)
  then have "c_opened (ls_conn st c)" using I table_entry by (auto simp: loop_inv_def)
  then obtain xs zs where L: "table_ok st" "live isopen st c xs zs" "c_OutboundBuffered (ls_conn st c) = Ret (glen xs)"
    "c_InboundBuffered (ls_conn st c) = glen zs" by (rule loop_inv_live[OF I])
  then have "length xs + M \<le> 2 ^ 62" "glen zs + ls_bufLen st \<le> 2 ^ 62"
    using room[OF Some] by (auto simp: out_room_def in_room_def)
  from c_handleEvents_handled[OF K R E F D H L(1,2) this, of ev] Some handled_loop_inv[OF I]
  show ?thesis by (auto simp: el_onEvent_def)
qed

lemma run_task_inv:
  assumes K: "kernel_ok W peer" and R: "ctl_ok W reg" and E: "env_ok W" and F: "fds_ok W isopen"
    and H: "handler_fits M h" and small: "2 * M \<le> 2 ^ 62" and I: "loop_inv isopen st" and t: "task_ok M st t"
  shows "\<exists>st' e. run_task W h st t = Ret (st', e) \<and> loop_inv isopen st'"
proof (cases t)
  case (TAsyncWrite c data cb)
  show ?thesis
  proof (cases "c_opened (ls_conn st c)")
    case True
    then obtain xs zs where L: "table_ok st" "live isopen st c xs zs"
      "c_OutboundBuffered (ls_conn st c) = Ret (glen xs)" by (rule loop_inv_live[OF I])
    then have "glen xs + glen data \<le> 2 ^ 62" using t TAsyncWrite by (simp add: out_room_def)
    from c_Write_keeps[OF K R E F L(1,2) this, of h] L(2) True TAsyncWrite handled_loop_inv[OF I keeps_handled]
    show ?thesis by (fastforce simp: c_Write_def c_asyncWrite_def live_def run_callback_inv)
  qed (use I TAsyncWrite in \<open>simp add: c_asyncWrite_def\<close>)
next
  case (TAsyncWritev c bs cb)
  show ?thesis
  proof (cases "c_opened (ls_conn st c)")
    case True
    then obtain xs zs where L: "table_ok st" "live isopen st c xs zs"
      "c_OutboundBuffered (ls_conn st c) = Ret (glen xs)" by (rule loop_inv_live[OF I])
    then have "glen xs + glen (concat bs) \<le> 2 ^ 62" using t TAsyncWritev by (simp add: out_room_def)
    from c_Writev_keeps[OF K R E F L(1,2) this, of h] L(2) True TAsyncWritev handled_loop_inv[OF I keeps_handled]
    show ?thesis by (fastforce simp: c_Writev_def c_asyncWritev_def live_def run_callback_inv)
  qed (use I TAsyncWritev in \<open>simp add: c_asyncWritev_def\<close>)
next
  case (TClose c cb)
  show ?thesis
  proof (cases "c_opened (ls_conn st c)")
    case True
    then obtain xs zs where L: "table_ok st" "live isopen st c xs zs" by (rule loop_inv_live[OF I])
    from el_closeConn_handled[OF K F this, of h None] TClose handled_loop_inv[OF I]
    show ?thesis by (fastforce simp: run_callback_inv)
  next
    case False
    with t TClose have "el_closeConn W h st c None = Ret (st, None)" by (simp add: el_closeConn_closed)
    with I TClose show ?thesis by (simp add: run_callback_inv)
  qed
next
  case (TWake c cb)
  show ?thesis
  proof (cases "c_opened (ls_conn st c)")
    case True
    then obtain xs zs where L: "table_ok st" "live isopen st c xs zs"
      "c_OutboundBuffered (ls_conn st c) = Ret (glen xs)" by (rule loop_inv_live[OF I])
    then have "length xs + M \<le> 2 ^ 62" using t TWake by (simp add: out_room_def)
    from el_wake_handled[OF K R E F H L(1,2) this] TWake handled_loop_inv[OF I]
    show ?thesis by (fastforce simp: run_callback_inv)
  next
    case False
    then have "ls_connections st (c_fd (ls_conn st c)) \<noteq> Some c" using I table_entry by (auto simp: loop_inv_def)
    with I TWake show ?thesis by (simp add: el_wake_def run_callback_inv)
  qed
next
  case (TRegister c)
  with t have "newborn st c" by simp
  moreover have "table_ok st" using I by (simp add: loop_inv_def)
  ultimately show ?thesis
    using el_register_handled[OF K R E F H _ _ small] TRegister handled_loop_inv[OF I] by fastforce
next
  case TShutdown
  with I show ?thesis by simp
qed

lemma loop_inv_create:
  assumes "loop_inv isopen st" "\<not> c_opened (ls_conn st c)" "\<not> c_opened x"
  shows "loop_inv isopen (upd_conn st c x)"
proof -
  have "table_ok (upd_conn st c x)"
    using assms table_entry[of st _ c] by (auto simp: loop_inv_def table_ok_def)
  moreover have "\<exists>xs zs. live isopen (upd_conn st c x) c' xs zs" if "c_opened (ls_conn (upd_conn st c x) c')" for c'
    using that assms live_ext[of "upd_conn st c x" c' st] by (cases "c' = c") (auto simp: loop_inv_def)
  ultimately show ?thesis by (simp add: loop_inv_def)
qed

lemma task_ok_queue:
  "task_ok M (st\<lparr>ls_urgent := ts\<rparr>) t = task_ok M st t" "task_ok M (st\<lparr>ls_async := ts\<rparr>) t = task_ok M st t"
  by (cases t; simp add: out_room_def newborn_def out_rep_def)+

lemma el_step_inv:
  assumes K: "kernel_ok W peer" and R: "ctl_ok W reg" and E: "env_ok W" and F: "fds_ok W isopen" and D: "reads_ok W"
    and H: "handler_fits M h" and small: "2 * M \<le> 2 ^ 62"
    and "el_step W h M st st'" "loop_inv isopen st"
  shows "loop_inv isopen st'"
  using assms(8,9)
proof cases
  case (event fd ev e)
  from el_onEvent_inv[OF K R E F D H assms(9) event(1), of fd ev] event(2) show ?thesis by auto
next
  case (urgent t ts e)
  have "loop_inv isopen (st\<lparr>ls_urgent := ts\<rparr>)" by (rule loop_inv_same[OF assms(9)]) auto
  from run_task_inv[OF K R E F H small this, of t] urgent show ?thesis by (auto simp: task_ok_queue)
next
  case (async t ts e)
  have "loop_inv isopen (st\<lparr>ls_async := ts\<rparr>)" by (rule loop_inv_same[OF assms(9)]) auto
  from run_task_inv[OF K R E F H small this, of t] async show ?thesis by (auto simp: task_ok_queue)
next
  case (trigger t e)
  have "loop_inv isopen (st\<lparr>ls_async := ls_async st @ [t]\<rparr>)" by (rule loop_inv_same[OF assms(9)]) auto
  with trigger pl_wakeup_inv show ?thesis by (fastforce simp: pl_Trigger_def)
next
  case (urgent_trigger t e)
  have "loop_inv isopen (st\<lparr>ls_urgent := ls_urgent st @ [t]\<rparr>)" by (rule loop_inv_same[OF assms(9)]) auto
  with urgent_trigger pl_wakeup_inv show ?thesis by (fastforce simp: pl_UrgentTrigger_def)
next
  case (create c cap fd sa l r)
  show ?thesis unfolding create(1)
    by (rule loop_inv_create[OF assms(9) create(2)]) (simp add: newTCPConn_def split: option.split)
next
  case (kernel k)
  show ?thesis unfolding kernel by (rule loop_inv_same[OF assms(9)]) auto
qed

lemma loop_reach_inv:
  assumes K: "kernel_ok W peer" and R: "ctl_ok W reg" and E: "env_ok W" and F: "fds_ok W isopen" and D: "reads_ok W"
    and H: "handler_fits M h" and small: "2 * M \<le> 2 ^ 62"
    and "(el_step W h M)\<^sup>*\<^sup>* st0 st" "loop_start st0"
  shows "loop_inv isopen st"
  using assms(8)
proof induction
  case base
  show ?case using assms(9) by (rule loop_start_inv)
next
  case (step st1 st2)
  then show ?case using el_step_inv[OF K R E F D H small] by blast
qed

section \<open>Closing all sockets\<close>

lemma loop_inv_not_udp: "loop_inv isopen st \<Longrightarrow> c_opened (ls_conn st c) \<Longrightarrow> \<not> is_udp (ls_conn st c)"
  by (auto simp: loop_inv_def live_def)

lemma el_closeEach_inv:
  assumes K: "kernel_ok W peer" and F: "fds_ok W isopen"
  shows "loop_inv isopen st \<Longrightarrow> \<forall>c\<in>set cs. \<not> is_udp (ls_conn st c) \<Longrightarrow>
    \<exists>st'. el_closeEach W h st cs = Ret st' \<and> loop_inv isopen st' \<and> (\<forall>c\<in>set cs. \<not> c_opened (ls_conn st' c)) \<and>
      (\<forall>c. c_opened (ls_conn st' c) \<longrightarrow> c_opened (ls_conn st c)) \<and> ls_udpSockets st' = ls_udpSockets st"
proof (induction cs arbitrary: st)
  case (Cons c cs)
  have "\<exists>st1 e. el_closeConn W h st c None = Ret (st1, e) \<and> loop_inv isopen st1 \<and> \<not> c_opened (ls_conn st1 c) \<and>
    frame_ok st c st1 \<and> \<not> is_udp (ls_conn st1 c)"
  proof (cases "c_opened (ls_conn st c)")
    case True
    then obtain xs zs where L: "table_ok st" "live isopen st c xs zs" using Cons.prems(1) by (auto simp: loop_inv_def)
    from el_closeConn_handled[OF K F L, of h None] handled_loop_inv[OF Cons.prems(1)] show ?thesis
      by (auto simp: handled_def live_def)
  next
    case False
    with Cons.prems frame_refl show ?thesis by (auto simp: el_closeConn_closed)
  qed
  then obtain st1 e where 1: "el_closeConn W h st c None = Ret (st1, e)" "loop_inv isopen st1"
    "\<not> c_opened (ls_conn st1 c)" "frame_ok st c st1" "\<not> is_udp (ls_conn st1 c)" by blast
  have fr: "ls_conn st1 c' = ls_conn st c'" if "c' \<noteq> c" for c' using 1(4) that by (simp add: frame_ok_def)
  have "\<forall>c\<in>set cs. \<not> is_udp (ls_conn st1 c)" using Cons.prems(2) 1(5) fr by (metis list.set_intros(2))
  from Cons.IH[OF 1(2) this] obtain st' where 2: "el_closeEach W h st1 cs = Ret st'" "loop_inv isopen st'"
    "\<forall>c\<in>set cs. \<not> c_opened (ls_conn st' c)" "\<forall>c. c_opened (ls_conn st' c) \<longrightarrow> c_opened (ls_conn st1 c)"
    "ls_udpSockets st' = ls_udpSockets st1" by blast
  have "c_opened (ls_conn st c')" if "c_opened (ls_conn st' c')" for c'
    using 2(4) that 1(3) fr by (cases "c' = c") auto
  moreover have "ls_udpSockets st1 = ls_udpSockets st" using 1(4) by (simp add: frame_ok_def)
  ultimately show ?case using 1(1,3) 2 by auto
qed simp

lemma loop_inv_none_open:
  assumes "loop_inv isopen st" "\<And>c. \<not> c_opened (ls_conn st c)"
  shows "ls_connections st = Map.empty" "ls_connCount st = 0"
proof -
  have "ls_connections st fd = None" for fd
    using assms by (cases "ls_connections st fd") (auto simp: loop_inv_def table_ok_def)
  then show "ls_connections st = Map.empty" by (rule ext)
  then show "ls_connCount st = 0" using assms(1) by (simp add: loop_inv_def table_ok_def)
qed

lemma closeAllSockets_closes:
  assumes K: "kernel_ok W peer" and F: "fds_ok W isopen" and I: "loop_inv isopen st"
    and "set conns = ran (ls_connections st)" "ls_udpSockets st = Map.empty"
  shows "\<exists>st'. el_closeAllSockets W h conns [] st = Ret st' \<and> ls_connections st' = Map.empty \<and> ls_connCount st' = 0 \<and>
    (\<forall>c. \<not> c_opened (ls_conn st' c))"
proof -
  have opened: "c \<in> set conns \<longleftrightarrow> c_opened (ls_conn st c)" for c
    using I assms(4) by (auto simp: loop_inv_def table_ok_def ran_def)
  then have "\<forall>c\<in>set conns. \<not> is_udp (ls_conn st c)" using loop_inv_not_udp[OF I] by blast
  from el_closeEach_inv[OF K F I this, of h] obtain st' where 1: "el_closeEach W h st conns = Ret st'"
    "loop_inv isopen st'" "\<forall>c\<in>set conns. \<not> c_opened (ls_conn st' c)"
    "\<forall>c. c_opened (ls_conn st' c) \<longrightarrow> c_opened (ls_conn st c)" by blast
  then have "\<not> c_opened (ls_conn st' c)" for c using opened by blast
  with loop_inv_none_open[OF 1(2)] 1(1) show ?thesis by (auto simp: el_closeAllSockets_def)
qed

section \<open>Where the loop departs from its intention\<close>

lemma el_read_duplicates:
  assumes E: "env_ok W" and r: "er_rep (c_in (ls_conn st c)) rs"
    and rd: "w_read W (ls_k st) (c_fd (ls_conn st c)) (ls_bufLen st) = (k, glen data, data, None)" "data \<noteq> []"
    and h: "h_OnTraffic h c (ls_user st) = Finish (u, ActNone)" and small: "glen rs + glen data \<le> 2 ^ 62"
  shows "\<exists>st'. el_read W h st c = Ret (st', None) \<and> c_holds (ls_conn st' c) (rs @ data @ data) \<and>
    c_InboundBuffered (ls_conn st' c) = glen rs + 2 * glen data"
proof -
  obtain mem fresh where w: "w_env W (ls_tick st) = (mem, fresh)" by (cases "w_env W (ls_tick st)")
  from ring_source.er_Write_rep[OF env_source[OF E w] r small, of mem] obtain r' where
    r': "er_Write mem fresh (c_in (ls_conn st c)) data = Ret (r', glen data, None)" "er_rep r' (rs @ data)" by blast
  let ?x = "(ls_conn st c)\<lparr>c_buf := data, c_in := r'\<rparr>"
  have "c_holds ?x (rs @ data @ data)" using r'(2) by (auto simp: c_holds_def)
  moreover have "el_read W h st c = Ret (upd_conn (st\<lparr>ls_k := k, ls_user := u, ls_tick := Suc (ls_tick st)\<rparr>) c ?x, None)"
    using rd h w r'(1) by (simp add: el_read_def el_OnTraffic_def)
  moreover from calculation(1) have "c_InboundBuffered ?x = glen rs + 2 * glen data"
    using c_InboundBuffered_spec by fastforce
  ultimately show ?thesis by auto
qed

lemma c_open_overtakes:
  assumes "out_rep st c xs" "w_write W (ls_k st) (c_fd (ls_conn st c)) buf = (k, glen buf, None)" "kernel_ok W peer"
  shows "\<exists>st'. c_open W st c buf = Ret (st', None) \<and> out_rep st' c xs \<and>
    peer (ls_k st') (c_fd (ls_conn st c)) = peer (ls_k st) (c_fd (ls_conn st c)) @ buf"
  using assms(1,2) sendsD(5)[OF kernel_okD(1)[OF assms(3,2)]] by (simp add: c_open_def Let_def)

text \<open>\<open>open\<close> when the kernel refuses the data \<open>OnOpen\<close> returned for now: it is kept and \<open>AddWrite\<close> is called.\<close>

lemma el_open_refused:
  assumes E: "env_ok W" and rep: "out_rep st c []" and att: "c_attached (ls_conn st c)"
    and h: "h_OnOpen h c (ls_user st) = Finish (u, Some buf, a)" and buf: "buf \<noteq> []" "glen buf \<le> 2 ^ 62"
    and w: "w_write W (ls_k st) (c_fd (ls_conn st c)) buf = (k, -1, Some EAGAIN)"
  obtains s where "ls_k s = k" "c_opened (ls_conn s c)" "out_rep s c buf" "c_fd (ls_conn s c) = c_fd (ls_conn st c)"
    "\<And>k2 e2. w_ctl W k EPOLL_CTL_ADD (c_fd (ls_conn st c)) writeEvents = (k2, e2) \<Longrightarrow>
      el_open W h st c = (if e2 \<noteq> None then Ret (s\<lparr>ls_k := k2\<rparr>, NewSyscallError ''epoll_ctl add'' e2)
        else el_handleAction W h (s\<lparr>ls_k := k2\<rparr>) c a)"
proof -
  let ?s1 = "el_addConn (upd_conn st c ((ls_conn st c)\<lparr>c_opened := True\<rparr>)) 1\<lparr>ls_user := u, ls_k := k\<rparr>"
  have rep1: "out_rep ?s1 c []" using rep by (auto simp: out_rep_def el_addConn_def)
  have "glen [] + glen buf \<le> 2 ^ 62" using buf by simp
  from out_Write_rep[OF E rep1 this] obtain mb where
    mb: "out_Write W ?s1 c buf = Ret (out_upd ?s1 c mb k (Suc (ls_tick st)))" "eb_rep mb buf"
    by (auto simp: el_addConn_def)
  let ?s2 = "out_upd ?s1 c mb k (Suc (ls_tick st))"
  have em: "out_IsEmpty ?s2 c = Ret False" using out_IsEmpty_rep[of ?s2 c buf] mb(2) buf by simp
  show ?thesis
  proof (rule that[of ?s2])
    fix k2 e2 assume "w_ctl W k EPOLL_CTL_ADD (c_fd (ls_conn st c)) writeEvents = (k2, e2)"
    then show "el_open W h st c = (if e2 \<noteq> None then Ret (?s2\<lparr>ls_k := k2\<rparr>, NewSyscallError ''epoll_ctl add'' e2)
        else el_handleAction W h (?s2\<lparr>ls_k := k2\<rparr>) c a)"
      using h w mb(1) em att
      by (simp add: el_open_def el_OnOpen_def c_open_def Let_def pl_AddWrite_def pl_attached_def pl_ctl_def
          NewSyscallError_def el_addConn_def split: option.split)
  qed (use mb(2) in \<open>simp_all add: el_addConn_def\<close>)
qed

lemma el_open_EEXIST:
  assumes R: "epoll_ok W reg" and E: "env_ok W" and rep: "out_rep st c []" and att: "c_attached (ls_conn st c)"
    and h: "h_OnOpen h c (ls_user st) = Finish (u, Some buf, a)" and buf: "buf \<noteq> []" "glen buf \<le> 2 ^ 62"
    and w: "w_write W (ls_k st) (c_fd (ls_conn st c)) buf = (k, -1, Some EAGAIN)"
    and reg: "reg (ls_k st) (c_fd (ls_conn st c)) \<noteq> None"
  shows "\<exists>st'. el_open W h st c = Ret (st', Some (SyscallError ''epoll_ctl add'' EEXIST)) \<and>
    c_opened (ls_conn st' c) \<and> out_rep st' c buf \<and> reg (ls_k st') = reg (ls_k st)"
proof -
  let ?fd = "c_fd (ls_conn st c)"
  have k: "reg k = reg (ls_k st)" using R w by (auto simp: epoll_ok_def) (metis fst_conv)
  obtain k2 e2 where c2: "w_ctl W k EPOLL_CTL_ADD ?fd writeEvents = (k2, e2)" by (metis surj_pair)
  have "ctl_step reg k EPOLL_CTL_ADD ?fd writeEvents (k2, e2)" using R c2 by (metis epoll_ok_def)
  then have e2: "e2 = Some EEXIST" "reg k2 = reg k" using reg k by (auto simp: ctl_step_def)
  obtain s where "c_opened (ls_conn s c)" "out_rep s c buf"
    "el_open W h st c = Ret (s\<lparr>ls_k := k2\<rparr>, NewSyscallError ''epoll_ctl add'' e2)"
    using el_open_refused[OF E rep att h buf w] c2 e2(1) by (metis option.distinct(1))
  with e2 k show ?thesis by (auto simp: NewSyscallError_def)
qed

section \<open>Waking up\<close>

lemma pl_wakeup_set: "pl_wakeup W st = (st', e) \<Longrightarrow> ls_wakeup st' \<and> ls_async st' = ls_async st \<and> ls_urgent st' = ls_urgent st"
  by (auto simp: pl_wakeup_def split: if_splits prod.splits)

lemma pl_Trigger_queued:
  "pl_Trigger W st t = (st', e) \<Longrightarrow> ls_async st' = ls_async st @ [t] \<and> ls_urgent st' = ls_urgent st \<and> ls_wakeup st'"
  by (auto simp: pl_Trigger_def dest: pl_wakeup_set)

lemma chores_no_lost_wakeup:
  assumes "run_chores N W h st = Ret (st', retry, None)"
  shows "ls_async st' \<noteq> [] \<or> ls_urgent st' \<noteq> [] \<longrightarrow> ls_wakeup st'"
  using assms unfolding run_chores_def
  by (auto simp: Let_def elim!: go_bind_RetE split: if_splits prod.splits) (blast dest: pl_wakeup_set)+

text \<open>The chores ask to be run again only when tasks are left and the poller could not be woken up.\<close>

lemma chores_retry:
  assumes "run_chores N W h st = Ret (st', True, None)"
  shows "(ls_async st' \<noteq> [] \<or> ls_urgent st' \<noteq> []) \<and> ls_wakeup st'"
  using assms unfolding run_chores_def
  by (auto simp: Let_def elim!: go_bind_RetE split: if_splits prod.splits dest!: pl_wakeup_set)

end
