(* ===== verification/LoopProperties.thy ===== *)
theory LoopProperties
  imports LoopInvariant
begin

text \<open>
  The properties of the event loop (\<open>src/eventloop.go\<close>) and of the writing side of a connection
  (\<open>src/connection.go\<close>), and a small kernel on which their hypotheses hold: it accepts at most four bytes per
  call, keeps an interest list and knows which descriptors are open.
\<close>

section \<open>A small kernel\<close>

record demo_k =
  dk_sent :: "int \<Rightarrow> byte list"
  dk_in :: "int \<Rightarrow> byte list"
  dk_reg :: "int \<Rightarrow> 32 word option"
  dk_open :: "int \<Rightarrow> bool"

definition dk_write :: "demo_k \<Rightarrow> int \<Rightarrow> byte list \<Rightarrow> demo_k \<times> int \<times> errno option" where
  "dk_write k fd d =
     (if \<not> dk_open k fd then (k, -1, Some EBADF)
      else (k\<lparr>dk_sent := (dk_sent k)(fd := dk_sent k fd @ take 4 d)\<rparr>, glen (take 4 d), None))"

definition dk_read :: "demo_k \<Rightarrow> int \<Rightarrow> int \<Rightarrow> demo_k \<times> int \<times> byte list \<times> errno option" where
  "dk_read k fd len =
     (if \<not> dk_open k fd then (k, -1, [], Some EBADF)
      else if dk_in k fd = [] \<or> len < 0 then (k, -1, [], Some EAGAIN)
      else let d = take (nat len) (dk_in k fd)
           in (k\<lparr>dk_in := (dk_in k)(fd := drop (nat len) (dk_in k fd))\<rparr>, glen d, d, None))"

definition dk_ctl :: "demo_k \<Rightarrow> ctlop \<Rightarrow> int \<Rightarrow> 32 word \<Rightarrow> demo_k \<times> errno option" where
  "dk_ctl k op' fd ev =
     (if op' = EPOLL_CTL_ADD \<and> dk_reg k fd \<noteq> None then (k, Some EEXIST)
      else if op' \<noteq> EPOLL_CTL_ADD \<and> dk_reg k fd = None then (k, Some ENOENT)
      else (k\<lparr>dk_reg := (dk_reg k)(fd := if op' = EPOLL_CTL_DEL then None else Some ev)\<rparr>, None))"

definition demo_world :: "demo_k world" where
  "demo_world = \<lparr>w_env = (\<lambda>_. (\<lambda>_ _. 0, first_ring)), w_read = dk_read, w_write = dk_write,
     w_writev = (\<lambda>k fd iov. dk_write k fd (concat iov)),
     w_close = (\<lambda>k fd. (k\<lparr>dk_open := (dk_open k)(fd := False)\<rparr>, None)), w_ctl = dk_ctl,
     w_send = (\<lambda>k fd d. (k, None)), w_sendto = (\<lambda>k fd d sa. (k, None)),
     w_recvfrom = (\<lambda>k fd len. (k, -1, [], None, Some EAGAIN)), w_ifname = (\<lambda>_. None)\<rparr>"

text \<open>Callbacks that read nothing, the second of which counts its calls, and a loop with one connection on descriptor 7.\<close>

definition demo_handler :: "nat handler" where
  "demo_handler = \<lparr>h_OnOpen = (\<lambda>c u. Finish (u, None, ActNone)), h_OnTraffic = (\<lambda>c u. Finish (Suc u, ActNone)),
     h_OnClose = (\<lambda>c e u. (u, ActNone))\<rparr>"

definition demo_start :: "(demo_k, nat) lstate" where
  "demo_start = \<lparr>ls_k = \<lparr>dk_sent = (\<lambda>_. []), dk_in = (\<lambda>_. [8, 9]), dk_reg = (\<lambda>fd. if fd = 7 then Some readEvents else None),
       dk_open = (\<lambda>fd. fd = 7)\<rparr>,
     ls_user = 0, ls_tick = 0, ls_conn = (\<lambda>c. newTCPConn 64 7 None None None), ls_connections = Map.empty,
     ls_udpSockets = Map.empty, ls_connCount = 0, ls_lnfd = 3, ls_lnaddr = None, ls_bufLen = 64, ls_efd = 4,
     ls_wakeup = False, ls_urgent = [], ls_async = []\<rparr>"

definition demo_open :: "(demo_k, nat) lstate" where
  "demo_open = demo_start\<lparr>ls_conn := (ls_conn demo_start)(0 := (newTCPConn 64 7 None None None)\<lparr>c_opened := True\<rparr>),
     ls_connections := [7 \<mapsto> 0], ls_connCount := 1\<rparr>"

text \<open>A sequence of writes on one connection, which ends early when the connection is closed.\<close>

datatype outop = OWrite "byte list" | OWritev "byte list list" | OFlush

fun out_data :: "outop \<Rightarrow> byte list" where
  "out_data (OWrite d) = d"
| "out_data (OWritev bs) = concat bs"
| "out_data OFlush = []"

fun out_step :: "'k world \<Rightarrow> 'u handler \<Rightarrow> nat \<Rightarrow> ('k, 'u) lstate \<Rightarrow> outop \<Rightarrow> ('k, 'u) lstate go" where
  "out_step W h c st (OWrite d) = go_bind (c_Write W h st c d) (\<lambda>(st, _, _). Ret st)"
| "out_step W h c st (OWritev bs) = go_bind (c_Writev W h st c bs) (\<lambda>(st, _, _). Ret st)"
| "out_step W h c st OFlush = go_bind (c_Flush W h st c) (\<lambda>(st, _). Ret st)"

fun out_run :: "'k world \<Rightarrow> 'u handler \<Rightarrow> nat \<Rightarrow> ('k, 'u) lstate \<Rightarrow> outop list \<Rightarrow> ('k, 'u) lstate go" where
  "out_run W h c st [] = Ret st"
| "out_run W h c st (op' # ops) =
     (if \<not> c_opened (ls_conn st c) then Ret st
      else go_bind (out_step W h c st op') (\<lambda>st. out_run W h c st ops))"

lemma demo_sel [simp]:
  "w_read demo_world = dk_read" "w_write demo_world = dk_write" "w_writev demo_world k fd iov = dk_write k fd (concat iov)"
  "w_close demo_world k fd = (k\<lparr>dk_open := (dk_open k)(fd := False)\<rparr>, None)" "w_ctl demo_world = dk_ctl"
  "w_env demo_world i = (\<lambda>_ _. 0, first_ring)"
  by (simp_all add: demo_world_def)

lemma demo_kernel_ok: "kernel_ok demo_world dk_sent"
  by (auto simp: kernel_ok_def sends_def dk_write_def dk_read_def dk_ctl_def Let_def min_def)

lemma demo_epoll_ok: "epoll_ok demo_world dk_reg"
  by (auto simp: epoll_ok_def ctl_step_def dk_write_def dk_read_def dk_ctl_def Let_def)

lemmas demo_ctl_ok = epoll_ctl_ok[OF demo_epoll_ok]

lemma demo_fds_ok: "fds_ok demo_world dk_open"
  by (auto simp: fds_ok_def dk_write_def dk_read_def dk_ctl_def Let_def)


lemma demo_env_ok: "env_ok demo_world"
  using first.ring_source_axioms by (simp add: env_ok_def)



lemma demo_out_rep: "out_rep demo_open 0 []"
  using eb_New_rep[of 64] by (auto simp: out_rep_def demo_open_def newTCPConn_def)

lemma demo_conn_open: "conn_open demo_open 0 []"
  using demo_out_rep by (simp add: conn_open_def demo_open_def newTCPConn_def is_udp_def)

lemma demo_open_fd: "c_fd (ls_conn demo_open 0) = 7"
  by (simp add: demo_open_def newTCPConn_def)

lemma demo_open_inv: "loop_inv dk_open demo_open"
proof -
  have "live dk_open demo_open 0 [] []"
    using demo_out_rep by (simp add: live_def c_holds_def demo_open_def newTCPConn_def is_udp_def er_rep_def er_zero_def)
  moreover have "c_opened (ls_conn demo_open c) \<longleftrightarrow> c = 0" for c
    by (simp add: demo_open_def demo_start_def newTCPConn_def)
  moreover have "table_ok demo_open" unfolding table_ok_def using demo_open_fd calculation(2)
    by (auto simp: demo_open_def split: if_splits)
  ultimately show ?thesis by (auto simp: loop_inv_def)
qed


section \<open>The state of the loop\<close>







lemma out_step_order:
  assumes K: "kernel_ok W peer" and R: "ctl_ok W reg" and E: "env_ok W" and st: "conn_open st c xs"
    and small: "glen xs + glen (out_data op') \<le> 2 ^ 62"
  shows "\<exists>st'. out_step W h c st op' = Ret st' \<and> (c_opened (ls_conn st' c) \<longrightarrow> (\<exists>ys. conn_open st' c ys \<and>
    c_fd (ls_conn st' c) = c_fd (ls_conn st c) \<and> length ys \<le> length xs + length (out_data op') \<and>
    peer (ls_k st') (c_fd (ls_conn st c)) @ ys = peer (ls_k st) (c_fd (ls_conn st c)) @ xs @ out_data op'))"
proof -
  have acc: "\<exists>ys. conn_open st' c ys \<and> c_fd (ls_conn st' c) = c_fd (ls_conn st c) \<and> length ys \<le> length xs + length d \<and>
      peer (ls_k st') (c_fd (ls_conn st c)) @ ys = peer (ls_k st) (c_fd (ls_conn st c)) @ xs @ d"
    if a: "accepted peer reg st c xs d st' e" for d st' e
  proof -
    from a obtain mb k t ys where "st' = out_upd st c mb k t" "eb_rep mb ys" "length ys \<le> length xs + length d"
      "peer k (c_fd (ls_conn st c)) @ ys = peer (ls_k st) (c_fd (ls_conn st c)) @ xs @ d"
      unfolding accepted_def Let_def by blast
    with st show ?thesis by (auto simp: conn_open_def is_udp_def)
  qed
  have nd: "\<not> c_isDatagram (ls_conn st c)" and rep: "out_rep st c xs" using st by (auto simp: conn_open_def)
  have shut: "\<not> c_opened (ls_conn st' c)" if "closes W peer h s c r zs st' e" for s r zs st' e
    using that by (simp add: closes_def Let_def)
  show ?thesis
  proof (cases op')
    case (OWrite d)
    with c_write_spec[OF K R E st, of d h] small obtain st' n e where
      "c_write W h st c d = Ret (st', n, e)" "c_opened (ls_conn st' c) \<longrightarrow> accepted peer reg st c xs d st' e"
      using shut by fastforce
    with acc OWrite nd show ?thesis by (auto simp: c_Write_def)
  next
    case (OWritev bs)
    with c_writev_spec[OF K R E st, of bs h] small obtain st' n e where
      "c_writev W h st c bs = Ret (st', n, e)" "c_opened (ls_conn st' c) \<longrightarrow> accepted peer reg st c xs (concat bs) st' e"
      using shut by fastforce
    with acc OWritev nd show ?thesis by (auto simp: c_Writev_def)
  next
    case OFlush
    show ?thesis
    proof (cases "xs = []")
      case True
      with OFlush rep st show ?thesis by (auto simp: c_Flush_def out_IsEmpty_rep)
    next
      case False
      with el_write_spec[OF K R st, of h] obtain st' e where
        "el_write W h st c = Ret (st', e)" "c_opened (ls_conn st' c) \<longrightarrow> accepted peer reg st c xs [] st' None"
        using shut by fastforce
      with acc OFlush rep False show ?thesis by (fastforce simp: c_Flush_def out_IsEmpty_rep)
    qed
  qed
qed

text \<open>
  C8: any sequence of \<open>Write\<close>, \<open>Writev\<close> and \<open>Flush\<close> on a connection returns, and as long as the connection is
  open the bytes the kernel got followed by the bytes still pending are exactly the bytes of the calls, in
  order: nothing is lost, duplicated or reordered, however many bytes the kernel takes at a time.
\<close>

theorem writes_in_order:
  assumes "kernel_ok W peer" "ctl_ok W reg" "env_ok W" "conn_open st c xs"
    and "glen xs + glen (concat (map out_data ops)) \<le> 2 ^ 62"
  shows "\<exists>st'. out_run W h c st ops = Ret st' \<and> (c_opened (ls_conn st' c) \<longrightarrow> (\<exists>ys. out_rep st' c ys \<and>
    peer (ls_k st') (c_fd (ls_conn st c)) @ ys =
      peer (ls_k st) (c_fd (ls_conn st c)) @ xs @ concat (map out_data ops)))"
  using assms(4,5)
proof (induction ops arbitrary: st xs)
  case Nil
  then show ?case by (auto simp: conn_open_def)
next
  case (Cons op' ops)
  have op: "c_opened (ls_conn st c)" using Cons.prems(1) by (simp add: conn_open_def)
  have "glen xs + glen (out_data op') \<le> 2 ^ 62" using Cons.prems(2) by simp
  from out_step_order[OF assms(1-3) Cons.prems(1) this] obtain st1 where s: "out_step W h c st op' = Ret st1"
    and s1: "c_opened (ls_conn st1 c) \<Longrightarrow> \<exists>ys. conn_open st1 c ys \<and> c_fd (ls_conn st1 c) = c_fd (ls_conn st c) \<and>
      length ys \<le> length xs + length (out_data op') \<and>
      peer (ls_k st1) (c_fd (ls_conn st c)) @ ys = peer (ls_k st) (c_fd (ls_conn st c)) @ xs @ out_data op'" by blast
  show ?case
  proof (cases "c_opened (ls_conn st1 c)")
    case False
    then have "out_run W h c st1 ops = Ret st1" by (cases ops) auto
    with False s op show ?thesis by simp
  next
    case True
    from s1[OF this] obtain ys where ys: "conn_open st1 c ys" "c_fd (ls_conn st1 c) = c_fd (ls_conn st c)"
      "length ys \<le> length xs + length (out_data op')"
      "peer (ls_k st1) (c_fd (ls_conn st c)) @ ys = peer (ls_k st) (c_fd (ls_conn st c)) @ xs @ out_data op'" by blast
    have "glen ys + glen (concat (map out_data ops)) \<le> 2 ^ 62" using Cons.prems(2) ys(3) by simp
    from Cons.IH[OF ys(1) this] obtain st' where st': "out_run W h c st1 ops = Ret st'"
      and o: "c_opened (ls_conn st' c) \<longrightarrow> (\<exists>zs. out_rep st' c zs \<and> peer (ls_k st') (c_fd (ls_conn st1 c)) @ zs =
        peer (ls_k st1) (c_fd (ls_conn st1 c)) @ ys @ concat (map out_data ops))" by blast
    have "peer (ls_k st1) (c_fd (ls_conn st c)) @ ys @ concat (map out_data ops) =
        peer (ls_k st) (c_fd (ls_conn st c)) @ xs @ concat (map out_data (op' # ops))"
      using arg_cong[OF ys(4), of "\<lambda>zs. zs @ concat (map out_data ops)"] by simp
    with s op st' o ys(2) show ?thesis by simp
  qed
qed

theorem writes_in_order_witness:
  "\<exists>st'. out_run demo_world demo_handler 0 demo_open [OWrite [1, 2, 3, 4, 5, 6], OWritev [[7], [8]], OFlush] = Ret st' \<and>
    (c_opened (ls_conn st' 0) \<longrightarrow> (\<exists>ys. out_rep st' 0 ys \<and> dk_sent (ls_k st') 7 @ ys = [1, 2, 3, 4, 5, 6, 7, 8]))"
proof -
  have "dk_sent (ls_k demo_open) 7 = []" by (simp add: demo_open_def demo_start_def)
  with writes_in_order[OF demo_kernel_ok demo_ctl_ok demo_env_ok demo_conn_open,
      of "[OWrite [1, 2, 3, 4, 5, 6], OWritev [[7], [8]], OFlush]" demo_handler]
  show ?thesis by (simp add: demo_open_fd)
qed



text \<open>
  \<open>closeAllSockets\<close> closes every connection of the loop, in whatever order the map is traversed: the table
  is empty, the count is 0 and no connection is open.
\<close>

theorem closeAllSockets_empties:
  assumes "kernel_ok W peer" "fds_ok W isopen" "loop_inv isopen st"
    and "set conns = ran (ls_connections st)" "ls_udpSockets st = Map.empty"
  shows "\<exists>st'. el_closeAllSockets W h conns [] st = Ret st' \<and> ls_connections st' = Map.empty \<and> ls_connCount st' = 0 \<and>
    (\<forall>c. \<not> c_opened (ls_conn st' c))"
  by (rule closeAllSockets_closes[OF assms])

theorem closeAllSockets_empties_witness:
  "\<exists>st'. el_closeAllSockets demo_world demo_handler [0] [] demo_open = Ret st' \<and> ls_connCount st' = 0 \<and>
    \<not> c_opened (ls_conn st' 0)"
proof -
  have "set [0] = ran (ls_connections demo_open)" "ls_udpSockets demo_open = Map.empty"
    by (auto simp: demo_open_def demo_start_def ran_def)
  from closeAllSockets_empties[OF demo_kernel_ok demo_fds_ok demo_open_inv this, of demo_handler] show ?thesis by auto
qed

section \<open>Where the loop departs from its intention\<close>

text \<open>
  bytes the callback leaves unread are appended to the inbound ring, but \<open>c.buffer\<close> keeps them too: until
  the next read the connection shows them twice, for instance to a callback run by \<open>Wake\<close>.
\<close>

theorem read_shows_leftovers_twice:
  assumes "env_ok W" "er_rep (c_in (ls_conn st c)) rs"
    and "w_read W (ls_k st) (c_fd (ls_conn st c)) (ls_bufLen st) = (k, glen data, data, None)" "data \<noteq> []"
    and "h_OnTraffic h c (ls_user st) = Finish (u, ActNone)" "glen rs + glen data \<le> 2 ^ 62"
  shows "\<exists>st'. el_read W h st c = Ret (st', None) \<and> c_holds (ls_conn st' c) (rs @ data @ data) \<and>
    c_InboundBuffered (ls_conn st' c) = glen rs + 2 * glen data"
  by (rule el_read_duplicates[OF assms])

theorem read_shows_leftovers_twice_witness:
  "\<exists>st'. el_read demo_world demo_handler demo_open 0 = Ret (st', None) \<and> c_holds (ls_conn st' 0) [8, 9, 8, 9]"
proof -
  have "er_rep (c_in (ls_conn demo_open 0)) []" by (simp add: demo_open_def newTCPConn_def er_rep_def er_zero_def)
  moreover have "w_read demo_world (ls_k demo_open) (c_fd (ls_conn demo_open 0)) (ls_bufLen demo_open) =
    ((ls_k demo_open)\<lparr>dk_in := (\<lambda>_. [8, 9])(7 := [])\<rparr>, 2, [8, 9], None)"
    by (simp add: demo_open_fd) (simp add: demo_open_def demo_start_def dk_read_def Let_def)
  moreover have "h_OnTraffic demo_handler 0 (ls_user demo_open) = Finish (Suc 0, ActNone)"
    by (simp add: demo_handler_def demo_open_def demo_start_def)
  ultimately show ?thesis using read_shows_leftovers_twice[OF demo_env_ok, of demo_open 0 "[]" _ "[8, 9]" demo_handler] by auto
qed

text \<open>
  when data of \<open>OnOpen\<close> stays behind, \<open>open\<close> asks the poller to add a descriptor that \<open>register\<close> has
  already added: the kernel refuses, \<open>open\<close> returns that error, the pending bytes are not watched, and the
  action \<open>OnOpen\<close> asked for is not taken.
\<close>

theorem open_pending_fails:
  assumes "epoll_ok W reg" "env_ok W" "out_rep st c []" "c_attached (ls_conn st c)"
    and "h_OnOpen h c (ls_user st) = Finish (u, Some buf, a)" "buf \<noteq> []" "glen buf \<le> 2 ^ 62"
    and "w_write W (ls_k st) (c_fd (ls_conn st c)) buf = (k, -1, Some EAGAIN)"
    and "reg (ls_k st) (c_fd (ls_conn st c)) = Some readEvents"
  shows "\<exists>st'. el_open W h st c = Ret (st', Some (SyscallError ''epoll_ctl add'' EEXIST)) \<and>
    c_opened (ls_conn st' c) \<and> out_rep st' c buf \<and> reg (ls_k st') (c_fd (ls_conn st c)) = Some readEvents"
proof -
  have "reg (ls_k st) (c_fd (ls_conn st c)) \<noteq> None" using assms(9) by simp
  from el_open_EEXIST[OF assms(1-8) this] assms(9) show ?thesis by auto
qed

theorem open_pending_fails_witness:
  "\<exists>st'. el_open (demo_world\<lparr>w_write := \<lambda>k fd d. (k, -1, Some EAGAIN)\<rparr>)
      (demo_handler\<lparr>h_OnOpen := \<lambda>c u. Finish (u, Some [1, 2], ActClose)\<rparr>) demo_start 0 =
    Ret (st', Some (SyscallError ''epoll_ctl add'' EEXIST)) \<and> c_opened (ls_conn st' 0) \<and> out_rep st' 0 [1, 2]"
proof -
  let ?W = "demo_world\<lparr>w_write := \<lambda>k fd d. (k, -1, Some EAGAIN)\<rparr>"
    and ?h = "demo_handler\<lparr>h_OnOpen := \<lambda>c u. Finish (u, Some [1, 2], ActClose)\<rparr>"
  have "epoll_ok ?W dk_reg" using demo_epoll_ok by (auto simp: epoll_ok_def)
  moreover have "env_ok ?W" using demo_env_ok by (simp add: env_ok_def)
  moreover have "out_rep demo_start 0 []" using eb_New_rep[of 64] by (auto simp: out_rep_def demo_start_def newTCPConn_def)
  ultimately show ?thesis
    using open_pending_fails[of ?W dk_reg demo_start 0 ?h 0 "[1, 2]" ActClose "ls_k demo_start"]
    by (auto simp: demo_start_def newTCPConn_def)
qed

text \<open>
  the data \<open>OnOpen\<close> returns overtakes what \<open>OnOpen\<close> has written through the connection and the kernel has
  not taken yet: it goes to the kernel first and the pending bytes follow it.
\<close>

theorem open_overtakes_pending:
  assumes "out_rep st c xs" "w_write W (ls_k st) (c_fd (ls_conn st c)) buf = (k, glen buf, None)" "kernel_ok W peer"
  shows "\<exists>st'. c_open W st c buf = Ret (st', None) \<and> out_rep st' c xs \<and>
    peer (ls_k st') (c_fd (ls_conn st c)) = peer (ls_k st) (c_fd (ls_conn st c)) @ buf"
  by (rule c_open_overtakes[OF assms])

theorem open_overtakes_pending_witness:
  "\<exists>(st :: (demo_k, nat) lstate) st'. out_rep st 0 [5] \<and> c_open demo_world st 0 [6] = Ret (st', None) \<and> out_rep st' 0 [5] \<and>
    dk_sent (ls_k st') 7 = [6]"
proof -
  obtain mb where o: "out_Write demo_world demo_open 0 [5] = Ret (out_upd demo_open 0 mb (ls_k demo_open) (Suc 0))" "eb_rep mb [5]"
    using out_Write_rep[OF demo_env_ok demo_out_rep, of "[5]"] by (auto simp: demo_open_def demo_start_def)
  let ?st = "out_upd demo_open 0 mb (ls_k demo_open) (Suc 0)"
  have k: "ls_k ?st = \<lparr>dk_sent = (\<lambda>_. []), dk_in = (\<lambda>_. [8, 9]), dk_reg = (\<lambda>fd. if fd = 7 then Some readEvents else None),
       dk_open = (\<lambda>fd. fd = 7)\<rparr>" by (simp add: demo_open_def demo_start_def)
  have fd: "c_fd (ls_conn ?st 0) = 7" using demo_open_fd by simp
  have rep: "out_rep ?st 0 [5]" using o by simp
  have w: "w_write demo_world (ls_k ?st) (c_fd (ls_conn ?st 0)) [6] =
    ((ls_k ?st)\<lparr>dk_sent := (dk_sent (ls_k ?st))(7 := [6])\<rparr>, glen [6::byte], None)"
    unfolding fd k by (simp add: dk_write_def)
  from open_overtakes_pending[OF rep w demo_kernel_ok] obtain st' where
    "c_open demo_world ?st 0 [6] = Ret (st', None)" "out_rep st' 0 [5]" "dk_sent (ls_k st') 7 = dk_sent (ls_k ?st) 7 @ [6]"
    unfolding fd by blast
  moreover have "dk_sent (ls_k ?st) 7 = []" unfolding k by simp
  ultimately show ?thesis using rep by (intro exI[of _ ?st] exI[of _ st']) simp
qed

end
