(* ===== verification/BufferProperties.thy ===== *)
theory BufferProperties
  imports ElasticBuffer
begin

text \<open>
  The properties of the buffers under \<open>src/pkg/buffer\<close>: each buffer refines a queue of bytes, operations
  that move bytes between a buffer and a reader, a writer or a socket conserve them, and the inputs on which
  they do not. A property is followed by an instance on a concrete buffer.
\<close>

section \<open>Concrete buffers\<close>

text \<open>A ring of five bytes that holds 1, 2, 3, the last of them wrapped to its front.\<close>

definition demo_ring :: ring where
  "demo_ring = ring_wrapped [3] [0, 0] [1, 2]"

lemma demo_ring_facts:
  "rb_inv demo_ring" "rb_content demo_ring = [1, 2, 3]" "rb_size demo_ring = 5" "rb_r demo_ring = 3" "rb_w demo_ring = 1"
  by (simp_all add: demo_ring_def ring_wrapped_def rb_inv_def rb_content_def)

text \<open>A program of queue operations, and a writer that takes everything.\<close>

definition demo_ops :: "qop list" where
  "demo_ops = [QWrite [7, 8, 9, 10], QRead 2, QDiscard 1, QWrite [11], QRead 9]"

definition greedy :: "byte list writer" where
  "greedy s d = (s @ d, glen d, None)"

lemma greedy_ok: "writer_ok greedy (\<lambda>s. s)"
  by (simp add: writer_ok_def greedy_def)

text \<open>A reader over a list, which reports the end only when it has nothing left.\<close>

definition list_reader :: "byte list reader" where
  "list_reader s len =
     (if s = [] then ([], [], 0, Some EOF)
      else let d = take (nat len) s in (drop (nat len) s, d, glen d, None))"

lemma list_reader_ok: "reader_ok list_reader (\<lambda>s. s)"
  by (auto simp: reader_ok_def list_reader_def Let_def)

lemma list_reader_alone: "list_reader s len = (s', d, m, Some EOF) \<Longrightarrow> d = []"
  by (auto simp: list_reader_def Let_def split: if_splits)

text \<open>A socket with four bytes to read.\<close>

definition demo_kread :: kread where
  "demo_kread len = (let d = take (nat len) [4, 5, 6, 7] in (glen d, d, None))"

section \<open>The ring buffer\<close>

text \<open>
  C16: every program of writes, reads and discards on a well-formed ring runs to its end without a panic and
  returns what a queue of bytes returns, and the ring holds what the queue holds. Growing and wrapping
  around are invisible.
\<close>

theorem ring_refines_queue:
  assumes "rb_inv rb" "glen (rb_content rb) + glen (q_written ops) \<le> 2 ^ 62"
  shows "\<exists>rb' outs. q_run (rb_Write mem) rb_Read rb_Discard rb ops = Ret (rb', outs) \<and> rb_inv rb' \<and>
    q_spec (rb_content rb) ops = (rb_content rb', outs) \<and> rb_Buffered rb' = glen (rb_content rb')"
  using rbq.run_refines[of rb "rb_content rb" ops mem] assms rb_Buffered_content by (fastforce simp: rb_rep_def)

theorem ring_refines_queue_witness:
  "\<exists>rb' outs. q_run (rb_Write (\<lambda>_ _. 0)) rb_Read rb_Discard demo_ring demo_ops = Ret (rb', outs) \<and>
    rb_content rb' = [] \<and> outs = [[1, 2], [7, 8, 9, 10, 11]]"
  using ring_refines_queue[of demo_ring demo_ops "\<lambda>_ _. 0"] by (auto simp: demo_ring_facts demo_ops_def)

text \<open>
  the capacity \<open>grow\<close> allocates is at least the one asked for. Below the threshold of 4096 bytes it
  at least doubles; the loop that adds a quarter at a time beyond it ends.
\<close>

theorem ring_growth:
  assumes "0 \<le> sz" "sz < newCap" "newCap \<le> 2 ^ 62"
  shows "\<exists>c. rb_growCap sz newCap = Ret c \<and> newCap \<le> c"
  using growCap_spec[OF assms(1,2)] assms(3) by simp

theorem ring_growth_witness:
  "(\<exists>c. rb_growCap 4096 5000 = Ret c \<and> 5000 \<le> c) \<and> (\<exists>c. rb_growCap 0 1 = Ret c \<and> 1 \<le> c)"
  using ring_growth[of 4096 5000] ring_growth[of 0 1] by simp

text \<open>
  \<open>Peek\<close> shows the first \<open>n\<close> bytes of the content, or all of it for \<open>n\<close> not positive, as two
  slices of the buffer, and the first is empty only if the ring is; \<open>Bytes\<close> is a copy of the whole content.
\<close>

theorem ring_peek:
  assumes "rb_inv rb"
  shows "(\<exists>head tail. rb_Peek rb n = Ret (head, tail) \<and>
      head @ tail = (if n \<le> 0 then rb_content rb else take (nat n) (rb_content rb)) \<and>
      (rb_content rb \<noteq> [] \<longrightarrow> head \<noteq> [])) \<and> rb_Bytes rb = Ret (rb_content rb)"
  using rb_Peek_content[OF assms] rb_Bytes_content[OF assms] by blast

theorem ring_peek_witness: "\<exists>head tail. rb_Peek demo_ring 3 = Ret (head, tail) \<and> head @ tail = [1, 2, 3]"
  using ring_peek[OF demo_ring_facts(1), of 3] by (auto simp: demo_ring_facts)

text \<open>
  \<open>WriteTo\<close> hands a prefix of the content to the writer and keeps the rest, whatever the writer takes
  and whatever error it reports, provided that a full ring that starts at index 0 gets rid of a byte in its
  first call.
\<close>

theorem ring_WriteTo_conserves:
  assumes "writer_ok wr acc" "rb_inv rb" "rb_content rb \<noteq> []"
    and "rb_IsFull rb \<and> rb_r rb = 0 \<longrightarrow> 0 < fst (snd (wr s (rb_content rb)))"
  shows "\<exists>rb' s' n e. rb_WriteTo wr s rb = Ret (rb', s', n, e) \<and> rb_inv rb' \<and>
    acc s' @ rb_content rb' = acc s @ rb_content rb \<and> glen (rb_content rb') + n = glen (rb_content rb) \<and>
    (e = None \<longrightarrow> rb_content rb' = [])"
proof -
  obtain rb' s' n e where "rb_WriteTo wr s rb = Ret (rb', s', n, e)" "drained_to acc s (rb_content rb) (rb', s', n, e)"
    using rb_WriteTo_spec[OF assms] by (metis prod.exhaust)
  then show ?thesis by (auto simp: drained_to_def)
qed

theorem ring_WriteTo_conserves_witness:
  "\<exists>rb' s' n e. rb_WriteTo greedy [] demo_ring = Ret (rb', s', n, e) \<and> s' @ rb_content rb' = [1, 2, 3]"
  using ring_WriteTo_conserves[OF greedy_ok demo_ring_facts(1), of "[]"]
  by (fastforce simp: demo_ring_facts rb_IsFull_def)

text \<open>
  a full ring whose data starts at index 0 loses all of it when the writer fails without taking a byte:
  \<open>WriteTo\<close> advances the read index by 0, finds it equal to the write index and resets the ring.
\<close>

theorem ring_WriteTo_loses_full:
  assumes "rb_inv rb" "rb_IsFull rb" "rb_r rb = 0" "wr s (rb_content rb) = (s', 0, Some e)"
  shows "\<exists>rb'. rb_WriteTo wr s rb = Ret (rb', s', 0, Some e) \<and> rb_content rb' = []"
  using rb_WriteTo_full_loses[OF assms(1-3), where wr = wr and s = s] assms(4) by simp

theorem ring_WriteTo_loses_full_witness:
  "\<exists>rb'. rb_WriteTo (\<lambda>s d. (s, 0, Some EOF)) () (ring_wrapped [] [] [1, 2]) = Ret (rb', (), 0, Some EOF) \<and> rb_content rb' = []"
  using ring_WriteTo_loses_full[of "ring_wrapped [] [] [1, 2]" "\<lambda>s d. (s, 0, Some EOF)" "()" "()" EOF]
  by (simp add: ring_wrapped_def rb_inv_def rb_IsFull_def)

text \<open>
  \<open>CopyFromSocket\<close> appends exactly the bytes the kernel put into the free space it was offered, and
  offers some unless the ring has no memory.
\<close>

theorem ring_CopyFromSocket:
  assumes "kread_ok kr" "rb_inv rb"
  shows "\<exists>len rb' n data err. (0 < rb_size rb \<longrightarrow> 0 < len) \<and> kr len = (n, data, err) \<and>
    rb_CopyFromSocket mem kr rb = Ret (rb', n, err) \<and> rb_inv rb' \<and> rb_content rb' = rb_content rb @ data"
  using rb_CopyFromSocket_spec[OF assms] by (simp add: received_def)

theorem ring_CopyFromSocket_witness:
  "\<exists>rb' n d err. rb_CopyFromSocket (\<lambda>_ _. 0) demo_kread demo_ring = Ret (rb', n, err) \<and> rb_content rb' = [1, 2, 3] @ d \<and>
    d \<noteq> []"
proof -
  have "kread_ok demo_kread" by (auto simp: kread_ok_def demo_kread_def Let_def)
  from ring_CopyFromSocket[OF this demo_ring_facts(1), of "\<lambda>_ _. 0"] show ?thesis
    by (fastforce simp: demo_ring_facts demo_kread_def Let_def)
qed

text \<open>
  \<open>ReadFrom\<close> drains its reader and appends everything it delivered, for a ring whose data starts at
  index 0, when there is at least one byte in the ring or in the reader.
\<close>

theorem ring_ReadFrom:
  assumes "reader_ok rd rem" "rb_inv rb" "rb_r rb = 0" "rb_content rb \<noteq> [] \<or> rem s \<noteq> []"
  shows "\<exists>rb' s'. rb_ReadFrom mem rd s rb = Ret (rb', s', glen (rem s), None) \<and> rem s' = [] \<and>
    rb_inv rb' \<and> rb_content rb' = rb_content rb @ rem s"
  using rb_ReadFrom_spec[OF assms] .

theorem ring_ReadFrom_witness:
  "\<exists>rb' s'. rb_ReadFrom (\<lambda>_ _. 0) list_reader [5, 6] (ring_linear [] [1] [0, 0]) = Ret (rb', s', 2, None) \<and>
    rb_content rb' = [1, 5, 6]"
  using ring_ReadFrom[OF list_reader_ok, of "ring_linear [] [1] [0, 0]" "[5, 6]" "\<lambda>_ _. 0"]
  by (fastforce simp: ring_linear_def rb_inv_def rb_content_def)

text \<open>
  a reader that is at its end turns an empty ring into a full one: the ring then claims to hold
  capacity-many bytes nobody wrote.
\<close>

theorem ring_ReadFrom_EOF_fills:
  assumes "rb_inv rb" "rb_content rb = []" "rb_r rb = 0" "\<And>len. rd s len = (s', [], 0, Some EOF)"
  shows "\<exists>rb'. rb_ReadFrom mem rd s rb = Ret (rb', s', 0, None) \<and> rb_IsFull rb'"
  by (rule rb_ReadFrom_at_EOF) (use assms in auto)

theorem ring_ReadFrom_EOF_fills_witness:
  "\<exists>rb'. rb_ReadFrom (\<lambda>_ _. 0) list_reader [] first_ring = Ret (rb', [], 0, None) \<and> rb_IsFull rb'"
  using ring_ReadFrom_EOF_fills[of first_ring list_reader "[]" "[]" "\<lambda>_ _. 0"]
  by (simp add: first_ring_def rb_inv_def rb_content_def list_reader_def)

text \<open>
  \<open>WriteByte\<close> on a full ring of at least 4096 bytes panics: it asks \<open>grow\<close> for a
  capacity of 1 instead of one byte more, and beyond the threshold \<open>grow\<close> finds that capacity reached.
\<close>

theorem ring_WriteByte_panics:
  assumes "rb_inv rb" "rb_IsFull rb" "4096 \<le> rb_size rb"
  shows "rb_WriteByte mem rb c = Panic IndexOutOfRange"
  using rb_WriteByte_full_panics[OF assms(1,2)] assms(3) by (simp add: bufferGrowThreshold_def)

theorem ring_WriteByte_panics_witness:
  "rb_WriteByte (\<lambda>_ _. 0) (ring_wrapped [] [] (replicate 4096 0)) 7 = Panic IndexOutOfRange"
  by (rule ring_WriteByte_panics) (simp_all add: ring_wrapped_def rb_inv_def rb_IsFull_def)

text \<open>
  \<open>Rewind\<close> panics when the data wraps around and less than 1024 bytes lie behind the write index.
\<close>

theorem ring_Rewind_panics:
  assumes "rb_inv rb" "0 < rb_w rb" "rb_w rb < rb_r rb" "rb_size rb - rb_w rb < 1024"
  shows "rb_Rewind mem rb = Panic SliceOutOfRange"
  using rb_Rewind_wrapped_panics[OF assms(1-3)] assms(4) by (simp add: DefaultBufferSize_def)

theorem ring_Rewind_panics_witness: "rb_Rewind (\<lambda>_ _. 0) demo_ring = Panic SliceOutOfRange"
  by (rule ring_Rewind_panics) (simp_all add: demo_ring_facts)

section \<open>The linked-list buffer\<close>

text \<open>
  C20: the linked list of chunks, with its nodes in a heap and its head and tail pointers, refines the same
  queue of bytes; no operation follows a nil pointer.
\<close>

theorem list_refines_queue:
  assumes "ll_rep l xs" "glen xs + glen (q_written ops) \<le> 2 ^ 62"
  shows "\<exists>l' ys outs. q_run ll_put ll_Read ll_Discard l ops = Ret (l', outs) \<and> q_spec xs ops = (ys, outs) \<and>
    ll_rep l' ys \<and> ll_Buffered l' = glen ys"
  using llq.run_refines[OF assms] ll_Buffered_rep by blast

theorem list_refines_queue_witness:
  "\<exists>l' outs. q_run ll_put ll_Read ll_Discard ll_zero demo_ops = Ret (l', outs) \<and> outs = [[7, 8], [10, 11]]"
  using list_refines_queue[OF ll_zero_rep, of demo_ops] by (auto simp: demo_ops_def)

text \<open>
  the last chunk of a reader that reports \<open>EOF\<close> together with data is counted but not kept.
\<close>

theorem list_ReadFrom_drops:
  assumes "ll_rep l xs" "rd s 512 = (s', data, glen data, Some EOF)" "glen data \<le> 512"
  shows "\<exists>l'. ll_ReadFrom mem rd s l = Ret (l', s', glen data, None) \<and> ll_rep l' xs"
  using ll_ReadFrom_drops_last[OF assms(1), of rd s s' data mem] assms by (auto simp: ll_minRead_def)

theorem list_ReadFrom_drops_witness:
  "\<exists>l'. ll_ReadFrom (\<lambda>_ _. 0) (\<lambda>s len. ((), [1, 2], 2, Some EOF)) () ll_zero = Ret (l', (), 2, None) \<and> ll_rep l' []"
  using list_ReadFrom_drops[OF ll_zero_rep, of "\<lambda>s len. ((), [1, 2], 2, Some EOF)" "()" "()" "[1, 2]"] by simp

section \<open>The elastic buffers\<close>

text \<open>
  C18: the outbound buffer of a connection, a ring up to a static size and a list beyond it, refines the
  queue of bytes, and what was read and what is left is what was there and what was written, in this order.
\<close>

theorem elastic_refines_queue:
  assumes "rb_rep fresh []" "eb_rep mb xs" "glen xs + glen (q_written ops) \<le> 2 ^ 62"
  shows "\<exists>mb' ys outs. q_run (eb_Write mem fresh) eb_Read eb_Discard mb ops = Ret (mb', outs) \<and>
    q_spec xs ops = (ys, outs) \<and> eb_rep mb' ys \<and> eb_Buffered mb' = glen ys"
proof -
  have "ring_source fresh" using assms(1) by unfold_locales
  from ring_source.eb_run_refines[OF this assms(2,3)] eb_Buffered_rep show ?thesis by blast
qed

theorem elastic_refines_queue_witness:
  "\<exists>mb mb' outs. eb_New 3 = Inr mb \<and>
    q_run (eb_Write (\<lambda>_ _. 0) first_ring) eb_Read eb_Discard mb demo_ops = Ret (mb', outs) \<and> outs = [[7, 8], [10, 11]]"
proof -
  obtain mb where mb: "eb_New 3 = Inr mb" "eb_rep mb []" using eb_New_rep[of 3] by auto
  from elastic_refines_queue[OF first.fresh_empty mb(2), of demo_ops "\<lambda>_ _. 0"] mb(1) show ?thesis
    by (auto simp: demo_ops_def)
qed

text \<open>
  the vector \<open>Peek\<close> shows is a non-empty prefix of the pending bytes that covers what was asked for,
  and discarding the number of bytes the kernel took leaves exactly the bytes it did not take.
\<close>

theorem elastic_peek_discard:
  assumes "eb_rep mb xs" "xs \<noteq> []"
  shows "\<exists>iov. eb_Peek mb n = Ret iov \<and> iov \<noteq> [] \<and> hd iov \<noteq> [] \<and>
    min (if n \<le> 0 then MaxInt32 else n) (glen xs) \<le> glen (concat iov) \<and>
    (\<forall>m. 0 < m \<and> m \<le> glen (concat iov) \<longrightarrow> (\<exists>mb' rest. eb_Discard mb m = Ret (mb', m, None) \<and>
       take (nat m) (concat iov) @ rest = xs \<and> eb_rep mb' rest))"
  using first.ebq.peek_then_skip[OF assms, of n] by fastforce

theorem elastic_peek_discard_witness:
  "\<exists>mb iov. eb_rep mb [1, 2] \<and> eb_Peek mb 1 = Ret iov \<and> 1 \<le> glen (concat iov)"
proof -
  obtain mb0 mb where mb: "eb_New 3 = Inr mb0" "eb_rep mb0 []" and mb: "eb_rep mb [1, 2]"
    using eb_New_rep[of 3] first.eb_Write_rep[of _ "[]" "[1, 2]"] by fastforce
  from elastic_peek_discard[OF mb, of 1] mb show ?thesis by auto
qed

text \<open>
  \<open>Buffer.WriteTo\<close> sends nothing when the ring is unused, although the list may hold data: it returns
  the error of the empty ring at once.
\<close>

theorem elastic_WriteTo_stops:
  assumes "ll_rep l xs" "0 < mx"
  shows "eb_rep \<lparr>eb_maxStatic = mx, eb_ring = er_zero, eb_list = l\<rparr> xs \<and>
    eb_WriteTo wr s \<lparr>eb_maxStatic = mx, eb_ring = er_zero, eb_list = l\<rparr> =
      Ret (\<lparr>eb_maxStatic = mx, eb_ring = er_zero, eb_list = l\<rparr>, s, 0, Some ErrIsEmpty)"
  using assms eb_WriteTo_ring_nil[of "\<lparr>eb_maxStatic = mx, eb_ring = er_zero, eb_list = l\<rparr>" wr s]
  by (auto simp: eb_rep_def er_rep_def er_zero_def)

theorem elastic_WriteTo_stops_witness:
  "\<exists>mb. eb_rep mb [1] \<and> eb_WriteTo greedy [] mb = Ret (mb, [], 0, Some ErrIsEmpty)"
  using elastic_WriteTo_stops[OF ll_PushBack_spec[OF ll_zero_rep, of "[1]"], of 3 greedy "[]"] by auto

end
