(* ===== verification/RingSharing.thy ===== *)
theory RingSharing
  imports ElasticRing
begin

text \<open>
  Rings as objects in memory. \<open>ElasticRing\<close> takes the ring a buffer gets from the pool as a value; here rings have
  addresses, the pool (\<open>pkg/pool/ringbuffer\<close>) keeps addresses, a buffer (\<open>pkg/buffer/elastic/elastic_ring_buffer.go\<close>)
  holds an address or nil, and a slice that \<open>Peek\<close> or \<open>Next\<close> returns refers to the memory of a ring.

  Two results: buffers that share one pool behave as independent queues, whatever ring the pool hands out, because
  every ring has one owner; and the slice \<open>Next\<close> (\<open>connection.go\<close>) returns is not covered by that ownership, since the
  drained ring is in the pool before \<open>Next\<close> returns.
\<close>

section \<open>The pool over addresses\<close>

record rheap =
  rh_ring :: "nat \<Rightarrow> ring"
  rh_next :: nat
  rh_pool :: "nat rpool"

definition rh_set :: "rheap \<Rightarrow> nat \<Rightarrow> ring \<Rightarrow> rheap" where
  "rh_set H a rb = H\<lparr>rh_ring := (rh_ring H)(a := rb)\<rparr>"

definition rh_new :: "rheap \<Rightarrow> (rheap \<times> nat) go" where
  "rh_new H =
     go_bind (rb_New (rp_defaultSize (rh_pool H))) (\<lambda>rb. Ret ((rh_set H (rh_next H) rb)\<lparr>rh_next := Suc (rh_next H)\<rparr>, rh_next H))"

text \<open>\<open>Get\<close> and \<open>Put\<close> of the built-in pool; \<open>pick\<close> is the choice of \<open>sync.Pool\<close>.\<close>

definition rbPool_Get :: "nat option \<Rightarrow> rheap \<Rightarrow> (rheap \<times> nat) go" where
  "rbPool_Get pick H =
     (case pick of
        Some j \<Rightarrow>
          if j < length (rp_pool (rh_pool H))
          then Ret (H\<lparr>rh_pool := (rh_pool H)\<lparr>rp_pool := take j (rp_pool (rh_pool H)) @ drop (Suc j) (rp_pool (rh_pool H))\<rparr>\<rparr>,
                    rp_pool (rh_pool H) ! j)
          else rh_new H
      | None \<Rightarrow> rh_new H)"

definition rbPool_Put ::
  "(callSize list \<Rightarrow> callSize list) \<Rightarrow> (nat \<Rightarrow> nat) \<Rightarrow> rheap \<Rightarrow> nat \<Rightarrow> rheap go" where
  "rbPool_Put srt pct H a =
     (let P = rh_pool H; b = rh_ring H a; idx = rp_index (rb_Len b)
      in go_bind (go_index (rp_calls P) (int idx)) (\<lambda>c.
         let P = P\<lparr>rp_calls := (rp_calls P)[idx := c + 1]\<rparr>
         in go_bind (if c + 1 > calibrateCallsThreshold then rp_calibrate srt pct P else Ret P) (\<lambda>P.
            Ret (if rp_maxSize P = 0 \<or> rb_Cap b \<le> rp_maxSize P
                 then (rh_set H a (rb_Reset b))\<lparr>rh_pool := P\<lparr>rp_pool := a # rp_pool P\<rparr>\<rparr> else H\<lparr>rh_pool := P\<rparr>))))"

section \<open>Buffers over addresses\<close>

definition er_at :: "rheap \<Rightarrow> nat option \<Rightarrow> er" where
  "er_at H b = \<lparr>er_rb = map_option (rh_ring H) b\<rparr>"

definition hr_instance :: "nat option \<Rightarrow> rheap \<Rightarrow> nat option \<Rightarrow> (rheap \<times> nat) go" where
  "hr_instance pick H b = (case b of None \<Rightarrow> rbPool_Get pick H | Some a \<Rightarrow> Ret (H, a))"

definition hr_Done ::
  "(callSize list \<Rightarrow> callSize list) \<Rightarrow> (nat \<Rightarrow> nat) \<Rightarrow> rheap \<Rightarrow> nat option \<Rightarrow> (rheap \<times> nat option) go" where
  "hr_Done srt pct H b = (case b of None \<Rightarrow> Ret (H, None) | Some a \<Rightarrow> go_bind (rbPool_Put srt pct H a) (\<lambda>H. Ret (H, None)))"

definition hr_done ::
  "(callSize list \<Rightarrow> callSize list) \<Rightarrow> (nat \<Rightarrow> nat) \<Rightarrow> rheap \<Rightarrow> nat option \<Rightarrow> (rheap \<times> nat option) go" where
  "hr_done srt pct H b =
     (case b of
        None \<Rightarrow> Ret (H, b)
      | Some a \<Rightarrow>
          if rb_IsEmpty (rh_ring H a) then go_bind (rbPool_Put srt pct H a) (\<lambda>H. Ret (H, None)) else Ret (H, b))"

definition hr_Discard ::
  "(callSize list \<Rightarrow> callSize list) \<Rightarrow> (nat \<Rightarrow> nat) \<Rightarrow> rheap \<Rightarrow> nat option \<Rightarrow> int \<Rightarrow> (rheap \<times> nat option \<times> int \<times> gerror option) go" where
  "hr_Discard srt pct H b n =
     (case b of
        None \<Rightarrow> Ret (H, b, 0, Some ErrIsEmpty)
      | Some a \<Rightarrow>
          go_bind (rb_Discard (rh_ring H a) n) (\<lambda>(rb, m, e).
          go_bind (hr_done srt pct (rh_set H a rb) b) (\<lambda>(H, b). Ret (H, b, m, e))))"

definition hr_Read ::
  "(callSize list \<Rightarrow> callSize list) \<Rightarrow> (nat \<Rightarrow> nat) \<Rightarrow> rheap \<Rightarrow> nat option \<Rightarrow> byte list \<Rightarrow> (rheap \<times> nat option \<times> byte list \<times> int \<times> gerror option) go" where
  "hr_Read srt pct H b p =
     (case b of
        None \<Rightarrow> Ret (H, b, p, 0, Some ErrIsEmpty)
      | Some a \<Rightarrow>
          go_bind (rb_Read (rh_ring H a) p) (\<lambda>(rb, p, m, e).
          go_bind (hr_done srt pct (rh_set H a rb) b) (\<lambda>(H, b). Ret (H, b, p, m, e))))"

definition hr_Write ::
  "stale \<Rightarrow> nat option \<Rightarrow> rheap \<Rightarrow> nat option \<Rightarrow> byte list \<Rightarrow> (rheap \<times> nat option \<times> int \<times> gerror option) go" where
  "hr_Write mem pick H b p =
     (if glen p = 0 then Ret (H, b, 0, None)
      else
        go_bind (hr_instance pick H b) (\<lambda>(H, a).
        go_bind (rb_Write mem (rh_ring H a) p) (\<lambda>(rb, n, e). Ret (rh_set H a rb, Some a, n, e))))"

section \<open>Every ring has one owner\<close>

definition map_pool :: "('r \<Rightarrow> 's) \<Rightarrow> 'r rpool \<Rightarrow> 's rpool" where
  "map_pool f P = \<lparr>rp_calls = rp_calls P, rp_calibrating = rp_calibrating P, rp_defaultSize = rp_defaultSize P,
     rp_maxSize = rp_maxSize P, rp_pool = map f (rp_pool P)\<rparr>"

text \<open>The pool of \<open>RingBufferPool\<close> that a heap represents.\<close>

definition pool_val :: "rheap \<Rightarrow> ring rpool" where
  "pool_val H = map_pool (rh_ring H) (rh_pool H)"

text \<open>
  A buffer is identified by its index. Distinct buffers have distinct rings, none of which is in the pool; the pool has no
  ring twice; and nothing that is in use has yet to be allocated.
\<close>

definition owners :: "rheap \<Rightarrow> (nat \<Rightarrow> nat option) \<Rightarrow> bool" where
  "owners H bufs \<longleftrightarrow>
     (\<forall>i j a. bufs i = Some a \<and> bufs j = Some a \<longrightarrow> i = j) \<and>
     (\<forall>i a. bufs i = Some a \<longrightarrow> a < rh_next H \<and> a \<notin> set (rp_pool (rh_pool H))) \<and>
     distinct (rp_pool (rh_pool H)) \<and> (\<forall>a\<in>set (rp_pool (rh_pool H)). a < rh_next H) \<and> rp_inv (pool_val H)"

text \<open>The contents of the buffers.\<close>

definition bufs_hold :: "rheap \<Rightarrow> (nat \<Rightarrow> nat option) \<Rightarrow> (nat \<Rightarrow> byte list) \<Rightarrow> bool" where
  "bufs_hold H bufs qs \<longleftrightarrow> (\<forall>i. er_rep (er_at H (bufs i)) (qs i))"

text \<open>Between two heaps only the ring at \<open>a\<close> may have changed.\<close>

definition only_at :: "nat \<Rightarrow> rheap \<Rightarrow> rheap \<Rightarrow> bool" where
  "only_at a H H' \<longleftrightarrow> (\<forall>x. x \<noteq> a \<longrightarrow> rh_ring H' x = rh_ring H x)"

lemma er_at_simps [simp]: "er_at H None = \<lparr>er_rb = None\<rparr>" "er_at H (Some a) = \<lparr>er_rb = Some (rh_ring H a)\<rparr>"
  by (simp_all add: er_at_def)

lemma rh_set_simps [simp]:
  "rh_ring (rh_set H a rb) = (rh_ring H)(a := rb)" "rh_next (rh_set H a rb) = rh_next H" "rh_pool (rh_set H a rb) = rh_pool H"
  by (simp_all add: rh_set_def)

lemma map_pool_simps [simp]:
  "rp_calls (map_pool f P) = rp_calls P" "rp_calibrating (map_pool f P) = rp_calibrating P"
  "rp_defaultSize (map_pool f P) = rp_defaultSize P" "rp_maxSize (map_pool f P) = rp_maxSize P"
  "rp_pool (map_pool f P) = map f (rp_pool P)"
  "(map_pool f P)\<lparr>rp_calls := cs\<rparr> = map_pool f (P\<lparr>rp_calls := cs\<rparr>)"
  "(map_pool f P)\<lparr>rp_pool := map f as\<rparr> = map_pool f (P\<lparr>rp_pool := as\<rparr>)"
  by (simp_all add: map_pool_def)

lemma calibrate_map: "rp_calibrate srt pct (map_pool f P) = go_bind (rp_calibrate srt pct P) (\<lambda>P. Ret (map_pool f P))"
proof (cases "go_index (srt (rp_collect (rp_calls P))) 0")
  case (Ret x)
  then show ?thesis by (simp add: rp_calibrate_def Let_def map_pool_def)
qed (simp_all add: rp_calibrate_def Let_def map_pool_def)

lemma calibrate_pool: "rp_calibrate srt pct P = Ret P' \<Longrightarrow> rp_pool P' = rp_pool P"
  by (auto simp: rp_calibrate_def Let_def elim!: go_bind_RetE split: if_splits)

lemma pool_val_upd:
  "a \<notin> set (rp_pool (rh_pool H)) \<Longrightarrow> pool_val (rh_set H a rb) = pool_val H"
  by (simp add: pool_val_def map_pool_def cong: map_cong)

text \<open>\<open>Put\<close> on addresses refines \<open>Put\<close> on rings; it leaves the memory of the ring as it is.\<close>

lemma Put_refines:
  assumes a: "a \<notin> set (rp_pool (rh_pool H))" and v: "rp_Put srt pct (pool_val H) (rh_ring H a) = Ret V"
  shows "\<exists>H'. rbPool_Put srt pct H a = Ret H' \<and> pool_val H' = V \<and> rh_next H' = rh_next H \<and> only_at a H H' \<and>
    rb_buf (rh_ring H' a) = rb_buf (rh_ring H a) \<and>
    (rp_pool (rh_pool H') = rp_pool (rh_pool H) \<or>
     rp_pool (rh_pool H') = a # rp_pool (rh_pool H) \<and> rh_ring H' a = rb_Reset (rh_ring H a))"
proof -
  let ?b = "rh_ring H a" and ?idx = "rp_index (rb_Len (rh_ring H a))"
  obtain c where c: "go_index (rp_calls (rh_pool H)) (int ?idx) = Ret c"
    using v by (auto simp: rp_Put_def Let_def pool_val_def elim!: go_bind_RetE)
  let ?P = "(rh_pool H)\<lparr>rp_calls := (rp_calls (rh_pool H))[?idx := c + 1]\<rparr>"
  let ?cal = "if c + 1 > calibrateCallsThreshold then rp_calibrate srt pct ?P else Ret ?P"
  have "rp_Put srt pct (pool_val H) ?b = go_bind (go_bind ?cal (\<lambda>P. Ret (map_pool (rh_ring H) P))) (\<lambda>Q.
      Ret (if rp_maxSize Q = 0 \<or> rb_Cap ?b \<le> rp_maxSize Q then Q\<lparr>rp_pool := rb_Reset ?b # rp_pool Q\<rparr> else Q))"
    using c by (simp add: rp_Put_def Let_def pool_val_def calibrate_map)
  with v obtain P' where P': "?cal = Ret P'"
    and V: "V = (if rp_maxSize P' = 0 \<or> rb_Cap ?b \<le> rp_maxSize P'
      then (map_pool (rh_ring H) P')\<lparr>rp_pool := rb_Reset ?b # map (rh_ring H) (rp_pool P')\<rparr> else map_pool (rh_ring H) P')"
    by (cases ?cal) (simp_all split: if_split_asm)
  have pool: "rp_pool P' = rp_pool (rh_pool H)" using P' calibrate_pool[of srt pct ?P P'] by (auto split: if_splits)
  define keep where "keep \<longleftrightarrow> rp_maxSize P' = 0 \<or> rb_Cap ?b \<le> rp_maxSize P'"
  let ?H = "if keep then (rh_set H a (rb_Reset ?b))\<lparr>rh_pool := P'\<lparr>rp_pool := a # rp_pool P'\<rparr>\<rparr> else H\<lparr>rh_pool := P'\<rparr>"
  have "rbPool_Put srt pct H a = Ret ?H" unfolding rbPool_Put_def Let_def c go_bind.simps P' keep_def ..
  moreover have "pool_val ?H = V" using V a pool by (auto simp: keep_def pool_val_def map_pool_def)
  ultimately show ?thesis using pool by (auto simp: only_at_def rb_Reset_def)
qed

lemma owners_unique: "owners H bufs \<Longrightarrow> bufs i = Some a \<Longrightarrow> bufs j = Some a \<Longrightarrow> i = j"
  by (auto simp: owners_def)

lemma owners_set: "owners H bufs \<Longrightarrow> bufs i = Some a \<Longrightarrow> owners (rh_set H a rb) bufs"
  using pool_val_upd[of a H rb] by (auto simp: owners_def)

lemma only_at_trans: "only_at a H H1 \<Longrightarrow> only_at a H1 H2 \<Longrightarrow> only_at a H H2"
  by (simp add: only_at_def)

lemma holdsD:
  "bufs_hold H bufs qs \<Longrightarrow> bufs i = None \<Longrightarrow> qs i = []"
  "bufs_hold H bufs qs \<Longrightarrow> bufs i = Some a \<Longrightarrow> rb_rep (rh_ring H a) (qs i)"
  unfolding bufs_hold_def by (metis er_at_simps(1) er_rep_simps(1), metis er_at_simps(2) er_rep_simps(2))

text \<open>A change of the ring of one buffer is invisible to the others.\<close>

lemma holds_upd:
  assumes h: "bufs_hold H bufs qs" and o: "only_at a H H'" "\<And>j. bufs j = Some a \<Longrightarrow> j = i" and r: "er_rep (er_at H' b') xs"
  shows "bufs_hold H' (bufs(i := b')) (qs(i := xs))"
  unfolding bufs_hold_def
proof
  fix j
  show "er_rep (er_at H' ((bufs(i := b')) j)) ((qs(i := xs)) j)"
  proof (cases "j = i")
    case False
    then have "bufs j \<noteq> Some a" using o(2) by blast
    then have "map_option (rh_ring H') (bufs j) = map_option (rh_ring H) (bufs j)"
      using o(1) by (cases "bufs j") (auto simp: only_at_def)
    then have "er_at H' (bufs j) = er_at H (bufs j)" by (simp add: er_at_def)
    then show ?thesis using h False by (simp add: bufs_hold_def)
  qed (use r in simp)
qed

lemma Put_owned:
  assumes o: "owners H bufs" and i: "bufs i = Some a" and rb: "rb_inv (rh_ring H a)" and srt: "sorts_calls srt"
  shows "\<exists>H'. rbPool_Put srt pct H a = Ret H' \<and> owners H' (bufs(i := None)) \<and> only_at a H H' \<and>
    rb_buf (rh_ring H' a) = rb_buf (rh_ring H a)"
proof -
  have inv: "rp_inv (pool_val H)" and a: "a \<notin> set (rp_pool (rh_pool H))" "a < rh_next H" using o i by (auto simp: owners_def)
  obtain V where V: "rp_Put srt pct (pool_val H) (rh_ring H a) = Ret V" "rp_inv V" using rp_Put_spec[OF inv srt rb] by blast
  obtain H' where H': "rbPool_Put srt pct H a = Ret H'" "pool_val H' = V" "rh_next H' = rh_next H" "only_at a H H'"
    "rb_buf (rh_ring H' a) = rb_buf (rh_ring H a)"
    "rp_pool (rh_pool H') = rp_pool (rh_pool H) \<or> rp_pool (rh_pool H') = a # rp_pool (rh_pool H)"
    using Put_refines[OF a(1) V(1)] by blast
  have n: "x \<noteq> a" if "bufs j = Some x" "j \<noteq> i" for j x using owners_unique[OF o i] that by blast
  from H'(6) have "owners H' (bufs(i := None))"
  proof
    assume "rp_pool (rh_pool H') = rp_pool (rh_pool H)"
    then show ?thesis using o H'(2,3) V(2) by (simp add: owners_def)
  next
    assume "rp_pool (rh_pool H') = a # rp_pool (rh_pool H)"
    then show ?thesis using o H'(2,3) V(2) a n by (simp add: owners_def)
  qed
  with H' show ?thesis by blast
qed

lemma Get_owned:
  assumes o: "owners H bufs" and i: "bufs i = None"
  shows "\<exists>H' a. rbPool_Get pick H = Ret (H', a) \<and> owners H' (bufs(i := Some a)) \<and> rb_rep (rh_ring H' a) [] \<and>
    only_at a H H' \<and> (\<forall>j. bufs j \<noteq> Some a)"
proof (cases "pick \<noteq> None \<and> the pick < length (rp_pool (rh_pool H))")
  case True
  then obtain j where j: "pick = Some j" "j < length (rp_pool (rh_pool H))" by auto
  define as where "as = rp_pool (rh_pool H)"
  let ?a = "as ! j" and ?H = "H\<lparr>rh_pool := (rh_pool H)\<lparr>rp_pool := take j as @ drop (Suc j) as\<rparr>\<rparr>"
  have as: "as = take j as @ ?a # drop (Suc j) as" using j by (simp add: as_def id_take_nth_drop)
  have inv: "rp_inv (pool_val H)" and d: "distinct as" and lt: "\<forall>a\<in>set as. a < rh_next H" using o by (auto simp: owners_def as_def)
  have mem: "?a \<in> set as" "set (take j as @ drop (Suc j) as) \<subseteq> set as" using j by (auto simp: as_def dest: in_set_takeD in_set_dropD)
  have d': "distinct (take j as @ drop (Suc j) as)" "?a \<notin> set (take j as @ drop (Suc j) as)"
    using d as by (metis distinct.simps(2) distinct_append not_distinct_conv_prefix disjoint_insert(1) list.simps(15) Un_iff set_append)+
  have "rp_inv (pool_val ?H)" using inv mem(2) by (auto simp: rp_inv_def pool_val_def as_def)
  then have "owners ?H (bufs(i := Some ?a))" using o lt mem d' by (auto simp: owners_def as_def[symmetric])
  moreover have "rb_rep (rh_ring H ?a) []" using inv mem(1) by (simp add: rp_inv_def pool_val_def as_def)
  moreover have "bufs k \<noteq> Some ?a" for k using o mem(1) by (auto simp: owners_def as_def)
  ultimately show ?thesis using j by (auto simp: rbPool_Get_def only_at_def as_def)
next
  case False
  have inv: "rp_inv (pool_val H)" using o by (simp add: owners_def)
  let ?a = "rh_next H"
  obtain rb where rb: "rb_New (rp_defaultSize (rh_pool H)) = Ret rb" "rb_rep rb []"
    using rp_New_source[OF inv] by (auto simp: pool_val_def)
  let ?H = "(rh_set H ?a rb)\<lparr>rh_next := Suc ?a\<rparr>"
  have "?a \<notin> set (rp_pool (rh_pool H))" using o by (auto simp: owners_def)
  then have "pool_val ?H = pool_val H" using pool_val_upd[of ?a H rb] by (simp add: pool_val_def rh_set_def)
  moreover have b: "bufs k \<noteq> Some ?a" for k using o unfolding owners_def by (metis less_irrefl)
  ultimately have "owners ?H (bufs(i := Some ?a))" using o unfolding owners_def by (auto simp: less_Suc_eq)
  moreover have "rbPool_Get pick H = Ret (?H, ?a)" using False rb(1) by (auto simp: rbPool_Get_def rh_new_def split: option.splits)
  ultimately show ?thesis using rb(2) b by (auto simp: only_at_def)
qed

lemma done_owned:
  assumes o: "owners H bufs" and i: "bufs i = Some a" and rb: "rb_rep rb xs" and srt: "sorts_calls srt"
  shows "\<exists>H' b'. hr_done srt pct (rh_set H a rb) (Some a) = Ret (H', b') \<and> owners H' (bufs(i := b')) \<and> only_at a H H' \<and>
    er_rep (er_at H' b') xs \<and> rb_buf (rh_ring H' a) = rb_buf rb"
proof (cases "rb_IsEmpty rb")
  case True
  have "rb_inv (rh_ring (rh_set H a rb) a)" using rb by (simp add: rb_rep_def)
  from Put_owned[OF owners_set[OF o i] i this srt] obtain H' where H': "rbPool_Put srt pct (rh_set H a rb) a = Ret H'"
    "owners H' (bufs(i := None))" "only_at a (rh_set H a rb) H'" "rb_buf (rh_ring H' a) = rb_buf rb" by auto
  have "xs = []" using True rb rb_IsEmpty_rep by auto
  with True H' show ?thesis by (auto simp: hr_done_def only_at_def)
next
  case False
  have "bufs(i := Some a) = bufs" using i by auto
  then show ?thesis using False rb owners_set[OF o i] by (auto simp: hr_done_def only_at_def)
qed

section \<open>Programs over many buffers\<close>

text \<open>
  The operations of a program, on buffers given by their index. The result of an operation is the bytes it returned and a
  count; \<open>qs\<close> are the queues the buffers stand for.
\<close>

datatype bufop = BWrite "nat option" "byte list" | BRead nat | BDiscard int | BDone

fun hr_op ::
  "(callSize list \<Rightarrow> callSize list) \<Rightarrow> (nat \<Rightarrow> nat) \<Rightarrow> stale \<Rightarrow> rheap \<Rightarrow> nat option \<Rightarrow> bufop \<Rightarrow>
   (rheap \<times> nat option \<times> byte list \<times> int) go" where
  "hr_op srt pct mem H b (BWrite pick p) = go_bind (hr_Write mem pick H b p) (\<lambda>(H, b, n, e). Ret (H, b, [], n))"
| "hr_op srt pct mem H b (BRead n) =
     go_bind (hr_Read srt pct H b (replicate n 0)) (\<lambda>(H, b, p, m, e). Ret (H, b, take (nat m) p, m))"
| "hr_op srt pct mem H b (BDiscard n) = go_bind (hr_Discard srt pct H b n) (\<lambda>(H, b, m, e). Ret (H, b, [], m))"
| "hr_op srt pct mem H b BDone = go_bind (hr_Done srt pct H b) (\<lambda>(H, b). Ret (H, b, [], 0))"

fun hr_run ::
  "(callSize list \<Rightarrow> callSize list) \<Rightarrow> (nat \<Rightarrow> nat) \<Rightarrow> stale \<Rightarrow> rheap \<Rightarrow> (nat \<Rightarrow> nat option) \<Rightarrow> (nat \<times> bufop) list \<Rightarrow>
   (rheap \<times> (nat \<Rightarrow> nat option) \<times> (byte list \<times> int) list) go" where
  "hr_run srt pct mem H bufs [] = Ret (H, bufs, [])"
| "hr_run srt pct mem H bufs ((i, op') # ops) =
     go_bind (hr_op srt pct mem H (bufs i) op') (\<lambda>(H, b, r).
     go_bind (hr_run srt pct mem H (bufs(i := b)) ops) (\<lambda>(H, bufs, rs). Ret (H, bufs, r # rs)))"

fun qs_op :: "bufop \<Rightarrow> byte list \<Rightarrow> byte list \<times> byte list \<times> int" where
  "qs_op (BWrite pick p) q = (q @ p, [], glen p)"
| "qs_op (BRead n) q = (drop n q, take n q, min (int n) (glen q))"
| "qs_op (BDiscard n) q = (drop (nat n) q, [], min (max 0 n) (glen q))"
| "qs_op BDone q = ([], [], 0)"

fun qs_run :: "(nat \<Rightarrow> byte list) \<Rightarrow> (nat \<times> bufop) list \<Rightarrow> (nat \<Rightarrow> byte list) \<times> (byte list \<times> int) list" where
  "qs_run qs [] = (qs, [])"
| "qs_run qs ((i, op') # ops) =
     (case qs_op op' (qs i) of (q, r) \<Rightarrow> case qs_run (qs(i := q)) ops of (qs, rs) \<Rightarrow> (qs, r # rs))"

fun written :: "bufop \<Rightarrow> nat" where
  "written (BWrite pick p) = length p"
| "written _ = 0"

text \<open>Before anything was allocated.\<close>

definition rheap_start :: rheap where
  "rheap_start = \<lparr>rh_ring = (\<lambda>_. first_ring), rh_next = 0, rh_pool = rp_zero\<rparr>"

lemma rheap_start_owners: "owners rheap_start (\<lambda>_. None)"
  using rp_zero_inv by (simp add: owners_def rheap_start_def pool_val_def rp_zero_def map_pool_def)

lemma rheap_start_holds: "bufs_hold rheap_start (\<lambda>_. None) (\<lambda>_. [])"
  by (simp add: bufs_hold_def)

lemma hr_Write_owned:
  assumes o: "owners H bufs" and h: "bufs_hold H bufs qs" and len: "glen (qs i) + glen p \<le> 2 ^ 62"
  shows "\<exists>H' b'. hr_Write mem pick H (bufs i) p = Ret (H', b', glen p, None) \<and> owners H' (bufs(i := b')) \<and>
    bufs_hold H' (bufs(i := b')) (qs(i := qs i @ p))"
proof (cases "p = []")
  case True
  then show ?thesis using o h by (simp add: hr_Write_def)
next
  case False
  have "\<exists>H1 a. hr_instance pick H (bufs i) = Ret (H1, a) \<and> owners H1 (bufs(i := Some a)) \<and> rb_rep (rh_ring H1 a) (qs i) \<and>
      only_at a H H1 \<and> (\<forall>j. bufs j = Some a \<longrightarrow> j = i)"
  proof (cases "bufs i")
    case None
    then have "qs i = []" using holdsD(1)[OF h] by blast
    then show ?thesis using Get_owned[OF o None, of pick] None by (auto simp: hr_instance_def)
  next
    case (Some a)
    then have "rb_rep (rh_ring H a) (qs i)" using holdsD(2)[OF h] by blast
    moreover have "hr_instance pick H (bufs i) = Ret (H, a)" using Some by (simp add: hr_instance_def)
    moreover have "owners H (bufs(i := Some a))" using o Some by (simp add: fun_upd_idem)
    moreover have "only_at a H H" by (simp add: only_at_def)
    moreover have "\<forall>j. bufs j = Some a \<longrightarrow> j = i" using owners_unique[OF o _ Some] by blast
    ultimately show ?thesis by blast
  qed
  then obtain H1 a where g: "hr_instance pick H (bufs i) = Ret (H1, a)" "owners H1 (bufs(i := Some a))" "rb_rep (rh_ring H1 a) (qs i)"
    "only_at a H H1" "\<And>j. bufs j = Some a \<Longrightarrow> j = i" by blast
  obtain rb where w: "rb_Write mem (rh_ring H1 a) p = Ret (rb, glen p, None)" "rb_rep rb (qs i @ p)"
    using rb_Write_rep[OF g(3) len, of mem] by blast
  have "hr_Write mem pick H (bufs i) p = Ret (rh_set H1 a rb, Some a, glen p, None)" using False g(1) w(1) by (simp add: hr_Write_def)
  moreover have "owners (rh_set H1 a rb) (bufs(i := Some a))" by (rule owners_set[OF g(2), of i]) simp
  moreover have "bufs_hold (rh_set H1 a rb) (bufs(i := Some a)) (qs(i := qs i @ p))"
    by (rule holds_upd[OF h, where a = a]) (use g(4,5) w(2) in \<open>auto simp: only_at_def\<close>)
  ultimately show ?thesis by blast
qed

lemma hr_Read_owned:
  assumes o: "owners H bufs" and h: "bufs_hold H bufs qs" and srt: "sorts_calls srt"
  shows "\<exists>H' b' e. hr_Read srt pct H (bufs i) p = Ret (H', b', go_copy p (qs i), min (glen p) (glen (qs i)), e) \<and>
    owners H' (bufs(i := b')) \<and> bufs_hold H' (bufs(i := b')) (qs(i := drop (length p) (qs i)))"
proof (cases "bufs i")
  case None
  then have "qs i = []" using holdsD(1)[OF h] by blast
  moreover from this None have "bufs(i := None) = bufs" "qs(i := []) = qs" by auto
  ultimately show ?thesis using None o h by (simp add: hr_Read_def go_copy_def)
next
  case (Some a)
  then have "rb_rep (rh_ring H a) (qs i)" using holdsD(2)[OF h] by blast
  then obtain rb e where r: "rb_Read (rh_ring H a) p = Ret (rb, go_copy p (qs i), min (glen p) (glen (qs i)), e)"
    "rb_rep rb (drop (length p) (qs i))" using rb_Read_rep by blast
  from done_owned[OF o Some r(2) srt] obtain H' b' where d: "hr_done srt pct (rh_set H a rb) (Some a) = Ret (H', b')"
    "owners H' (bufs(i := b'))" "only_at a H H'" "er_rep (er_at H' b') (drop (length p) (qs i))" by blast
  have "bufs_hold H' (bufs(i := b')) (qs(i := drop (length p) (qs i)))"
    by (rule holds_upd[OF h d(3) _ d(4)]) (use owners_unique[OF o Some] in blast)
  with d(1,2) r(1) Some show ?thesis by (simp add: hr_Read_def)
qed

lemma hr_Discard_owned:
  assumes o: "owners H bufs" and h: "bufs_hold H bufs qs" and srt: "sorts_calls srt"
  shows "\<exists>H' b' e. hr_Discard srt pct H (bufs i) n = Ret (H', b', min (max 0 n) (glen (qs i)), e) \<and>
    owners H' (bufs(i := b')) \<and> bufs_hold H' (bufs(i := b')) (qs(i := drop (nat n) (qs i))) \<and>
    (\<forall>a. bufs i = Some a \<longrightarrow> rb_buf (rh_ring H' a) = rb_buf (rh_ring H a))"
proof (cases "bufs i")
  case None
  then have "qs i = []" using holdsD(1)[OF h] by blast
  moreover from this None have "bufs(i := None) = bufs" "qs(i := []) = qs" by auto
  ultimately show ?thesis using None o h by (simp add: hr_Discard_def)
next
  case (Some a)
  then have rep: "rb_rep (rh_ring H a) (qs i)" using holdsD(2)[OF h] by blast
  then obtain rb e where r: "rb_Discard (rh_ring H a) n = Ret (rb, min (max 0 n) (glen (qs i)), e)" "rb_rep rb (drop (nat n) (qs i))"
    using rb_Discard_rep by blast
  have buf: "rb_buf rb = rb_buf (rh_ring H a)"
    using r(1) by (auto simp: rb_Discard_def rb_Reset_def Let_def elim!: go_bind_RetE split: if_splits)
  from done_owned[OF o Some r(2) srt] obtain H' b' where d: "hr_done srt pct (rh_set H a rb) (Some a) = Ret (H', b')"
    "owners H' (bufs(i := b'))" "only_at a H H'" "er_rep (er_at H' b') (drop (nat n) (qs i))" "rb_buf (rh_ring H' a) = rb_buf rb" by blast
  have "bufs_hold H' (bufs(i := b')) (qs(i := drop (nat n) (qs i)))"
    by (rule holds_upd[OF h d(3) _ d(4)]) (use owners_unique[OF o Some] in blast)
  with d(1,2,5) r(1) Some buf show ?thesis by (simp add: hr_Discard_def)
qed

lemma hr_Done_owned:
  assumes o: "owners H bufs" and h: "bufs_hold H bufs qs" and srt: "sorts_calls srt"
  shows "\<exists>H'. hr_Done srt pct H (bufs i) = Ret (H', None) \<and> owners H' (bufs(i := None)) \<and> bufs_hold H' (bufs(i := None)) (qs(i := []))"
proof (cases "bufs i")
  case None
  then have "qs i = []" using holdsD(1)[OF h] by blast
  moreover from this None have "bufs(i := None) = bufs" "qs(i := []) = qs" by auto
  ultimately show ?thesis using None o h by (simp add: hr_Done_def)
next
  case (Some a)
  then have "rb_inv (rh_ring H a)" using holdsD(2)[OF h] by (simp add: rb_rep_def)
  from Put_owned[OF o Some this srt] obtain H' where p: "rbPool_Put srt pct H a = Ret H'" "owners H' (bufs(i := None))" "only_at a H H'" by blast
  have "bufs_hold H' (bufs(i := None)) (qs(i := []))" by (rule holds_upd[OF h p(3)]) (use owners_unique[OF o Some] in auto)
  with p Some show ?thesis by (simp add: hr_Done_def)
qed

lemma hr_op_owned:
  assumes o: "owners H bufs" and h: "bufs_hold H bufs qs" and srt: "sorts_calls srt" and len: "length (qs i) + written op' \<le> 2 ^ 62"
  shows "\<exists>H' b' r q. hr_op srt pct mem H (bufs i) op' = Ret (H', b', r) \<and> qs_op op' (qs i) = (q, r) \<and> owners H' (bufs(i := b')) \<and>
    bufs_hold H' (bufs(i := b')) (qs(i := q))"
proof (cases op')
  case (BWrite pick p)
  with len have "glen (qs i) + glen p \<le> 2 ^ 62" by simp
  from hr_Write_owned[OF o h this, of mem pick] show ?thesis using BWrite by auto
next
  case (BRead n)
  then show ?thesis using hr_Read_owned[OF o h srt, of pct i "replicate n 0"] by (auto simp: go_copy_def min_def)
next
  case (BDiscard n)
  then show ?thesis using hr_Discard_owned[OF o h srt, of pct i n] by auto
next
  case BDone
  then show ?thesis using hr_Done_owned[OF o h srt, of pct i] by auto
qed

text \<open>Whatever rings the pool hands out, the buffers are independent queues.\<close>

lemma hr_run_independent:
  assumes srt: "sorts_calls srt"
  shows "owners H bufs \<Longrightarrow> bufs_hold H bufs qs \<Longrightarrow> \<forall>i. length (qs i) + sum_list (map (written \<circ> snd) ops) \<le> 2 ^ 62 \<Longrightarrow>
    \<exists>H' bufs' qs' rs. hr_run srt pct mem H bufs ops = Ret (H', bufs', rs) \<and> qs_run qs ops = (qs', rs) \<and>
      owners H' bufs' \<and> bufs_hold H' bufs' qs'"
proof (induction ops arbitrary: H bufs qs)
  case (Cons x ops)
  obtain i op' where x: "x = (i, op')" by (cases x)
  have len: "length (qs j) + written op' + sum_list (map (written \<circ> snd) ops) \<le> 2 ^ 62" for j using Cons.prems(3) x by (simp add: add.assoc comp_def)
  have "length (qs i) + written op' \<le> 2 ^ 62" using len[of i] by simp
  from hr_op_owned[OF Cons.prems(1,2) srt this] obtain H1 b r q where 1: "hr_op srt pct mem H (bufs i) op' = Ret (H1, b, r)"
    "qs_op op' (qs i) = (q, r)" "owners H1 (bufs(i := b))" "bufs_hold H1 (bufs(i := b)) (qs(i := q))" by blast
  have "length q \<le> length (qs i) + written op'" using 1(2) by (cases op') auto
  then have "length ((qs(i := q)) j) + sum_list (map (written \<circ> snd) ops) \<le> 2 ^ 62" for j
    using len[of i] len[of j] by (cases "j = i") simp_all
  then have "\<forall>j. length ((qs(i := q)) j) + sum_list (map (written \<circ> snd) ops) \<le> 2 ^ 62" by blast
  from Cons.IH[OF 1(3,4) this] obtain H' bufs' qs' rs where "hr_run srt pct mem H1 (bufs(i := b)) ops = Ret (H', bufs', rs)"
    "qs_run (qs(i := q)) ops = (qs', rs)" "owners H' bufs'" "bufs_hold H' bufs' qs'" by blast
  with 1(1,2) x show ?case by simp
qed simp

section \<open>The slices of Next\<close>

text \<open>
  What \<open>Next\<close> returns: \<open>InRing a from n\<close> is the slice of \<open>n\<close> bytes from index \<open>from\<close> of the memory of the ring at \<open>a\<close>;
  \<open>Elsewhere\<close> is a slice of the loop's read buffer or of its cache, which no other buffer uses.
\<close>

datatype gslice = InRing nat int int | Elsewhere "byte list"

definition sl_bytes :: "rheap \<Rightarrow> gslice \<Rightarrow> byte list" where
  "sl_bytes H s =
     (case s of InRing a from n \<Rightarrow> take (nat n) (drop (nat from) (rb_buf (rh_ring H a))) | Elsewhere bs \<Rightarrow> bs)"

text \<open>
  \<open>Next\<close> of a connection with the inbound buffer \<open>b\<close> and the unread bytes \<open>buf\<close> of the latest read. \<open>Peek\<close> of a ring
  returns slices of its memory, the first of which starts at the read index; the deferred \<open>Discard\<close> runs last.
\<close>

definition hr_Next ::
  "(callSize list \<Rightarrow> callSize list) \<Rightarrow> (nat \<Rightarrow> nat) \<Rightarrow> rheap \<Rightarrow> nat option \<Rightarrow> byte list \<Rightarrow> int \<Rightarrow>
   (rheap \<times> nat option \<times> byte list \<times> gslice \<times> gerror option) go" where
  "hr_Next srt pct H b buf n =
     (let inBufferLen = er_Buffered (er_at H b); totalLen = inBufferLen + glen buf
      in if n > totalLen then Ret (H, b, buf, Elsewhere [], Some ErrShortBuffer)
         else
           let n = (if n \<le> 0 then totalLen else n)
           in case b of
                None \<Rightarrow>
                  go_bind (go_slice buf 0 n) (\<lambda>res. go_bind (go_slice buf n (glen buf)) (\<lambda>buf. Ret (H, b, buf, Elsewhere res, None)))
              | Some a \<Rightarrow>
                  if rb_IsEmpty (rh_ring H a) then
                    go_bind (go_slice buf 0 n) (\<lambda>res. go_bind (go_slice buf n (glen buf)) (\<lambda>buf. Ret (H, b, buf, Elsewhere res, None)))
                  else
                    go_bind (rb_Peek (rh_ring H a) n) (\<lambda>(head, tail).
                    go_bind
                      (if glen head \<ge> n then Ret (buf, InRing a (rb_r (rh_ring H a)) n)
                       else if inBufferLen \<ge> n then Ret (buf, Elsewhere (head @ tail))
                       else
                         let remaining = n - inBufferLen
                         in go_bind (go_slice buf 0 remaining) (\<lambda>more.
                            go_bind (go_slice buf remaining (glen buf)) (\<lambda>buf. Ret (buf, Elsewhere (head @ tail @ more)))))
                      (\<lambda>(buf, s). go_bind (hr_Discard srt pct H b n) (\<lambda>(H, b, _, _). Ret (H, b, buf, s, None)))))"

text \<open>The first slice of \<open>Peek\<close> is the memory of the ring from its read index on.\<close>

lemma Peek_head_at:
  assumes "rb_inv rb" "rb_Peek rb n = Ret (head, tail)"
  shows "take (length head) (drop (nat (rb_r rb)) (rb_buf rb)) = head"
  using assms
proof (cases rule: ring_cases)
qed (auto simp: rb_Peek_def rb_peekAll_def ring_shapes go_simps Let_def split: if_splits)

lemma go_slice_parts:
  "0 \<le> n \<Longrightarrow> n \<le> glen xs \<Longrightarrow> go_slice xs 0 n = Ret (take (nat n) xs) \<and> go_slice xs n (glen xs) = Ret (drop (nat n) xs)"
  by (simp add: go_simps)

text \<open>
  \<open>Next\<close> delivers the first bytes of the connection: when it returns, the slice shows them, whether they lie in the ring it
  has just given back or not.
\<close>

definition next_count :: "int \<Rightarrow> byte list \<Rightarrow> nat" where
  "next_count n xs = (if n \<le> 0 then length xs else nat n)"

lemma hr_Next_drained:
  assumes h: "bufs_hold H bufs qs" and q: "qs i = []" and n: "n \<le> glen buf"
  shows "hr_Next srt pct H (bufs i) buf n =
    Ret (H, bufs i, drop (next_count n buf) buf, Elsewhere (take (next_count n buf) buf), None)"
proof (cases "bufs i")
  case None
  then show ?thesis using n go_slice_parts[of n buf] by (auto simp: hr_Next_def Let_def next_count_def er_Buffered_def go_simps)
next
  case (Some a)
  then have "rb_rep (rh_ring H a) []" using holdsD(2)[OF h Some] q by simp
  then have "rb_IsEmpty (rh_ring H a)" "er_Buffered (er_at H (bufs i)) = 0"
    using Some rb_IsEmpty_rep er_Buffered_rep[of "er_at H (bufs i)" "[]"] by auto
  then show ?thesis using Some n go_slice_parts[of n buf] by (auto simp: hr_Next_def Let_def next_count_def go_simps)
qed

lemma hr_Next_owned:
  assumes o: "owners H bufs" and h: "bufs_hold H bufs qs" and srt: "sorts_calls srt" and n: "n \<le> glen (qs i @ buf)"
  shows "\<exists>H' b' s. hr_Next srt pct H (bufs i) buf n =
      Ret (H', b', drop (next_count n (qs i @ buf) - length (qs i)) buf, s, None) \<and>
    sl_bytes H' s = take (next_count n (qs i @ buf)) (qs i @ buf) \<and>
    owners H' (bufs(i := b')) \<and> bufs_hold H' (bufs(i := b')) (qs(i := drop (next_count n (qs i @ buf)) (qs i)))"
proof -
  define m where "m = (if n \<le> 0 then glen (qs i @ buf) else n)"
  have m: "next_count n (qs i @ buf) = nat m" "0 \<le> m" "m \<le> glen (qs i) + glen buf" using n by (auto simp: m_def next_count_def)
  have len: "er_Buffered (er_at H (bufs i)) = glen (qs i)" using h er_Buffered_rep by (simp add: bufs_hold_def)
  show ?thesis
  proof (cases "qs i = []")
    case True
    then have "bufs(i := bufs i) = bufs" "qs(i := []) = qs" by auto
    with True o h show ?thesis using hr_Next_drained[OF h True, of n buf] n by (simp add: sl_bytes_def)
  next
    case False
    then obtain a where a: "bufs i = Some a" using holdsD(1)[OF h] by (cases "bufs i") auto
    then have rep: "rb_rep (rh_ring H a) (qs i)" using holdsD(2)[OF h] by blast
    then have inv: "rb_inv (rh_ring H a)" "rb_content (rh_ring H a) = qs i" "\<not> rb_IsEmpty (rh_ring H a)"
      using False rb_IsEmpty_rep by (auto simp: rb_rep_def)
    have "0 < glen (qs i) + glen buf" by (rule add_pos_nonneg) (use False in simp_all)
    then have m0: "0 < m" unfolding m_def length_append of_nat_add by (cases "n \<le> 0") simp_all
    obtain head tail where pk: "rb_Peek (rh_ring H a) m = Ret (head, tail)" "head @ tail = take (nat m) (qs i)"
      using rb_Peek_content[OF inv(1), of m] inv(2) m0 by auto
    have lens: "length head + length tail = min (nat m) (length (qs i))" using pk(2) by (metis length_append length_take min.commute)
    define s where "s = (if glen head \<ge> m then InRing a (rb_r (rh_ring H a)) m
      else if glen (qs i) \<ge> m then Elsewhere (head @ tail) else Elsewhere (head @ tail @ take (nat (m - glen (qs i))) buf))"
    obtain H' b' e where d: "hr_Discard srt pct H (bufs i) m = Ret (H', b', min (max 0 m) (glen (qs i)), e)"
      "owners H' (bufs(i := b'))" "bufs_hold H' (bufs(i := b')) (qs(i := drop (nat m) (qs i)))"
      "rb_buf (rh_ring H' a) = rb_buf (rh_ring H a)"
      using hr_Discard_owned[OF o h srt, of pct i m] a by blast
    have rest: "(if glen head \<ge> m then Ret (buf, InRing a (rb_r (rh_ring H a)) m)
         else if glen (qs i) \<ge> m then Ret (buf, Elsewhere (head @ tail))
         else
           let remaining = m - glen (qs i)
           in go_bind (go_slice buf 0 remaining) (\<lambda>more.
              go_bind (go_slice buf remaining (glen buf)) (\<lambda>buf. Ret (buf, Elsewhere (head @ tail @ more)))))
      = Ret (drop (nat m - length (qs i)) buf, s)"
      using go_slice_parts[of "m - glen (qs i)" buf] m(3) lens by (auto simp: s_def Let_def nat_diff_distrib)
    have "hr_Next srt pct H (bufs i) buf n = Ret (H', b', drop (nat m - length (qs i)) buf, s, None)"
    proof -
      have "(n > glen (qs i) + glen buf) = False" "(if n \<le> 0 then glen (qs i) + glen buf else n) = m" using n by (auto simp: m_def)
      then show ?thesis
        unfolding hr_Next_def Let_def len using a inv(3) pk(1) d(1) rest[unfolded Let_def] by (simp only: go_bind.simps prod.case option.case if_False)
    qed
    moreover have "sl_bytes H' s = take (nat m) (qs i @ buf)"
    proof (cases "glen head \<ge> m")
      case True
      then have "length tail = 0" "length head = nat m" using lens m0 by linarith+
      then show ?thesis using True pk(2) Peek_head_at[OF inv(1) pk(1)] d(4) lens by (simp add: s_def sl_bytes_def)
    next
      case False
      then show ?thesis using pk(2) m0 by (auto simp: s_def sl_bytes_def nat_diff_distrib)
    qed
    ultimately show ?thesis using d(2,3) m(1) by auto
  qed
qed

text \<open>
  The slice is not the caller's for long. When \<open>Next\<close> takes everything out of a ring whose content does not wrap, the
  slice is in the ring's memory and the ring is in the pool. The next buffer that is written to gets that ring, and its
  bytes replace those the caller is looking at.
\<close>

lemma Discard_all:
  assumes "rb_rep rb xs" "xs \<noteq> []"
  shows "rb_Discard rb (glen xs) = Ret (rb_Reset rb, glen xs, None)"
  using assms rb_Buffered_content[of rb] by (auto simp: rb_Discard_def rb_rep_def Let_def rb_isEmpty_content)

lemma Peek_contiguous:
  assumes "rb_inv rb" "rb_Peek rb n = Ret (head, tail)" "0 < n" "rb_r rb + n \<le> rb_size rb"
  shows "tail = []"
  using assms by (auto simp: rb_Peek_def Let_def elim!: go_bind_RetE split: if_splits)

lemma Put_kept:
  assumes "rp_maxSize (rh_pool H) = 0" "go_index (rp_calls (rh_pool H)) (int (rp_index (rb_Len (rh_ring H a)))) = Ret c"
    "c + 1 \<le> calibrateCallsThreshold"
  shows "\<exists>H'. rbPool_Put srt pct H a = Ret H' \<and> rh_ring H' = (rh_ring H)(a := rb_Reset (rh_ring H a)) \<and>
    rp_pool (rh_pool H') = a # rp_pool (rh_pool H)"
  using assms by (auto simp: rbPool_Put_def Let_def)

lemma Write_reset:
  assumes "rb_inv rb" "p \<noteq> []" "glen p \<le> rb_size rb"
  shows "\<exists>rb'. rb_Write mem (rb_Reset rb) p = Ret (rb', glen p, None) \<and> rb_buf rb' = p @ drop (length p) (rb_buf rb)"
  using assms by (auto simp: rb_Write_def Let_def rb_Reset_def rb_Available_def rb_inv_def go_simps go_copy_def)

lemma Next_slice_reused:
  assumes rep: "rb_rep (rh_ring H a) xs" "xs \<noteq> []" "rb_r (rh_ring H a) + glen xs \<le> rb_size (rh_ring H a)"
    and pool: "rp_maxSize (rh_pool H) = 0" "go_index (rp_calls (rh_pool H)) (int (rp_index (rb_Len (rh_ring H a)))) = Ret c"
      "c + 1 \<le> calibrateCallsThreshold"
    and p: "p \<noteq> []" "glen p \<le> rb_size (rh_ring H a)"
  shows "\<exists>H1 H2 s. hr_Next srt pct H (Some a) buf (glen xs) = Ret (H1, None, buf, s, None) \<and> sl_bytes H1 s = xs \<and>
    hr_Write mem (Some 0) H1 None p = Ret (H2, Some a, glen p, None) \<and>
    sl_bytes H2 s = take (length xs) (drop (nat (rb_r (rh_ring H a))) (p @ drop (length p) (rb_buf (rh_ring H a))))"
proof -
  let ?rb = "rh_ring H a" and ?n = "glen xs"
  let ?s = "InRing a (rb_r ?rb) ?n"
  have inv: "rb_inv ?rb" "rb_content ?rb = xs" "\<not> rb_IsEmpty ?rb" "rb_Buffered ?rb = ?n"
    using rep rb_IsEmpty_rep rb_Buffered_content by (auto simp: rb_rep_def)
  obtain head tail where pk: "rb_Peek ?rb ?n = Ret (head, tail)" "head @ tail = xs"
    using rb_Peek_content[OF inv(1), of ?n] inv(2) by auto
  have "tail = []" using Peek_contiguous[OF inv(1) pk(1)] rep(2,3) inv(2) by simp
  then have head: "head = xs" using pk(2) by simp
  have len: "go_index (rp_calls (rh_pool (rh_set H a (rb_Reset ?rb)))) (int (rp_index (rb_Len (rh_ring (rh_set H a (rb_Reset ?rb)) a)))) = Ret c"
    using pool(2) by (simp add: rb_Len_def rb_Reset_def)
  obtain H1 where put: "rbPool_Put srt pct (rh_set H a (rb_Reset ?rb)) a = Ret H1" "rh_ring H1 = (rh_ring H)(a := rb_Reset ?rb)"
    "rp_pool (rh_pool H1) = a # rp_pool (rh_pool H)"
    using Put_kept[OF _ len pool(3), of srt pct] pool(1) by (auto simp: rb_Reset_def)
  have "hr_Discard srt pct H (Some a) ?n = Ret (H1, None, ?n, None)"
    using Discard_all[OF rep(1,2)] put(1) by (simp add: hr_Discard_def hr_done_def rb_IsEmpty_def rb_Reset_def)
  then have "hr_Next srt pct H (Some a) buf ?n = Ret (H1, None, buf, ?s, None)"
    using inv(3,4) pk(1) head rep(2) by (simp add: hr_Next_def Let_def er_Buffered_def)
  moreover have "sl_bytes H1 ?s = xs" using Peek_head_at[OF inv(1) pk(1)] head put(2) by (simp add: sl_bytes_def rb_Reset_def)
  moreover obtain rb' where w: "rb_Write mem (rb_Reset ?rb) p = Ret (rb', glen p, None)" "rb_buf rb' = p @ drop (length p) (rb_buf ?rb)"
    using Write_reset[OF inv(1) p, of mem] by blast
  then have "hr_Write mem (Some 0) H1 None p = Ret (rh_set (H1\<lparr>rh_pool := (rh_pool H1)\<lparr>rp_pool := rp_pool (rh_pool H)\<rparr>\<rparr>) a rb', Some a, glen p, None)"
    using p(1) put(2,3) by (simp add: hr_Write_def hr_instance_def rbPool_Get_def)
  moreover have "sl_bytes (rh_set (H1\<lparr>rh_pool := (rh_pool H1)\<lparr>rp_pool := rp_pool (rh_pool H)\<rparr>\<rparr>) a rb') ?s =
      take (length xs) (drop (nat (rb_r ?rb)) (p @ drop (length p) (rb_buf ?rb)))"
    using w(2) by (simp add: sl_bytes_def)
  ultimately show ?thesis by blast
qed

end
