(* ===== verification/AddrMemory.thy ===== *)
theory AddrMemory
  imports Connection
begin

text \<open>
  The memory behind the addresses of connections. \<open>internal/socket/socktoaddr.go\<close> takes it from the byte-slice pool
  when an address of the kernel is converted, and \<open>releaseTCP\<close> and \<open>releaseUDP\<close> of \<open>connection.go\<close> give it back,
  the zone through the casts of \<open>internal/toolkit/byteconv.go\<close>. \<open>SockAddr\<close> has the values of the addresses, this
  theory where their bytes lie: slices as \<open>ByteSlicePool\<close> has them, and strings as a pointer and a length.

  The lemmas: what an accepted connection takes is given back exactly once, so that the pool's invariant holds after
  the release; a connection whose two addresses are the same value gives it back twice.
\<close>

section \<open>Strings without a copy\<close>

record strhdr =
  sh_data :: "ptr option"
  sh_len :: int

definition BytesToString :: "bslice \<Rightarrow> strhdr" where
  "BytesToString b = \<lparr>sh_data = sl_data b, sh_len = sl_len b\<rparr>"

definition StringToBytes :: "strhdr \<Rightarrow> bslice" where
  "StringToBytes s = \<lparr>sl_data = sh_data s, sl_len = sh_len s, sl_cap = sh_len s\<rparr>"

text \<open>\<open>b[n:]\<close>.\<close>

definition slice_from :: "bslice \<Rightarrow> int \<Rightarrow> bslice" where
  "slice_from b n =
     \<lparr>sl_data = map_option (\<lambda>(blk, off). (blk, off + n)) (sl_data b), sl_len = sl_len b - n, sl_cap = sl_cap b - n\<rparr>"

section \<open>Taking\<close>

text \<open>
  \<open>pick\<close> says which slice \<open>sync.Pool\<close> returns for each size. The name of an interface is a string that package \<open>net\<close>
  has allocated; digits are written to the end of a slice of 32 bytes.
\<close>

definition mem_zone ::
  "(int \<Rightarrow> string option) \<Rightarrow> stale \<Rightarrow> (int \<Rightarrow> nat option) \<Rightarrow> bspool \<Rightarrow> int \<Rightarrow> (bspool \<times> strhdr) go" where
  "mem_zone ifname mem pick P zone =
     (if zone = 0 then Ret (P, \<lparr>sh_data = None, sh_len = 0\<rparr>)
      else
        (case ifname zone of
           Some nm \<Rightarrow> (case make_slice P (glen nm) (glen nm) of (P, s) \<Rightarrow> Ret (P, BytesToString s))
         | None \<Rightarrow>
             go_bind (int2decimal mem (word_of_int zone)) (\<lambda>ds.
             case bs_Get (pick 32) P 32 of (P, b) \<Rightarrow> Ret (P, BytesToString (slice_from b (32 - glen ds))))))"

record addrmem =
  am_ip :: bslice
  am_zone :: strhdr

definition mem_addr ::
  "(int \<Rightarrow> string option) \<Rightarrow> stale \<Rightarrow> (int \<Rightarrow> nat option) \<Rightarrow> bspool \<Rightarrow> sockaddr option \<Rightarrow> (bspool \<times> addrmem option) go" where
  "mem_addr ifname mem pick P sa =
     (case sa of
        Some (SockaddrInet4 port addr) \<Rightarrow>
          (case bs_Get (pick 16) P 16 of (P, ip) \<Rightarrow> Ret (P, Some \<lparr>am_ip = ip, am_zone = \<lparr>sh_data = None, sh_len = 0\<rparr>\<rparr>))
      | Some (SockaddrInet6 port zoneId addr) \<Rightarrow>
          (case bs_Get (pick 16) P 16 of (P, ip) \<Rightarrow>
             go_bind (mem_zone ifname mem pick P zoneId) (\<lambda>(P, zone). Ret (P, Some \<lparr>am_ip = ip, am_zone = zone\<rparr>)))
      | _ \<Rightarrow> Ret (P, None))"

section \<open>Giving back\<close>

definition put_addr :: "bspool \<Rightarrow> addrmem \<Rightarrow> bspool go" where
  "put_addr P a =
     go_bind (bs_Put P (am_ip a)) (\<lambda>P. if sh_len (am_zone a) > 0 then bs_Put P (StringToBytes (am_zone a)) else Ret P)"

text \<open>The addresses of a connection: \<open>None\<close> for one of another type, and whether the local one is that of the listener.\<close>

definition release_addrs :: "bspool \<Rightarrow> bool \<Rightarrow> addrmem option \<Rightarrow> addrmem option \<Rightarrow> bspool go" where
  "release_addrs P ofListener localAddr remoteAddr =
     go_bind (case localAddr of Some a \<Rightarrow> if \<not> ofListener then put_addr P a else Ret P | None \<Rightarrow> Ret P) (\<lambda>P.
     case remoteAddr of Some a \<Rightarrow> put_addr P a | None \<Rightarrow> Ret P)"

section \<open>The pool and its clients\<close>

text \<open>The slices a client holds for an address.\<close>

definition am_slices :: "addrmem option \<Rightarrow> bslice list" where
  "am_slices a =
     (case a of
        None \<Rightarrow> []
      | Some a \<Rightarrow> am_ip a # (if sh_len (am_zone a) > 0 then [StringToBytes (am_zone a)] else []))"

lemma pool_inv_perm:
  assumes "pool_inv P own" "mset own' = mset own"
  shows "pool_inv P own'"
proof -
  have "length (filter Q own') = length (filter Q own)" for Q using assms(2) by (metis mset_filter size_mset)
  moreover have "set own' = set own" using assms(2) by (metis set_mset_mset)
  ultimately show ?thesis using assms(1) by (simp add: pool_inv_def refs_def)
qed

lemma pool_invI:
  assumes "pool_inv P own0" "\<forall>s\<in>set own. slice_ok P s" "\<And>a. refs P own a \<le> refs P own0 a"
  shows "pool_inv P own"
proof -
  have "refs P own a \<le> 1" for a using assms(3)[of a] pool_inv_refs[OF assms(1), of a] by simp
  then show ?thesis using assms(1,2) unfolding pool_inv_def by blast
qed

lemma pool_inv_shrink:
  assumes "pool_inv P (s # own)" "slice_ok P s'" "\<And>x. slice_covers x s' \<Longrightarrow> slice_covers x s"
  shows "pool_inv P (s' # own)"
  by (rule pool_invI[OF assms(1)]) (use assms(1,2) in \<open>simp add: pool_inv_def\<close>, use assms(3) in \<open>auto simp: refs_def\<close>)

lemma pool_inv_drop:
  assumes "pool_inv P (s # own)"
  shows "pool_inv P own"
  by (rule pool_invI[OF assms]) (use assms in \<open>simp add: pool_inv_def\<close>, simp add: refs_def)

lemma i2d_loop_length: "i2d_loop b bp i = Ret (b', bp') \<Longrightarrow> length b' = length b"
proof (induction b bp i rule: i2d_loop.induct)
  case (1 b bp i)
  show ?case
  proof (cases "i = 0")
    case False
    with "1.prems" obtain b1 where "go_store b (bp - 1) (word_of_nat (i mod 10) + 48) = Ret b1" "i2d_loop b1 (bp - 1) (i div 10) = Ret (b', bp')"
      by (auto simp: i2d_loop.simps[of b bp i] elim!: go_bind_RetE)
    with "1.IH"[OF False] show ?thesis by (auto simp: go_store_def split: if_splits)
  qed (use "1.prems" i2d_loop.simps[of b bp i] in simp)
qed

lemma int2decimal_length: "int2decimal mem i = Ret ds \<Longrightarrow> length ds \<le> 32"
  by (auto simp: int2decimal_def Let_def go_slice_def elim!: go_bind_RetE dest!: i2d_loop_length split: if_splits)

text \<open>The end of a slice, cut to its length.\<close>

lemma pool_inv_tail:
  assumes I: "pool_inv P (s # own)" and n: "0 \<le> n" "n \<le> sl_len s"
  shows "pool_inv P (StringToBytes (BytesToString (slice_from s n)) # own)"
proof (rule pool_inv_shrink[OF I])
  have s: "slice_ok P s" using I by (simp add: pool_inv_def)
  then show "slice_ok P (StringToBytes (BytesToString (slice_from s n)))"
    using n by (auto simp: slice_ok_def StringToBytes_def BytesToString_def slice_from_def split: option.splits)
  show "slice_covers x s" if "slice_covers x (StringToBytes (BytesToString (slice_from s n)))" for x
    using that n s by (cases x) (auto simp: slice_ok_def slice_covers_def StringToBytes_def BytesToString_def slice_from_def split: option.splits)
qed

lemma pool_inv_opt: "pool_inv P (s # own) \<Longrightarrow> pool_inv P ((if b then [s] else []) @ own)"
  using pool_inv_drop by (cases b) auto

lemma mem_zone_inv:
  assumes I: "pool_inv P own"
  shows "\<exists>P' z. mem_zone ifname mem pick P zone = Ret (P', z) \<and>
    pool_inv P' ((if sh_len z > 0 then [StringToBytes z] else []) @ own)"
proof -
  consider "zone = 0" | nm where "zone \<noteq> 0" "ifname zone = Some nm" | "zone \<noteq> 0" "ifname zone = None" by fastforce
  then show ?thesis
  proof cases
    case 1
    with I show ?thesis by (simp add: mem_zone_def)
  next
    case 2
    obtain P' s where m: "make_slice P (glen nm) (glen nm) = (P', s)" by (metis surj_pair)
    have "pool_inv P' (s # own)" by (rule make_slice_inv[OF I _ _ m]) simp_all
    moreover have "StringToBytes (BytesToString s) = s" using m by (auto simp: make_slice_def StringToBytes_def BytesToString_def)
    ultimately have "pool_inv P' ((if sh_len (BytesToString s) > 0 then [StringToBytes (BytesToString s)] else []) @ own)"
      by (intro pool_inv_opt) simp
    moreover have "mem_zone ifname mem pick P zone = Ret (P', BytesToString s)" using 2 m by (simp add: mem_zone_def)
    ultimately show ?thesis by blast
  next
    case 3
    obtain ds where d: "int2decimal mem (word_of_int zone) = Ret ds" using int2decimal_spec by blast
    obtain P' b where g: "bs_Get (pick 32) P 32 = (P', b)" by (metis surj_pair)
    note gi = bs_Get_inv[OF I g]
    have len: "glen ds \<le> 32" using int2decimal_length[OF d] by simp
    have "pool_inv P' (StringToBytes (BytesToString (slice_from b (32 - glen ds))) # own)"
      by (rule pool_inv_tail[OF gi(1)]) (use gi(2) len in auto)
    note pool_inv_opt[OF this, of "sh_len (BytesToString (slice_from b (32 - glen ds))) > 0"]
    moreover have "mem_zone ifname mem pick P zone = Ret (P', BytesToString (slice_from b (32 - glen ds)))"
      using 3 d g by (simp add: mem_zone_def)
    ultimately show ?thesis by blast
  qed
qed

lemma mem_addr_inv:
  assumes I: "pool_inv P own"
  shows "\<exists>P' a. mem_addr ifname mem pick P sa = Ret (P', a) \<and> pool_inv P' (am_slices a @ own)"
proof -
  obtain P1 ip where g: "bs_Get (pick 16) P 16 = (P1, ip)" by (metis surj_pair)
  note I1 = bs_Get_inv(1)[OF I g]
  consider port addr where "sa = Some (SockaddrInet4 port addr)" | port zone addr where "sa = Some (SockaddrInet6 port zone addr)"
    | "\<forall>P. mem_addr ifname mem pick P sa = Ret (P, None)"
    by (cases sa; cases "the sa") (auto simp: mem_addr_def)
  then show ?thesis
  proof cases
    case 1
    with g I1 show ?thesis by (simp add: mem_addr_def am_slices_def)
  next
    case 2
    obtain P2 z where z: "mem_zone ifname mem pick P1 zone = Ret (P2, z)"
      "pool_inv P2 ((if sh_len z > 0 then [StringToBytes z] else []) @ ip # own)"
      using mem_zone_inv[OF I1] by blast
    have "pool_inv P2 (ip # (if sh_len z > 0 then [StringToBytes z] else []) @ own)" by (rule pool_inv_perm[OF z(2)]) simp
    with 2 g z(1) show ?thesis by (simp add: mem_addr_def am_slices_def split: if_splits)
  next
    case 3
    with I show ?thesis by (simp add: am_slices_def)
  qed
qed

lemma put_addr_inv:
  assumes "pool_inv P (am_slices (Some a) @ own)"
  shows "\<exists>P'. put_addr P a = Ret P' \<and> pool_inv P' own"
proof -
  let ?z = "if sh_len (am_zone a) > 0 then [StringToBytes (am_zone a)] else []"
  obtain P1 where p: "bs_Put P (am_ip a) = Ret P1" "pool_inv P1 (?z @ own)"
    using bs_Put_inv[of P "am_ip a" "?z @ own"] assms by (auto simp: am_slices_def)
  show ?thesis
  proof (cases "sh_len (am_zone a) > 0")
    case True
    with p bs_Put_inv[of P1 "StringToBytes (am_zone a)" own] show ?thesis by (simp add: put_addr_def)
  qed (use p in \<open>simp add: put_addr_def\<close>)
qed

text \<open>A connection gives back what it holds, and never the address of the listener.\<close>

lemma release_addrs_inv:
  assumes "pool_inv P ((if ofListener then [] else am_slices l) @ am_slices r @ own)"
  shows "\<exists>P'. release_addrs P ofListener l r = Ret P' \<and> pool_inv P' own"
proof -
  obtain P1 where p: "(case l of Some a \<Rightarrow> if \<not> ofListener then put_addr P a else Ret P | None \<Rightarrow> Ret P) = Ret P1"
    "pool_inv P1 (am_slices r @ own)"
    using assms put_addr_inv[of P _ "am_slices r @ own"] by (cases l; cases ofListener) (auto simp: am_slices_def[of None])
  show ?thesis
  proof (cases r)
    case None
    with p show ?thesis by (simp add: release_addrs_def am_slices_def)
  next
    case (Some a)
    with p put_addr_inv[of P1 a own] show ?thesis by (auto simp: release_addrs_def)
  qed
qed

text \<open>
  \<open>AddTCPConnector\<close> passes one address as the local and as the remote one: the release puts its memory into the pool
  twice, and the pool hands it out to two clients.
\<close>

lemma release_addrs_twice:
  assumes g: "mem_addr ifname mem (\<lambda>_. None) bp_empty (Some (SockaddrInet4 port addr)) = Ret (P, Some a)"
  shows "\<exists>P1 P2 P3 s s'. release_addrs P False (Some a) (Some a) = Ret P1 \<and> bs_Get (Some 0) P1 16 = (P2, s) \<and>
    bs_Get (Some 0) P2 16 = (P3, s') \<and> sl_data s = sl_data s' \<and> sl_data s \<noteq> None"
proof -
  obtain P0 s P1 P2 P3 s' where d: "bs_Get None bp_empty 16 = (P0, s)" "bs_Put P0 s = Ret P1" "bs_Put P1 s = Ret P2"
    "bs_Get (Some 0) P2 16 = (P3, s')" "sl_data (snd (bs_Get (Some 0) P3 16)) = sl_data s'" "sl_data s' \<noteq> None"
    using bs_double_Put[of 16] by auto
  then have a: "P = P0" "a = \<lparr>am_ip = s, am_zone = \<lparr>sh_data = None, sh_len = 0\<rparr>\<rparr>" using g by (auto simp: mem_addr_def)
  obtain P4 s2 where "bs_Get (Some 0) P3 16 = (P4, s2)" by (metis surj_pair)
  with d a show ?thesis by (simp add: release_addrs_def put_addr_def)
qed

end
