(* ===== verification/PoolProperties.thy ===== *)
theory PoolProperties
  imports RingSharing SockAddr AddrMemory
begin

text \<open>
  The properties of the pools under \<open>src/pkg/pool\<close>, of the rounding functions in \<open>src/internal/toolkit\<close> and of
  the address conversion in \<open>src/internal/socket\<close>.
\<close>

text \<open>A sorting function for the calibration.\<close>

definition by_calls :: "callSize list \<Rightarrow> callSize list" where
  "by_calls a = rev (sort_key cs_calls a)"

lemma by_calls_sorts: "sorts_calls by_calls"
proof -
  have "sorted_wrt (\<lambda>x y. cs_calls x \<ge> cs_calls y) (by_calls a)" for a
    using sorted_sort_key[of cs_calls a] by (simp add: by_calls_def sorted_wrt_rev sorted_map)
  then show ?thesis by (simp add: sorts_calls_iff by_calls_def)
qed

section \<open>The byte-slice pool\<close>

text \<open>
  C24: \<open>Get\<close> returns a slice of the length asked for that lies within an allocation, and that shares no byte
  with the slices its clients hold nor with the memory the pool keeps. The slice header is made of an
  \<open>unsafe\<close> pointer and a size class, so this is what keeps memory safe.
\<close>

theorem byteslice_Get_exclusive:
  assumes "pool_inv P own" "bs_Get pick P sz = (P', s)"
  shows "pool_inv P' (s # own) \<and> sl_len s = max 0 sz \<and>
    (0 < sz \<and> sz \<le> MaxInt32 \<longrightarrow> sl_cap s < 2 * sz)"
proof -
  have "sl_cap s < 2 * sz" if "0 < sz" "sz \<le> MaxInt32"
    using assms(2) bs_index_class(2)[OF that] that
    by (auto simp: bs_Get_def Let_def make_slice_def split: option.splits)
  with bs_Get_inv[OF assms] show ?thesis by blast
qed

theorem byteslice_Get_exclusive_witness:
  "\<exists>P s. bs_Get None bp_empty 100 = (P, s) \<and> pool_inv P [s] \<and> sl_len s = 100 \<and> sl_cap s < 200"
proof -
  obtain P s where g: "bs_Get None bp_empty 100 = (P, s)" by (cases "bs_Get None bp_empty 100")
  with byteslice_Get_exclusive[OF pool_inv_empty g] show ?thesis by (simp add: MaxInt32_def)
qed

text \<open>
  C25: \<open>Put\<close> of a slice its client owns never panics, whatever its capacity, and keeps the pool's memory
  exclusive: a slice that did not come from the pool goes to the class below its capacity.
\<close>

theorem byteslice_Put_safe:
  assumes "pool_inv P (s # own)"
  shows "\<exists>P'. bs_Put P s = Ret P' \<and> pool_inv P' own"
  by (rule bs_Put_inv[OF assms])

theorem byteslice_Put_safe_witness:
  "\<exists>P s P'. bs_Get None bp_empty 100 = (P, s) \<and> bs_Put P s = Ret P' \<and> pool_inv P' []"
proof -
  obtain P s where g: "bs_Get None bp_empty 100 = (P, s)" by (cases "bs_Get None bp_empty 100")
  from byteslice_Put_safe[OF bs_Get_inv(1)[OF pool_inv_empty g]] g show ?thesis by blast
qed

text \<open>
  a slice that is put back twice is handed out twice: two clients then own the same memory. Releasing a
  connection whose local and remote address are the same value does this.
\<close>

theorem byteslice_double_Put:
  assumes "0 < sz" "sz \<le> 2 ^ 30"
  shows "\<exists>P1 s P2 P3 P4 s'. bs_Get None bp_empty sz = (P1, s) \<and> bs_Put P1 s = Ret P2 \<and> bs_Put P2 s = Ret P3 \<and>
    bs_Get (Some 0) P3 sz = (P4, s') \<and> sl_data (snd (bs_Get (Some 0) P4 sz)) = sl_data s' \<and> sl_data s' \<noteq> None"
  by (rule bs_double_Put[OF assms])

theorem byteslice_double_Put_witness:
  "\<exists>P1 s P2 P3 P4 s'. bs_Get None bp_empty 16 = (P1, s) \<and> bs_Put P1 s = Ret P2 \<and> bs_Put P2 s = Ret P3 \<and>
    bs_Get (Some 0) P3 16 = (P4, s') \<and> sl_data (snd (bs_Get (Some 0) P4 16)) = sl_data s' \<and> sl_data s' \<noteq> None"
  by (rule byteslice_double_Put) simp_all

text \<open>
  the memory of a peer's address comes from the pool and goes back to it exactly once: converting an address of the
  kernel gives slices no other client holds, and releasing an accepted connection, whose local address is the
  listener's, never panics and returns these slices, so that again no byte has two owners.
\<close>

theorem address_memory_returned:
  assumes "pool_inv P own" "pool_inv P2 (am_slices a @ own2)"
  shows "(\<exists>P1 a. mem_addr ifname mem pick P sa = Ret (P1, a) \<and> pool_inv P1 (am_slices a @ own)) \<and>
    (\<exists>P3. release_addrs P2 True l a = Ret P3 \<and> pool_inv P3 own2)"
  using mem_addr_inv[OF assms(1)] release_addrs_inv[of P2 True l a own2] assms(2) by simp

theorem address_memory_returned_witness:
  "\<exists>P1 a P3. mem_addr (\<lambda>_. None) (\<lambda>_ _. 0) (\<lambda>_. None) bp_empty (Some (SockaddrInet6 80 5 (replicate 16 0))) = Ret (P1, a) \<and>
    release_addrs P1 True None a = Ret P3 \<and> pool_inv P3 []"
proof -
  obtain P1 a where m: "mem_addr (\<lambda>_. None) (\<lambda>_ _. 0) (\<lambda>_. None) bp_empty (Some (SockaddrInet6 80 5 (replicate 16 0))) = Ret (P1, a)"
    "pool_inv P1 (am_slices a @ [])"
    using mem_addr_inv[OF pool_inv_empty] by blast
  from address_memory_returned[OF pool_inv_empty m(2)] m(1) show ?thesis by blast
qed

text \<open>
  a connection whose local and remote address are one value, as \<open>AddTCPConnector\<close> makes them, gives the memory of its IP
  back twice when it is released: the pool then hands the same memory to two clients.
\<close>

theorem same_address_put_twice:
  assumes "mem_addr ifname mem (\<lambda>_. None) bp_empty (Some (SockaddrInet4 port addr)) = Ret (P, Some a)"
  shows "\<exists>P1 P2 P3 s s'. release_addrs P False (Some a) (Some a) = Ret P1 \<and> bs_Get (Some 0) P1 16 = (P2, s) \<and>
    bs_Get (Some 0) P2 16 = (P3, s') \<and> sl_data s = sl_data s' \<and> sl_data s \<noteq> None"
  by (rule release_addrs_twice[OF assms])

section \<open>The ring pool\<close>

text \<open>A program that takes rings from the pool and puts rings back; the choice of a kept ring is up to \<open>sync.Pool\<close>.\<close>

datatype poolop = PGet "nat option" | PPut ring

fun rp_run ::
  "(callSize list \<Rightarrow> callSize list) \<Rightarrow> (nat \<Rightarrow> nat) \<Rightarrow> ring rpool \<Rightarrow> poolop list \<Rightarrow> (ring rpool \<times> ring list) go" where
  "rp_run srt pct P [] = Ret (P, [])"
| "rp_run srt pct P (PGet pick # ops) =
     go_bind (rp_Get pick P) (\<lambda>(P, rb). go_bind (rp_run srt pct P ops) (\<lambda>(P, rbs). Ret (P, rb # rbs)))"
| "rp_run srt pct P (PPut rb # ops) = go_bind (rp_Put srt pct P rb) (\<lambda>P. rp_run srt pct P ops)"

text \<open>
  C26: the pool keeps its rings well-formed. Every program of \<open>Get\<close> and \<open>Put\<close> with rings of any content runs to its
  end, also when \<open>Put\<close> calibrates; every ring it gets is well-formed and empty, and so are those the pool keeps, whose
  default and maximal sizes are size classes. \<open>srt\<close> is \<open>sort.Sort\<close> and \<open>pct\<close> the number of calls that make up 95 percent.
\<close>

theorem ring_pool_programs:
  assumes "rp_inv P" "sorts_calls srt" "\<forall>rb. PPut rb \<in> set ops \<longrightarrow> rb_inv rb"
  shows "\<exists>P' rbs. rp_run srt pct P ops = Ret (P', rbs) \<and> rp_inv P' \<and> (\<forall>rb\<in>set rbs. rb_inv rb \<and> rb_content rb = [])"
  using assms(1,3)
proof (induction ops arbitrary: P)
  case (Cons op' ops)
  show ?case
  proof (cases op')
    case (PGet pick)
    obtain P1 rb where g: "rp_Get pick P = Ret (P1, rb)" "rp_inv P1" "rb_rep rb []"
      using rp_Get_spec[OF Cons.prems(1), of pick] by auto
    with Cons.IH[OF g(2)] Cons.prems(2) PGet show ?thesis by (fastforce simp: rb_rep_def)
  next
    case (PPut rb)
    obtain P1 where g: "rp_Put srt pct P rb = Ret P1" "rp_inv P1"
      using rp_Put_spec[OF Cons.prems(1) assms(2)] Cons.prems(2) PPut by fastforce
    with Cons.IH[OF g(2)] Cons.prems(2) PPut show ?thesis by fastforce
  qed
qed simp

theorem ring_pool_programs_witness:
  "\<exists>P' rbs. rp_run by_calls (\<lambda>n. n) rp_zero [PGet None, PPut first_ring, PGet (Some 0)] = Ret (P', rbs) \<and> rp_inv P' \<and>
    (\<forall>rb\<in>set rbs. rb_content rb = [])"
proof -
  have "\<forall>rb. PPut rb \<in> set [PGet None, PPut first_ring, PGet (Some 0)] \<longrightarrow> rb_inv rb"
    using first.fresh_empty by (simp add: rb_rep_def)
  then show ?thesis using ring_pool_programs[OF rp_zero_inv by_calls_sorts] by blast
qed

text \<open>
  the class index of a size is within the table of 20 classes, it is the least class that holds the
  size, and sizes beyond the largest class share the last one.
\<close>

theorem ring_pool_index:
  assumes "0 < n"
  shows "rp_index n < steps \<and> (\<forall>k. n \<le> minSize * 2 ^ k \<longrightarrow> rp_index n \<le> k) \<and>
    (n \<le> minSize * 2 ^ (steps - 1) \<longrightarrow> n \<le> minSize * 2 ^ rp_index n)"
  using assms rp_index_bound rp_index_least rp_index_fits by blast

theorem ring_pool_index_witness: "rp_index 65 \<le> 1 \<and> 65 \<le> minSize * 2 ^ rp_index 65"
  using ring_pool_index[of 65] by (simp add: minSize_def minBitSize_def steps_def)

section \<open>Rounding to powers of two\<close>

text \<open>
  for sizes from 3 to \<open>2 ^ 62\<close>, \<open>CeilToPowerOfTwo\<close> returns the least power of two that is not smaller,
  computed on 64-bit words without wrapping around, and \<open>FloorToPowerOfTwo\<close> the greatest that is not larger.
\<close>

theorem powers_of_two:
  assumes "2 < n" "n \<le> 2 ^ 62"
  shows "\<exists>j k. ceil_pow2 n = Ret (2 ^ Suc j) \<and> 2 ^ j < n \<and> n \<le> 2 ^ Suc j \<and>
    sint (FloorToPowerOfTwo (word_of_int n)) = 2 ^ k \<and> 2 ^ k \<le> n \<and> n < 2 ^ Suc k"
  using ceil_pow2_least[OF assms] FloorToPowerOfTwo_greatest[OF assms(1)] assms(2) by fastforce

theorem powers_of_two_witness: "\<exists>j. ceil_pow2 1000 = Ret (2 ^ Suc j) \<and> 2 ^ j < (1000::int) \<and> (1000::int) \<le> 2 ^ Suc j"
  using powers_of_two[of 1000] by auto

section \<open>Addresses\<close>

text \<open>
  \<open>int2decimal\<close> fits its 32 bytes for every 64-bit number, writes decimal digits only, and the numeral
  it returns reads back as the number, whatever the pooled memory held.
\<close>

theorem int2decimal_roundtrip:
  "\<exists>s. int2decimal mem i = Ret s \<and> dec_value s = unat i \<and> list_all (\<lambda>c. of_char c \<in> {48..57::nat}) s"
  using int2decimal_spec[of mem i] by (simp add: list_all_iff)

section \<open>Buffers that share the pool\<close>

text \<open>
  C17: any number of elastic ring buffers that share one pool behave as independent queues. Whatever program of
  writes, reads, discards and \<open>Done\<close> runs on them, in whatever order and whichever ring the pool hands out, it runs to its end
  and returns what the queues return, since a ring has one owner: a buffer or the pool.
\<close>

theorem buffers_share_pool:
  assumes "sorts_calls srt" "owners H bufs" "bufs_hold H bufs qs" "\<forall>i. length (qs i) + sum_list (map (written \<circ> snd) ops) \<le> 2 ^ 62"
  shows "\<exists>H' bufs' qs' rs. hr_run srt pct mem H bufs ops = Ret (H', bufs', rs) \<and> qs_run qs ops = (qs', rs) \<and>
    owners H' bufs' \<and> bufs_hold H' bufs' qs'"
  by (rule hr_run_independent[OF assms])

theorem buffers_share_pool_witness:
  "\<exists>H bufs rs. hr_run by_calls id (\<lambda>_ _. 0) rheap_start (\<lambda>_. None)
      [(0, BWrite None [1, 2, 3]), (1, BWrite None [4]), (0, BRead 3), (2, BWrite (Some 0) [5, 6]), (1, BRead 2), (2, BRead 1)] =
    Ret (H, bufs, rs) \<and> owners H bufs \<and> map fst rs = [[], [], [1, 2, 3], [], [4], [5]]"
  using buffers_share_pool[OF by_calls_sorts rheap_start_owners rheap_start_holds, where pct = id and mem = "\<lambda>_ _. 0" and
      ops = "[(0, BWrite None [1, 2, 3]), (1, BWrite None [4]), (0, BRead 3), (2, BWrite (Some 0) [5, 6]), (1, BRead 2), (2, BRead 1)]"]
  by fastforce

text \<open>
  when \<open>Next\<close> returns, the slice shows the first bytes of the connection, those of its ring and then those of
  the latest read, although the ring may already be in the pool; the rest is kept and no other buffer is touched.
\<close>

theorem next_slice_shown:
  assumes "owners H bufs" "bufs_hold H bufs qs" "sorts_calls srt" "n \<le> glen (qs i @ buf)"
  shows "\<exists>H' b' s. hr_Next srt pct H (bufs i) buf n =
      Ret (H', b', drop (next_count n (qs i @ buf) - length (qs i)) buf, s, None) \<and>
    sl_bytes H' s = take (next_count n (qs i @ buf)) (qs i @ buf) \<and>
    owners H' (bufs(i := b')) \<and> bufs_hold H' (bufs(i := b')) (qs(i := drop (next_count n (qs i @ buf)) (qs i)))"
  by (rule hr_Next_owned[OF assms])

theorem next_slice_shown_witness:
  "\<exists>H' s. hr_Next by_calls id rheap_start None [1, 2, 3] 2 = Ret (H', None, [3], s, None) \<and> sl_bytes H' s = [1, 2]"
  using next_slice_shown[OF rheap_start_owners rheap_start_holds by_calls_sorts, where n = 2 and i = 0 and buf = "[1, 2, 3]" and pct = id]
  by (auto simp: next_count_def hr_Next_def Let_def er_Buffered_def go_simps sl_bytes_def)

text \<open>
  C34: the slice \<open>Next\<close> returns does not stay what it was. When \<open>Next\<close> takes everything out of a ring whose
  content does not wrap, the slice lies in the memory of the ring and the ring is in the pool; the next buffer that is
  written to may get it, and what is written replaces the bytes the caller holds.
\<close>

theorem next_slice_overwritten:
  assumes "rb_rep (rh_ring H a) xs" "xs \<noteq> []" "rb_r (rh_ring H a) + glen xs \<le> rb_size (rh_ring H a)"
    and "rp_maxSize (rh_pool H) = 0" "go_index (rp_calls (rh_pool H)) (int (rp_index (rb_Len (rh_ring H a)))) = Ret c"
      "c + 1 \<le> calibrateCallsThreshold"
    and "p \<noteq> []" "glen p \<le> rb_size (rh_ring H a)"
  shows "\<exists>H1 H2 s. hr_Next srt pct H (Some a) buf (glen xs) = Ret (H1, None, buf, s, None) \<and> sl_bytes H1 s = xs \<and>
    hr_Write mem (Some 0) H1 None p = Ret (H2, Some a, glen p, None) \<and>
    sl_bytes H2 s = take (length xs) (drop (nat (rb_r (rh_ring H a))) (p @ drop (length p) (rb_buf (rh_ring H a))))"
  by (rule Next_slice_reused[OF assms])

definition held_ring :: ring where
  "held_ring = \<lparr>rb_buf = [1, 2, 3, 0], rb_size = 4, rb_r = 0, rb_w = 3, rb_isEmpty = False\<rparr>"

theorem next_slice_overwritten_witness:
  "\<exists>H1 H2 s. hr_Next by_calls id (rheap_start\<lparr>rh_ring := \<lambda>_. held_ring\<rparr>) (Some 0) [] 3 = Ret (H1, None, [], s, None) \<and>
    sl_bytes H1 s = [1, 2, 3] \<and> hr_Write (\<lambda>_ _. 0) (Some 0) H1 None [7, 8] = Ret (H2, Some 0, 2, None) \<and> sl_bytes H2 s = [7, 8, 3]"
proof -
  have "rb_rep held_ring [1, 2, 3]" by (simp add: rb_rep_def rb_inv_def rb_content_def held_ring_def)
  moreover have "go_index (rp_calls rp_zero) (int (rp_index (rb_Len held_ring))) = Ret 0" by code_simp
  ultimately show ?thesis
    using next_slice_overwritten[where H = "rheap_start\<lparr>rh_ring := \<lambda>_. held_ring\<rparr>" and a = 0 and xs = "[1, 2, 3]" and c = 0 and p = "[7, 8]" and srt = by_calls and
        pct = id and buf = "[]" and mem = "\<lambda>_ _. 0"]
    by (simp add: rheap_start_def rp_zero_def held_ring_def calibrateCallsThreshold_def)
qed

end
