(* ===== verification/Codec.thy ===== *)
theory Codec
  imports Connection
begin

text \<open>
  The length-field frame codec of \<open>codec.go\<close>. \<open>Decode\<close> talks to the \<open>Conn\<close> interface, so its definition
  takes the connection's \<open>Peek\<close> and \<open>Discard\<close> as arguments; its properties are proved from the contract
  \<open>inbound_stream\<close>, which \<open>Connection\<close> provides.
\<close>

section \<open>Model\<close>

datatype byteOrder = LittleEndian | BigEndian

record frameCodec =
  enc_ByteOrder :: byteOrder
  enc_LengthFieldLength :: int
  dec_ByteOrder :: byteOrder
  dec_LengthFieldLength :: int

definition NewLengthFieldBasedFrameCodec :: "byteOrder \<Rightarrow> int \<Rightarrow> byteOrder \<Rightarrow> int \<Rightarrow> frameCodec" where
  "NewLengthFieldBasedFrameCodec eo el do' dl =
     \<lparr>enc_ByteOrder = eo, enc_LengthFieldLength = el, dec_ByteOrder = do', dec_LengthFieldLength = dl\<rparr>"

text \<open>\<open>make([]byte, n)\<close> panics on a negative length.\<close>

definition make_bytes :: "int \<Rightarrow> byte list go" where
  "make_bytes n = (if n < 0 then Panic (PanicMsg ''makeslice: len out of range'') else Ret (replicate (nat n) 0))"

text \<open>\<open>byte(v >> (8 * i))\<close>\<close>

definition byte_at :: "nat \<Rightarrow> int \<Rightarrow> byte" where
  "byte_at i v = word_of_int (drop_bit (8 * i) v)"

text \<open>Assignments \<open>out[i0] = b0; out[i1] = b1; ...\<close>.\<close>

fun store_all :: "byte list \<Rightarrow> (int \<times> byte) list \<Rightarrow> byte list go" where
  "store_all out [] = Ret out"
| "store_all out ((i, b) # bs) = go_bind (go_store out i b) (\<lambda>out. store_all out bs)"

text \<open>\<open>PutUint16\<close> and \<open>PutUint32\<close> of \<open>encoding/binary\<close>.\<close>

definition PutUint16 :: "byteOrder \<Rightarrow> byte list \<Rightarrow> int \<Rightarrow> byte list go" where
  "PutUint16 bo out v =
     (case bo of
        LittleEndian \<Rightarrow> store_all out [(0, byte_at 0 v), (1, byte_at 1 v)]
      | BigEndian \<Rightarrow> store_all out [(0, byte_at 1 v), (1, byte_at 0 v)])"

definition PutUint32 :: "byteOrder \<Rightarrow> byte list \<Rightarrow> int \<Rightarrow> byte list go" where
  "PutUint32 bo out v =
     (case bo of
        LittleEndian \<Rightarrow>
          store_all out [(0, byte_at 0 v), (1, byte_at 1 v), (2, byte_at 2 v), (3, byte_at 3 v)]
      | BigEndian \<Rightarrow>
          store_all out [(0, byte_at 3 v), (1, byte_at 2 v), (2, byte_at 1 v), (3, byte_at 0 v)])"

definition writeUint24 :: "byteOrder \<Rightarrow> int \<Rightarrow> byte list \<Rightarrow> byte list go" where
  "writeUint24 bo v out =
     (if bo = LittleEndian
      then store_all out [(0, byte_at 0 v), (1, byte_at 1 v), (2, byte_at 2 v)]
      else store_all out [(2, byte_at 0 v), (1, byte_at 1 v), (0, byte_at 2 v)])"

definition lf_Encode :: "frameCodec \<Rightarrow> byte list \<Rightarrow> (byte list \<times> gerror option) go" where
  "lf_Encode cc buf =
     (let len = glen buf; off = enc_LengthFieldLength cc; bo = enc_ByteOrder cc
      in go_bind (make_bytes (off + len)) (\<lambda>out.
         if off = 1 \<and> len \<ge> 256 then Ret ([], Some (Errorf ''length does not fit into a byte''))
         else if off = 2 \<and> len \<ge> 65536 then
           Ret ([], Some (Errorf ''length does not fit into a short integer''))
         else if off = 3 \<and> len \<ge> 16777216 then
           Ret ([], Some (Errorf ''length does not fit into a medium integer''))
         else
           go_bind
             (if off = 1 then go_store out 0 (byte_at 0 len)
              else if off = 2 then PutUint16 bo out len
              else if off = 3 then writeUint24 bo len out
              else if off = 4 then PutUint32 bo out len
              else Ret out)
             (\<lambda>out. go_bind (go_copy_at out off buf) (\<lambda>out. Ret (out, None)))))"

text \<open>\<open>uint32(b[i]) << s | ...\<close> over the given positions; the indexing panics on a short slice.\<close>

fun load_all :: "byte list \<Rightarrow> (int \<times> nat) list \<Rightarrow> int go" where
  "load_all b [] = Ret 0"
| "load_all b ((i, k) # ps) =
     go_bind (go_index b i) (\<lambda>x. go_bind (load_all b ps) (\<lambda>v. Ret (uint x * 2 ^ (8 * k) + v)))"

definition Uint16 :: "byteOrder \<Rightarrow> byte list \<Rightarrow> int go" where
  "Uint16 bo b =
     (case bo of LittleEndian \<Rightarrow> load_all b [(1, 1), (0, 0)] | BigEndian \<Rightarrow> load_all b [(1, 0), (0, 1)])"

definition Uint32 :: "byteOrder \<Rightarrow> byte list \<Rightarrow> int go" where
  "Uint32 bo b =
     (case bo of
        LittleEndian \<Rightarrow> load_all b [(3, 3), (2, 2), (1, 1), (0, 0)]
      | BigEndian \<Rightarrow> load_all b [(3, 0), (2, 1), (1, 2), (0, 3)])"

definition readUint24 :: "byteOrder \<Rightarrow> byte list \<Rightarrow> int go" where
  "readUint24 bo b =
     (if bo = LittleEndian then load_all b [(2, 2), (1, 1), (0, 0)] else load_all b [(2, 0), (1, 1), (0, 2)])"

definition getFrameLength :: "frameCodec \<Rightarrow> byte list \<Rightarrow> int go" where
  "getFrameLength cc b =
     (let n = dec_LengthFieldLength cc; bo = dec_ByteOrder cc
      in if n = 1 then load_all b [(0, 0)]
         else if n = 2 then Uint16 bo b
         else if n = 3 then readUint24 bo b
         else Uint32 bo b)"

definition lf_Decode ::
  "('c \<Rightarrow> int \<Rightarrow> (byte list \<times> gerror option) go) \<Rightarrow> ('c \<Rightarrow> int \<Rightarrow> ('c \<times> int \<times> gerror option) go) \<Rightarrow>
   frameCodec \<Rightarrow> 'c \<Rightarrow> ('c \<times> byte list option \<times> gerror option) go" where
  "lf_Decode peek discard cc c =
     (let n = dec_LengthFieldLength cc
      in go_bind (peek c n) (\<lambda>(b, err).
         if err \<noteq> None \<or> glen b < n then Ret (c, None, err)
         else
           go_bind (getFrameLength cc b) (\<lambda>frameLength.
           let msgLength = frameLength + n
           in if msgLength \<le> 0 \<or> msgLength \<ge> 10485760 then Ret (c, None, None)
              else
                go_bind (peek c msgLength) (\<lambda>(b, err).
                if err \<noteq> None \<or> glen b < msgLength then Ret (c, None, err)
                else
                  go_bind (make_bytes frameLength) (\<lambda>fullMessage.
                  go_bind (go_slice b n (glen b)) (\<lambda>body.
                  go_bind (discard c msgLength) (\<lambda>(c, _, _).
                  Ret (c, Some (go_copy fullMessage body), None))))))))"

text \<open>A client that decodes \<open>k\<close> frames in a row.\<close>

fun decode_frames ::
  "('c \<Rightarrow> int \<Rightarrow> (byte list \<times> gerror option) go) \<Rightarrow> ('c \<Rightarrow> int \<Rightarrow> ('c \<times> int \<times> gerror option) go) \<Rightarrow>
   frameCodec \<Rightarrow> nat \<Rightarrow> 'c \<Rightarrow> ('c \<times> byte list option list) go" where
  "decode_frames peek discard cc 0 c = Ret (c, [])"
| "decode_frames peek discard cc (Suc k) c =
     go_bind (lf_Decode peek discard cc c) (\<lambda>(c, m, _).
     go_bind (decode_frames peek discard cc k c) (\<lambda>(c, ms). Ret (c, m # ms)))"

section \<open>The length field\<close>

definition header :: "byteOrder \<Rightarrow> nat \<Rightarrow> int \<Rightarrow> byte list" where
  "header bo k v =
     (let bs = map (\<lambda>i. byte_at i v) [0..<k] in if bo = LittleEndian then bs else rev bs)"

text \<open>The frame of a message, and the codecs whose two sides agree.\<close>

definition frame :: "frameCodec \<Rightarrow> byte list \<Rightarrow> byte list" where
  "frame cc buf = header (enc_ByteOrder cc) (nat (enc_LengthFieldLength cc)) (glen buf) @ buf"

definition codec_ok :: "frameCodec \<Rightarrow> bool" where
  "codec_ok cc \<longleftrightarrow> enc_ByteOrder cc = dec_ByteOrder cc \<and>
     enc_LengthFieldLength cc = dec_LengthFieldLength cc \<and> enc_LengthFieldLength cc \<in> {1, 2, 3, 4}"

definition fits :: "frameCodec \<Rightarrow> byte list \<Rightarrow> bool" where
  "fits cc buf \<longleftrightarrow> glen buf < 2 ^ (8 * nat (enc_LengthFieldLength cc)) \<and>
     glen buf + enc_LengthFieldLength cc < 10485760"

lemma upt_small: "[0..<1] = [0]" "[0..<2] = [0, 1]" "[0..<3] = [0, 1, 2]" "[0..<4] = [0, 1, 2, 3]"
  by (simp_all add: upt_rec)

lemma uint_byte_at: "uint (byte_at i v) = (v div 2 ^ (8 * i)) mod 256"
  by (simp add: byte_at_def uint_word_of_int drop_bit_eq_div)

lemma horner:
  "x * 256 + y = w \<Longrightarrow> w * 256 + z = v \<Longrightarrow> x * 65536 + (y * 256 + z) = (v::int)"
  "x * 65536 + (y * 256 + z) = w \<Longrightarrow> w * 256 + t = v \<Longrightarrow> x * 16777216 + (y * 65536 + (z * 256 + t)) = (v::int)"
  by simp_all

lemma bytes_value:
  assumes "0 \<le> (v::int)"
  shows bytes_value1: "v < 2 ^ 8 \<Longrightarrow> v mod 256 = v"
    and bytes_value2: "v < 2 ^ 16 \<Longrightarrow> v div 256 mod 256 * 256 + v mod 256 = v"
    and bytes_value3: "v < 2 ^ 24 \<Longrightarrow>
      v div 65536 mod 256 * 65536 + (v div 256 mod 256 * 256 + v mod 256) = v"
    and bytes_value4: "v < 2 ^ 32 \<Longrightarrow> v div 16777216 mod 256 * 16777216 +
      (v div 65536 mod 256 * 65536 + (v div 256 mod 256 * 256 + v mod 256)) = v"
proof -
  have one: "u mod 256 = u" if "0 \<le> u" "u < 2 ^ 8" for u :: int using that by simp
  have two: "u div 256 mod 256 * 256 + u mod 256 = u" if "0 \<le> u" "u < 2 ^ 16" for u :: int
  proof -
    have "u div 256 mod 256 = u div 256" using that by (intro one) auto
    then show ?thesis by simp
  qed
  have three: "u div 65536 mod 256 * 65536 + (u div 256 mod 256 * 256 + u mod 256) = u"
    if "0 \<le> u" "u < 2 ^ 24" for u :: int
  proof -
    have eq: "u div 65536 = u div 256 div 256" using zdiv_zmult2_eq[of 256 u 256] by simp
    have "u div 256 div 256 mod 256 * 256 + u div 256 mod 256 = u div 256" using that by (intro two) auto
    then show ?thesis unfolding eq by (rule horner(1)) simp
  qed
  show "v mod 256 = v" if "v < 2 ^ 8" using assms that by (rule one)
  show "v div 256 mod 256 * 256 + v mod 256 = v" if "v < 2 ^ 16" using assms that by (rule two)
  show "v div 65536 mod 256 * 65536 + (v div 256 mod 256 * 256 + v mod 256) = v" if "v < 2 ^ 24"
    using assms that by (rule three)
  show "v div 16777216 mod 256 * 16777216 + (v div 65536 mod 256 * 65536 +
      (v div 256 mod 256 * 256 + v mod 256)) = v" if "v < 2 ^ 32"
  proof -
    have eq: "v div 65536 = v div 256 div 256" "v div 16777216 = v div 256 div 65536"
      using zdiv_zmult2_eq[of 256 v 256] zdiv_zmult2_eq[of 65536 v 256] by simp_all
    have "v div 256 div 65536 mod 256 * 65536 + (v div 256 div 256 mod 256 * 256 + v div 256 mod 256) = v div 256"
      using assms that by (intro three) auto
    then show ?thesis unfolding eq by (rule horner(2)) simp
  qed
qed

lemma go_store_first [simp]:
  "go_store (a # r) 0 v = Ret (v # r)" "go_store (a # b # r) 1 v = Ret (a # v # r)"
  "go_store (a # b # c # r) 2 v = Ret (a # b # v # r)"
  "go_store (a # b # c # d # r) 3 v = Ret (a # b # c # v # r)"
  by (simp_all add: go_store_def numeral_eq_Suc)

lemma go_index_first [simp]:
  "go_index (a # r) 0 = Ret a" "go_index (a # b # r) 1 = Ret b"
  "go_index (a # b # c # r) 2 = Ret c" "go_index (a # b # c # d # r) 3 = Ret d"
  by (simp_all add: go_index_def numeral_eq_Suc)

lemma make_bytes_header:
  "make_bytes (1 + int n) = Ret (0 # replicate n 0)" "make_bytes (2 + int n) = Ret (0 # 0 # replicate n 0)"
  "make_bytes (3 + int n) = Ret (0 # 0 # 0 # replicate n 0)"
  "make_bytes (4 + int n) = Ret (0 # 0 # 0 # 0 # replicate n 0)"
  by (simp_all add: make_bytes_def nat_add_distrib numeral_eq_Suc)

lemma go_copy_at_header:
  "length r = length buf \<Longrightarrow> int (length h) = k \<Longrightarrow> go_copy_at (h @ r) k buf = Ret (h @ buf)"
  by (auto simp: go_copy_at_Ret)

lemma length_header [simp]: "length (header bo k v) = k"
  by (simp add: header_def Let_def)

lemmas header_bytes = header_def upt_small

lemma Encode_frame:
  assumes "enc_LengthFieldLength cc \<in> {1, 2, 3, 4}" "fits cc buf"
  shows "lf_Encode cc buf = Ret (frame cc buf, None)"
proof -
  note simps = lf_Encode_def frame_def header_bytes fits_def Let_def make_bytes_header PutUint16_def
    PutUint32_def writeUint24_def go_copy_at_header[where h = "[_]", simplified]
    go_copy_at_header[where h = "[_, _]", simplified] go_copy_at_header[where h = "[_, _, _]", simplified]
    go_copy_at_header[where h = "[_, _, _, _]", simplified]
  from assms(1) consider "enc_LengthFieldLength cc = 1" | "enc_LengthFieldLength cc = 2"
    | "enc_LengthFieldLength cc = 3" | "enc_LengthFieldLength cc = 4" by blast
  then show ?thesis
    by cases (use assms(2) in \<open>cases "enc_ByteOrder cc"; simp add: simps\<close>)+
qed

lemma digits_value:
  assumes "0 \<le> v"
  shows "v < 2 ^ 8 \<Longrightarrow> uint (byte_at 0 v) = v"
    "v < 2 ^ 16 \<Longrightarrow> uint (byte_at 1 v) * 256 + uint (byte_at 0 v) = v"
    "v < 2 ^ 24 \<Longrightarrow> uint (byte_at 2 v) * 65536 + (uint (byte_at 1 v) * 256 + uint (byte_at 0 v)) = v"
    "v < 2 ^ 32 \<Longrightarrow> uint (byte_at 3 v) * 16777216 + (uint (byte_at 2 v) * 65536 +
       (uint (byte_at 1 v) * 256 + uint (byte_at 0 v))) = v"
proof -
  have b: "uint (byte_at 0 v) = v mod 256" "uint (byte_at 1 v) = v div 256 mod 256"
    "uint (byte_at 2 v) = v div 65536 mod 256" "uint (byte_at 3 v) = v div 16777216 mod 256"
    by (simp_all add: uint_byte_at)
  show "v < 2 ^ 8 \<Longrightarrow> uint (byte_at 0 v) = v"
    "v < 2 ^ 16 \<Longrightarrow> uint (byte_at 1 v) * 256 + uint (byte_at 0 v) = v"
    "v < 2 ^ 24 \<Longrightarrow> uint (byte_at 2 v) * 65536 + (uint (byte_at 1 v) * 256 + uint (byte_at 0 v)) = v"
    "v < 2 ^ 32 \<Longrightarrow> uint (byte_at 3 v) * 16777216 + (uint (byte_at 2 v) * 65536 +
       (uint (byte_at 1 v) * 256 + uint (byte_at 0 v))) = v"
    unfolding b by (fact bytes_value[OF assms])+
qed

text \<open>What the decoder reads back from the bytes of a length field, in either byte order.\<close>

lemma load_header:
  "load_all [x] [(0, 0)] = Ret (uint x)"
  "Uint16 LittleEndian [x, y] = Ret (uint y * 256 + uint x)" "Uint16 BigEndian [y, x] = Ret (uint y * 256 + uint x)"
  "readUint24 LittleEndian [x, y, z] = Ret (uint z * 65536 + (uint y * 256 + uint x))"
  "readUint24 BigEndian [z, y, x] = Ret (uint z * 65536 + (uint y * 256 + uint x))"
  "Uint32 LittleEndian [x, y, z, t] = Ret (uint t * 16777216 + (uint z * 65536 + (uint y * 256 + uint x)))"
  "Uint32 BigEndian [t, z, y, x] = Ret (uint t * 16777216 + (uint z * 65536 + (uint y * 256 + uint x)))"
  by (simp_all add: Uint16_def Uint32_def readUint24_def)

lemma getFrameLength_header:
  assumes "codec_ok cc" "0 \<le> v" "v < 2 ^ (8 * nat (enc_LengthFieldLength cc))"
  shows "getFrameLength cc (header (enc_ByteOrder cc) (nat (enc_LengthFieldLength cc)) v) = Ret v"
proof -
  let ?n = "enc_LengthFieldLength cc"
  have cc: "dec_ByteOrder cc = enc_ByteOrder cc" "dec_LengthFieldLength cc = ?n"
    using assms(1) by (auto simp: codec_ok_def)
  note simps = getFrameLength_def header_bytes Let_def cc load_header
  note dv = digits_value[OF assms(2)]
  from assms(1) consider "?n = 1" | "?n = 2" | "?n = 3" | "?n = 4" unfolding codec_ok_def by auto
  then show ?thesis
  proof cases
    case 1
    then show ?thesis using dv(1) assms(3) by (simp add: simps)
  next
    case 2
    then show ?thesis using dv(2) assms(3) by (cases "enc_ByteOrder cc") (simp_all add: simps)
  next
    case 3
    then show ?thesis using dv(3) assms(3) by (cases "enc_ByteOrder cc") (simp_all add: simps)
  next
    case 4
    then show ?thesis using dv(4) assms(3) by (cases "enc_ByteOrder cc") (simp_all add: simps)
  qed
qed

section \<open>Decoding\<close>

context inbound_stream
begin

text \<open>How \<open>Decode\<close> goes on once the length field is there.\<close>

lemma decode_header:
  assumes cc: "codec_ok cc" and len: "0 \<le> v" "v < 2 ^ (8 * nat (enc_LengthFieldLength cc))"
    and c: "holds c (header (enc_ByteOrder cc) (nat (enc_LengthFieldLength cc)) v @ xs)"
  shows "lf_Decode peekc discardc cc c =
    (let n = enc_LengthFieldLength cc in
     if v + n \<ge> 10485760 then Ret (c, None, None)
     else go_bind (peekc c (v + n)) (\<lambda>(b, err).
       if err \<noteq> None \<or> glen b < v + n then Ret (c, None, err)
       else go_bind (make_bytes v) (\<lambda>fullMessage.
            go_bind (go_slice b n (glen b)) (\<lambda>body.
            go_bind (discardc c (v + n)) (\<lambda>(c, _, _). Ret (c, Some (go_copy fullMessage body), None))))))"
proof -
  let ?n = "enc_LengthFieldLength cc" and ?h = "header (enc_ByteOrder cc) (nat (enc_LengthFieldLength cc)) v"
  have n: "0 < ?n" "dec_LengthFieldLength cc = ?n" using cc by (auto simp: codec_ok_def)
  have "peekc c ?n = Ret (take (nat ?n) (?h @ xs), None)" using n by (intro peekc_some[OF c]) auto
  then have "peekc c ?n = Ret (?h, None)" by simp
  moreover have "\<not> v + ?n \<le> 0" using n len by simp
  ultimately show ?thesis
    using n getFrameLength_header[OF cc len] by (simp add: lf_Decode_def Let_def)
qed

lemma decode_frame:
  assumes cc: "codec_ok cc" and fit: "fits cc buf" and c: "holds c (frame cc buf @ rest)"
  shows "\<exists>c'. lf_Decode peekc discardc cc c = Ret (c', Some buf, None) \<and> holds c' rest"
proof -
  let ?n = "enc_LengthFieldLength cc" and ?m = "glen buf + enc_LengthFieldLength cc"
  have n: "0 < ?n" using cc by (auto simp: codec_ok_def)
  have len: "glen (frame cc buf) = ?m" using n by (simp add: frame_def)
  then have m: "0 < ?m" "?m \<le> glen (frame cc buf @ rest)" "nat ?m = length (frame cc buf)"
    using n by auto
  have pk: "peekc c ?m = Ret (frame cc buf, None)" using peekc_some[OF c m(1,2)] m(3) by simp
  obtain c' where c': "discardc c ?m = Ret (c', ?m, None)" "holds c' rest"
    using discardc_some[OF c m(1,2)] m(3) by auto
  have "go_slice (frame cc buf) ?n (glen (frame cc buf)) = Ret buf"
    using n by (simp add: frame_def go_slice_Ret)
  moreover have "lf_Decode peekc discardc cc c = (if ?m \<ge> 10485760 then Ret (c, None, None)
     else go_bind (peekc c ?m) (\<lambda>(b, err).
       if err \<noteq> None \<or> glen b < ?m then Ret (c, None, err)
       else go_bind (make_bytes (glen buf)) (\<lambda>fullMessage.
            go_bind (go_slice b ?n (glen b)) (\<lambda>body.
            go_bind (discardc c ?m) (\<lambda>(c, _, _). Ret (c, Some (go_copy fullMessage body), None))))))"
    using decode_header[OF cc, of "glen buf" c "buf @ rest"] fit c by (simp add: fits_def frame_def Let_def)
  ultimately show ?thesis
    using pk c' len fit by (simp add: fits_def make_bytes_def)
qed

text \<open>While a frame is incomplete, nothing is consumed.\<close>

lemma decode_incomplete:
  assumes cc: "codec_ok cc" and fit: "fits cc buf" and xs: "frame cc buf = xs @ ys" "ys \<noteq> []"
    and c: "holds c xs"
  shows "lf_Decode peekc discardc cc c = Ret (c, None, Some ErrShortBuffer)"
proof -
  let ?n = "enc_LengthFieldLength cc"
  let ?h = "header (enc_ByteOrder cc) (nat ?n) (glen buf)"
  have n: "0 < ?n" "dec_LengthFieldLength cc = ?n" using cc by (auto simp: codec_ok_def)
  show ?thesis
  proof (cases "glen xs < ?n")
    case True
    then show ?thesis using peekc_short[OF c] n by (simp add: lf_Decode_def Let_def)
  next
    case False
    have "xs @ ys = ?h @ buf" using xs(1) by (simp add: frame_def)
    then obtain us where "xs = ?h @ us \<and> us @ ys = buf \<or> xs @ us = ?h \<and> ys = us @ buf"
      unfolding append_eq_append_conv2 by blast
    moreover have "length ?h \<le> length xs" using False n by simp
    then have "us = [] \<and> ?h = xs" if "xs @ us = ?h" using that by (metis append_Nil2 append_eq_conv_conj take_all)
    ultimately have us: "xs = ?h @ us" "buf = us @ ys" by auto
    have "glen xs < glen buf + ?n" using us xs(2) n by (cases ys) auto
    moreover have c': "holds c (?h @ us)" using c unfolding us(1) by simp
    ultimately show ?thesis
      using decode_header[OF cc, of "glen buf" c us] fit peekc_short[OF c] us n by (simp add: fits_def Let_def)
  qed
qed

text \<open>A frame that announces 10 MB or more is never decoded and never dropped.\<close>

lemma decode_oversized:
  assumes cc: "codec_ok cc" and len: "0 \<le> v" "v < 2 ^ (8 * nat (enc_LengthFieldLength cc))"
    and big: "10485760 \<le> v + enc_LengthFieldLength cc"
    and c: "holds c (header (enc_ByteOrder cc) (nat (enc_LengthFieldLength cc)) v @ xs)"
  shows "lf_Decode peekc discardc cc c = Ret (c, None, None)"
  using decode_header[OF cc len c] big by (simp add: Let_def)

lemma decode_all_frames:
  assumes cc: "codec_ok cc" and fit: "\<forall>m\<in>set ms. fits cc m"
    and c: "holds c (concat (map (frame cc) ms) @ rest)"
  shows "\<exists>c'. decode_frames peekc discardc cc (length ms) c = Ret (c', map Some ms) \<and> holds c' rest"
  using fit c
proof (induction ms arbitrary: c)
  case (Cons m ms)
  have "holds c (frame cc m @ concat (map (frame cc) ms) @ rest)" using Cons.prems(2) by simp
  moreover have "fits cc m" using Cons.prems(1) by simp
  ultimately obtain c1 where c1: "lf_Decode peekc discardc cc c = Ret (c1, Some m, None)"
    "holds c1 (concat (map (frame cc) ms) @ rest)" using decode_frame[OF cc] by blast
  then obtain c' where "decode_frames peekc discardc cc (length ms) c1 = Ret (c', map Some ms)" "holds c' rest"
    using Cons.IH[OF _ c1(2)] Cons.prems(1) by auto
  with c1(1) show ?case by simp
qed simp

end

end
