(* ===== verification/StreamProperties.thy ===== *)
theory StreamProperties
  imports Codec
begin

text \<open>
  The properties of the inbound side of a connection (\<open>src/connection.go\<close>) and of the frame codec that reads
  from it (\<open>src/codec.go\<close>).
\<close>

section \<open>A concrete connection and codec\<close>

definition demo_conn :: "byte list \<Rightarrow> conn" where
  "demo_conn xs = (newTCPConn 64 7 None None None)\<lparr>c_buf := xs\<rparr>"

lemma demo_conn_holds: "c_holds (demo_conn xs) xs"
  by (simp add: demo_conn_def newTCPConn_def c_holds_def er_rep_def er_zero_def)

definition demo_codec :: frameCodec where
  "demo_codec = NewLengthFieldBasedFrameCodec BigEndian 2 BigEndian 2"

lemma demo_codec_ok: "codec_ok demo_codec"
  by (simp add: codec_ok_def demo_codec_def NewLengthFieldBasedFrameCodec_def)

lemma demo_codec_fits: "length m < 60000 \<Longrightarrow> fits demo_codec m"
  by (simp add: fits_def demo_codec_def NewLengthFieldBasedFrameCodec_def)

section \<open>Reading from a connection\<close>



text \<open>
  \<open>Discard\<close> with a number that is not positive drops everything that is buffered, and with one larger
  than that it reports no error, although the interface promises the opposite on both counts.
\<close>

theorem conn_Discard_all:
  assumes "c_holds c xs" "n \<le> 0 \<or> n > glen xs"
  shows "\<exists>c'. c_Discard c n = Ret (c', glen xs, None) \<and> c_holds c' []"
  using c_Discard_spec[OF assms(1), of n] assms(2) by (auto split: if_splits)

theorem conn_Discard_all_witness: "\<exists>c'. c_Discard (demo_conn [1, 2, 3]) 0 = Ret (c', 3, None) \<and> c_holds c' []"
  using conn_Discard_all[OF demo_conn_holds[of "[1, 2, 3]"], of 0] by simp

section \<open>Frames\<close>



text \<open>
  as long as a frame has not arrived completely, decoding reports \<open>ErrShortBuffer\<close> and consumes nothing,
  so that the decoder can be called again with more data.
\<close>

theorem codec_waits:
  assumes "codec_ok cc" "fits cc m" "frame cc m = xs @ ys" "ys \<noteq> []" "c_holds c xs"
  shows "lf_Decode c_Peek c_Discard cc c = Ret (c, None, Some ErrShortBuffer)"
  by (rule conn_in.decode_incomplete[OF assms])

theorem codec_waits_witness:
  "lf_Decode c_Peek c_Discard demo_codec (demo_conn [0, 2, 5]) = Ret (demo_conn [0, 2, 5], None, Some ErrShortBuffer)"
proof (rule codec_waits[OF demo_codec_ok demo_codec_fits _ _ demo_conn_holds])
  show "frame demo_codec [5, 6] = [0, 2, 5] @ [6]"
    by (simp add: frame_def header_def demo_codec_def NewLengthFieldBasedFrameCodec_def byte_at_def upt_small)
qed simp_all

text \<open>
  a length field that announces ten megabytes or more blocks the stream for good: decoding returns
  neither a message nor an error and leaves the frame where it is.
\<close>

theorem codec_blocks:
  assumes "codec_ok cc" "0 \<le> v" "v < 2 ^ (8 * nat (enc_LengthFieldLength cc))"
    and "10485760 \<le> v + enc_LengthFieldLength cc"
    and "c_holds c (header (enc_ByteOrder cc) (nat (enc_LengthFieldLength cc)) v @ xs)"
  shows "lf_Decode c_Peek c_Discard cc c = Ret (c, None, None)"
  by (rule conn_in.decode_oversized[OF assms])

theorem codec_blocks_witness:
  "lf_Decode c_Peek c_Discard (NewLengthFieldBasedFrameCodec LittleEndian 3 LittleEndian 3)
     (demo_conn (header LittleEndian 3 (2 ^ 24 - 1) @ [1])) =
   Ret (demo_conn (header LittleEndian 3 (2 ^ 24 - 1) @ [1]), None, None)"
  by (rule codec_blocks[where v = "2 ^ 24 - 1" and xs = "[1]"])
    (use demo_conn_holds[of "header LittleEndian 3 (2 ^ 24 - 1) @ [1]"] in
      \<open>simp_all add: codec_ok_def NewLengthFieldBasedFrameCodec_def\<close>)

end
