(* ===== verification/LockFreeQueue.thy ===== *)
theory LockFreeQueue
  imports Prelude
begin

text \<open>
  The task queue of \<open>internal/queue/lock_free_queue.go\<close>, a linked list with a dummy node, operated on by any
  number of goroutines without a lock. Every access to shared memory, an atomic load, a compare-and-swap or an
  atomic addition, is one step of the goroutine that makes it, and the steps of different goroutines interleave
  in any order. The constructors of \<open>pc\<close> are the points between two accesses, with the local variables that are
  live there. A node is an address; a node that a goroutine can still reach is not collected, so that addresses
  are never reused.

  The theorems: no step dereferences nil, the operations take effect in the order of a sequential queue at one
  step each (linearizability), the counter \<open>length\<close> is off by exactly the calls that are between their effect and
  their update of the counter, and a goroutine that runs alone finishes within a fixed number of steps.
\<close>

section \<open>The code\<close>

record 'a lfq =
  q_head :: nat
  q_tail :: nat
  q_length :: int
  q_next :: "nat \<Rightarrow> nat option"
  q_value :: "nat \<Rightarrow> 'a option"
  q_fresh :: nat

definition NewLockFreeQueue :: "'a lfq" where
  "NewLockFreeQueue =
     \<lparr>q_head = 0, q_tail = 0, q_length = 0, q_next = (\<lambda>_. None), q_value = (\<lambda>_. None), q_fresh = 1\<rparr>"

text \<open>
  \<open>ELoadTail\<close> to \<open>EHelp\<close> are the loop of \<open>Enqueue\<close>, \<open>DLoadHead\<close> to \<open>DSwing\<close> the one of \<open>Dequeue\<close>; \<open>EDone\<close> and
  \<open>DDone\<close> are the points where they return.
\<close>

datatype 'a pc =
    Idle
  | EAlloc 'a
  | ELoadTail nat
  | ELoadNext nat nat
  | ECheck nat nat "nat option"
  | ELink nat nat
  | ESwing nat nat
  | ECount nat
  | EHelp nat nat nat
  | EDone nat
  | DLoadHead
  | DLoadTail nat
  | DLoadNext nat nat
  | DCheck nat nat "nat option"
  | DHelp nat nat
  | DValue nat "nat option"
  | DSwing nat nat "'a option"
  | DCount "'a option"
  | DDone "'a option"

definition cas_tail :: "'a lfq \<Rightarrow> nat \<Rightarrow> nat \<Rightarrow> 'a lfq" where
  "cas_tail q old new = (if q_tail q = old then q\<lparr>q_tail := new\<rparr> else q)"

fun lf_step :: "'a lfq \<Rightarrow> 'a pc \<Rightarrow> ('a lfq \<times> 'a pc) go" where
  "lf_step q Idle = Ret (q, Idle)"
| "lf_step q (EAlloc v) =
     (let n = q_fresh q
      in Ret (q\<lparr>q_fresh := Suc n, q_value := (q_value q)(n := Some v), q_next := (q_next q)(n := None)\<rparr>, ELoadTail n))"
| "lf_step q (ELoadTail n) = Ret (q, ELoadNext n (q_tail q))"
| "lf_step q (ELoadNext n tail) = Ret (q, ECheck n tail (q_next q tail))"
| "lf_step q (ECheck n tail nx) =
     Ret (q, if tail = q_tail q then case nx of None \<Rightarrow> ELink n tail | Some m \<Rightarrow> EHelp n tail m else ELoadTail n)"
| "lf_step q (ELink n tail) =
     Ret (if q_next q tail = None then (q\<lparr>q_next := (q_next q)(tail := Some n)\<rparr>, ESwing n tail) else (q, ELoadTail n))"
| "lf_step q (ESwing n tail) = Ret (cas_tail q tail n, ECount n)"
| "lf_step q (ECount n) = Ret (q\<lparr>q_length := q_length q + 1\<rparr>, EDone n)"
| "lf_step q (EHelp n tail m) = Ret (cas_tail q tail m, ELoadTail n)"
| "lf_step q (EDone n) = Ret (q, Idle)"
| "lf_step q DLoadHead = Ret (q, DLoadTail (q_head q))"
| "lf_step q (DLoadTail head) = Ret (q, DLoadNext head (q_tail q))"
| "lf_step q (DLoadNext head tail) = Ret (q, DCheck head tail (q_next q head))"
| "lf_step q (DCheck head tail nx) =
     Ret (q, if head = q_head q then
               if head = tail then case nx of None \<Rightarrow> DDone None | Some m \<Rightarrow> DHelp tail m
               else DValue head nx
             else DLoadHead)"
| "lf_step q (DHelp tail m) = Ret (cas_tail q tail m, DLoadHead)"
| "lf_step q (DValue head nx) =
     (case nx of None \<Rightarrow> Panic NilDereference | Some m \<Rightarrow> Ret (q, DSwing head m (q_value q m)))"
| "lf_step q (DSwing head m v) =
     Ret (if q_head q = head then (q\<lparr>q_head := m\<rparr>, DCount v) else (q, DLoadHead))"
| "lf_step q (DCount v) = Ret (q\<lparr>q_length := q_length q - 1\<rparr>, DDone v)"
| "lf_step q (DDone v) = Ret (q, Idle)"

definition lf_IsEmpty :: "'a lfq \<Rightarrow> bool" where
  "lf_IsEmpty q \<longleftrightarrow> q_length q = 0"

section \<open>Interleaved calls\<close>

text \<open>
  A history of the calls and of their effects. An effect belongs to one step: linking the node for \<open>Enqueue\<close>,
  moving the head for \<open>Dequeue\<close>, and reading a nil successor of the head for a \<open>Dequeue\<close> that finds the queue
  empty. The history is not part of the program.
\<close>

datatype 'a qev = Call | Enq "'a option" | Deq "'a option" | Empty

fun lf_event :: "'a lfq \<Rightarrow> 'a pc \<Rightarrow> 'a qev option" where
  "lf_event q (ELink n tail) = (if q_next q tail = None then Some (Enq (q_value q n)) else None)"
| "lf_event q (DLoadNext head tail) = (if q_next q head = None then Some Empty else None)"
| "lf_event q (DSwing head m v) = (if q_head q = head then Some (Deq v) else None)"
| "lf_event q _ = None"

record 'a lsys =
  sy_q :: "'a lfq"
  sy_pc :: "nat \<Rightarrow> 'a pc"
  sy_hist :: "(nat \<times> 'a qev) list"

definition sys_start :: "'a lsys" where
  "sys_start = \<lparr>sy_q = NewLockFreeQueue, sy_pc = (\<lambda>_. Idle), sy_hist = []\<rparr>"

inductive sys_step :: "'a lsys \<Rightarrow> 'a lsys \<Rightarrow> bool" where
  enqueue: "sy_pc s t = Idle \<Longrightarrow>
    sys_step s (s\<lparr>sy_pc := (sy_pc s)(t := EAlloc v), sy_hist := sy_hist s @ [(t, Call)]\<rparr>)"
| dequeue: "sy_pc s t = Idle \<Longrightarrow>
    sys_step s (s\<lparr>sy_pc := (sy_pc s)(t := DLoadHead), sy_hist := sy_hist s @ [(t, Call)]\<rparr>)"
| run: "lf_step (sy_q s) (sy_pc s t) = Ret (q', p') \<Longrightarrow>
    sys_step s \<lparr>sy_q = q', sy_pc = (sy_pc s)(t := p'),
      sy_hist = sy_hist s @ (case lf_event (sy_q s) (sy_pc s t) of None \<Rightarrow> [] | Some e \<Rightarrow> [(t, e)])\<rparr>"

text \<open>The sequential queue the history has to agree with.\<close>

fun fifo_event :: "'a list \<Rightarrow> 'a qev \<Rightarrow> 'a list option" where
  "fifo_event xs Call = Some xs"
| "fifo_event xs (Enq v) = map_option (\<lambda>x. xs @ [x]) v"
| "fifo_event xs (Deq v) = (if xs \<noteq> [] \<and> v = Some (hd xs) then Some (tl xs) else None)"
| "fifo_event xs Empty = (if xs = [] then Some [] else None)"

fun fifo_run :: "'a list \<Rightarrow> (nat \<times> 'a qev) list \<Rightarrow> 'a list option" where
  "fifo_run xs [] = Some xs"
| "fifo_run xs ((t, e) # h) = Option.bind (fifo_event xs e) (\<lambda>xs. fifo_run xs h)"

section \<open>The invariant\<close>

text \<open>
  \<open>ns\<close> are all nodes that have ever been linked, in order; the head is the node at \<open>i\<close>, the tail the one at \<open>j\<close>,
  which is the last node or the one before it. \<open>pc_ok\<close> says what a goroutine knows of its local variables, which
  other goroutines never invalidate: positions in \<open>ns\<close> stay, and \<open>i\<close> and \<open>j\<close> only grow.
\<close>

definition at_pos :: "nat list \<Rightarrow> nat \<Rightarrow> nat \<Rightarrow> bool" where
  "at_pos ns k n \<longleftrightarrow> k < length ns \<and> ns ! k = n"

definition q_ok :: "'a lfq \<Rightarrow> nat list \<Rightarrow> nat \<Rightarrow> nat \<Rightarrow> bool" where
  "q_ok q ns i j \<longleftrightarrow> distinct ns \<and> (\<forall>n\<in>set ns. n < q_fresh q) \<and>
     (\<forall>k<length ns. q_next q (ns ! k) = (if Suc k < length ns then Some (ns ! Suc k) else None)) \<and>
     (\<forall>k<length ns. 0 < k \<longrightarrow> q_value q (ns ! k) \<noteq> None) \<and>
     i \<le> j \<and> length ns \<le> j + 2 \<and> at_pos ns i (q_head q) \<and> at_pos ns j (q_tail q)"

definition unlinked :: "'a lfq \<Rightarrow> nat list \<Rightarrow> nat \<Rightarrow> bool" where
  "unlinked q ns n \<longleftrightarrow> n \<notin> set ns \<and> n < q_fresh q \<and> q_next q n = None \<and> q_value q n \<noteq> None"

fun pc_ok :: "'a lfq \<Rightarrow> nat list \<Rightarrow> nat \<Rightarrow> nat \<Rightarrow> 'a pc \<Rightarrow> bool" where
  "pc_ok q ns i j (ELoadTail n) \<longleftrightarrow> unlinked q ns n"
| "pc_ok q ns i j (ELoadNext n tail) \<longleftrightarrow> unlinked q ns n \<and> (\<exists>k\<le>j. at_pos ns k tail)"
| "pc_ok q ns i j (ECheck n tail nx) \<longleftrightarrow> unlinked q ns n \<and> (\<exists>k\<le>j. at_pos ns k tail \<and> (\<forall>m. nx = Some m \<longrightarrow> at_pos ns (Suc k) m))"
| "pc_ok q ns i j (ELink n tail) \<longleftrightarrow> unlinked q ns n \<and> (\<exists>k\<le>j. at_pos ns k tail)"
| "pc_ok q ns i j (ESwing n tail) \<longleftrightarrow> (\<exists>k. at_pos ns k tail \<and> at_pos ns (Suc k) n)"
| "pc_ok q ns i j (EHelp n tail m) \<longleftrightarrow> unlinked q ns n \<and> (\<exists>k. at_pos ns k tail \<and> at_pos ns (Suc k) m)"
| "pc_ok q ns i j (DLoadTail head) \<longleftrightarrow> (\<exists>k\<le>i. at_pos ns k head)"
| "pc_ok q ns i j (DLoadNext head tail) \<longleftrightarrow> (\<exists>k l. k \<le> i \<and> k \<le> l \<and> l \<le> j \<and> at_pos ns k head \<and> at_pos ns l tail)"
| "pc_ok q ns i j (DCheck head tail nx) \<longleftrightarrow> (\<exists>k l. k \<le> i \<and> k \<le> l \<and> l \<le> j \<and> at_pos ns k head \<and> at_pos ns l tail \<and>
     (nx = None \<longrightarrow> k = l) \<and> (\<forall>m. nx = Some m \<longrightarrow> at_pos ns (Suc k) m))"
| "pc_ok q ns i j (DHelp tail m) \<longleftrightarrow> (\<exists>k. at_pos ns k tail \<and> at_pos ns (Suc k) m)"
| "pc_ok q ns i j (DValue head nx) \<longleftrightarrow> (\<exists>k m. nx = Some m \<and> k \<le> i \<and> Suc k \<le> j \<and> at_pos ns k head \<and> at_pos ns (Suc k) m)"
| "pc_ok q ns i j (DSwing head m v) \<longleftrightarrow> v = q_value q m \<and> (\<exists>k. k \<le> i \<and> Suc k \<le> j \<and> at_pos ns k head \<and> at_pos ns (Suc k) m)"
| "pc_ok q ns i j (ECount n) \<longleftrightarrow> n \<in> set ns"
| "pc_ok q ns i j (EDone n) \<longleftrightarrow> n \<in> set ns"
| "pc_ok q ns i j _ \<longleftrightarrow> True"

definition absq :: "'a lfq \<Rightarrow> nat list \<Rightarrow> nat \<Rightarrow> 'a list" where
  "absq q ns i = map (\<lambda>n. the (q_value q n)) (drop (Suc i) ns)"

fun own :: "'a pc \<Rightarrow> nat option" where
  "own (ELoadTail n) = Some n"
| "own (ELoadNext n tail) = Some n"
| "own (ECheck n tail nx) = Some n"
| "own (ELink n tail) = Some n"
| "own (EHelp n tail m) = Some n"
| "own _ = None"

definition later :: "'a lfq \<Rightarrow> nat list \<Rightarrow> nat \<Rightarrow> nat \<Rightarrow> nat option \<Rightarrow> 'a lfq \<Rightarrow> nat list \<Rightarrow> nat \<Rightarrow> nat \<Rightarrow> bool" where
  "later q ns i j n q' ns' i' j' \<longleftrightarrow> (\<exists>ys. ns' = ns @ ys \<and> set ys \<subseteq> set_option n) \<and> i \<le> i' \<and> j \<le> j' \<and> q_fresh q \<le> q_fresh q' \<and>
     (\<forall>m<q_fresh q. q_value q' m = q_value q m) \<and>
     (\<forall>m<q_fresh q. m \<notin> set ns \<longrightarrow> q_next q' m = q_next q m)"

section \<open>Steps keep the invariant\<close>

lemma at_append: "at_pos ns k n \<Longrightarrow> at_pos (ns @ ys) k n"
  by (simp add: at_pos_def nth_append)

lemma at_inj: "distinct ns \<Longrightarrow> at_pos ns k n \<Longrightarrow> at_pos ns l n \<Longrightarrow> k = l"
  by (auto simp: at_pos_def nth_eq_iff_index_eq)

lemma at_fun: "at_pos ns k n \<Longrightarrow> at_pos ns k m \<Longrightarrow> n = m"
  by (simp add: at_pos_def)

lemma at_mem: "at_pos ns k n \<Longrightarrow> n \<in> set ns"
  by (auto simp: at_pos_def)

lemma pc_ok_later:
  assumes "later q ns i j n q' ns' i' j'" "pc_ok q ns i j p" "own p \<noteq> n \<or> n = None" "\<forall>m\<in>set ns. m < q_fresh q"
  shows "pc_ok q' ns' i' j' p"
proof -
  obtain ys where ns': "ns' = ns @ ys" "set ys \<subseteq> set_option n" and le: "i \<le> i'" "j \<le> j'" using assms(1) by (auto simp: later_def)
  have priv: "unlinked q' ns' m" if "unlinked q ns m" "own p = Some m" for m
    using that assms(1,3) ns' by (auto simp: unlinked_def later_def)
  have a: "at_pos ns' k m" if "at_pos ns k m" for k m using that ns' by (simp add: at_append)
  have v: "q_value q' m = q_value q m" if "at_pos ns k m" for k m
    using assms(1,4) at_mem[OF that] by (auto simp: later_def)
  have le: "\<And>k. k \<le> i \<Longrightarrow> k \<le> i'" "\<And>k. k \<le> j \<Longrightarrow> k \<le> j'" using le by auto
  have mem: "m \<in> set ns'" if "m \<in> set ns" for m using that ns'(1) by simp
  show ?thesis
  proof (cases p)
    case (DSwing head m x)
    with assms(2) obtain k where "x = q_value q m" "k \<le> i" "Suc k \<le> j" "at_pos ns k head" "at_pos ns (Suc k) m"
      by (simp only: pc_ok.simps) blast
    with le a v show ?thesis unfolding DSwing pc_ok.simps by (intro conjI exI[of _ k]) auto
  next
    case (DCheck head tail nx)
    with assms(2) obtain k l where "k \<le> i" "k \<le> l" "l \<le> j" "at_pos ns k head" "at_pos ns l tail" "nx = None \<longrightarrow> k = l"
      "\<forall>m. nx = Some m \<longrightarrow> at_pos ns (Suc k) m" by (simp only: pc_ok.simps) blast
    with le a show ?thesis unfolding DCheck pc_ok.simps by - (rule exI[of _ k], rule exI[of _ l], auto)
  next
    case (DValue head nx)
    with assms(2) obtain k m where "nx = Some m" "k \<le> i" "Suc k \<le> j" "at_pos ns k head" "at_pos ns (Suc k) m"
      by (simp only: pc_ok.simps) blast
    with le a show ?thesis unfolding DValue pc_ok.simps by - (rule exI[of _ k], rule exI[of _ m], auto)
  next
    case (DLoadNext head tail)
    with assms(2) obtain k l where "k \<le> i" "k \<le> l" "l \<le> j" "at_pos ns k head" "at_pos ns l tail"
      by (simp only: pc_ok.simps) blast
    with le a show ?thesis unfolding DLoadNext pc_ok.simps by - (rule exI[of _ k], rule exI[of _ l], auto)
  qed (use assms(2) le a priv mem in auto, (blast intro: le a)+)
qed

definition lf_effect :: "'a lfq \<Rightarrow> nat list \<Rightarrow> nat \<Rightarrow> 'a qev option \<Rightarrow> 'a lfq \<Rightarrow> nat list \<Rightarrow> nat \<Rightarrow> bool" where
  "lf_effect q ns i e q' ns' i' \<longleftrightarrow>
     (case e of None \<Rightarrow> absq q' ns' i' = absq q ns i | Some e \<Rightarrow> fifo_event (absq q ns i) e = Some (absq q' ns' i'))"

lemma q_okD:
  assumes "q_ok q ns i j"
  shows "distinct ns" "\<forall>n\<in>set ns. n < q_fresh q" "i \<le> j" "length ns \<le> j + 2" "at_pos ns i (q_head q)" "at_pos ns j (q_tail q)"
    and "at_pos ns k n \<Longrightarrow> q_next q n = (if Suc k < length ns then Some (ns ! Suc k) else None)"
    and "at_pos ns (Suc k) n \<Longrightarrow> q_value q n \<noteq> None"
  using assms by (auto simp: q_ok_def at_pos_def)

lemma later_refl: "later q ns i j None q ns i j"
  by (simp add: later_def)

lemma cas_tail_ok:
  assumes q: "q_ok q ns i j" and k: "at_pos ns k old" "at_pos ns (Suc k) new"
  shows "\<exists>j'. later q ns i j None (cas_tail q old new) ns i j' \<and> q_ok (cas_tail q old new) ns i j' \<and>
    absq (cas_tail q old new) ns i = absq q ns i"
proof (cases "q_tail q = old")
  case True
  have "k = j" using at_inj[OF q_okD(1)[OF q] k(1)] q_okD(6)[OF q] True by simp
  then have "q_ok (q\<lparr>q_tail := new\<rparr>) ns i (Suc j)" using q k(2) by (auto simp: q_ok_def)
  moreover have "later q ns i j None (q\<lparr>q_tail := new\<rparr>) ns i (Suc j)" by (simp add: later_def)
  ultimately show ?thesis using True by (auto simp: cas_tail_def absq_def)
next
  case False
  then show ?thesis using q later_refl[of q ns i j] by (auto simp: cas_tail_def)
qed

lemma link_ok:
  assumes q: "q_ok q ns i j" and n: "unlinked q ns n" and k: "k \<le> j" "at_pos ns k tail" and free: "q_next q tail = None"
  defines "q' \<equiv> q\<lparr>q_next := (q_next q)(tail := Some n)\<rparr>"
  shows "later q ns i j (Some n) q' (ns @ [n]) i j" "q_ok q' (ns @ [n]) i j" "at_pos (ns @ [n]) j tail" "Suc j = length ns"
    and "fifo_event (absq q ns i) (Enq (q_value q n)) = Some (absq q' (ns @ [n]) i)"
proof -
  have last: "\<not> Suc k < length ns" using q_okD(7)[OF q k(2)] free by (auto split: if_splits)
  then have "k = j" using k q_okD(6)[OF q] by (simp add: at_pos_def)
  with last have kj: "Suc j = length ns" "tail = ns ! j" using k q_okD(6)[OF q] by (auto simp: at_pos_def)
  then show "Suc j = length ns" "at_pos (ns @ [n]) j tail" by (auto simp: at_pos_def nth_append)
  show "later q ns i j (Some n) q' (ns @ [n]) i j"
    using at_mem[OF k(2)] by (auto simp: later_def q'_def)
  have nx: "q_next q' ((ns @ [n]) ! l) = (if Suc l < length (ns @ [n]) then Some ((ns @ [n]) ! Suc l) else None)"
    if "l < length (ns @ [n])" for l
  proof (cases "l < length ns")
    case True
    then have a: "at_pos ns l (ns ! l)" by (simp add: at_pos_def)
    show ?thesis
    proof (cases "l = j")
      case True
      then show ?thesis using kj by (simp add: q'_def nth_append)
    next
      case False
      then have "ns ! l \<noteq> tail" using True kj q_okD(1)[OF q] by (auto simp: nth_eq_iff_index_eq)
      moreover have "Suc l < length ns" using True False kj by simp
      ultimately show ?thesis using q_okD(7)[OF q a] by (simp add: q'_def nth_append)
    qed
  next
    case False
    then have "l = length ns" using that by simp
    moreover have "n \<noteq> tail" using n at_mem[OF k(2)] by (auto simp: unlinked_def)
    ultimately show ?thesis using n by (simp add: q'_def unlinked_def)
  qed
  have val: "q_value q' ((ns @ [n]) ! l) \<noteq> None" if "l < length (ns @ [n])" "0 < l" for l
    using that q n by (cases "l < length ns") (auto simp: q'_def q_ok_def unlinked_def nth_append)
  show "q_ok q' (ns @ [n]) i j"
    using q nx val n kj(1) by (auto simp: q_ok_def q'_def unlinked_def at_append)
  show "fifo_event (absq q ns i) (Enq (q_value q n)) = Some (absq q' (ns @ [n]) i)"
    using n kj(1) q_okD(3)[OF q] by (auto simp: absq_def q'_def unlinked_def)
qed

lemma swing_ok:
  assumes q: "q_ok q ns i j" and k: "k \<le> i" "Suc k \<le> j" "at_pos ns k (q_head q)" "at_pos ns (Suc k) m"
  shows "later q ns i j None (q\<lparr>q_head := m\<rparr>) ns (Suc i) j" "q_ok (q\<lparr>q_head := m\<rparr>) ns (Suc i) j"
    and "fifo_event (absq q ns i) (Deq (q_value q m)) = Some (absq (q\<lparr>q_head := m\<rparr>) ns (Suc i))"
proof -
  have ki: "k = i" using at_inj[OF q_okD(1)[OF q] k(3) q_okD(5)[OF q]] .
  show "later q ns i j None (q\<lparr>q_head := m\<rparr>) ns (Suc i) j" by (simp add: later_def)
  show "q_ok (q\<lparr>q_head := m\<rparr>) ns (Suc i) j" using q k ki by (auto simp: q_ok_def)
  have "drop (Suc i) ns = m # drop (Suc (Suc i)) ns" using k(4) ki by (auto simp: at_pos_def Cons_nth_drop_Suc)
  moreover have "q_value q m \<noteq> None" using q_okD(8)[OF q k(4)] .
  ultimately show "fifo_event (absq q ns i) (Deq (q_value q m)) = Some (absq (q\<lparr>q_head := m\<rparr>) ns (Suc i))"
    by (auto simp: absq_def)
qed

lemma alloc_ok:
  fixes q :: "'a lfq" and v :: 'a
  assumes q: "q_ok q ns i j"
  defines "n \<equiv> q_fresh q"
  defines "q' \<equiv> q\<lparr>q_fresh := Suc n, q_value := (q_value q)(n := Some v), q_next := (q_next q)(n := None)\<rparr>"
  shows "later q ns i j None q' ns i j" "q_ok q' ns i j" "absq q' ns i = absq q ns i" "unlinked q' ns n"
proof -
  have f: "ns ! k \<noteq> n" if "k < length ns" for k using q_okD(2)[OF q] that by (fastforce simp: n_def)
  show "later q ns i j None q' ns i j" by (auto simp: later_def q'_def n_def)
  show "q_ok q' ns i j" using q f by (auto simp: q_ok_def q'_def n_def)
  show "absq q' ns i = absq q ns i"
    using q_okD(2)[OF q] by (fastforce simp: absq_def q'_def n_def dest: in_set_dropD)
  show "unlinked q' ns n" using q_okD(2)[OF q] by (auto simp: unlinked_def q'_def n_def)
qed

definition stepped :: "'a lfq \<Rightarrow> nat list \<Rightarrow> nat \<Rightarrow> nat \<Rightarrow> 'a pc \<Rightarrow> 'a lfq \<Rightarrow> 'a pc \<Rightarrow> bool" where
  "stepped q ns i j p q' p' \<longleftrightarrow> (\<exists>ns' i' j'. later q ns i j (own p) q' ns' i' j' \<and> q_ok q' ns' i' j' \<and> pc_ok q' ns' i' j' p' \<and>
     lf_effect q ns i (lf_event q p) q' ns' i' \<and> (own p' = None \<or> own p' = own p \<or> own p' = Some (q_fresh q)))"

lemma later_own: "later q ns i j None q' ns' i' j' \<Longrightarrow> later q ns i j n q' ns' i' j'"
  by (auto simp: later_def)

lemma steppedI:
  assumes "later q ns i j None q' ns i' j'" "q_ok q' ns i' j'" "pc_ok q' ns i' j' p'" "absq q' ns i' = absq q ns i" "lf_event q p = None"
    and "own p' = None \<or> own p' = own p \<or> own p' = Some (q_fresh q)"
  shows "stepped q ns i j p q' p'"
  using assms later_own unfolding stepped_def lf_effect_def by fastforce

lemma stepped_same:
  assumes "q_ok q ns i j" "pc_ok q ns i j p'" "lf_event q p = None" "own p' = None \<or> own p' = own p"
  shows "stepped q ns i j p q p'"
  using assms by (intro steppedI[OF later_refl]) auto

lemma stepped_cas:
  assumes "q_ok q ns i j" "at_pos ns k old" "at_pos ns (Suc k) new" "own p' = None \<or> own p' = own p" "lf_event q p = None"
    and "\<And>j'. j \<le> j' \<Longrightarrow> pc_ok (cas_tail q old new) ns i j' p'"
  shows "stepped q ns i j p (cas_tail q old new) p'"
  using cas_tail_ok[OF assms(1-3)] assms(4-6) steppedI unfolding later_def by metis


lemma pc_ok_cas:
  assumes "pc_ok q ns i j p" "j \<le> j'" "q_ok q ns i j"
  shows "pc_ok (cas_tail q old new) ns i j' p"
proof -
  have "later q ns i j None (cas_tail q old new) ns i j'" using assms(2) by (simp add: later_def cas_tail_def)
  from pc_ok_later[OF this assms(1)] q_okD(2)[OF assms(3)] show ?thesis by simp
qed

lemma lf_step_enqueue:
  assumes q: "q_ok q ns i j" and p: "pc_ok q ns i j p" and e: "p = EAlloc v \<or> own p = Some n \<or> p = ESwing n tail"
  shows "\<exists>q' p'. lf_step q p = Ret (q', p') \<and> stepped q ns i j p q' p'"
proof (cases p)
  case (EAlloc v)
  with alloc_ok[OF q, of v] show ?thesis by (auto simp: Let_def intro: steppedI)
next
  case (ELoadTail n)
  with p q_okD(6)[OF q] show ?thesis by (auto intro!: stepped_same[OF q])
next
  case (ELoadNext n tail)
  with p obtain k where k: "unlinked q ns n" "k \<le> j" "at_pos ns k tail" by auto
  then have "\<forall>m. q_next q tail = Some m \<longrightarrow> at_pos ns (Suc k) m"
    using q_okD(7)[OF q k(3)] by (auto simp: at_pos_def split: if_splits)
  with ELoadNext k show ?thesis by (auto intro!: stepped_same[OF q])
next
  case (ECheck n tail nx)
  with p show ?thesis by (auto intro!: stepped_same[OF q] split: option.splits)
next
  case (ELink n tail)
  with p obtain k where k: "unlinked q ns n" "k \<le> j" "at_pos ns k tail" by auto
  show ?thesis
  proof (cases "q_next q tail = None")
    case True
    note l = link_ok[OF q k True]
    have "at_pos (ns @ [n]) (Suc j) n" using l(4) by (simp add: at_pos_def)
    with l show ?thesis unfolding stepped_def using ELink True
      by (intro exI[of _ "q\<lparr>q_next := (q_next q)(tail := Some n)\<rparr>"] exI[of _ "ESwing n tail"] conjI exI[of _ "ns @ [n]"] exI[of _ i] exI[of _ j])
        (auto simp: lf_effect_def)
  next
    case False
    with ELink k show ?thesis by (auto intro!: stepped_same[OF q])
  qed
next
  case (ESwing n tail)
  with p obtain k where "at_pos ns k tail" "at_pos ns (Suc k) n" by auto
  from stepped_cas[OF q this] ESwing at_mem[OF this(2)] show ?thesis by auto
next
  case (EHelp n tail m)
  with p obtain k where k: "unlinked q ns n" "at_pos ns k tail" "at_pos ns (Suc k) m" by auto
  have "pc_ok (cas_tail q tail m) ns i j' (ELoadTail n)" if "j \<le> j'" for j'
    by (rule pc_ok_cas[OF _ that q]) (simp add: k)
  with stepped_cas[OF q k(2,3)] EHelp show ?thesis by auto
qed (use e in auto)

lemma lf_step_dequeue:
  assumes q: "q_ok q ns i j" and p: "pc_ok q ns i j p" and e: "\<nexists>v. p = EAlloc v" "own p = None" "\<nexists>n tail. p = ESwing n tail"
  shows "\<exists>q' p'. lf_step q p = Ret (q', p') \<and> stepped q ns i j p q' p'"
proof (cases p)
  case (ECount n)
  have "stepped q ns i j p (q\<lparr>q_length := q_length q + 1\<rparr>) (EDone n)" unfolding ECount
    by (rule steppedI[where i' = i and j' = j]) (use q p ECount in \<open>simp_all add: later_def q_ok_def absq_def\<close>)
  with ECount show ?thesis by simp
next
  case (DCount v)
  have "stepped q ns i j p (q\<lparr>q_length := q_length q - 1\<rparr>) (DDone v)" unfolding DCount
    by (rule steppedI[where i' = i and j' = j]) (use q in \<open>simp_all add: later_def q_ok_def absq_def\<close>)
  with DCount show ?thesis by simp
next
  case DLoadHead
  with q_okD(5)[OF q] show ?thesis by (auto intro!: stepped_same[OF q])
next
  case (DLoadTail head)
  with p obtain k where k: "k \<le> i" "at_pos ns k head" by auto
  then have "pc_ok q ns i j (DLoadNext head (q_tail q))" using q_okD(3,6)[OF q] by simp (metis order_trans order_refl)
  from stepped_same[OF q this] DLoadTail show ?thesis by simp
next
  case (DLoadNext head tail)
  with p obtain k l where k: "k \<le> i" "k \<le> l" "l \<le> j" "at_pos ns k head" "at_pos ns l tail" by auto
  have "q_next q head = None \<longrightarrow> k = l" using q_okD(7)[OF q k(4)] k(2,5) by (auto simp: at_pos_def split: if_splits)
  moreover have "\<forall>m. q_next q head = Some m \<longrightarrow> at_pos ns (Suc k) m" using q_okD(7)[OF q k(4)] by (auto simp: at_pos_def split: if_splits)
  ultimately have c: "pc_ok q ns i j (DCheck head tail (q_next q head))" using k
    by (simp only: pc_ok.simps) (rule exI[of _ k], rule exI[of _ l], simp)
  have "lf_effect q ns i (lf_event q p) q ns i"
    using q_okD(7)[OF q k(4)] k(1) by (auto simp: lf_effect_def DLoadNext absq_def split: if_splits)
  with c have "stepped q ns i j p q (DCheck head tail (q_next q head))"
    unfolding stepped_def using q later_refl DLoadNext by (intro exI[of _ ns] exI[of _ i] exI[of _ j]) (simp add: later_own)
  with DLoadNext show ?thesis by auto
next
  case (DCheck head tail nx)
  with p obtain k l where k: "k \<le> i" "k \<le> l" "l \<le> j" "at_pos ns k head" "at_pos ns l tail"
    "nx = None \<longrightarrow> k = l" "\<forall>m. nx = Some m \<longrightarrow> at_pos ns (Suc k) m" by auto
  have "pc_ok q ns i j (DValue head nx)" if "head \<noteq> tail"
  proof -
    have "k \<noteq> l" using that k(4,5) at_fun by blast
    then show ?thesis using k by (cases nx) fastforce+
  qed
  moreover have "pc_ok q ns i j (DHelp tail m)" if "head = tail" "nx = Some m" for m using that k by auto
  ultimately show ?thesis using DCheck by (auto intro!: stepped_same[OF q] split: option.splits)
next
  case (DHelp tail m)
  with p obtain k where "at_pos ns k tail" "at_pos ns (Suc k) m" by auto
  from stepped_cas[OF q this] DHelp show ?thesis by auto
next
  case (DValue head nx)
  with p obtain m where m: "nx = Some m" "pc_ok q ns i j (DSwing head m (q_value q m))" by (simp only: pc_ok.simps) blast
  from stepped_same[OF q m(2)] m(1) DValue show ?thesis by simp
next
  case (DSwing head m v)
  with p obtain k where k: "v = q_value q m" "k \<le> i" "Suc k \<le> j" "at_pos ns k head" "at_pos ns (Suc k) m" by auto
  show ?thesis
  proof (cases "q_head q = head")
    case True
    with swing_ok[OF q k(2,3) _ k(5)] k(4) have "stepped q ns i j p (q\<lparr>q_head := m\<rparr>) (DCount v)"
      unfolding stepped_def DSwing k(1) by (intro exI[of _ ns] exI[of _ "Suc i"] exI[of _ j]) (auto simp: lf_effect_def)
    with True DSwing show ?thesis by auto
  next
    case False
    with DSwing show ?thesis by (auto intro!: stepped_same[OF q])
  qed
qed (use e in \<open>auto intro!: stepped_same[OF q]\<close>)

lemma lf_step_ok:
  assumes "q_ok q ns i j" "pc_ok q ns i j p"
  shows "\<exists>q' p'. lf_step q p = Ret (q', p') \<and> stepped q ns i j p q' p'"
  using lf_step_enqueue[OF assms] lf_step_dequeue[OF assms] by (cases "own p") blast+


section \<open>Reachable states\<close>

text \<open>What a goroutine has reported before it returns: its last event.\<close>

definition last_event :: "(nat \<times> 'a qev) list \<Rightarrow> nat \<Rightarrow> 'a qev option" where
  "last_event h t = (let es = filter (\<lambda>(t', _). t' = t) h in if es = [] then None else Some (snd (last es)))"

fun res_ok :: "'a lfq \<Rightarrow> 'a qev option \<Rightarrow> 'a pc \<Rightarrow> bool" where
  "res_ok q e (ESwing n tail) \<longleftrightarrow> e = Some (Enq (q_value q n))"
| "res_ok q e (ECount n) \<longleftrightarrow> e = Some (Enq (q_value q n))"
| "res_ok q e (EDone n) \<longleftrightarrow> e = Some (Enq (q_value q n))"
| "res_ok q e (DCheck head tail nx) \<longleftrightarrow> (nx = None \<longrightarrow> e = Some Empty)"
| "res_ok q e (DCount v) \<longleftrightarrow> v \<noteq> None \<and> e = Some (Deq v)"
| "res_ok q e (DDone v) \<longleftrightarrow> e = Some (case v of None \<Rightarrow> Empty | Some x \<Rightarrow> Deq (Some x))"
| "res_ok q e _ \<longleftrightarrow> True"

definition sys_ok :: "'a lsys \<Rightarrow> bool" where
  "sys_ok s \<longleftrightarrow> (\<exists>ns i j. q_ok (sy_q s) ns i j \<and> (\<forall>t. pc_ok (sy_q s) ns i j (sy_pc s t)) \<and>
     (\<forall>t t'. t \<noteq> t' \<longrightarrow> own (sy_pc s t) = None \<or> own (sy_pc s t) \<noteq> own (sy_pc s t')) \<and>
     fifo_run [] (sy_hist s) = Some (absq (sy_q s) ns i) \<and>
     (\<forall>t. res_ok (sy_q s) (last_event (sy_hist s) t) (sy_pc s t)))"

lemma last_event_append [simp]:
  "last_event (h @ [(t', e)]) t = (if t' = t then Some e else last_event h t)"
  by (simp add: last_event_def Let_def)

lemma fifo_run_append: "fifo_run xs (h @ [(t, e)]) = Option.bind (fifo_run xs h) (\<lambda>xs. fifo_event xs e)"
  by (induction xs h rule: fifo_run.induct) (auto split: Option.bind_splits)

lemma own_unlinked: "pc_ok q ns i j p \<Longrightarrow> own p = Some n \<Longrightarrow> unlinked q ns n"
  by (cases p) auto

lemma res_ok_step:
  assumes "lf_step q p = Ret (q', p')" "q_ok q ns i j" "pc_ok q ns i j p" "res_ok q e p"
  shows "res_ok q' (case lf_event q p of None \<Rightarrow> e | Some e' \<Rightarrow> Some e') p'"
  using assms(1,3,4) q_okD(8)[OF assms(2)]
  by (cases p) (auto simp: Let_def cas_tail_def split: if_splits option.splits)

lemma res_ok_later:
  assumes "later q ns i j n q' ns' i' j'" "pc_ok q ns i j p" "\<forall>m\<in>set ns. m < q_fresh q" "res_ok q e p"
  shows "res_ok q' e p"
  using assms by (cases p) (auto simp: later_def dest!: at_mem)

lemma sys_start_ok: "sys_ok sys_start"
  unfolding sys_ok_def sys_start_def NewLockFreeQueue_def
  by (intro exI[of _ "[0]"] exI[of _ 0]) (simp add: q_ok_def at_pos_def absq_def)

lemma sys_step_ok:
  assumes "sys_step s s'" "sys_ok s"
  shows "sys_ok s'"
proof -
  from assms(2) obtain ns i j where q: "q_ok (sy_q s) ns i j" and p: "\<And>t. pc_ok (sy_q s) ns i j (sy_pc s t)"
    and o: "\<And>t t'. t \<noteq> t' \<Longrightarrow> own (sy_pc s t) = None \<or> own (sy_pc s t) \<noteq> own (sy_pc s t')"
    and f: "fifo_run [] (sy_hist s) = Some (absq (sy_q s) ns i)"
    and r: "\<And>t. res_ok (sy_q s) (last_event (sy_hist s) t) (sy_pc s t)"
    unfolding sys_ok_def by blast
  from assms(1) show ?thesis
  proof cases
    case (run t q' p')
    let ?p = "sy_pc s t" and ?e = "lf_event (sy_q s) (sy_pc s t)"
    from lf_step_ok[OF q p, of t] run(2) have st: "stepped (sy_q s) ns i j ?p q' p'" by simp
    then obtain ns' i' j' where l: "later (sy_q s) ns i j (own ?p) q' ns' i' j'" and q': "q_ok q' ns' i' j'" "pc_ok q' ns' i' j' p'"
      and eff: "lf_effect (sy_q s) ns i ?e q' ns' i'" and own': "own p' = None \<or> own p' = own ?p \<or> own p' = Some (q_fresh (sy_q s))"
      unfolding stepped_def by blast
    have other: "pc_ok q' ns' i' j' (sy_pc s t')" if "t' \<noteq> t" for t'
      using pc_ok_later[OF l p[of t']] o[OF that] o[of t t'] that q_okD(2)[OF q] by (metis)
    have fresh: "own (sy_pc s t') \<noteq> Some (q_fresh (sy_q s))" for t'
      using own_unlinked[OF p[of t']] by (auto simp: unlinked_def)
    have "fifo_run [] (sy_hist s') = Some (absq q' ns' i')"
      using f eff run(1) by (cases ?e) (auto simp: lf_effect_def fifo_run_append)
    moreover have "pc_ok q' ns' i' j' (((sy_pc s)(t := p')) u)" for u using other q' by simp
    moreover have "own (((sy_pc s)(t := p')) u) = None \<or> own (((sy_pc s)(t := p')) u) \<noteq> own (((sy_pc s)(t := p')) u')" if "u \<noteq> u'" for u u'
      using o that own' fresh by (metis fun_upd_apply)
    moreover have "res_ok q' (last_event (sy_hist s') u) (((sy_pc s)(t := p')) u)" for u
    proof (cases "u = t")
      case True
      then show ?thesis using res_ok_step[OF run(2) q p r] run(1) by (cases ?e) auto
    next
      case False
      have "last_event (sy_hist s') u = last_event (sy_hist s) u" using False run(1) by (cases ?e) auto
      then show ?thesis using False res_ok_later[OF l p q_okD(2)[OF q] r] by simp
    qed
    ultimately show ?thesis unfolding sys_ok_def run(1) using q'
      by (intro exI[of _ ns'] exI[of _ i'] exI[of _ j']) simp
  next
    case (enqueue t v)
    then show ?thesis unfolding sys_ok_def using q p o f r
      by (intro exI[of _ ns] exI[of _ i] exI[of _ j]) (auto simp: fifo_run_append)
  next
    case (dequeue t)
    then show ?thesis unfolding sys_ok_def using q p o f r
      by (intro exI[of _ ns] exI[of _ i] exI[of _ j]) (auto simp: fifo_run_append)
  qed
qed

lemma sys_reach_ok: "sys_step\<^sup>*\<^sup>* sys_start s \<Longrightarrow> sys_ok s"
  by (induction rule: rtranclp_induct) (auto simp: sys_start_ok sys_step_ok)


section \<open>The counter\<close>

fun weight :: "'a pc \<Rightarrow> int" where
  "weight (ESwing n tail) = 1"
| "weight (ECount n) = 1"
| "weight (DCount v) = -1"
| "weight _ = 0"

fun event_change :: "'a qev option \<Rightarrow> int" where
  "event_change (Some (Enq v)) = 1"
| "event_change (Some (Deq v)) = -1"
| "event_change _ = 0"

lemma lf_step_count:
  assumes "lf_step q p = Ret (q', p')"
  shows "q_length q' + weight p' = q_length q + weight p + event_change (lf_event q p)"
  using assms by (cases p) (auto simp: Let_def cas_tail_def split: if_splits option.splits)

lemma fifo_event_change: "fifo_event xs e = Some ys \<Longrightarrow> int (length ys) = int (length xs) + event_change (Some e)"
  by (cases e) (auto simp: neq_Nil_conv split: if_splits)

definition counted :: "'a lsys \<Rightarrow> bool" where
  "counted s \<longleftrightarrow> (\<exists>A xs. finite A \<and> (\<forall>t. t \<notin> A \<longrightarrow> sy_pc s t = Idle) \<and> fifo_run [] (sy_hist s) = Some xs \<and>
     q_length (sy_q s) + (\<Sum>t\<in>A. weight (sy_pc s t)) = int (length xs))"

lemma counted_insert:
  assumes "finite A" "\<forall>t. t \<notin> A \<longrightarrow> sy_pc s t = Idle"
  shows "(\<Sum>u\<in>insert t A. weight (sy_pc s u)) = (\<Sum>u\<in>A. weight (sy_pc s u))"
  using assms by (cases "t \<in> A") (auto simp: insert_absorb)

lemma sys_step_counted:
  assumes "sys_step s s'" "sys_ok s" "counted s"
  shows "counted s'"
proof -
  from assms(3) obtain A xs where A: "finite A" "\<forall>t. t \<notin> A \<longrightarrow> sy_pc s t = Idle" and h: "fifo_run [] (sy_hist s) = Some xs"
    and l: "q_length (sy_q s) + (\<Sum>t\<in>A. weight (sy_pc s t)) = int (length xs)" unfolding counted_def by blast
  note I = counted_insert[OF A]
  have call: "counted (s\<lparr>sy_pc := (sy_pc s)(t := p), sy_hist := sy_hist s @ [(t, Call)]\<rparr>)" if "weight p = 0" "sy_pc s t = Idle" for t p
    using A h l that sum_fun_upd[OF A(1), where w = weight and f = "sy_pc s" and t = t and p = p] I[of t] unfolding counted_def
    by (intro exI[of _ "insert t A"] exI[of _ xs]) (simp add: fifo_run_append)
  from assms(1) show ?thesis
  proof cases
    case (run t q' p')
    have "fifo_run [] (sy_hist s') \<noteq> None" using sys_step_ok[OF assms(1,2)] by (auto simp: sys_ok_def)
    then obtain ys where ys: "fifo_run [] (sy_hist s') = Some ys" by blast
    then have "int (length ys) = int (length xs) + event_change (lf_event (sy_q s) (sy_pc s t))"
      using h run(1) fifo_event_change by (cases "lf_event (sy_q s) (sy_pc s t)") (auto simp: fifo_run_append)
    then show ?thesis using A(1,2) ys l lf_step_count[OF run(2)] sum_fun_upd[OF A(1), where w = weight and f = "sy_pc s" and t = t and p = p'] I[of t] unfolding counted_def
      by (intro exI[of _ "insert t A"] exI[of _ ys]) (simp add: run(1))
  qed (use call in simp_all)
qed

lemma sys_reach_counted: "sys_step\<^sup>*\<^sup>* sys_start s \<Longrightarrow> counted s"
proof (induction rule: rtranclp_induct)
  case base
  show ?case by (auto simp: counted_def sys_start_def NewLockFreeQueue_def intro: exI[of _ "{}"])
next
  case (step s s')
  then show ?case using sys_step_counted sys_reach_ok by blast
qed

section \<open>Progress\<close>

text \<open>
  The number of steps a goroutine still needs when it runs alone. The tail lags by at most one node, so that a
  call helps at most once, and an outdated local variable costs at most one more round.
\<close>

definition lag :: "'a lfq \<Rightarrow> bool" where
  "lag q \<longleftrightarrow> q_next q (q_tail q) \<noteq> None"

definition enq_rank :: "'a lfq \<Rightarrow> nat" where
  "enq_rank q = (if lag q then 10 else 6)"

definition deq_rank :: "'a lfq \<Rightarrow> nat" where
  "deq_rank q = (if q_head q = q_tail q \<and> lag q then 12 else 7)"

fun rank :: "'a lfq \<Rightarrow> 'a pc \<Rightarrow> nat" where
  "rank q (EAlloc v) = 1 + enq_rank q"
| "rank q (ELoadTail n) = enq_rank q"
| "rank q (ELoadNext n tail) = (if tail = q_tail q then enq_rank q - 1 else 2 + enq_rank q)"
| "rank q (ECheck n tail nx) =
     (if tail \<noteq> q_tail q then 1 + enq_rank q
      else case nx of None \<Rightarrow> if q_next q tail = None then 4 else 2 + enq_rank q | Some m \<Rightarrow> 8)"
| "rank q (ELink n tail) = (if q_next q tail = None then 3 else 1 + enq_rank q)"
| "rank q (ESwing n tail) = 2"
| "rank q (ECount n) = 1"
| "rank q (EHelp n tail m) = (if tail = q_tail q then 7 else 1 + enq_rank q)"
| "rank q DLoadHead = deq_rank q"
| "rank q (DLoadTail head) = (if head = q_head q then deq_rank q - 1 else 3 + deq_rank q)"
| "rank q (DLoadNext head tail) =
     (if head \<noteq> q_head q then 2 + deq_rank q
      else if head \<noteq> tail then 5 else if tail = q_tail q then deq_rank q - 2 else 3 + deq_rank q)"
| "rank q (DCheck head tail nx) =
     (if head \<noteq> q_head q then 1 + deq_rank q
      else if head \<noteq> tail then 4
      else case nx of None \<Rightarrow> 1 | Some m \<Rightarrow> if tail = q_tail q then 9 else 2 + deq_rank q)"
| "rank q (DHelp tail m) = (if tail = q_tail q then 8 else 1 + deq_rank q)"
| "rank q (DValue head nx) = (if head = q_head q then 3 else 2 + deq_rank q)"
| "rank q (DSwing head m v) = (if q_head q = head then 2 else 1 + deq_rank q)"
| "rank q (DCount v) = 1"
| "rank q _ = 0"

lemma rank_bound: "rank q p \<le> 15"
  by (cases p) (auto simp: enq_rank_def deq_rank_def split: option.splits)

lemma help_no_lag:
  assumes "q_ok q ns i j" "at_pos ns k (q_tail q)" "at_pos ns (Suc k) m"
  shows "\<not> lag (cas_tail q (q_tail q) m)" "lag q"
proof -
  have k: "k = j" using at_inj[OF q_okD(1)[OF assms(1)] assms(2) q_okD(6)[OF assms(1)]] .
  then have "\<not> Suc (Suc k) < length ns" using q_okD(4)[OF assms(1)] by simp
  then show "\<not> lag (cas_tail q (q_tail q) m)" using q_okD(7)[OF assms(1,3)] by (simp add: lag_def cas_tail_def)
  show "lag q" using q_okD(7)[OF assms(1,2)] assms(3) by (simp add: lag_def at_pos_def)
qed


text \<open>A goroutine at one of these points has returned.\<close>

fun finished :: "'a pc \<Rightarrow> bool" where
  "finished Idle = True"
| "finished (EDone n) = True"
| "finished (DDone v) = True"
| "finished _ = False"

lemma rank_enqueue:
  assumes "q_ok q ns i j" "pc_ok q ns i j p" "own p \<noteq> None \<or> (\<exists>v. p = EAlloc v)" "lf_step q p = Ret (q', p')"
  shows "rank q' p' < rank q p"
proof (cases p)
  case (EAlloc v)
  have "q_tail q < q_fresh q" using q_okD(2)[OF assms(1)] at_mem[OF q_okD(6)[OF assms(1)]] by blast
  then show ?thesis using assms(4) EAlloc by (auto simp: Let_def enq_rank_def lag_def)
next
  case (ECheck n tail nx)
  then show ?thesis using assms(4) by (auto simp: enq_rank_def split: option.splits)
next
  case (EHelp n tail m)
  with assms(2) obtain k where k: "at_pos ns k tail" "at_pos ns (Suc k) m" by auto
  show ?thesis
  proof (cases "tail = q_tail q")
    case True
    with help_no_lag(1)[OF assms(1)] k EHelp assms(4) show ?thesis by (auto simp: enq_rank_def)
  next
    case False
    then show ?thesis using EHelp assms(4) by (auto simp: cas_tail_def)
  qed
qed (use assms(3,4) in \<open>auto simp: enq_rank_def lag_def split: if_splits option.splits\<close>)

lemma rank_dequeue:
  assumes "q_ok q ns i j" "pc_ok q ns i j p" "own p = None" "\<nexists>v. p = EAlloc v" "\<not> finished p" "lf_step q p = Ret (q', p')"
  shows "rank q' p' < rank q p"
proof (cases p)
  case (DHelp tail m)
  with assms(2) obtain k where k: "at_pos ns k tail" "at_pos ns (Suc k) m" by auto
  show ?thesis
  proof (cases "tail = q_tail q")
    case True
    with help_no_lag(1)[OF assms(1)] k DHelp assms(6) show ?thesis by (auto simp: deq_rank_def)
  next
    case False
    then show ?thesis using DHelp assms(6) by (auto simp: cas_tail_def)
  qed
qed (use assms(3-6) in \<open>auto simp: deq_rank_def lag_def split: if_splits option.splits\<close>)

lemma rank_decreases:
  assumes "q_ok q ns i j" "pc_ok q ns i j p" "\<not> finished p" "lf_step q p = Ret (q', p')"
  shows "rank q' p' < rank q p"
  using rank_enqueue[OF assms(1,2) _ assms(4)] rank_dequeue[OF assms(1,2) _ _ assms(3,4)] by blast

primrec lf_solo :: "nat \<Rightarrow> 'a lfq \<Rightarrow> 'a pc \<Rightarrow> ('a lfq \<times> 'a pc) go" where
  "lf_solo 0 q p = Ret (q, p)"
| "lf_solo (Suc m) q p = (if finished p then Ret (q, p) else go_bind (lf_step q p) (\<lambda>(q, p). lf_solo m q p))"

lemma lf_solo_finishes:
  "q_ok q ns i j \<Longrightarrow> pc_ok q ns i j p \<Longrightarrow> rank q p \<le> m \<Longrightarrow> \<exists>q' p'. lf_solo m q p = Ret (q', p') \<and> finished p'"
proof (induction m arbitrary: q ns i j p)
  case 0
  show ?case
  proof (rule ccontr)
    assume "\<not> ?case"
    then have f: "\<not> finished p" by simp
    obtain q' p' where "lf_step q p = Ret (q', p')" using lf_step_ok[OF 0(1,2)] by blast
    from rank_decreases[OF 0(1,2) f this] 0(3) show False by simp
  qed
next
  case (Suc m)
  show ?case
  proof (cases "finished p")
    case False
    obtain q' p' where st: "lf_step q p = Ret (q', p')" "stepped q ns i j p q' p'" using lf_step_ok[OF Suc.prems(1,2)] by blast
    then obtain ns' i' j' where "q_ok q' ns' i' j'" "pc_ok q' ns' i' j' p'" by (auto simp: stepped_def)
    from Suc.IH[OF this] rank_decreases[OF Suc.prems(1,2) False st(1)] Suc.prems(3) st(1) False show ?thesis by auto
  qed simp
qed

section \<open>Calls without interference\<close>

text \<open>
  A call during which no other goroutine takes a step. The poller sees its queues in this way: its own calls
  are interleaved with the steps of others, which by the theorem on histories act as whole calls before or after.
\<close>

definition lf_callBody :: "'a lfq \<times> 'a pc \<Rightarrow> ('a lfq \<times> 'a pc + 'a lfq \<times> 'a option) go" where
  "lf_callBody s =
     (case s of (q, p) \<Rightarrow>
        (case p of
           DDone v \<Rightarrow> Ret (Inr (q, v))
         | EDone n \<Rightarrow> Ret (Inr (q, None))
         | _ \<Rightarrow> go_bind (lf_step q p) (\<lambda>s. Ret (Inl s))))"

definition lf_Enqueue :: "'a lfq \<Rightarrow> 'a \<Rightarrow> 'a lfq go" where
  "lf_Enqueue q task = go_bind (go_loop lf_callBody (q, EAlloc task)) (\<lambda>(q, _). Ret q)"

definition lf_Dequeue :: "'a lfq \<Rightarrow> ('a lfq \<times> 'a option) go" where
  "lf_Dequeue q = go_loop lf_callBody (q, DLoadHead)"

definition lf_rep :: "'a lfq \<Rightarrow> 'a list \<Rightarrow> bool" where
  "lf_rep q xs \<longleftrightarrow> (\<exists>ns i j. q_ok q ns i j \<and> absq q ns i = xs) \<and> q_length q = int (length xs)"

definition call_ok :: "'a lfq \<Rightarrow> 'a pc \<Rightarrow> 'a list \<Rightarrow> 'a qev option \<Rightarrow> bool" where
  "call_ok q p xs e \<longleftrightarrow> (\<exists>ns i j. q_ok q ns i j \<and> pc_ok q ns i j p \<and> absq q ns i = xs) \<and> res_ok q e p \<and>
     q_length q + weight p = int (length xs)"

lemma call_step:
  assumes "call_ok q p xs e" "\<not> finished p"
  shows "\<exists>q' p' xs'. lf_step q p = Ret (q', p') \<and> rank q' p' < rank q p \<and>
    call_ok q' p' xs' (case lf_event q p of None \<Rightarrow> e | Some e' \<Rightarrow> Some e') \<and>
    (case lf_event q p of None \<Rightarrow> xs' = xs | Some e' \<Rightarrow> fifo_event xs e' = Some xs')"
proof -
  obtain ns i j where q: "q_ok q ns i j" "pc_ok q ns i j p" and xs: "absq q ns i = xs" and r: "res_ok q e p"
    and l: "q_length q + weight p = int (length xs)" using assms(1) by (auto simp: call_ok_def)
  obtain q' p' where st: "lf_step q p = Ret (q', p')" "stepped q ns i j p q' p'" using lf_step_ok[OF q] by blast
  then obtain ns' i' j' where q': "q_ok q' ns' i' j'" "pc_ok q' ns' i' j' p'" and eff: "lf_effect q ns i (lf_event q p) q' ns' i'"
    by (auto simp: stepped_def)
  have "q_length q' + weight p' = int (length (absq q' ns' i'))"
    using lf_step_count[OF st(1)] l eff xs by (cases "lf_event q p") (auto simp: lf_effect_def dest!: fifo_event_change)
  then have "call_ok q' p' (absq q' ns' i') (case lf_event q p of None \<Rightarrow> e | Some e' \<Rightarrow> Some e')"
    using q' res_ok_step[OF st(1) q r] by (auto simp: call_ok_def)
  then show ?thesis using st rank_decreases[OF q assms(2) st(1)] eff xs by (auto simp: lf_effect_def split: option.splits)
qed


lemma finished_call: "\<not> finished p \<Longrightarrow> lf_callBody (q, p) = go_bind (lf_step q p) (\<lambda>s. Ret (Inl s))"
  by (cases p) (simp_all add: lf_callBody_def)

fun enq_phase :: "'a lfq \<Rightarrow> 'a \<Rightarrow> 'a pc \<Rightarrow> bool" where
  "enq_phase q v (EAlloc x) \<longleftrightarrow> x = v"
| "enq_phase q v p \<longleftrightarrow> (\<exists>n. own p = Some n \<and> q_value q n = Some v)"

fun enq_linked :: "'a pc \<Rightarrow> bool" where
  "enq_linked (ESwing n tail) = True"
| "enq_linked (ECount n) = True"
| "enq_linked (EDone n) = True"
| "enq_linked _ = False"

lemma enq_phase_step:
  assumes "lf_step q p = Ret (q', p')" "enq_phase q v p"
  shows "lf_event q p = None \<and> enq_phase q' v p' \<or> lf_event q p = Some (Enq (Some v)) \<and> enq_linked p'"
  using assms by (cases p) (auto simp: Let_def cas_tail_def split: if_splits option.splits)

lemma enq_linked_step:
  assumes "lf_step q p = Ret (q', p')" "enq_linked p" "\<not> finished p"
  shows "lf_event q p = None \<and> enq_linked p'"
  using assms by (cases p) auto

definition enq_inv :: "'a \<Rightarrow> 'a list \<Rightarrow> 'a lfq \<times> 'a pc \<Rightarrow> bool" where
  "enq_inv v xs s \<longleftrightarrow> (\<exists>e. enq_phase (fst s) v (snd s) \<and> call_ok (fst s) (snd s) xs e \<or>
     enq_linked (snd s) \<and> call_ok (fst s) (snd s) (xs @ [v]) e)"

lemma enq_inv_step:
  assumes "enq_inv v xs (q, p)" "\<not> finished p"
  shows "\<exists>q' p'. lf_step q p = Ret (q', p') \<and> rank q' p' < rank q p \<and> enq_inv v xs (q', p')"
proof -
  from assms(1) consider (phase) e where "enq_phase q v p" "call_ok q p xs e" | (linked) e where "enq_linked p" "call_ok q p (xs @ [v]) e"
    by (auto simp: enq_inv_def)
  then show ?thesis
  proof cases
    case phase
    from call_step[OF phase(2) assms(2)] obtain q' p' xs' where st: "lf_step q p = Ret (q', p')" "rank q' p' < rank q p"
      "call_ok q' p' xs' (case lf_event q p of None \<Rightarrow> e | Some e' \<Rightarrow> Some e')"
      "case lf_event q p of None \<Rightarrow> xs' = xs | Some e' \<Rightarrow> fifo_event xs e' = Some xs'" by blast
    from enq_phase_step[OF st(1) phase(1)] st show ?thesis by (auto simp: enq_inv_def)
  next
    case linked
    from call_step[OF linked(2) assms(2)] enq_linked_step[OF _ linked(1) assms(2)] show ?thesis by (fastforce simp: enq_inv_def)
  qed
qed

lemma enq_inv_finished:
  assumes "enq_inv v xs (q, p)" "finished p"
  shows "\<exists>r. lf_callBody (q, p) = Ret (Inr r) \<and> lf_rep (fst r) (xs @ [v])"
  using assms by (cases p) (auto simp: enq_inv_def call_ok_def lf_rep_def lf_callBody_def)

lemma call_total:
  assumes "I (q, p)" "\<And>q p. I (q, p) \<Longrightarrow> \<not> finished p \<Longrightarrow> \<exists>q' p'. lf_step q p = Ret (q', p') \<and> rank q' p' < rank q p \<and> I (q', p')"
    and "\<And>q p. I (q, p) \<Longrightarrow> finished p \<Longrightarrow> \<exists>r. lf_callBody (q, p) = Ret (Inr r) \<and> Q r"
  shows "\<exists>r. go_loop lf_callBody (q, p) = Ret r \<and> Q r"
proof (rule go_loop_total[where I = I and m = "\<lambda>(q, p). rank q p", OF assms(1)])
  fix s assume I: "I s"
  obtain q p where s: "s = (q, p)" by (cases s)
  show "(\<exists>s'. lf_callBody s = Ret (Inl s') \<and> I s' \<and> (case s' of (q, p) \<Rightarrow> rank q p) < (case s of (q, p) \<Rightarrow> rank q p)) \<or>
    (\<exists>r. lf_callBody s = Ret (Inr r) \<and> Q r)"
  proof (cases "finished p")
    case True
    with assms(3)[of q p] I s show ?thesis by blast
  next
    case False
    with assms(2)[of q p] I obtain q' p' where st: "lf_step q p = Ret (q', p')" "rank q' p' < rank q p" "I (q', p')"
      unfolding s by blast
    then have "lf_callBody s = Ret (Inl (q', p'))" by (simp add: s finished_call[OF False])
    with st show ?thesis by (intro disjI1 exI[of _ "(q', p')"]) (simp add: s)
  qed
qed

lemma lf_Enqueue_rep:
  assumes "lf_rep q xs"
  shows "\<exists>q'. lf_Enqueue q v = Ret q' \<and> lf_rep q' (xs @ [v])"
proof -
  have "\<exists>r. go_loop lf_callBody (q, EAlloc v) = Ret r \<and> lf_rep (fst r) (xs @ [v])"
  proof (rule call_total[where I = "enq_inv v xs"])
    show "enq_inv v xs (q, EAlloc v)" using assms by (auto simp: lf_rep_def call_ok_def enq_inv_def)
  qed (fact enq_inv_step, fact enq_inv_finished)
  then show ?thesis by (auto simp: lf_Enqueue_def)
qed

fun deq_phase :: "'a pc \<Rightarrow> bool" where
  "deq_phase (DCount v) = False"
| "deq_phase (DDone v) = (v = None)"
| "deq_phase Idle = False"
| "deq_phase p = (own p = None \<and> (\<nexists>v. p = EAlloc v) \<and> \<not> enq_linked p)"

definition deq_inv :: "'a list \<Rightarrow> 'a lfq \<times> 'a pc \<Rightarrow> bool" where
  "deq_inv xs s \<longleftrightarrow> (\<exists>e. deq_phase (snd s) \<and> call_ok (fst s) (snd s) xs e \<and> (e = Some Empty \<longrightarrow> xs = []) \<or>
     (\<exists>x ys. xs = x # ys \<and> snd s \<in> {DCount (Some x), DDone (Some x)} \<and> call_ok (fst s) (snd s) ys e))"

lemma deq_phase_step:
  assumes "lf_step q p = Ret (q', p')" "deq_phase p" "\<not> finished p"
  shows "(lf_event q p = None \<or> lf_event q p = Some Empty) \<and> (deq_phase p') \<or> (\<exists>v. lf_event q p = Some (Deq v) \<and> p' = DCount v)"
  using assms by (cases p) (auto split: if_splits option.splits)

lemma deq_inv_step:
  assumes "deq_inv xs (q, p)" "\<not> finished p"
  shows "\<exists>q' p'. lf_step q p = Ret (q', p') \<and> rank q' p' < rank q p \<and> deq_inv xs (q', p')"
proof -
  from assms(1) consider (phase) e where "deq_phase p" "call_ok q p xs e" "e = Some Empty \<longrightarrow> xs = []"
    | (taken) e x ys where "xs = x # ys" "p \<in> {DCount (Some x), DDone (Some x)}" "call_ok q p ys e"
    by (auto simp: deq_inv_def)
  then show ?thesis
  proof cases
    case phase
    from call_step[OF phase(2) assms(2)] obtain q' p' xs' where st: "lf_step q p = Ret (q', p')" "rank q' p' < rank q p"
      "call_ok q' p' xs' (case lf_event q p of None \<Rightarrow> e | Some e' \<Rightarrow> Some e')"
      "case lf_event q p of None \<Rightarrow> xs' = xs | Some e' \<Rightarrow> fifo_event xs e' = Some xs'" by blast
    from deq_phase_step[OF st(1) phase(1) assms(2)] show ?thesis
    proof
      assume "(lf_event q p = None \<or> lf_event q p = Some Empty) \<and> deq_phase p'"
      then show ?thesis using st phase(3) by (auto simp: deq_inv_def split: if_splits)
    next
      assume "\<exists>v. lf_event q p = Some (Deq v) \<and> p' = DCount v"
      then show ?thesis using st by (cases xs) (auto simp: deq_inv_def split: if_splits)
    qed
  next
    case taken
    from call_step[OF taken(3) assms(2)] taken(1,2) assms(2) show ?thesis by (fastforce simp: deq_inv_def)
  qed
qed

lemma deq_inv_finished:
  assumes "deq_inv xs (q, p)" "finished p"
  shows "\<exists>r. lf_callBody (q, p) = Ret (Inr r) \<and> snd r = (case xs of [] \<Rightarrow> None | x # _ \<Rightarrow> Some x) \<and> lf_rep (fst r) (tl xs)"
proof -
  obtain v where p: "p = DDone v" using assms by (cases p) (auto simp: deq_inv_def)
  have rep: "lf_rep q ys" if "call_ok q p ys e" for ys e
    using that unfolding p call_ok_def lf_rep_def by auto
  have "v = (case xs of [] \<Rightarrow> None | x # _ \<Rightarrow> Some x) \<and> lf_rep q (tl xs)"
  proof -
    from assms(1) consider (none) e where "v = None" "call_ok q p xs e" "e = Some Empty \<longrightarrow> xs = []"
      | (some) e x ys where "xs = x # ys" "v = Some x" "call_ok q p ys e" by (auto simp: deq_inv_def p)
    then show ?thesis
    proof cases
      case none
      then have "xs = []" by (simp add: call_ok_def p)
      then show ?thesis using none rep by simp
    qed (use rep in simp)
  qed
  then show ?thesis by (simp add: p lf_callBody_def)
qed

lemma lf_Dequeue_rep:
  assumes "lf_rep q xs"
  shows "\<exists>q'. lf_Dequeue q = Ret (q', case xs of [] \<Rightarrow> None | x # _ \<Rightarrow> Some x) \<and> lf_rep q' (tl xs)"
proof -
  have "\<exists>r. go_loop lf_callBody (q, DLoadHead) = Ret r \<and> snd r = (case xs of [] \<Rightarrow> None | x # _ \<Rightarrow> Some x) \<and> lf_rep (fst r) (tl xs)"
  proof (rule call_total[where I = "deq_inv xs"])
    show "deq_inv xs (q, DLoadHead)" using assms unfolding deq_inv_def
      by (intro exI[of _ None]) (auto simp: lf_rep_def call_ok_def)
  qed (fact deq_inv_step, fact deq_inv_finished)
  then show ?thesis by (auto simp: lf_Dequeue_def)
qed

lemma lf_IsEmpty_rep: "lf_rep q xs \<Longrightarrow> lf_IsEmpty q \<longleftrightarrow> xs = []"
  by (auto simp: lf_rep_def lf_IsEmpty_def)

lemma lf_New_rep: "lf_rep NewLockFreeQueue []"
  unfolding lf_rep_def NewLockFreeQueue_def
  by (auto simp: q_ok_def at_pos_def absq_def intro!: exI[of _ "[0]"] exI[of _ 0])

section \<open>The interface\<close>

text \<open>The loop of the poller over the urgent queue: \<open>Dequeue\<close> until it returns nil.\<close>

definition tq_drainBody :: "('q \<Rightarrow> ('q \<times> 'a option) go) \<Rightarrow> 'q \<times> 'a list \<Rightarrow> ('q \<times> 'a list + 'q \<times> 'a list) go" where
  "tq_drainBody deq s =
     (case s of (q, acc) \<Rightarrow>
        go_bind (deq q) (\<lambda>(q, task). Ret (case task of None \<Rightarrow> Inr (q, acc) | Some x \<Rightarrow> Inl (q, acc @ [x]))))"

definition tq_drain :: "('q \<Rightarrow> ('q \<times> 'a option) go) \<Rightarrow> 'q \<Rightarrow> ('q \<times> 'a list) go" where
  "tq_drain deq q = go_loop (tq_drainBody deq) (q, [])"

fun tq_fill :: "('q \<Rightarrow> 'a \<Rightarrow> 'q go) \<Rightarrow> 'q \<Rightarrow> 'a list \<Rightarrow> 'q go" where
  "tq_fill enq q [] = Ret q"
| "tq_fill enq q (x # xs) = go_bind (enq q x) (\<lambda>q. tq_fill enq q xs)"

text \<open>\<open>AsyncTaskQueue\<close>: what the poller relies on.\<close>

locale task_queue =
  fixes rep :: "'q \<Rightarrow> 'a list \<Rightarrow> bool"
    and enq :: "'q \<Rightarrow> 'a \<Rightarrow> 'q go"
    and deq :: "'q \<Rightarrow> ('q \<times> 'a option) go"
    and is_empty :: "'q \<Rightarrow> bool"
  assumes enq_law: "rep q xs \<Longrightarrow> \<exists>q'. enq q x = Ret q' \<and> rep q' (xs @ [x])"
    and deq_law: "rep q xs \<Longrightarrow> \<exists>q'. deq q = Ret (q', case xs of [] \<Rightarrow> None | x # _ \<Rightarrow> Some x) \<and> rep q' (tl xs)"
    and is_empty_law: "rep q xs \<Longrightarrow> is_empty q \<longleftrightarrow> xs = []"
begin

lemma fill_appends: "rep q xs \<Longrightarrow> \<exists>q'. tq_fill enq q ys = Ret q' \<and> rep q' (xs @ ys)"
proof (induction ys arbitrary: q xs)
  case (Cons y ys)
  obtain q' where "enq q y = Ret q'" "rep q' (xs @ [y])" using enq_law[OF Cons.prems] by blast
  with Cons.IH[of q' "xs @ [y]"] show ?case by simp
qed simp

lemma drain_returns_all:
  assumes "rep q xs"
  shows "\<exists>q'. tq_drain deq q = Ret (q', xs) \<and> rep q' []"
proof -
  let ?I = "\<lambda>(q, acc). \<exists>ys. rep q ys \<and> xs = acc @ ys"
    and ?m = "\<lambda>(q, acc). length xs - length acc"
  have "\<exists>r. go_loop (tq_drainBody deq) (q, []) = Ret r \<and> snd r = xs \<and> rep (fst r) []"
  proof (rule go_loop_total[where I = ?I and m = ?m])
    show "?I (q, [])" using assms by simp
  next
    fix s assume "?I s"
    then obtain q acc ys where s: "s = (q, acc)" "rep q ys" "xs = acc @ ys" by auto
    obtain q' where d: "deq q = Ret (q', case ys of [] \<Rightarrow> None | x # _ \<Rightarrow> Some x)" "rep q' (tl ys)" using deq_law[OF s(2)] by blast
    then show "(\<exists>s'. tq_drainBody deq s = Ret (Inl s') \<and> ?I s' \<and> ?m s' < ?m s) \<or>
      (\<exists>r. tq_drainBody deq s = Ret (Inr r) \<and> snd r = xs \<and> rep (fst r) [])"
      using s by (cases ys) (auto simp: tq_drainBody_def)
  qed
  then show ?thesis by (auto simp: tq_drain_def)
qed

end

interpretation lf: task_queue lf_rep lf_Enqueue lf_Dequeue lf_IsEmpty
  by unfold_locales (fact lf_Enqueue_rep lf_Dequeue_rep lf_IsEmpty_rep)+

end
