(* ===== verification/Wakeup.thy ===== *)
theory Wakeup
  imports Prelude
begin

text \<open>
  The wake-up protocol between \<open>Trigger\<close>, \<open>UrgentTrigger\<close> and the chores of \<open>Polling\<close> in
  \<open>internal/netpoll/epoll_default_poller.go\<close>, at the granularity of atomic steps. Any number of goroutines trigger
  tasks while the poller runs; a goroutine's step is to link its task, to count it, to swap \<open>wakeupCall\<close> from 0 to 1
  or to write to the event descriptor, and the poller's steps are those of one round. The queues are lists with
  separate counters, as \<open>LockFreeQueue\<close> shows them to behave. A task that triggers another task while it runs is a
  goroutine of its own here.

  The writes of goroutines to the event descriptor succeed (the kernel reports \<open>EAGAIN\<close> only when the descriptor is
  readable anyway, which the code takes for success); the poller's own write may fail.
\<close>

section \<open>States\<close>

text \<open>Where a goroutine is in its trigger call; the flag says whether the task is urgent.\<close>

datatype ppc = PIdle | PLink bool | PCount bool | PCas | PWrite

text \<open>Where the poller is: in \<open>epoll_wait\<close>, or in its chores.\<close>

datatype cpc = CWait | CUrgent | CUrgentCount | CAsync nat | CAsyncCount nat | CStore | CCheckAsync | CCheckUrgent | CCas | CWrite

record 'a wstate =
  wk_q :: "bool \<Rightarrow> 'a list"
  wk_len :: "bool \<Rightarrow> int"
  wk_call :: bool
  wk_efd :: bool
  wk_chores :: bool
  wk_p :: "nat \<Rightarrow> ppc"
  wk_c :: cpc

definition wk_start :: "'a wstate" where
  "wk_start = \<lparr>wk_q = (\<lambda>_. []), wk_len = (\<lambda>_. 0), wk_call = False, wk_efd = False, wk_chores = False,
     wk_p = (\<lambda>_. PIdle), wk_c = CWait\<rparr>"

section \<open>Steps\<close>

inductive trigger_step :: "nat \<Rightarrow> 'a wstate \<Rightarrow> 'a wstate \<Rightarrow> bool" for t :: nat where
  call: "wk_p s t = PIdle \<Longrightarrow> trigger_step t s (s\<lparr>wk_p := (wk_p s)(t := PLink u)\<rparr>)"
| link: "wk_p s t = PLink u \<Longrightarrow>
    trigger_step t s (s\<lparr>wk_p := (wk_p s)(t := PCount u), wk_q := (wk_q s)(u := wk_q s u @ [x])\<rparr>)"
| count: "wk_p s t = PCount u \<Longrightarrow>
    trigger_step t s (s\<lparr>wk_p := (wk_p s)(t := PCas), wk_len := (wk_len s)(u := wk_len s u + 1)\<rparr>)"
| cas: "wk_p s t = PCas \<Longrightarrow>
    trigger_step t s (s\<lparr>wk_p := (wk_p s)(t := if wk_call s then PIdle else PWrite), wk_call := True\<rparr>)"
| signal: "wk_p s t = PWrite \<Longrightarrow> trigger_step t s (s\<lparr>wk_p := (wk_p s)(t := PIdle), wk_efd := True\<rparr>)"

text \<open>
  A round starts when the event descriptor is readable or when the poller has noted to run its chores again, and
  first empties the urgent queue, then takes at most 256 other tasks.
\<close>

definition wk_maxTasks :: nat where
  "wk_maxTasks = 256"

inductive poller_step :: "'a wstate \<Rightarrow> 'a wstate \<Rightarrow> bool" where
  wake: "wk_c s = CWait \<Longrightarrow> wk_efd s \<Longrightarrow> poller_step s (s\<lparr>wk_c := CUrgent, wk_efd := False, wk_chores := False\<rparr>)"
| again: "wk_c s = CWait \<Longrightarrow> wk_chores s \<Longrightarrow> poller_step s (s\<lparr>wk_c := CUrgent, wk_chores := False\<rparr>)"
| urgent: "wk_c s = CUrgent \<Longrightarrow> wk_q s True = x # xs \<Longrightarrow>
    poller_step s (s\<lparr>wk_c := CUrgentCount, wk_q := (wk_q s)(True := xs)\<rparr>)"
| urgent_count: "wk_c s = CUrgentCount \<Longrightarrow>
    poller_step s (s\<lparr>wk_c := CUrgent, wk_len := (wk_len s)(True := wk_len s True - 1)\<rparr>)"
| urgent_none: "wk_c s = CUrgent \<Longrightarrow> wk_q s True = [] \<Longrightarrow> poller_step s (s\<lparr>wk_c := CAsync wk_maxTasks\<rparr>)"
| async: "wk_c s = CAsync (Suc m) \<Longrightarrow> wk_q s False = x # xs \<Longrightarrow>
    poller_step s (s\<lparr>wk_c := CAsyncCount m, wk_q := (wk_q s)(False := xs)\<rparr>)"
| async_count: "wk_c s = CAsyncCount m \<Longrightarrow>
    poller_step s (s\<lparr>wk_c := CAsync m, wk_len := (wk_len s)(False := wk_len s False - 1)\<rparr>)"
| async_none: "wk_c s = CAsync (Suc m) \<Longrightarrow> wk_q s False = [] \<Longrightarrow> poller_step s (s\<lparr>wk_c := CStore\<rparr>)"
| async_limit: "wk_c s = CAsync 0 \<Longrightarrow> poller_step s (s\<lparr>wk_c := CStore\<rparr>)"
| store: "wk_c s = CStore \<Longrightarrow> poller_step s (s\<lparr>wk_c := CCheckAsync, wk_call := False\<rparr>)"
| check_async: "wk_c s = CCheckAsync \<Longrightarrow>
    poller_step s (s\<lparr>wk_c := if wk_len s False = 0 then CCheckUrgent else CCas\<rparr>)"
| check_urgent: "wk_c s = CCheckUrgent \<Longrightarrow>
    poller_step s (s\<lparr>wk_c := if wk_len s True = 0 then CWait else CCas\<rparr>)"
| rewake: "wk_c s = CCas \<Longrightarrow> poller_step s (s\<lparr>wk_c := if wk_call s then CWait else CWrite, wk_call := True\<rparr>)"
| write_ok: "wk_c s = CWrite \<Longrightarrow> poller_step s (s\<lparr>wk_c := CWait, wk_efd := True\<rparr>)"
| write_failed: "wk_c s = CWrite \<Longrightarrow> poller_step s (s\<lparr>wk_c := CWait, wk_chores := True\<rparr>)"

inductive wk_step :: "'a wstate \<Rightarrow> 'a wstate \<Rightarrow> bool" where
  goroutine: "trigger_step t s s' \<Longrightarrow> wk_step s s'"
| poller: "poller_step s s' \<Longrightarrow> wk_step s s'"

section \<open>The invariant\<close>

text \<open>
  While \<open>wakeupCall\<close> is 1 there is exactly one wake-up on its way: the event descriptor is readable, the poller has
  noted to run its chores, a goroutine is about to write to the descriptor, or the poller is in its chores and has
  not reset \<open>wakeupCall\<close> yet, or is about to write itself.
\<close>

datatype holder = HEfd | HChores | HGoroutine nat | HPoller

fun working :: "cpc \<Rightarrow> bool" where
  "working CUrgent = True"
| "working CUrgentCount = True"
| "working (CAsync m) = True"
| "working (CAsyncCount m) = True"
| "working CStore = True"
| "working CWrite = True"
| "working _ = False"

fun holds :: "'a wstate \<Rightarrow> holder \<Rightarrow> bool" where
  "holds s HEfd = wk_efd s"
| "holds s HChores = wk_chores s"
| "holds s (HGoroutine t) = (wk_p s t = PWrite)"
| "holds s HPoller = working (wk_c s)"

definition one_wakeup :: "'a wstate \<Rightarrow> bool" where
  "one_wakeup s \<longleftrightarrow> (wk_call s \<longleftrightarrow> (\<exists>h. holds s h)) \<and> (\<forall>h h'. holds s h \<longrightarrow> holds s h' \<longrightarrow> h = h')"

text \<open>A goroutine that has linked a task and has not tried to swap \<open>wakeupCall\<close> yet.\<close>

definition in_flight :: "'a wstate \<Rightarrow> bool \<Rightarrow> bool" where
  "in_flight s u \<longleftrightarrow> (\<exists>t. wk_p s t = PCount u \<or> wk_p s t = PCas)"

definition noticed :: "'a wstate \<Rightarrow> bool \<Rightarrow> bool" where
  "noticed s u \<longleftrightarrow> wk_q s u = [] \<or> wk_call s \<or> in_flight s u"

text \<open>A queued task is noticed, unless the poller is just checking the queue.\<close>

definition tasks_noticed :: "'a wstate \<Rightarrow> bool" where
  "tasks_noticed s \<longleftrightarrow>
     (case wk_c s of CCheckAsync \<Rightarrow> True | CCheckUrgent \<Rightarrow> noticed s False | CCas \<Rightarrow> True
      | _ \<Rightarrow> noticed s False \<and> noticed s True)"

fun uncounted :: "bool \<Rightarrow> ppc \<Rightarrow> int" where
  "uncounted u (PCount v) = (if u = v then 1 else 0)"
| "uncounted u _ = 0"

fun undone :: "bool \<Rightarrow> cpc \<Rightarrow> int" where
  "undone u CUrgentCount = (if u then 1 else 0)"
| "undone u (CAsyncCount m) = (if u then 0 else 1)"
| "undone u _ = 0"

definition counters_ok :: "'a wstate \<Rightarrow> bool" where
  "counters_ok s \<longleftrightarrow> (\<exists>A. finite A \<and> (\<forall>t. t \<notin> A \<longrightarrow> wk_p s t = PIdle) \<and>
     (\<forall>u. wk_len s u + (\<Sum>t\<in>A. uncounted u (wk_p s t)) - undone u (wk_c s) = int (length (wk_q s u))))"

definition wk_ok :: "'a wstate \<Rightarrow> bool" where
  "wk_ok s \<longleftrightarrow> one_wakeup s \<and> tasks_noticed s \<and> counters_ok s"

section \<open>Steps keep the invariant\<close>

inductive_cases trigger_stepE: "trigger_step t s s'"
inductive_cases poller_stepE: "poller_step s s'"

lemma wk_start_ok: "wk_ok wk_start"
proof -
  have "\<not> holds (wk_start :: 'a wstate) h" for h by (cases h) (simp_all add: wk_start_def)
  then show ?thesis
    by (auto simp: wk_ok_def one_wakeup_def tasks_noticed_def noticed_def counters_ok_def wk_start_def intro: exI[of _ "{}"])
qed

lemma trigger_noticed:
  assumes "trigger_step t s s'" "noticed s u"
  shows "noticed s' u" "wk_c s' = wk_c s"
proof -
  from assms(1) show "wk_c s' = wk_c s" by cases simp_all
  have keep: "in_flight s' u" if "in_flight s u" "wk_p s t \<noteq> PCount u" "wk_p s t \<noteq> PCas" "wk_p s' = (wk_p s)(t := p)" for p
  proof -
    obtain t' where t': "wk_p s t' = PCount u \<or> wk_p s t' = PCas" using \<open>in_flight s u\<close> by (auto simp: in_flight_def)
    then have "t' \<noteq> t" using that by auto
    with t' show ?thesis unfolding in_flight_def that(4) by (intro exI[of _ t']) simp
  qed
  from assms(1) show "noticed s' u"
  proof cases
    case (link v x)
    have "in_flight s' v" unfolding link(1) in_flight_def by (intro exI[of _ t]) simp
    moreover have "in_flight s' u" if "in_flight s u" using keep[OF that] link by simp
    ultimately show ?thesis using assms(2) unfolding link(1) noticed_def by (cases "u = v") auto
  next
    case (count v)
    have "in_flight s' u" unfolding count(1) in_flight_def by (intro exI[of _ t]) simp
    then show ?thesis by (simp add: noticed_def)
  next
    case (call v)
    then show ?thesis using assms(2) keep by (auto simp: noticed_def)
  next
    case signal
    then show ?thesis using assms(2) keep by (auto simp: noticed_def)
  qed (simp add: noticed_def)
qed

lemma trigger_counters:
  assumes "trigger_step t s s'" "counters_ok s"
  shows "counters_ok s'"
proof -
  from assms(2) obtain A where A: "finite A" "\<forall>t. t \<notin> A \<longrightarrow> wk_p s t = PIdle"
    and l: "\<And>u. wk_len s u + (\<Sum>t\<in>A. uncounted u (wk_p s t)) - undone u (wk_c s) = int (length (wk_q s u))"
    unfolding counters_ok_def by blast
  have I: "(\<Sum>v\<in>insert t A. uncounted u (wk_p s v)) = (\<Sum>v\<in>A. uncounted u (wk_p s v))" for u
    using A by (cases "t \<in> A") (auto simp: insert_absorb)
  have S: "(\<Sum>v\<in>insert t A. uncounted u (((wk_p s)(t := p)) v)) =
      (\<Sum>v\<in>A. uncounted u (wk_p s v)) - uncounted u (wk_p s t) + uncounted u p" for u p
    using sum_fun_upd[OF A(1), where w = "uncounted u" and f = "wk_p s" and t = t and p = p] I by simp
  have "\<exists>p. wk_p s' = (wk_p s)(t := p)" using assms(1) by cases auto
  then have A': "finite (insert t A)" "\<forall>v. v \<notin> insert t A \<longrightarrow> wk_p s' v = PIdle" using A by auto
  from assms(1) have "wk_len s' u + (\<Sum>v\<in>insert t A. uncounted u (wk_p s' v)) - undone u (wk_c s') = int (length (wk_q s' u))" for u
    by cases (use l[of u] S[of u] in \<open>auto split: if_splits\<close>)
  with A' show ?thesis unfolding counters_ok_def by blast
qed

lemma only_holder:
  assumes "one_wakeup s" "holds s h"
  shows "h \<noteq> HEfd \<Longrightarrow> \<not> wk_efd s" "h \<noteq> HChores \<Longrightarrow> \<not> wk_chores s" "h \<noteq> HGoroutine t \<Longrightarrow> wk_p s t \<noteq> PWrite"
    "h \<noteq> HPoller \<Longrightarrow> \<not> working (wk_c s)"
  using assms unfolding one_wakeup_def by (metis holds.simps)+

lemma no_holder:
  assumes "one_wakeup s" "\<not> wk_call s"
  shows "\<not> wk_efd s" "\<not> wk_chores s" "wk_p s t \<noteq> PWrite" "\<not> working (wk_c s)"
  using assms unfolding one_wakeup_def by (metis holds.simps)+

lemma trigger_one_wakeup:
  assumes "trigger_step t s s'" "one_wakeup s"
  shows "one_wakeup s'"
proof -
  from assms(1) show ?thesis
  proof cases
    case cas
    show ?thesis
    proof (cases "wk_call s")
      case True
      have "holds s' h = holds s h" for h using cas True by (cases h) auto
      then show ?thesis using assms(2) cas True by (simp add: one_wakeup_def)
    next
      case False
      have "holds s' h \<longleftrightarrow> h = HGoroutine t" for h using cas False no_holder[OF assms(2) False] by (cases h) auto
      then show ?thesis using cas by (auto simp: one_wakeup_def)
    qed
  next
    case signal
    have "holds s' h \<longleftrightarrow> h = HEfd" for h using signal only_holder[OF assms(2), of "HGoroutine t"] by (cases h) auto
    moreover have "wk_call s" using assms(2) signal by (auto simp: one_wakeup_def intro: exI[of _ "HGoroutine t"])
    ultimately show ?thesis using signal by (auto simp: one_wakeup_def)
  next
    case (call u)
    have "holds s' h = holds s h" for h using call by (cases h) auto
    then show ?thesis using assms(2) call by (simp add: one_wakeup_def)
  next
    case (link u x)
    have "holds s' h = holds s h" for h using link by (cases h) auto
    then show ?thesis using assms(2) link by (simp add: one_wakeup_def)
  next
    case (count u)
    have "holds s' h = holds s h" for h using count by (cases h) auto
    then show ?thesis using assms(2) count by (simp add: one_wakeup_def)
  qed
qed

lemma trigger_ok: "trigger_step t s s' \<Longrightarrow> wk_ok s \<Longrightarrow> wk_ok s'"
proof -
  assume t: "trigger_step t s s'" and ok: "wk_ok s"
  have "tasks_noticed s" using ok by (simp add: wk_ok_def)
  moreover have "wk_c s' = wk_c s" using t by cases simp_all
  ultimately have "tasks_noticed s'" using trigger_noticed(1)[OF t]
    by (cases "wk_c s") (simp_all add: tasks_noticed_def)
  then show "wk_ok s'" using trigger_counters[OF t] trigger_one_wakeup[OF t] ok by (simp add: wk_ok_def)
qed

text \<open>An empty counter and a queued task: some goroutine has linked its task and not counted it.\<close>

lemma miscounted:
  assumes "counters_ok s" "wk_len s u = 0" "undone u (wk_c s) = 0"
  shows "wk_q s u = [] \<or> in_flight s u"
proof -
  from assms(1) obtain A where "finite A"
    and "\<forall>u. wk_len s u + (\<Sum>t\<in>A. uncounted u (wk_p s t)) - undone u (wk_c s) = int (length (wk_q s u))"
    by (auto simp: counters_ok_def)
  then have A: "finite A" "wk_len s u + (\<Sum>t\<in>A. uncounted u (wk_p s t)) - undone u (wk_c s) = int (length (wk_q s u))" by auto
  have "\<exists>t\<in>A. uncounted u (wk_p s t) \<noteq> 0" if "wk_q s u \<noteq> []"
  proof (rule ccontr)
    assume "\<not> (\<exists>t\<in>A. uncounted u (wk_p s t) \<noteq> 0)"
    then have "(\<Sum>t\<in>A. uncounted u (wk_p s t)) = 0" by (intro sum.neutral) blast
    with A(2) assms(2,3) that show False by simp
  qed
  moreover have "p = PCount u" if "uncounted u p \<noteq> 0" for p using that by (cases p) (auto split: if_splits)
  ultimately show ?thesis unfolding in_flight_def by blast
qed

lemma poller_counters:
  assumes "poller_step s s'" "counters_ok s"
  shows "counters_ok s'"
proof -
  from assms(2) obtain A where A: "finite A" "\<forall>t. t \<notin> A \<longrightarrow> wk_p s t = PIdle"
    and l: "\<And>u. wk_len s u + (\<Sum>t\<in>A. uncounted u (wk_p s t)) - undone u (wk_c s) = int (length (wk_q s u))"
    unfolding counters_ok_def by blast
  from assms(1) have "wk_p s' = wk_p s" by cases simp_all
  moreover from assms(1) have "wk_len s' u + (\<Sum>t\<in>A. uncounted u (wk_p s' t)) - undone u (wk_c s') = int (length (wk_q s' u))" for u
    by cases (use l[of u] in \<open>auto split: if_splits\<close>)
  ultimately show ?thesis using A unfolding counters_ok_def by auto
qed

lemma poller_noticed:
  assumes "poller_step s s'" "wk_ok s"
  shows "tasks_noticed s'"
proof -
  have w: "wk_call s" if "working (wk_c s)" using that assms(2) by (auto simp: wk_ok_def one_wakeup_def intro: exI[of _ HPoller])
  have c: "counters_ok s" and n: "tasks_noticed s" using assms(2) by (auto simp: wk_ok_def)
  have called: "tasks_noticed s'" if "wk_call s'" using that by (auto simp: tasks_noticed_def noticed_def split: cpc.splits)
  have same: "noticed s' u" if "noticed s u" "wk_q s' u = wk_q s u" "wk_p s' = wk_p s" "wk_call s' = wk_call s" for u
    using that by (auto simp: noticed_def in_flight_def)
  from assms(1) show ?thesis
  proof cases
    case check_async
    have "noticed s False" if "wk_len s False = 0" using miscounted[OF c that] check_async by (auto simp: noticed_def)
    then show ?thesis using check_async same[of False] by (auto simp: tasks_noticed_def)
  next
    case check_urgent
    have "noticed s True" if "wk_len s True = 0" using miscounted[OF c that] check_urgent by (auto simp: noticed_def)
    moreover have "noticed s False" using n check_urgent by (simp add: tasks_noticed_def)
    ultimately show ?thesis using check_urgent same by (auto simp: tasks_noticed_def)
  next
    case store
    then show ?thesis by (simp add: tasks_noticed_def)
  next
    case wake
    with n same show ?thesis by (auto simp: tasks_noticed_def)
  next
    case again
    with n same show ?thesis by (auto simp: tasks_noticed_def)
  qed (use w called in simp_all)
qed

lemma poller_one_wakeup:
  assumes "poller_step s s'" "one_wakeup s"
  shows "one_wakeup s'"
proof -
  have called: "wk_call s" if "holds s h" for h using assms(2) that by (auto simp: one_wakeup_def)
  have same: "one_wakeup s'" if "wk_efd s' = wk_efd s" "wk_chores s' = wk_chores s" "wk_p s' = wk_p s" "wk_call s' = wk_call s"
    "working (wk_c s') = working (wk_c s)"
  proof -
    have "holds s' h = holds s h" for h using that by (cases h) auto
    then show ?thesis using that(4) assms(2) by (simp add: one_wakeup_def)
  qed
  have moved: "one_wakeup s'" if "wk_call s'" "\<And>h. holds s' h \<longleftrightarrow> h = h1" for h1 using that by (auto simp: one_wakeup_def)
  from assms(1) show ?thesis
  proof cases
    case wake
    have "holds s' h \<longleftrightarrow> h = HPoller" for h using wake only_holder[OF assms(2), of HEfd] by (cases h) auto
    with moved called[of HEfd] wake show ?thesis by auto
  next
    case again
    have "holds s' h \<longleftrightarrow> h = HPoller" for h using again only_holder[OF assms(2), of HChores] by (cases h) auto
    with moved called[of HChores] again show ?thesis by auto
  next
    case store
    have "\<not> holds s' h" for h using store only_holder[OF assms(2), of HPoller] by (cases h) auto
    then show ?thesis using store by (simp add: one_wakeup_def)
  next
    case rewake
    show ?thesis
    proof (cases "wk_call s")
      case True
      with same rewake show ?thesis by simp
    next
      case False
      have "holds s' h \<longleftrightarrow> h = HPoller" for h using rewake False no_holder[OF assms(2) False] by (cases h) auto
      then show ?thesis using rewake by (auto simp: one_wakeup_def)
    qed
  next
    case write_ok
    have "holds s' h \<longleftrightarrow> h = HEfd" for h using write_ok only_holder[OF assms(2), of HPoller] by (cases h) auto
    with moved called[of HPoller] write_ok show ?thesis by auto
  next
    case write_failed
    have "holds s' h \<longleftrightarrow> h = HChores" for h using write_failed only_holder[OF assms(2), of HPoller] by (cases h) auto
    with moved called[of HPoller] write_failed show ?thesis by auto
  qed (use same in simp_all)
qed

lemma poller_ok: "poller_step s s' \<Longrightarrow> wk_ok s \<Longrightarrow> wk_ok s'"
  using poller_counters poller_one_wakeup poller_noticed unfolding wk_ok_def by blast

lemma wk_step_ok: "wk_step s s' \<Longrightarrow> wk_ok s \<Longrightarrow> wk_ok s'"
  by (erule wk_step.cases) (use trigger_ok poller_ok in blast)+

lemma wk_reach_ok: "wk_step\<^sup>*\<^sup>* wk_start s \<Longrightarrow> wk_ok s"
  by (induction rule: rtranclp_induct) (auto simp: wk_start_ok wk_step_ok)

end
