(* ===== verification/TaskPool.thy ===== *)
theory TaskPool
  imports Prelude
begin

text \<open>
  The recycling of task objects (\<open>internal/queue/queue.go\<close>). \<open>Trigger\<close> and \<open>UrgentTrigger\<close>
  (\<open>internal/netpoll/epoll_default_poller.go\<close>) take an object from a \<open>sync.Pool\<close>, fill it in and queue its address;
  the poller takes the address, calls the function and puts the object back. A step is one access of a goroutine to
  shared state; \<open>Enqueue\<close> and \<open>Dequeue\<close> are atomic, as \<open>LockFreeQueue\<close> shows them to be.

  The theorem: although objects are reused, the poller runs exactly the tasks that were queued, in their order.
\<close>

section \<open>The pool\<close>

text \<open>The objects by address, \<open>None\<close> for a cleared one, those in the pool, and the number of allocated ones.\<close>

record 't tpool =
  tp_obj :: "nat \<Rightarrow> 't option"
  tp_free :: "nat list"
  tp_next :: nat

text \<open>\<open>sync.Pool\<close> may return any object it kept, and may have kept none: \<open>pick\<close> is its choice.\<close>

definition GetTask :: "nat option \<Rightarrow> 't tpool \<Rightarrow> 't tpool \<times> nat" where
  "GetTask pick P =
     (case pick of
        Some j \<Rightarrow>
          if j < length (tp_free P)
          then (P\<lparr>tp_free := take j (tp_free P) @ drop (Suc j) (tp_free P)\<rparr>, tp_free P ! j)
          else (P\<lparr>tp_obj := (tp_obj P)(tp_next P := None), tp_next := Suc (tp_next P)\<rparr>, tp_next P)
      | None \<Rightarrow> (P\<lparr>tp_obj := (tp_obj P)(tp_next P := None), tp_next := Suc (tp_next P)\<rparr>, tp_next P))"

definition PutTask :: "'t tpool \<Rightarrow> nat \<Rightarrow> 't tpool" where
  "PutTask P a = P\<lparr>tp_obj := (tp_obj P)(a := None), tp_free := a # tp_free P\<rparr>"

section \<open>Goroutines\<close>

text \<open>A goroutine in \<open>Trigger\<close>: with an empty object, and with one it has filled in. The poller: with an object to run, or one it has run.\<close>

datatype 't sender = SIdle | SGot nat | SFilled nat 't

datatype runner = RIdle | RTaken bool nat | RDone nat

text \<open>The two queues, of urgent and of other tasks; \<open>ts_sent\<close> and \<open>ts_ran\<close> record what was queued and what was run.\<close>

record 't tstate =
  ts_pool :: "'t tpool"
  ts_sender :: "nat \<Rightarrow> 't sender"
  ts_runner :: runner
  ts_queue :: "bool \<Rightarrow> nat list"
  ts_sent :: "bool \<Rightarrow> 't list"
  ts_ran :: "bool \<Rightarrow> 't list"

inductive task_step :: "'t tstate \<Rightarrow> 't tstate \<Rightarrow> bool" where
  get: "\<lbrakk>ts_sender s g = SIdle; GetTask pick (ts_pool s) = (P, a)\<rbrakk> \<Longrightarrow>
    task_step s (s\<lparr>ts_pool := P, ts_sender := (ts_sender s)(g := SGot a)\<rparr>)"
| fill: "ts_sender s g = SGot a \<Longrightarrow>
    task_step s (s\<lparr>ts_pool := (ts_pool s)\<lparr>tp_obj := (tp_obj (ts_pool s))(a := Some t)\<rparr>, ts_sender := (ts_sender s)(g := SFilled a t)\<rparr>)"
| enqueue: "ts_sender s g = SFilled a t \<Longrightarrow>
    task_step s (s\<lparr>ts_sender := (ts_sender s)(g := SIdle), ts_queue := (ts_queue s)(u := ts_queue s u @ [a]),
      ts_sent := (ts_sent s)(u := ts_sent s u @ [t])\<rparr>)"
| dequeue: "\<lbrakk>ts_runner s = RIdle; ts_queue s u = a # as\<rbrakk> \<Longrightarrow>
    task_step s (s\<lparr>ts_runner := RTaken u a, ts_queue := (ts_queue s)(u := as)\<rparr>)"
| run: "\<lbrakk>ts_runner s = RTaken u a; tp_obj (ts_pool s) a = Some t\<rbrakk> \<Longrightarrow>
    task_step s (s\<lparr>ts_runner := RDone a, ts_ran := (ts_ran s)(u := ts_ran s u @ [t])\<rparr>)"
| put: "ts_runner s = RDone a \<Longrightarrow> task_step s (s\<lparr>ts_runner := RIdle, ts_pool := PutTask (ts_pool s) a\<rparr>)"
| forget: "tp_free (ts_pool s) = xs @ a # ys \<Longrightarrow> task_step s (s\<lparr>ts_pool := (ts_pool s)\<lparr>tp_free := xs @ ys\<rparr>\<rparr>)"

definition ts_start :: "'t tstate" where
  "ts_start = \<lparr>ts_pool = \<lparr>tp_obj = (\<lambda>_. None), tp_free = [], tp_next = 0\<rparr>, ts_sender = (\<lambda>_. SIdle), ts_runner = RIdle,
     ts_queue = (\<lambda>_. []), ts_sent = (\<lambda>_. []), ts_ran = (\<lambda>_. [])\<rparr>"

text \<open>The poller calls a nil function.\<close>

definition task_panics :: "'t tstate \<Rightarrow> bool" where
  "task_panics s \<longleftrightarrow> (\<exists>u a. ts_runner s = RTaken u a \<and> tp_obj (ts_pool s) a = None)"

section \<open>Every object has one owner\<close>

fun s_addr :: "'t sender \<Rightarrow> nat option" where
  "s_addr SIdle = None"
| "s_addr (SGot a) = Some a"
| "s_addr (SFilled a t) = Some a"

fun r_addrs :: "runner \<Rightarrow> nat list" where
  "r_addrs RIdle = []"
| "r_addrs (RTaken u a) = [a]"
| "r_addrs (RDone a) = [a]"

definition shared :: "'t tstate \<Rightarrow> nat list" where
  "shared s = tp_free (ts_pool s) @ ts_queue s True @ ts_queue s False @ r_addrs (ts_runner s)"

text \<open>The addresses of the tasks of a queue that have not been run.\<close>

definition pending :: "'t tstate \<Rightarrow> bool \<Rightarrow> nat list" where
  "pending s u = (case ts_runner s of RTaken u' a \<Rightarrow> if u' = u then [a] else [] | _ \<Rightarrow> []) @ ts_queue s u"

definition owned :: "'t tstate \<Rightarrow> bool" where
  "owned s \<longleftrightarrow> distinct (shared s) \<and> (\<forall>a\<in>set (shared s). a < tp_next (ts_pool s)) \<and>
     (\<forall>g a. s_addr (ts_sender s g) = Some a \<longrightarrow> a < tp_next (ts_pool s) \<and> a \<notin> set (shared s)) \<and>
     (\<forall>g g' a. s_addr (ts_sender s g) = Some a \<and> s_addr (ts_sender s g') = Some a \<longrightarrow> g = g')"

definition contents :: "'t tstate \<Rightarrow> bool" where
  "contents s \<longleftrightarrow> (\<forall>g a t. ts_sender s g = SFilled a t \<longrightarrow> tp_obj (ts_pool s) a = Some t) \<and>
     (\<forall>u. \<exists>ts. map (tp_obj (ts_pool s)) (pending s u) = map Some ts \<and> ts_sent s u = ts_ran s u @ ts)"

definition task_inv :: "'t tstate \<Rightarrow> bool" where
  "task_inv s \<longleftrightarrow> owned s \<and> contents s"

lemma task_start_inv: "task_inv ts_start"
  by (simp add: task_inv_def owned_def contents_def ts_start_def shared_def pending_def)

lemma pending_shared: "set (pending s u) \<subseteq> set (shared s)"
  by (cases u; cases "ts_runner s") (auto simp: pending_def shared_def)

lemma pending_upd [simp]:
  "pending (s\<lparr>ts_pool := P\<rparr>) u = pending s u" "pending (s\<lparr>ts_sender := f\<rparr>) u = pending s u"
  "pending (s\<lparr>ts_sent := h\<rparr>) u = pending s u" "pending (s\<lparr>ts_ran := h\<rparr>) u = pending s u"
  by (simp_all add: pending_def)

lemma contents_filled: "contents s \<Longrightarrow> ts_sender s g = SFilled a t \<Longrightarrow> tp_obj (ts_pool s) a = Some t"
  by (simp add: contents_def)

lemma contents_pending:
  assumes "contents s"
  obtains ts where "map (tp_obj (ts_pool s)) (pending s u) = map Some ts" "ts_sent s u = ts_ran s u @ ts"
  using assms unfolding contents_def by blast

text \<open>Changing an object that is neither pending nor filled in by a goroutine changes no task.\<close>

lemma contents_upd:
  assumes "contents s" "\<And>u. a \<notin> set (pending s u)" "\<And>g t. ts_sender s g \<noteq> SFilled a t"
    and "tp_obj P = (tp_obj (ts_pool s))(a := x)"
  shows "contents (s\<lparr>ts_pool := P\<rparr>)"
proof -
  have "map (tp_obj P) (pending s u) = map (tp_obj (ts_pool s)) (pending s u)" for u using assms(2)[of u] assms(4) by auto
  then have "\<exists>ts. map (tp_obj P) (pending s u) = map Some ts \<and> ts_sent s u = ts_ran s u @ ts" for u
    using contents_pending[OF assms(1)] by metis
  moreover have "tp_obj P b = Some t" if "ts_sender s g = SFilled b t" for g b t
    using contents_filled[OF assms(1) that] assms(3)[of g t] that assms(4) by (cases "b = a") auto
  ultimately show ?thesis by (simp add: contents_def)
qed

lemma owned_sender: "owned s \<Longrightarrow> s_addr (ts_sender s g) = Some a \<Longrightarrow> a < tp_next (ts_pool s) \<and> a \<notin> set (shared s) \<and> a \<notin> set (pending s u)"
  using pending_shared[of s u] by (auto simp: owned_def)

lemma GetTask_cases:
  assumes "GetTask pick P = (P', a)"
  obtains xs ys where "tp_free P = xs @ a # ys" "P' = P\<lparr>tp_free := xs @ ys\<rparr>"
  | "a = tp_next P" "P' = P\<lparr>tp_obj := (tp_obj P)(a := None), tp_next := Suc (tp_next P)\<rparr>"
  using assms id_take_nth_drop[of _ "tp_free P"] by (auto simp: GetTask_def split: option.splits if_splits)

lemma get_inv:
  assumes I: "task_inv s" and g: "ts_sender s g = SIdle" and P: "GetTask pick (ts_pool s) = (P, a)"
  shows "task_inv (s\<lparr>ts_pool := P, ts_sender := (ts_sender s)(g := SGot a)\<rparr>)"
  using P
proof (cases rule: GetTask_cases)
  case (1 xs ys)
  have "owned (s\<lparr>ts_pool := P, ts_sender := (ts_sender s)(g := SGot a)\<rparr>)"
    using I 1 by (auto simp: task_inv_def owned_def shared_def)
  moreover have "contents (s\<lparr>ts_pool := P, ts_sender := (ts_sender s)(g := SGot a)\<rparr>)"
    using I 1 by (auto simp: task_inv_def contents_def)
  ultimately show ?thesis by (simp add: task_inv_def)
next
  case 2
  have O: "owned s" using I by (simp add: task_inv_def)
  then have new: "a \<notin> set (shared s)" "s_addr (ts_sender s g') \<noteq> Some a" for g' using 2 by (auto simp: owned_def)
  have sh: "shared (s\<lparr>ts_pool := P, ts_sender := (ts_sender s)(g := SGot a)\<rparr>) = shared s" using 2 by (simp add: shared_def)
  have "owned (s\<lparr>ts_pool := P, ts_sender := (ts_sender s)(g := SGot a)\<rparr>)"
    unfolding owned_def sh using O 2 new by (auto simp: owned_def less_SucI)
  moreover have "contents (s\<lparr>ts_pool := P\<rparr>)"
  proof (rule contents_upd)
    show "contents s" using I by (simp add: task_inv_def)
    show "a \<notin> set (pending s u)" for u using pending_shared[of s u] new(1) by blast
    show "ts_sender s g' \<noteq> SFilled a t" for g' t using new(2)[of g'] by auto
    show "tp_obj P = (tp_obj (ts_pool s))(a := None)" using 2 by simp
  qed
  then have "contents (s\<lparr>ts_pool := P, ts_sender := (ts_sender s)(g := SGot a)\<rparr>)" by (auto simp: contents_def)
  ultimately show ?thesis by (simp add: task_inv_def)
qed

lemma fill_inv:
  assumes I: "task_inv s" and g: "ts_sender s g = SGot a"
  shows "task_inv (s\<lparr>ts_pool := (ts_pool s)\<lparr>tp_obj := (tp_obj (ts_pool s))(a := Some t)\<rparr>, ts_sender := (ts_sender s)(g := SFilled a t)\<rparr>)"
proof -
  have O: "owned s" using I by (simp add: task_inv_def)
  let ?P = "(ts_pool s)\<lparr>tp_obj := (tp_obj (ts_pool s))(a := Some t)\<rparr>"
  have sh: "shared (s\<lparr>ts_pool := ?P, ts_sender := (ts_sender s)(g := SFilled a t)\<rparr>) = shared s" by (simp add: shared_def)
  have "s_addr (((ts_sender s)(g := SFilled a t)) g') = s_addr (ts_sender s g')" for g' using g by simp
  then have "owned (s\<lparr>ts_pool := ?P, ts_sender := (ts_sender s)(g := SFilled a t)\<rparr>)" unfolding owned_def sh using O by (simp add: owned_def)
  moreover have "contents (s\<lparr>ts_pool := ?P\<rparr>)"
  proof (rule contents_upd)
    show "contents s" using I by (simp add: task_inv_def)
    show "a \<notin> set (pending s u)" for u using owned_sender[OF O, of g a u] g by simp
    show "ts_sender s g' \<noteq> SFilled a t'" for g' t' using O g unfolding owned_def by (metis s_addr.simps(2,3) sender.distinct(5))
  qed simp
  then have "contents (s\<lparr>ts_pool := ?P, ts_sender := (ts_sender s)(g := SFilled a t)\<rparr>)" by (auto simp: contents_def)
  ultimately show ?thesis by (simp add: task_inv_def)
qed

lemma enqueue_inv:
  assumes I: "task_inv s" and g: "ts_sender s g = SFilled a t"
  shows "task_inv (s\<lparr>ts_sender := (ts_sender s)(g := SIdle), ts_queue := (ts_queue s)(u := ts_queue s u @ [a]),
    ts_sent := (ts_sent s)(u := ts_sent s u @ [t])\<rparr>)" (is "task_inv ?s")
proof -
  have O: "owned s" using I by (simp add: task_inv_def)
  have a: "a < tp_next (ts_pool s)" "a \<notin> set (shared s)" using owned_sender[OF O, of g a] g by auto
  have other: "s_addr (ts_sender s g') \<noteq> Some a" if "g' \<noteq> g" for g' using O g that unfolding owned_def by (metis s_addr.simps(3))
  have sh: "set (shared ?s) = insert a (set (shared s))" "distinct (shared ?s)"
    using O a by (cases u; auto simp: shared_def owned_def)+
  have "owned ?s" unfolding owned_def sh(1) using O a other sh(2) by (auto simp: owned_def)
  moreover have "contents ?s"
  proof -
    have p: "pending ?s u' = pending s u' @ (if u' = u then [a] else [])" for u' by (simp add: pending_def)
    have t: "tp_obj (ts_pool s) a = Some t" using I g by (auto simp: task_inv_def contents_def)
    show ?thesis unfolding contents_def
    proof (intro conjI allI)
      fix u'
      obtain ts where "map (tp_obj (ts_pool s)) (pending s u') = map Some ts" "ts_sent s u' = ts_ran s u' @ ts"
        using I contents_pending[of s u'] unfolding task_inv_def by blast
      then show "\<exists>ts. map (tp_obj (ts_pool ?s)) (pending ?s u') = map Some ts \<and> ts_sent ?s u' = ts_ran ?s u' @ ts"
        using t p by (cases "u' = u") (auto intro!: exI[of _ "ts @ (if u' = u then [t] else [])"])
    qed (use I in \<open>auto simp: task_inv_def contents_def\<close>)
  qed
  ultimately show ?thesis by (simp add: task_inv_def)
qed

lemma dequeue_inv:
  assumes I: "task_inv s" and r: "ts_runner s = RIdle" "ts_queue s u = a # as"
  shows "task_inv (s\<lparr>ts_runner := RTaken u a, ts_queue := (ts_queue s)(u := as)\<rparr>)" (is "task_inv ?s")
proof -
  have sh: "set (shared ?s) = set (shared s)" "distinct (shared ?s) = distinct (shared s)"
    using r by (cases u; auto simp: shared_def)+
  have "owned ?s" unfolding owned_def sh using I by (simp add: task_inv_def owned_def)
  moreover have "pending ?s u' = pending s u'" for u' using r by (simp add: pending_def)
  then have "contents ?s" using I by (simp add: task_inv_def contents_def)
  ultimately show ?thesis by (simp add: task_inv_def)
qed

lemma run_inv:
  assumes I: "task_inv s" and r: "ts_runner s = RTaken u a" "tp_obj (ts_pool s) a = Some t"
  shows "task_inv (s\<lparr>ts_runner := RDone a, ts_ran := (ts_ran s)(u := ts_ran s u @ [t])\<rparr>)" (is "task_inv ?s")
proof -
  have sh: "shared ?s = shared s" using r by (simp add: shared_def)
  have "owned ?s" unfolding owned_def sh using I by (simp add: task_inv_def owned_def)
  moreover have "contents ?s" unfolding contents_def
  proof (intro conjI allI)
    fix u'
    obtain ts where ts: "map (tp_obj (ts_pool s)) (pending s u') = map Some ts" "ts_sent s u' = ts_ran s u' @ ts"
      using I contents_pending[of s u'] unfolding task_inv_def by blast
    have "pending s u' = (if u' = u then [a] else []) @ pending ?s u'" using r by (simp add: pending_def)
    then show "\<exists>ts. map (tp_obj (ts_pool ?s)) (pending ?s u') = map Some ts \<and> ts_sent ?s u' = ts_ran ?s u' @ ts"
      using ts r(2) by (cases "u' = u"; cases ts) auto
  qed (use I in \<open>auto simp: task_inv_def contents_def\<close>)
  ultimately show ?thesis by (simp add: task_inv_def)
qed

lemma put_inv:
  assumes I: "task_inv s" and r: "ts_runner s = RDone a"
  shows "task_inv (s\<lparr>ts_runner := RIdle, ts_pool := PutTask (ts_pool s) a\<rparr>)" (is "task_inv ?s")
proof -
  have O: "owned s" using I by (simp add: task_inv_def)
  have sh: "set (shared ?s) = set (shared s)" "distinct (shared ?s) = distinct (shared s)"
    using r by (auto simp: shared_def PutTask_def)
  have "owned ?s" unfolding owned_def sh using O by (simp add: owned_def PutTask_def)
  moreover have "contents (s\<lparr>ts_pool := PutTask (ts_pool s) a\<rparr>)"
  proof (rule contents_upd)
    show "contents s" using I by (simp add: task_inv_def)
    show "a \<notin> set (pending s u)" for u using O r by (cases u) (auto simp: owned_def pending_def shared_def)
    show "ts_sender s g \<noteq> SFilled a t" for g t using owned_sender[OF O, of g a] r by (auto simp: shared_def)
  qed (simp add: PutTask_def)
  then have "contents ?s" using r by (simp add: contents_def pending_def)
  ultimately show ?thesis by (simp add: task_inv_def)
qed

lemma task_step_inv: "task_step s s' \<Longrightarrow> task_inv s \<Longrightarrow> task_inv s'"
proof (induction rule: task_step.induct)
  case (forget s xs a ys)
  then show ?case by (auto simp: task_inv_def owned_def contents_def shared_def)
qed (blast intro: get_inv fill_inv enqueue_inv dequeue_inv run_inv put_inv)+

lemma task_reach_inv: "task_step\<^sup>*\<^sup>* ts_start s \<Longrightarrow> task_inv s"
  by (induction rule: rtranclp_induct) (auto intro: task_start_inv task_step_inv)

text \<open>A task that is to be run is the one that was queued.\<close>

lemma task_inv_ran:
  assumes "task_inv s"
  shows "\<not> task_panics s \<and> (\<exists>ts. map (tp_obj (ts_pool s)) (pending s u) = map Some ts \<and> ts_sent s u = ts_ran s u @ ts)"
proof -
  have c: "\<exists>ts. map (tp_obj (ts_pool s)) (pending s u) = map Some ts \<and> ts_sent s u = ts_ran s u @ ts" for u
    using assms by (auto simp: task_inv_def contents_def)
  have "tp_obj (ts_pool s) a \<noteq> None" if "ts_runner s = RTaken u a" for u a
    using c[of u] that by (auto simp: pending_def)
  with c show ?thesis by (auto simp: task_panics_def)
qed

end
