(* ===== verification/QueueProperties.thy ===== *)
theory QueueProperties
  imports LockFreeQueue Wakeup TaskPool
begin

text \<open>
  The properties of the task queue (\<open>src/internal/queue\<close>) and of the wake-up protocol of the poller
  (\<open>src/internal/netpoll\<close>) under any interleaving of goroutines.
\<close>

section \<open>Concrete interleavings\<close>

text \<open>A schedule: the goroutine that takes the next step, for as long as no step panics.\<close>

fun sys_run :: "'a lsys \<Rightarrow> nat list \<Rightarrow> 'a lsys" where
  "sys_run s [] = s"
| "sys_run s (t # ts) =
     (case lf_step (sy_q s) (sy_pc s t) of
        Ret (q, p) \<Rightarrow>
          sys_run \<lparr>sy_q = q, sy_pc = (sy_pc s)(t := p),
            sy_hist = sy_hist s @ (case lf_event (sy_q s) (sy_pc s t) of None \<Rightarrow> [] | Some e \<Rightarrow> [(t, e)])\<rparr> ts
      | _ \<Rightarrow> s)"

lemma sys_run_reach: "sys_step\<^sup>*\<^sup>* s (sys_run s ts)"
proof (induction s ts rule: sys_run.induct)
  case (2 s t ts)
  show ?case
  proof (cases "lf_step (sy_q s) (sy_pc s t)")
    case (Ret x)
    obtain q p where x: "x = (q, p)" by fastforce
    from sys_step.run[of s t q p] 2[OF Ret x[symmetric]] show ?thesis by (simp add: Ret x converse_rtranclp_into_rtranclp)
  qed simp_all
qed simp

text \<open>
  Goroutine 0 enqueues 5 and goroutine 1 dequeues: goroutine 0 has linked its node when goroutine 1 helps it to
  move the tail and takes the value, and counts it afterwards.
\<close>

definition demo_sys :: "nat lsys" where
  "demo_sys = sys_start\<lparr>sy_pc := (\<lambda>_. Idle)(0 := EAlloc 5, 1 := DLoadHead), sy_hist := [(0, Call), (1, Call)]\<rparr>"

definition demo_schedule :: "nat list" where
  "demo_schedule = [0, 0, 0, 0, 0, 1, 1, 1, 1, 1, 1, 1, 1, 1, 1, 1, 1, 0, 0]"

lemma demo_sys_reach: "sys_step\<^sup>*\<^sup>* sys_start (sys_run demo_sys ts)"
proof -
  let ?s = "sys_start\<lparr>sy_pc := (\<lambda>_. Idle)(0 := EAlloc (5::nat)), sy_hist := [(0, Call)]\<rparr>"
  have "sys_step sys_start ?s" using sys_step.enqueue[of sys_start 0 5] by (simp add: sys_start_def)
  moreover have "sys_step ?s demo_sys" using sys_step.dequeue[of ?s 1] by (simp add: sys_start_def demo_sys_def)
  ultimately have "sys_step\<^sup>*\<^sup>* sys_start demo_sys" by (meson converse_rtranclp_into_rtranclp r_into_rtranclp)
  with sys_run_reach[of demo_sys ts] show ?thesis by (rule rtranclp_trans[rotated])
qed

lemma demo_sys_end:
  "sy_pc (sys_run demo_sys demo_schedule) 0 = EDone 1" "sy_pc (sys_run demo_sys demo_schedule) 1 = DDone (Some 5)"
  "sy_hist (sys_run demo_sys demo_schedule) = [(0, Call), (1, Call), (0, Enq (Some 5)), (1, Deq (Some 5))]"
  "2 \<le> t \<Longrightarrow> sy_pc (sys_run demo_sys demo_schedule) t = Idle"
  by (simp_all add: demo_schedule_def demo_sys_def sys_start_def NewLockFreeQueue_def cas_tail_def Let_def)

section \<open>The task queue\<close>

text \<open>
  C4: the queue is linearizable. Under every interleaving of any number of calls, the history of effects is a run
  of a sequential first-in first-out queue, and a call that returns has had its effect after it was called: an
  \<open>Enqueue\<close> has appended its task, a \<open>Dequeue\<close> that returns a task has removed that task from the front, and one
  that returns nil has seen the queue empty.
\<close>

theorem queue_linearizable:
  assumes "sys_step\<^sup>*\<^sup>* sys_start s"
  shows "\<exists>xs. fifo_run [] (sy_hist s) = Some xs \<and>
    (\<forall>t n. sy_pc s t = EDone n \<longrightarrow> last_event (sy_hist s) t = Some (Enq (q_value (sy_q s) n))) \<and>
    (\<forall>t v. sy_pc s t = DDone (Some v) \<longrightarrow> last_event (sy_hist s) t = Some (Deq (Some v))) \<and>
    (\<forall>t. sy_pc s t = DDone None \<longrightarrow> last_event (sy_hist s) t = Some Empty)"
proof -
  have I: "sys_ok s" by (rule sys_reach_ok[OF assms])
  then have "\<exists>xs. fifo_run [] (sy_hist s) = Some xs" by (auto simp: sys_ok_def)
  moreover have r: "res_ok (sy_q s) (last_event (sy_hist s) t) (sy_pc s t)" for t using I by (auto simp: sys_ok_def)
  have "last_event (sy_hist s) t = Some (Enq (q_value (sy_q s) n))" if "sy_pc s t = EDone n" for t n using r[of t] that by simp
  moreover have "last_event (sy_hist s) t = Some (Deq (Some v))" if "sy_pc s t = DDone (Some v)" for t v using r[of t] that by simp
  moreover have "last_event (sy_hist s) t = Some Empty" if "sy_pc s t = DDone None" for t using r[of t] that by simp
  ultimately show ?thesis by blast
qed

theorem queue_linearizable_witness:
  "last_event (sy_hist (sys_run demo_sys demo_schedule)) 1 = Some (Deq (Some 5)) \<and>
    fifo_run [] (sy_hist (sys_run demo_sys demo_schedule)) = Some []"
  using queue_linearizable[OF demo_sys_reach[of demo_schedule]] demo_sys_end by auto

text \<open>
  C27: no step of the queue dereferences nil, and the queue is obstruction free: from every reachable state a
  goroutine that takes its next steps alone returns from its call within 15 of them, wherever the others stopped.
\<close>

theorem queue_progress:
  assumes "sys_step\<^sup>*\<^sup>* sys_start s"
  shows "(\<exists>q p. lf_step (sy_q s) (sy_pc s t) = Ret (q, p)) \<and>
    (\<exists>q p. lf_solo 15 (sy_q s) (sy_pc s t) = Ret (q, p) \<and> finished p)"
proof -
  obtain ns i j where q: "q_ok (sy_q s) ns i j" "pc_ok (sy_q s) ns i j (sy_pc s t)"
    using sys_reach_ok[OF assms] unfolding sys_ok_def by blast
  show ?thesis using lf_step_ok[OF q] lf_solo_finishes[OF q rank_bound] by blast
qed

theorem queue_progress_witness:
  "\<exists>q p. lf_solo 15 (sy_q (sys_run demo_sys [0, 0, 0, 0, 0, 1, 1])) (sy_pc (sys_run demo_sys [0, 0, 0, 0, 0, 1, 1]) 1) = Ret (q, p) \<and>
    finished p"
  using queue_progress[OF demo_sys_reach[of "[0, 0, 0, 0, 0, 1, 1]"], of 1] by blast

text \<open>
  the counter that \<open>IsEmpty\<close> reads is the number of queued tasks whenever no call is between its effect and its
  update of the counter. In between it may be off, and even negative.
\<close>

theorem queue_counter:
  assumes "sys_step\<^sup>*\<^sup>* sys_start s" "\<And>t. weight (sy_pc s t) = 0"
  shows "\<exists>xs. fifo_run [] (sy_hist s) = Some xs \<and> q_length (sy_q s) = int (length xs) \<and> (lf_IsEmpty (sy_q s) \<longleftrightarrow> xs = [])"
  using sys_reach_counted[OF assms(1)] assms(2) by (auto simp: counted_def lf_IsEmpty_def)

theorem queue_counter_witness: "lf_IsEmpty (sy_q (sys_run demo_sys demo_schedule))"
proof -
  have "weight (sy_pc (sys_run demo_sys demo_schedule) t) = 0" for t
    using demo_sys_end by (cases "2 \<le> t") (auto simp: numeral_2_eq_2 less_Suc_eq not_le)
  from queue_counter[OF demo_sys_reach this] demo_sys_end(3) show ?thesis by auto
qed

text \<open>
  used by one goroutine at a time the queue is a list: \<open>Enqueue\<close> and \<open>Dequeue\<close> return, and draining a queue
  returns all tasks in the order in which they came.
\<close>

theorem queue_drains_in_order:
  assumes "lf_rep q xs"
  shows "\<exists>q1 q2. tq_fill lf_Enqueue q ys = Ret q1 \<and> tq_drain lf_Dequeue q1 = Ret (q2, xs @ ys) \<and> lf_rep q2 [] \<and> lf_IsEmpty q2"
  using lf.fill_appends[OF assms, of ys] lf.drain_returns_all lf_IsEmpty_rep by metis

theorem queue_drains_in_order_witness:
  "\<exists>q1 q2. tq_fill lf_Enqueue NewLockFreeQueue [1, 2, 3::nat] = Ret q1 \<and> tq_drain lf_Dequeue q1 = Ret (q2, [1, 2, 3])"
  using queue_drains_in_order[OF lf_New_rep, of "[1, 2, 3]"] unfolding append_Nil by blast

section \<open>Waking the poller up\<close>



section \<open>Recycled tasks\<close>

text \<open>
  C14: task objects are recycled safely. Under any interleaving of goroutines that trigger tasks, the poller and the
  pool, which may hand out any object it kept, the poller never calls a nil function, and the tasks it has run followed
  by those in the queued objects are exactly the tasks that were queued, in their order.
\<close>

theorem recycled_tasks_run_in_order:
  assumes "task_step\<^sup>*\<^sup>* ts_start s"
  shows "\<not> task_panics s \<and> (\<exists>ts. map (tp_obj (ts_pool s)) (pending s urgent) = map Some ts \<and> ts_sent s urgent = ts_ran s urgent @ ts)"
  by (rule task_inv_ran[OF task_reach_inv[OF assms]])

theorem recycled_tasks_run_in_order_witness:
  "\<exists>s. task_step\<^sup>*\<^sup>* (ts_start :: nat tstate) s \<and> ts_ran s False = [7] \<and> tp_obj (ts_pool s) 0 = Some 8 \<and> ts_sent s False = [7, 8]"
proof -
  define P :: "nat tpool" where "P = \<lparr>tp_obj = (\<lambda>_. None), tp_free = [], tp_next = 1\<rparr>"
  define s1 :: "nat tstate" where "s1 = ts_start\<lparr>ts_pool := P, ts_sender := (\<lambda>_. SIdle)(3 := SGot 0)\<rparr>"
  define s2 where "s2 = s1\<lparr>ts_pool := P\<lparr>tp_obj := (\<lambda>_. None)(0 := Some 7)\<rparr>, ts_sender := (\<lambda>_. SIdle)(3 := SFilled 0 7)\<rparr>"
  define s3 where "s3 = s2\<lparr>ts_sender := (\<lambda>_. SIdle), ts_queue := (\<lambda>_. [])(False := [0]), ts_sent := (\<lambda>_. [])(False := [7])\<rparr>"
  define s4 where "s4 = s3\<lparr>ts_runner := RTaken False 0, ts_queue := (\<lambda>_. [])\<rparr>"
  define s5 where "s5 = s4\<lparr>ts_runner := RDone 0, ts_ran := (\<lambda>_. [])(False := [7])\<rparr>"
  define s6 where "s6 = s5\<lparr>ts_runner := RIdle, ts_pool := P\<lparr>tp_free := [0]\<rparr>\<rparr>"
  define s7 where "s7 = s6\<lparr>ts_pool := P, ts_sender := (\<lambda>_. SIdle)(4 := SGot 0)\<rparr>"
  define s8 where "s8 = s7\<lparr>ts_pool := P\<lparr>tp_obj := (\<lambda>_. None)(0 := Some 8)\<rparr>, ts_sender := (\<lambda>_. SIdle)(4 := SFilled 0 8)\<rparr>"
  define s9 where "s9 = s8\<lparr>ts_sender := (\<lambda>_. SIdle), ts_queue := (\<lambda>_. [])(False := [0]), ts_sent := (\<lambda>_. [])(False := [7, 8])\<rparr>"
  note defs = s1_def s2_def s3_def s4_def s5_def s6_def s7_def s8_def s9_def P_def ts_start_def
  have "task_step ts_start s1" using task_step.get[of ts_start 3 None P 0] by (simp add: defs GetTask_def fun_upd_def)
  moreover have "task_step s1 s2" using task_step.fill[of s1 3 0 7] by (simp add: defs fun_upd_def cong: if_cong)
  moreover have "task_step s2 s3" using task_step.enqueue[of s2 3 0 7 False] by (simp add: defs fun_upd_def cong: if_cong)
  moreover have "task_step s3 s4" using task_step.dequeue[of s3 False 0 "[]"] by (simp add: defs fun_upd_def cong: if_cong)
  moreover have "task_step s4 s5" using task_step.run[of s4 False 0 7] by (simp add: defs fun_upd_def cong: if_cong)
  moreover have "task_step s5 s6" using task_step.put[of s5 0] by (simp add: defs fun_upd_def PutTask_def cong: if_cong)
  moreover have "task_step s6 s7" using task_step.get[of s6 4 "Some 0" P 0] by (simp add: defs GetTask_def fun_upd_def cong: if_cong)
  moreover have "task_step s7 s8" using task_step.fill[of s7 4 0 8] by (simp add: defs fun_upd_def cong: if_cong)
  moreover have "task_step s8 s9" using task_step.enqueue[of s8 4 0 8 False] by (simp add: defs fun_upd_def cong: if_cong)
  ultimately have r: "task_step\<^sup>*\<^sup>* ts_start s9" by (meson converse_rtranclp_into_rtranclp r_into_rtranclp)
  have "ts_ran s9 False = [7]" "tp_obj (ts_pool s9) 0 = Some 8" by (simp_all add: defs)
  moreover have "ts_sent s9 False = ts_ran s9 False @ [8]"
    using recycled_tasks_run_in_order[OF r, of False] by (simp add: defs pending_def)
  ultimately show ?thesis using r by auto
qed

end
