(* ===== verification/Polling.thy ===== *)
theory Polling
  imports LoopInvariant
begin

text \<open>
  The polling loop of \<open>internal/netpoll/epoll_default_poller.go\<close> with its event list
  (\<open>internal/netpoll/epoll_events.go\<close>). A round takes the answer of \<open>epoll_wait\<close> as its input, calls the
  reactor's callback for each event, the user's \<open>proc\<close>, and runs queued tasks when the event descriptor was
  among the events. The callback is a parameter; the sub-reactor's is \<open>el_onEvent\<close>.

  The main result is that no task is forgotten: whenever a round leaves tasks in a queue, either the event
  descriptor has been written and not yet read, or the loop runs the tasks in its next round in any case.
\<close>

section \<open>The event list\<close>

record evlist =
  ev_size :: int
  ev_events :: "(int \<times> 32 word) list"

definition InitPollEventsCap :: int where "InitPollEventsCap = 128"
definition MaxPollEventsCap :: int where "MaxPollEventsCap = 1024"
definition MinPollEventsCap :: int where "MinPollEventsCap = 32"

definition newEventList :: "int \<Rightarrow> evlist" where
  "newEventList sz = \<lparr>ev_size = sz, ev_events = replicate (nat sz) (0, 0)\<rparr>"

definition ev_expand :: "evlist \<Rightarrow> evlist" where
  "ev_expand l =
     (let newSize = ev_size l * 2
      in if newSize \<le> MaxPollEventsCap then \<lparr>ev_size = newSize, ev_events = replicate (nat newSize) (0, 0)\<rparr> else l)"

definition ev_shrink :: "evlist \<Rightarrow> evlist" where
  "ev_shrink l =
     (let newSize = ev_size l div 2
      in if newSize \<ge> MinPollEventsCap then \<lparr>ev_size = newSize, ev_events = replicate (nat newSize) (0, 0)\<rparr> else l)"

section \<open>Polling\<close>

text \<open>The three functions \<open>InitLogic\<close> stores; a poller on which it was not called has none of them.\<close>

record 'u plogic =
  lg_init :: "'u \<Rightarrow> 'u"
  lg_proc :: "'u \<Rightarrow> 'u \<times> gerror option"
  lg_wait :: "'u \<Rightarrow> int"

record pstate =
  ps_events :: evlist
  ps_chores :: bool
  ps_msec :: int
  ps_wait :: int

type_synonym ('k, 'u) callback =
  "('k, 'u) lstate \<Rightarrow> int \<Rightarrow> 32 word \<Rightarrow> (('k, 'u) lstate \<times> gerror option) go"

text \<open>The loop over the first \<open>n\<close> events; \<open>Inr\<close> is the early return with an error.\<close>

primrec pl_dispatch ::
  "'k world \<Rightarrow> ('k, 'u) callback \<Rightarrow> (int \<times> 32 word) list \<Rightarrow> nat \<Rightarrow> int \<Rightarrow> ('k, 'u) lstate \<Rightarrow> bool \<Rightarrow>
   (('k, 'u) lstate \<times> bool + ('k, 'u) lstate \<times> gerror option) go" where
  "pl_dispatch W cb evs 0 i st doChores = Ret (Inl (st, doChores))"
| "pl_dispatch W cb evs (Suc m) i st doChores =
     go_bind (go_index evs i) (\<lambda>(fd, ev).
     if fd \<noteq> ls_efd st then
       go_bind (cb st fd ev) (\<lambda>(st, err).
       if err = Some ErrAcceptSocket \<or> err = Some ErrEngineShutdown then Ret (Inr (st, err))
       else pl_dispatch W cb evs m (i + 1) st doChores)
     else
       (case w_read W (ls_k st) (ls_efd st) 8 of (k, _) \<Rightarrow>
          pl_dispatch W cb evs m (i + 1) (st\<lparr>ls_k := k\<rparr>) True))"

definition pl_resize :: "int \<Rightarrow> evlist \<Rightarrow> evlist" where
  "pl_resize n l =
     (if n > 0 then if n = ev_size l then ev_expand l else if n < ev_size l div 2 then ev_shrink l else l else l)"

text \<open>What follows the callbacks in a round: the user's \<open>proc\<close>, the chores and the size of the event list.\<close>

definition pl_finish ::
  "'k world \<Rightarrow> 'u handler \<Rightarrow> 'u plogic \<Rightarrow> int \<Rightarrow> pstate \<Rightarrow> ('k, 'u) lstate \<Rightarrow> bool \<Rightarrow>
   (pstate \<times> ('k, 'u) lstate + ('k, 'u) lstate \<times> gerror option) go" where
  "pl_finish W h lg n ps st doChores =
     (case lg_proc lg (ls_user st) of (u, perr) \<Rightarrow>
        let st = st\<lparr>ls_user := u\<rparr>
        in if perr = Some ErrEngineShutdown then Ret (Inr (st, perr))
           else
             go_bind (if doChores then pl_chores W h st else Ret (st, False, None)) (\<lambda>(st, doChores, err).
             if err \<noteq> None then Ret (Inr (st, err))
             else Ret (Inl (ps\<lparr>ps_events := pl_resize n (ps_events ps), ps_chores := doChores\<rparr>, st))))"

text \<open>
  One round, given what \<open>epoll_wait\<close> returned: a count, an error and the events it stored. The timeout for
  the next call is \<open>ps_msec\<close>.
\<close>

definition pl_round ::
  "'k world \<Rightarrow> 'u handler \<Rightarrow> ('k, 'u) callback \<Rightarrow> 'u plogic \<Rightarrow> pstate \<Rightarrow> ('k, 'u) lstate \<Rightarrow>
   int \<times> errno option \<times> (int \<times> 32 word) list \<Rightarrow>
   (pstate \<times> ('k, 'u) lstate + ('k, 'u) lstate \<times> gerror option) go" where
  "pl_round W h cb lg ps st out =
     (case out of (n, err, filled) \<Rightarrow>
        let l = (ps_events ps)\<lparr>ev_events := go_copy (ev_events (ps_events ps)) filled\<rparr>;
            idle = (n = 0 \<or> n < 0 \<and> err = Some EINTR)
        in if \<not> idle \<and> \<not> n > 0 \<and> err \<noteq> None then Ret (Inr (st, map_option Errno err))
           else
             let msec = (if idle then ps_wait ps else if n > 0 then 0 else ps_msec ps)
             in go_bind (pl_dispatch W cb (ev_events l) (nat n) 0 st (ps_chores ps)) (\<lambda>res.
                case res of
                  Inr r \<Rightarrow> Ret (Inr r)
                | Inl (st, doChores) \<Rightarrow> pl_finish W h lg n (ps\<lparr>ps_events := l, ps_msec := msec\<rparr>) st doChores))"

text \<open>The loop over a sequence of answers: \<open>Inl\<close> when it still polls at the end of them.\<close>

fun pl_rounds ::
  "'k world \<Rightarrow> 'u handler \<Rightarrow> ('k, 'u) callback \<Rightarrow> 'u plogic \<Rightarrow> pstate \<Rightarrow> ('k, 'u) lstate \<Rightarrow>
   (int \<times> errno option \<times> (int \<times> 32 word) list) list \<Rightarrow>
   (pstate \<times> ('k, 'u) lstate + ('k, 'u) lstate \<times> gerror option) go" where
  "pl_rounds W h cb lg ps st [] = Ret (Inl (ps, st))"
| "pl_rounds W h cb lg ps st (out # outs) =
     go_bind (pl_round W h cb lg ps st out) (\<lambda>res.
     case res of Inl (ps, st) \<Rightarrow> pl_rounds W h cb lg ps st outs | Inr r \<Rightarrow> Ret (Inr r))"

definition pl_Polling ::
  "'k world \<Rightarrow> 'u handler \<Rightarrow> ('k, 'u) callback \<Rightarrow> 'u plogic option \<Rightarrow> ('k, 'u) lstate \<Rightarrow>
   (int \<times> errno option \<times> (int \<times> 32 word) list) list \<Rightarrow>
   (pstate \<times> ('k, 'u) lstate + ('k, 'u) lstate \<times> gerror option) go" where
  "pl_Polling W h cb lg st outs =
     (case lg of
        None \<Rightarrow> Panic NilDereference
      | Some lg \<Rightarrow>
          let st = st\<lparr>ls_user := lg_init lg (ls_user st)\<rparr>; w = lg_wait lg (ls_user st)
          in pl_rounds W h cb lg
               \<lparr>ps_events = newEventList InitPollEventsCap, ps_chores = False, ps_msec = w, ps_wait = w\<rparr> st outs)"

section \<open>The ticker\<close>

text \<open>
  \<open>ticker\<close> of \<open>eventloop.go\<close>, which runs in its own goroutine: \<open>tick\<close> is \<open>OnTick\<close>, and the list says for each wait
  whether the context ended or the timer fired. The flag of the result says that the ticker has returned. A nil loop
  has no ticker.
\<close>

fun el_ticker ::
  "'k world \<Rightarrow> ('u \<Rightarrow> 'u \<times> action) \<Rightarrow> bool list \<Rightarrow> ('k, 'u) lstate option \<Rightarrow> ('k, 'u) lstate option \<times> bool" where
  "el_ticker W tick ends None = (None, True)"
| "el_ticker W tick [] (Some st) = (Some st, False)"
| "el_ticker W tick (ctxDone # ends) (Some st) =
     (case tick (ls_user st) of (u, action) \<Rightarrow>
        let st = st\<lparr>ls_user := u\<rparr>;
            st = (if action = ActShutdown then fst (pl_UrgentTrigger W st TShutdown) else st)
        in if ctxDone then (Some st, True) else el_ticker W tick ends (Some st))"

section \<open>Specification\<close>

definition evlist_ok :: "evlist \<Rightarrow> bool" where
  "evlist_ok l \<longleftrightarrow> ev_size l \<in> {32, 64, 128, 256, 512, 1024} \<and> glen (ev_events l) = ev_size l"

text \<open>What \<open>epoll_wait\<close> promises: at most as many events as there is room for.\<close>

definition wait_ok :: "evlist \<Rightarrow> int \<times> errno option \<times> (int \<times> 32 word) list \<Rightarrow> bool" where
  "wait_ok l out \<longleftrightarrow> (case out of (n, err, filled) \<Rightarrow> n \<le> ev_size l \<and> (0 \<le> n \<longrightarrow> n = glen filled))"

text \<open>Queued tasks are announced: the wake-up flag is set, so the event descriptor is readable.\<close>

definition wake_ok :: "('k, 'u) lstate \<Rightarrow> bool" where
  "wake_ok st \<longleftrightarrow> (ls_async st \<noteq> [] \<or> ls_urgent st \<noteq> [] \<longrightarrow> ls_wakeup st)"

text \<open>Between the two states tasks were queued only through a trigger, if at all.\<close>

definition q_le :: "('k, 'u) lstate \<Rightarrow> ('k, 'u) lstate \<Rightarrow> bool" where
  "q_le st st' \<longleftrightarrow>
     (ls_async st' = ls_async st \<and> ls_urgent st' = ls_urgent st \<and> ls_wakeup st' = ls_wakeup st) \<or> ls_wakeup st'"

text \<open>What the poller relies on when it calls back into a reactor.\<close>

locale poll_callback =
  fixes cb :: "('k, 'u) callback"
  assumes callback_q: "cb st fd ev = Ret (st', e) \<Longrightarrow> q_le st st'"

section \<open>The handlers queue tasks only through a trigger\<close>

lemma q_le_refl [simp]: "q_le st st"
  by (simp add: q_le_def)

lemma q_le_trans: "q_le st st1 \<Longrightarrow> q_le st1 st2 \<Longrightarrow> q_le st st2"
  by (auto simp: q_le_def)

lemma q_le_wake: "q_le st st' \<Longrightarrow> wake_ok st \<Longrightarrow> wake_ok st'"
  by (auto simp: q_le_def wake_ok_def)

lemma q_le_upd [simp]:
  "q_le st (st1\<lparr>ls_k := k\<rparr>) = q_le st st1" "q_le st (st1\<lparr>ls_conn := f\<rparr>) = q_le st st1"
  "q_le st (st1\<lparr>ls_user := u\<rparr>) = q_le st st1" "q_le st (st1\<lparr>ls_tick := t\<rparr>) = q_le st st1"
  "q_le st (st1\<lparr>ls_connections := m\<rparr>) = q_le st st1" "q_le st (st1\<lparr>ls_udpSockets := m\<rparr>) = q_le st st1"
  "q_le st (st1\<lparr>ls_connCount := n\<rparr>) = q_le st st1" "q_le st (set_out st1 c mb) = q_le st st1"
  "q_le st (el_addConn st1 n) = q_le st st1"
  by (simp_all add: q_le_def set_out_def el_addConn_def)

lemma q_le_upd_left [simp]:
  "q_le (st\<lparr>ls_k := k\<rparr>) st1 = q_le st st1" "q_le (st\<lparr>ls_conn := f\<rparr>) st1 = q_le st st1"
  "q_le (st\<lparr>ls_user := u\<rparr>) st1 = q_le st st1" "q_le (st\<lparr>ls_tick := t\<rparr>) st1 = q_le st st1"
  "q_le (st\<lparr>ls_connections := m\<rparr>) st1 = q_le st st1" "q_le (st\<lparr>ls_udpSockets := m\<rparr>) st1 = q_le st st1"
  "q_le (st\<lparr>ls_connCount := n\<rparr>) st1 = q_le st st1" "q_le (set_out st c mb) st1 = q_le st st1"
  "q_le (el_addConn st n) st1 = q_le st st1"
  by (simp_all add: q_le_def set_out_def el_addConn_def)

lemma q_le_base:
  "out_Write W st c d = Ret st' \<Longrightarrow> q_le st st'" "out_Writev W st c bs = Ret st' \<Longrightarrow> q_le st st'"
  "out_Discard st c n = Ret st' \<Longrightarrow> q_le st st'"
  "pl_ModRead W st c = Ret (st', e) \<Longrightarrow> q_le st st'" "pl_ModReadWrite W st c = Ret (st', e) \<Longrightarrow> q_le st st'"
  "pl_AddRead W st c = Ret (st', e) \<Longrightarrow> q_le st st'" "pl_AddWrite W st c = Ret (st', e) \<Longrightarrow> q_le st st'"
  "pl_Delete W st fd = (st', e) \<Longrightarrow> q_le st st'" "el_releaseTCP st c = Ret st' \<Longrightarrow> q_le st st'"
  "el_OnClose h st c err = (st', a) \<Longrightarrow> q_le st st'" "c_sendTo W st c d = (st', e) \<Longrightarrow> q_le st st'"
  by (auto simp: out_Write_def out_Writev_def out_Discard_def with_out_def pl_ModRead_def pl_ModReadWrite_def
      pl_AddRead_def pl_AddWrite_def pl_Delete_def pl_attached_def pl_ctl_def el_releaseTCP_def el_OnClose_def
      c_sendTo_def elim!: go_bind_RetE split: option.splits prod.splits if_splits)

lemma el_flush_q: "go_loop (el_flushBody W c) st = Ret st' \<Longrightarrow> q_le st st'"
proof (erule go_loop_partial[where I = "q_le st"])
  fix s s' assume "q_le st s" "el_flushBody W c s = Ret (Inl s')"
  then show "q_le st s'"
    by (auto simp: el_flushBody_def Let_def elim!: go_bind_RetE split: if_splits prod.splits
        dest!: q_le_base(3)) (blast intro: q_le_trans)+
next
  fix s r assume "q_le st s" "el_flushBody W c s = Ret (Inr r)"
  then show "q_le st r"
    by (auto simp: el_flushBody_def Let_def elim!: go_bind_RetE split: if_splits prod.splits)
qed simp

lemma el_closeUDP_q: "el_closeUDP W h st c err = (st', e) \<Longrightarrow> q_le st st'"
  unfolding el_closeUDP_def Let_def
  by (auto split: if_splits prod.splits dest!: q_le_base(8,10)) (blast intro: q_le_trans)+

lemma el_closeConn_q: "el_closeConn W h st c err = Ret (st', e) \<Longrightarrow> q_le st st'"
  unfolding el_closeConn_def Let_def
  by (auto elim!: go_bind_RetE split: if_splits prod.splits dest!: q_le_base(8-10) el_flush_q el_closeUDP_q)
    (blast intro: q_le_trans)+

lemma c_open_q: "c_open W st c buf = Ret (st', e) \<Longrightarrow> q_le st st'"
  unfolding c_open_def Let_def
  by (auto elim!: go_bind_RetE split: if_splits prod.splits dest!: q_le_base(1))

lemma c_write_q: "c_write W h st c d = Ret (st', n, e) \<Longrightarrow> q_le st st'"
  unfolding c_write_def Let_def
  by (auto elim!: go_bind_RetE split: if_splits prod.splits option.splits dest!: q_le_base(1,5) el_closeConn_q)
    (blast intro: q_le_trans)+

lemma c_writev_q: "c_writev W h st c bs = Ret (st', n, e) \<Longrightarrow> q_le st st'"
  unfolding c_writev_def Let_def
  by (auto elim!: go_bind_RetE split: if_splits prod.splits option.splits dest!: q_le_base(2,5) el_closeConn_q)
    (blast intro: q_le_trans)+

lemma el_write_q: "el_write W h st c = Ret (st', e) \<Longrightarrow> q_le st st'"
  unfolding el_write_def Let_def
  by (auto elim!: go_bind_RetE split: if_splits prod.splits option.splits dest!: q_le_base(3,4) el_closeConn_q)
    (blast intro: q_le_trans)+

lemma pl_wakeup_q: "pl_wakeup W st = (st', e) \<Longrightarrow> q_le st0 st'"
  by (auto simp: q_le_def dest: pl_wakeup_set)

lemma pl_trigger_q: "pl_Trigger W st t = (st', e) \<Longrightarrow> q_le st st'" "pl_UrgentTrigger W st t = (st', e) \<Longrightarrow> q_le st st'"
  by (auto simp: pl_Trigger_def pl_UrgentTrigger_def intro: pl_wakeup_q)

lemma c_calls_q:
  "c_Write W h st c d = Ret (st', n, e) \<Longrightarrow> q_le st st'" "c_Writev W h st c bs = Ret (st', n, e) \<Longrightarrow> q_le st st'"
  "c_Flush W h st c = Ret (st', e) \<Longrightarrow> q_le st st'" "c_AsyncWrite W st c d cb = (st', e) \<Longrightarrow> q_le st st'"
  "c_Close W st c = (st', e) \<Longrightarrow> q_le st st'" "c_AsyncWritev W st c bs cb = (st', e) \<Longrightarrow> q_le st st'"
  "c_Wake W st c cb = (st', e) \<Longrightarrow> q_le st st'"
  by (auto simp: c_Write_def c_Writev_def c_Flush_def c_AsyncWrite_def c_Close_def c_AsyncWritev_def c_Wake_def elim!: go_bind_RetE
      split: if_splits prod.splits option.splits dest!: q_le_base(11) intro: c_write_q c_writev_q el_write_q pl_trigger_q)

lemma run_prog_q: "run_prog W h c p st = Ret (st', r) \<Longrightarrow> q_le st st'"
proof (induction p arbitrary: st)
  case (PRead n f)
  note step = PRead.IH[OF rangeI]
  from PRead.prems show ?case by (auto elim!: go_bind_RetE dest!: step)
next
  case (PNext n f)
  note step = PNext.IH[OF rangeI]
  from PNext.prems show ?case by (auto elim!: go_bind_RetE dest!: step)
next
  case (PPeek n f)
  note step = PPeek.IH[OF rangeI]
  from PPeek.prems show ?case by (auto elim!: go_bind_RetE dest!: step)
next
  case (PDiscard n f)
  note step = PDiscard.IH[OF rangeI]
  from PDiscard.prems show ?case by (auto elim!: go_bind_RetE dest!: step)
next
  case (PWrite d f)
  note step = PWrite.IH[OF rangeI]
  from PWrite.prems show ?case by (auto elim!: go_bind_RetE dest!: step c_calls_q(1)) (blast intro: q_le_trans)
next
  case (PWritev bs f)
  note step = PWritev.IH[OF rangeI]
  from PWritev.prems show ?case by (auto elim!: go_bind_RetE dest!: step c_calls_q(2)) (blast intro: q_le_trans)
next
  case (PFlush f)
  note step = PFlush.IH[OF rangeI]
  from PFlush.prems show ?case by (auto elim!: go_bind_RetE dest!: step c_calls_q(3)) (blast intro: q_le_trans)
next
  case (PAsyncWrite d f)
  note step = PAsyncWrite.IH[OF rangeI]
  from PAsyncWrite.prems show ?case by (auto split: prod.splits dest!: step c_calls_q(4)) (blast intro: q_le_trans)
next
  case (PClose f)
  note step = PClose.IH[OF rangeI]
  from PClose.prems show ?case by (auto split: prod.splits dest!: step c_calls_q(5)) (blast intro: q_le_trans)
next
  case (PAsyncWritev bs f)
  note step = PAsyncWritev.IH[OF rangeI]
  from PAsyncWritev.prems show ?case by (auto split: prod.splits dest!: step c_calls_q(6)) (blast intro: q_le_trans)
next
  case (PWake f)
  note step = PWake.IH[OF rangeI]
  from PWake.prems show ?case by (auto split: prod.splits dest!: step c_calls_q(7)) (blast intro: q_le_trans)
next
  case (POutboundBuffered f)
  note step = POutboundBuffered.IH[OF rangeI]
  from POutboundBuffered.prems show ?case by (auto elim!: go_bind_RetE dest!: step)
next
  case (PInboundBuffered f)
  note step = PInboundBuffered.IH[OF rangeI]
  from PInboundBuffered.prems show ?case by (auto dest!: step)
qed simp

lemma callbacks_q:
  "el_OnTraffic W h st c = Ret (st', a) \<Longrightarrow> q_le st st'" "el_OnOpen W h st c = Ret (st', out, a) \<Longrightarrow> q_le st st'"
  by (auto simp: el_OnTraffic_def el_OnOpen_def elim!: go_bind_RetE dest!: run_prog_q)

lemma el_handleAction_q: "el_handleAction W h st c a = Ret (st', e) \<Longrightarrow> q_le st st'"
  by (cases a) (auto simp: el_handleAction_def intro: el_closeConn_q)

lemma el_read_q: "el_read W h st c = Ret (st', e) \<Longrightarrow> q_le st st'"
  unfolding el_read_def Let_def
  by (auto elim!: go_bind_RetE split: if_splits prod.splits action.splits dest!: callbacks_q(1) el_closeConn_q)
    (blast intro: q_le_trans)+

lemma el_onEvent_q: "el_onEvent W h st fd ev = Ret (st', e) \<Longrightarrow> q_le st st'"
  unfolding el_onEvent_def c_handleEvents_def
  by (auto elim!: go_bind_RetE split: if_splits option.splits dest!: el_read_q el_write_q) (blast intro: q_le_trans)+


interpretation sub: poll_callback "el_onEvent W h" for W h
  by unfold_locales (rule el_onEvent_q)

section \<open>Sizes of the event list\<close>

lemma evlist_new: "evlist_ok (newEventList InitPollEventsCap)"
  by (simp add: evlist_ok_def newEventList_def InitPollEventsCap_def)

lemma evlist_expand: "evlist_ok l \<Longrightarrow> evlist_ok (ev_expand l)"
  by (auto simp: evlist_ok_def ev_expand_def MaxPollEventsCap_def Let_def)

lemma evlist_shrink: "evlist_ok l \<Longrightarrow> evlist_ok (ev_shrink l)"
  by (auto simp: evlist_ok_def ev_shrink_def MinPollEventsCap_def Let_def)

lemma evlist_filled: "evlist_ok l \<Longrightarrow> evlist_ok (l\<lparr>ev_events := go_copy (ev_events l) filled\<rparr>)"
  by (simp add: evlist_ok_def)

lemma evlist_resize: "evlist_ok l \<Longrightarrow> evlist_ok (pl_resize n l)"
  by (simp add: pl_resize_def evlist_expand evlist_shrink)

text \<open>A round that goes on, split at its two halves.\<close>

lemma pl_roundE:
  assumes "pl_round W h cb lg ps st (n, err, filled) = Ret (Inl (ps', st'))"
  obtains st1 doChores msec where
    "pl_dispatch W cb (go_copy (ev_events (ps_events ps)) filled) (nat n) 0 st (ps_chores ps) = Ret (Inl (st1, doChores))"
    "pl_finish W h lg n (ps\<lparr>ps_events := (ps_events ps)\<lparr>ev_events := go_copy (ev_events (ps_events ps)) filled\<rparr>,
       ps_msec := msec\<rparr>) st1 doChores = Ret (Inl (ps', st'))"
proof -
  let ?l = "(ps_events ps)\<lparr>ev_events := go_copy (ev_events (ps_events ps)) filled\<rparr>"
  define msec where "msec = (if n = 0 \<or> n < 0 \<and> err = Some EINTR then ps_wait ps else if n > 0 then 0 else ps_msec ps)"
  from assms have "go_bind (pl_dispatch W cb (ev_events ?l) (nat n) 0 st (ps_chores ps)) (\<lambda>res.
      case res of Inr r \<Rightarrow> Ret (Inr r)
      | Inl (st, doChores) \<Rightarrow> pl_finish W h lg n (ps\<lparr>ps_events := ?l, ps_msec := msec\<rparr>) st doChores) = Ret (Inl (ps', st'))"
    unfolding pl_round_def prod.case Let_def msec_def[symmetric] by (simp split: if_split_asm)
  then show ?thesis by (rule go_bind_RetE) (auto split: sum.splits intro: that)
qed

lemma pl_finishE:
  assumes "pl_finish W h lg n ps st doChores = Ret (Inl (ps', st'))"
  obtains u where
    "(if doChores then pl_chores W h (st\<lparr>ls_user := u\<rparr>) else Ret (st\<lparr>ls_user := u\<rparr>, False, None)) =
       Ret (st', ps_chores ps', None)"
    "ps_events ps' = pl_resize n (ps_events ps)"
proof -
  obtain u perr where u: "lg_proc lg (ls_user st) = (u, perr)" by (cases "lg_proc lg (ls_user st)")
  from assms have "go_bind (if doChores then pl_chores W h (st\<lparr>ls_user := u\<rparr>) else Ret (st\<lparr>ls_user := u\<rparr>, False, None))
      (\<lambda>(st, doChores, err). if err \<noteq> None then Ret (Inr (st, err))
        else Ret (Inl (ps\<lparr>ps_events := pl_resize n (ps_events ps), ps_chores := doChores\<rparr>, st))) = Ret (Inl (ps', st'))"
    by (simp add: pl_finish_def u Let_def split: if_split_asm)
  then show ?thesis by (rule go_bind_RetE) (rule that; auto split: if_split_asm)
qed

lemma pl_round_evlist:
  "pl_round W h cb lg ps st out = Ret (Inl (ps', st')) \<Longrightarrow> evlist_ok (ps_events ps) \<Longrightarrow> evlist_ok (ps_events ps')"
  by (cases out) (auto elim!: pl_roundE pl_finishE intro!: evlist_resize evlist_filled)

lemma pl_rounds_evlist:
  "pl_rounds W h cb lg ps st outs = Ret (Inl (ps', st')) \<Longrightarrow> evlist_ok (ps_events ps) \<Longrightarrow> evlist_ok (ps_events ps')"
proof (induction outs arbitrary: ps st)
  case (Cons out outs)
  from Cons.prems(1) obtain ps1 st1 where "pl_round W h cb lg ps st out = Ret (Inl (ps1, st1))"
    "pl_rounds W h cb lg ps1 st1 outs = Ret (Inl (ps', st'))"
    by (auto elim!: go_bind_RetE split: sum.splits)
  with Cons.IH pl_round_evlist Cons.prems(2) show ?case by blast
qed simp

text \<open>Every event that \<open>epoll_wait\<close> reports is within the list.\<close>

lemma pl_dispatch_in_range:
  assumes "\<And>st fd ev. \<exists>st' e. cb st fd ev = Ret (st', e)" "0 \<le> i" "i + int m \<le> glen evs"
  shows "\<exists>r. pl_dispatch W cb evs m i st doChores = Ret r"
  using assms(2,3)
proof (induction m arbitrary: i st doChores)
  case (Suc m)
  obtain fd ev where e: "evs ! nat i = (fd, ev)" by (cases "evs ! nat i")
  then have ix: "go_index evs i = Ret (fd, ev)" using Suc.prems by (simp add: go_index_def)
  obtain st' e where c: "cb st fd ev = Ret (st', e)" using assms(1) by blast
  have "\<exists>r. pl_dispatch W cb evs m (i + 1) s d = Ret r" for s d using Suc.IH[of "i + 1" s d] Suc.prems by simp
  then show ?case using ix c by (auto split: prod.splits)
qed simp

section \<open>No task is forgotten\<close>

context poll_callback
begin

lemma dispatch_q: "pl_dispatch W cb evs m i st doChores = Ret (Inl (st', doChores')) \<Longrightarrow> q_le st st'"
proof (induction m arbitrary: i st doChores)
  case (Suc m)
  obtain fd ev where ix: "go_index evs i = Ret (fd, ev)" using Suc.prems by (auto elim!: go_bind_RetE)
  show ?case
  proof (cases "fd = ls_efd st")
    case True
    obtain k x where "w_read W (ls_k st) (ls_efd st) 8 = (k, x)" by (cases "w_read W (ls_k st) (ls_efd st) 8")
    then have "pl_dispatch W cb evs m (i + 1) (st\<lparr>ls_k := k\<rparr>) True = Ret (Inl (st', doChores'))"
      using True Suc.prems ix by simp
    from Suc.IH[OF this] show ?thesis by simp
  next
    case False
    then obtain st1 e where "cb st fd ev = Ret (st1, e)" "pl_dispatch W cb evs m (i + 1) st1 doChores = Ret (Inl (st', doChores'))"
      using Suc.prems ix by (auto elim!: go_bind_RetE split: if_splits)
    with Suc.IH callback_q q_le_trans show ?thesis by blast
  qed
qed simp

lemma round_wakes:
  assumes "pl_round W h cb lg ps st out = Ret (Inl (ps', st'))" "wake_ok st"
  shows "wake_ok st'"
proof -
  obtain n err filled where out: "out = (n, err, filled)" by (cases out)
  from assms(1) obtain st1 ch ps1 where d: "q_le st st1" "pl_finish W h lg n ps1 st1 ch = Ret (Inl (ps', st'))"
    unfolding out by (auto elim!: pl_roundE dest: dispatch_q)
  from d(2) obtain u where u:
    "(if ch then pl_chores W h (st1\<lparr>ls_user := u\<rparr>) else Ret (st1\<lparr>ls_user := u\<rparr>, False, None)) = Ret (st', ps_chores ps', None)"
    by (rule pl_finishE)
  show ?thesis
  proof (cases ch)
    case True
    with u have "pl_chores W h (st1\<lparr>ls_user := u\<rparr>) = Ret (st', ps_chores ps', None)" by simp
    from chores_no_lost_wakeup[OF this[unfolded pl_chores_def]] show ?thesis by (simp add: wake_ok_def)
  next
    case False
    with u q_le_wake[OF d(1) assms(2)] show ?thesis by (auto simp: wake_ok_def)
  qed
qed

lemma rounds_wake:
  "pl_rounds W h cb lg ps st outs = Ret (Inl (ps', st')) \<Longrightarrow> wake_ok st \<Longrightarrow> wake_ok st'"
proof (induction outs arbitrary: ps st)
  case (Cons out outs)
  from Cons.prems(1) obtain ps1 st1 where "pl_round W h cb lg ps st out = Ret (Inl (ps1, st1))"
    "pl_rounds W h cb lg ps1 st1 outs = Ret (Inl (ps', st'))"
    by (auto elim!: go_bind_RetE split: sum.splits)
  with Cons.IH round_wakes Cons.prems(2) show ?case by blast
qed simp

end

section \<open>Shutting down\<close>

lemma chores_shutdown:
  assumes "ls_urgent st = TShutdown # ts"
  shows "run_chores N W h st = Ret (st\<lparr>ls_urgent := ts\<rparr>, False, Some ErrEngineShutdown)"
  using assms by (simp add: run_chores_def go_loop_unfold[of _ st] pl_urgentBody_def)

lemma pl_round_shutdown:
  assumes u: "ls_urgent st = TShutdown # ts" and l: "0 < ev_size (ps_events ps)" "glen (ev_events (ps_events ps)) = ev_size (ps_events ps)"
    and p: "snd (lg_proc lg (ls_user st)) \<noteq> Some ErrEngineShutdown"
  shows "\<exists>k u'. pl_round W h cb lg ps st (1, None, [(ls_efd st, ev)]) =
    Ret (Inr (st\<lparr>ls_k := k, ls_user := u', ls_urgent := ts\<rparr>, Some ErrEngineShutdown))"
proof -
  obtain k x where r: "w_read W (ls_k st) (ls_efd st) 8 = (k, x)" by (cases "w_read W (ls_k st) (ls_efd st) 8")
  obtain u' perr where lg: "lg_proc lg (ls_user st) = (u', perr)" by (cases "lg_proc lg (ls_user st)")
  have ne: "ev_events (ps_events ps) \<noteq> []" using l by auto
  have ix: "go_index (go_copy (ev_events (ps_events ps)) [(ls_efd st, ev)]) 0 = Ret (ls_efd st, ev)"
    using ne by (cases "ev_events (ps_events ps)") (simp_all add: go_index_def go_copy_def)
  have "pl_dispatch W cb (go_copy (ev_events (ps_events ps)) [(ls_efd st, ev)]) (nat 1) 0 st (ps_chores ps) =
    Ret (Inl (st\<lparr>ls_k := k\<rparr>, True))" using ix r by simp
  moreover have "pl_chores W h (st\<lparr>ls_k := k, ls_user := u'\<rparr>) =
    Ret (st\<lparr>ls_k := k, ls_user := u', ls_urgent := ts\<rparr>, False, Some ErrEngineShutdown)"
    using chores_shutdown[of "st\<lparr>ls_k := k, ls_user := u'\<rparr>" ts MaxAsyncTasksAtOneTime W h] u by (simp add: pl_chores_def)
  ultimately show ?thesis using lg p by (intro exI[of _ k] exI[of _ u']) (simp add: pl_round_def Let_def pl_finish_def)
qed

text \<open>The ticker queues one shutdown task for each tick that asks for it, and the poller is woken up.\<close>

lemma el_ticker_queues:
  "el_ticker W tick ends (Some st) = (Some st', b) \<Longrightarrow>
    \<exists>m. ls_urgent st' = ls_urgent st @ replicate m TShutdown \<and> ls_async st' = ls_async st \<and> (0 < m \<longrightarrow> ls_wakeup st') \<and>
      (m = 0 \<longrightarrow> ls_wakeup st' = ls_wakeup st)"
proof (induction ends arbitrary: st)
  case Nil
  then show ?case by (auto intro: exI[of _ 0])
next
  case (Cons d ends)
  obtain u a where t: "tick (ls_user st) = (u, a)" by (metis surj_pair)
  define st1 where "st1 = (if a = ActShutdown then fst (pl_UrgentTrigger W (st\<lparr>ls_user := u\<rparr>) TShutdown) else st\<lparr>ls_user := u\<rparr>)"
  have run: "(if d then (Some st1, True) else el_ticker W tick ends (Some st1)) = (Some st', b)"
    using Cons.prems t by (cases "a = ActShutdown"; cases d) (simp_all add: st1_def Let_def)
  obtain m where m: "ls_urgent st' = ls_urgent st1 @ replicate m TShutdown" "ls_async st' = ls_async st1" "0 < m \<longrightarrow> ls_wakeup st'"
    "m = 0 \<longrightarrow> ls_wakeup st' = ls_wakeup st1"
  proof (cases d)
    case True
    then have "st1 = st'" using run by simp
    then show ?thesis by (intro that[of 0]) simp_all
  next
    case False
    then have "el_ticker W tick ends (Some st1) = (Some st', b)" using run by simp
    from Cons.IH[OF this] that show ?thesis by blast
  qed
  show ?case
  proof (cases "a = ActShutdown")
    case True
    then have "ls_urgent st1 = ls_urgent st @ [TShutdown]" "ls_async st1 = ls_async st" "ls_wakeup st1"
      using pl_wakeup_set[of W "st\<lparr>ls_user := u, ls_urgent := ls_urgent st @ [TShutdown]\<rparr>"]
      by (auto simp: st1_def pl_UrgentTrigger_def prod_eq_iff)
    then show ?thesis using m by (intro exI[of _ "Suc m"]) (cases m; simp add: replicate_append_same)
  next
    case False
    then show ?thesis using m by (intro exI[of _ m]) (simp add: st1_def)
  qed
qed

end
