(* ===== verification/Socket.thy ===== *)
theory Socket
  imports SockAddr
begin

text \<open>
  The creation of sockets in \<open>internal/socket\<close>: \<open>tcp_socket.go\<close>, \<open>udp_socket.go\<close>, \<open>unix_socket.go\<close>, the socket
  options in \<open>sockopts_posix.go\<close> and \<open>sockopts_unix.go\<close>, and \<open>sock_cloexec.go\<close>. The system calls and the resolver
  of the \<open>net\<close> package are the fields of \<open>'k netsys\<close>, over an arbitrary kernel state \<open>'k\<close>.

  The lemmas show that a function that reports an error has closed the socket it opened, that a function that
  succeeds has made its system calls in the right order, and that an address survives the way to the kernel's
  representation and back.
\<close>

section \<open>System calls\<close>

datatype sofamily = AF_INET | AF_INET6 | AF_UNIX

datatype sotype = SOCK_STREAM | SOCK_DGRAM

datatype soproto = IPPROTO_TCP | IPPROTO_UDP | ProtoDefault

datatype soname =
    SO_REUSEPORT | SO_REUSEADDR | TCP_NODELAY | SO_RCVBUF | SO_SNDBUF | IPV6_V6ONLY | SO_BROADCAST
  | SO_KEEPALIVE | TCP_KEEPINTVL | TCP_KEEPIDLE

text \<open>The flag of \<open>n_socket\<close> is \<open>SOCK_NONBLOCK\<close>; \<open>SOCK_CLOEXEC\<close> is always given.\<close>

record 'k netsys =
  n_socket :: "'k \<Rightarrow> sofamily \<Rightarrow> sotype \<Rightarrow> soproto \<Rightarrow> bool \<Rightarrow> 'k \<times> int \<times> errno option"
  n_setsockopt :: "'k \<Rightarrow> int \<Rightarrow> soname \<Rightarrow> int \<Rightarrow> 'k \<times> errno option"
  n_setlinger :: "'k \<Rightarrow> int \<Rightarrow> int \<Rightarrow> int \<Rightarrow> 'k \<times> errno option"
  n_bind :: "'k \<Rightarrow> int \<Rightarrow> sockaddr \<Rightarrow> 'k \<times> errno option"
  n_listen :: "'k \<Rightarrow> int \<Rightarrow> int \<Rightarrow> 'k \<times> errno option"
  n_connect :: "'k \<Rightarrow> int \<Rightarrow> sockaddr \<Rightarrow> 'k \<times> errno option"
  n_nonblock :: "'k \<Rightarrow> int \<Rightarrow> 'k \<times> errno option"
  n_close :: "'k \<Rightarrow> int \<Rightarrow> 'k \<times> errno option"
  n_resolveTCP :: "string \<Rightarrow> string \<Rightarrow> gerror + byte list \<times> int \<times> string"
  n_resolveUDP :: "string \<Rightarrow> string \<Rightarrow> gerror + byte list \<times> int \<times> string"
  n_resolveUnix :: "string \<Rightarrow> string \<Rightarrow> gerror + string \<times> string"
  n_ifindex :: "string \<Rightarrow> gerror + int"
  n_removeAll :: "'k \<Rightarrow> string \<Rightarrow> 'k \<times> gerror option"

text \<open>\<open>if err = f(); err != nil { return }\<close>.\<close>

fun and_then :: "'k \<times> gerror option \<Rightarrow> ('k \<Rightarrow> 'k \<times> gerror option) \<Rightarrow> 'k \<times> gerror option" where
  "and_then (k, err) f = (if err \<noteq> None then (k, err) else f k)"

definition syscall_err :: "string \<Rightarrow> 'k \<times> errno option \<Rightarrow> 'k \<times> gerror option" where
  "syscall_err name r = (fst r, NewSyscallError name (snd r))"

definition plain_err :: "'k \<times> errno option \<Rightarrow> 'k \<times> gerror option" where
  "plain_err r = (fst r, map_option Errno (snd r))"

section \<open>Socket options\<close>

definition SetNoDelay :: "'k netsys \<Rightarrow> 'k \<Rightarrow> int \<Rightarrow> int \<Rightarrow> 'k \<times> gerror option" where
  "SetNoDelay N k fd noDelay = syscall_err ''setsockopt'' (n_setsockopt N k fd TCP_NODELAY noDelay)"

text \<open>\<open>getopt\<close> is \<open>getsockopt\<close> for an integer; its error is passed on as it is.\<close>

definition GetNoDelay ::
  "('k \<Rightarrow> int \<Rightarrow> soname \<Rightarrow> 'k \<times> int \<times> errno option) \<Rightarrow> 'k \<Rightarrow> int \<Rightarrow> 'k \<times> int \<times> gerror option" where
  "GetNoDelay getopt k fd = (case getopt k fd TCP_NODELAY of (k, n, err) \<Rightarrow> (k, n, map_option Errno err))"

definition SetRecvBuffer :: "'k netsys \<Rightarrow> 'k \<Rightarrow> int \<Rightarrow> int \<Rightarrow> 'k \<times> gerror option" where
  "SetRecvBuffer N k fd sz = plain_err (n_setsockopt N k fd SO_RCVBUF sz)"

definition SetSendBuffer :: "'k netsys \<Rightarrow> 'k \<Rightarrow> int \<Rightarrow> int \<Rightarrow> 'k \<times> gerror option" where
  "SetSendBuffer N k fd sz = plain_err (n_setsockopt N k fd SO_SNDBUF sz)"

definition SetReuseport :: "'k netsys \<Rightarrow> 'k \<Rightarrow> int \<Rightarrow> int \<Rightarrow> 'k \<times> gerror option" where
  "SetReuseport N k fd reusePort = syscall_err ''setsockopt'' (n_setsockopt N k fd SO_REUSEPORT reusePort)"

definition SetReuseAddr :: "'k netsys \<Rightarrow> 'k \<Rightarrow> int \<Rightarrow> int \<Rightarrow> 'k \<times> gerror option" where
  "SetReuseAddr N k fd reuseAddr = syscall_err ''setsockopt'' (n_setsockopt N k fd SO_REUSEADDR reuseAddr)"

definition SetIPv6Only :: "'k netsys \<Rightarrow> 'k \<Rightarrow> int \<Rightarrow> int \<Rightarrow> 'k \<times> gerror option" where
  "SetIPv6Only N k fd ipv6only = plain_err (n_setsockopt N k fd IPV6_V6ONLY ipv6only)"

definition SetLinger :: "'k netsys \<Rightarrow> 'k \<Rightarrow> int \<Rightarrow> int \<Rightarrow> 'k \<times> gerror option" where
  "SetLinger N k fd sec =
     plain_err (if sec \<ge> 0 then n_setlinger N k fd 1 (sint (word_of_int sec :: 32 word)) else n_setlinger N k fd 0 0)"

definition SetKeepAlivePeriod :: "'k netsys \<Rightarrow> 'k \<Rightarrow> int \<Rightarrow> int \<Rightarrow> 'k \<times> gerror option" where
  "SetKeepAlivePeriod N k fd secs =
     (if secs \<le> 0 then (k, Some (Errorf ''invalid time duration''))
      else
        and_then (syscall_err ''setsockopt'' (n_setsockopt N k fd SO_KEEPALIVE 1)) (\<lambda>k.
        and_then (syscall_err ''setsockopt'' (n_setsockopt N k fd TCP_KEEPINTVL secs)) (\<lambda>k.
        syscall_err ''setsockopt'' (n_setsockopt N k fd TCP_KEEPIDLE secs))))"

text \<open>An option to set: the function and its argument.\<close>

type_synonym 'k sockOption = "('k netsys \<Rightarrow> 'k \<Rightarrow> int \<Rightarrow> int \<Rightarrow> 'k \<times> gerror option) \<times> int"

fun setSockOpts :: "'k netsys \<Rightarrow> 'k sockOption list \<Rightarrow> 'k \<Rightarrow> int \<Rightarrow> 'k \<times> gerror option" where
  "setSockOpts N [] k fd = (k, None)"
| "setSockOpts N ((SetSockOpt, opt) # opts) k fd = and_then (SetSockOpt N k fd opt) (\<lambda>k. setSockOpts N opts k fd)"

section \<open>Addresses\<close>

text \<open>\<open>net.IP.To4\<close> and \<open>net.IP.To16\<close>; the nil IP is the empty list.\<close>

definition To4 :: "byte list \<Rightarrow> byte list option" where
  "To4 ip =
     (if length ip = 4 then Some ip
      else if length ip = 16 \<and> take 12 ip = ipv4InIPv6Prefix then Some (drop 12 ip)
      else None)"

definition To16 :: "byte list \<Rightarrow> byte list option" where
  "To16 ip =
     (if length ip = 4 then Some (ipv4InIPv6Prefix @ ip) else if length ip = 16 then Some ip else None)"

definition determineTCPProto :: "string \<Rightarrow> byte list \<Rightarrow> gerror + string" where
  "determineTCPProto proto ip =
     (if To4 ip \<noteq> None then Inr ''tcp4''
      else if To16 ip \<noteq> None then Inr ''tcp6''
      else if proto = ''tcp'' \<or> proto = ''tcp4'' \<or> proto = ''tcp6'' then Inr proto
      else Inl ErrUnsupportedTCPProtocol)"

definition determineUDPProto :: "string \<Rightarrow> byte list \<Rightarrow> gerror + string" where
  "determineUDPProto proto ip =
     (if To4 ip \<noteq> None then Inr ''udp4''
      else if To16 ip \<noteq> None then Inr ''udp6''
      else if proto = ''udp'' \<or> proto = ''udp4'' \<or> proto = ''udp6'' then Inr proto
      else Inl ErrUnsupportedUDPProtocol)"

text \<open>The two branches of the switches in \<open>GetTCPSockAddr\<close> and \<open>GetUDPSockAddr\<close>, which are the same.\<close>

definition inet4_sockaddr :: "byte list \<Rightarrow> int \<Rightarrow> sockaddr" where
  "inet4_sockaddr ip port =
     SockaddrInet4 port
       (if ip = [] then replicate 4 0
        else if length ip = 16 then go_copy (replicate 4 0) (drop 12 ip)
        else go_copy (replicate 4 0) ip)"

definition inet6_sockaddr :: "'k netsys \<Rightarrow> byte list \<Rightarrow> int \<Rightarrow> string \<Rightarrow> gerror + sockaddr" where
  "inet6_sockaddr N ip port zone =
     (let a = (if ip = [] then replicate 16 0 else go_copy (replicate 16 0) ip)
      in if zone \<noteq> [] then
           (case n_ifindex N zone of Inl err \<Rightarrow> Inl err | Inr i \<Rightarrow> Inr (SockaddrInet6 port (uint (word_of_int i :: 32 word)) a))
         else Inr (SockaddrInet6 port 0 a))"

definition GetTCPSockAddr :: "'k netsys \<Rightarrow> string \<Rightarrow> string \<Rightarrow> gerror + sockaddr \<times> sofamily \<times> netaddr \<times> bool" where
  "GetTCPSockAddr N proto addr =
     (case n_resolveTCP N proto addr of
        Inl err \<Rightarrow> Inl err
      | Inr (ip, port, zone) \<Rightarrow>
          (case determineTCPProto proto ip of
             Inl err \<Rightarrow> Inl err
           | Inr tcpVersion \<Rightarrow>
               if tcpVersion = ''tcp4'' then Inr (inet4_sockaddr ip port, AF_INET, TCPAddr ip port zone, False)
               else if tcpVersion = ''tcp6'' \<or> tcpVersion = ''tcp'' then
                 (case inet6_sockaddr N ip port zone of
                    Inl err \<Rightarrow> Inl err
                  | Inr sa \<Rightarrow> Inr (sa, AF_INET6, TCPAddr ip port zone, tcpVersion = ''tcp6''))
               else Inl ErrUnsupportedProtocol))"

definition GetUDPSockAddr :: "'k netsys \<Rightarrow> string \<Rightarrow> string \<Rightarrow> gerror + sockaddr \<times> sofamily \<times> netaddr \<times> bool" where
  "GetUDPSockAddr N proto addr =
     (case n_resolveUDP N proto addr of
        Inl err \<Rightarrow> Inl err
      | Inr (ip, port, zone) \<Rightarrow>
          (case determineUDPProto proto ip of
             Inl err \<Rightarrow> Inl err
           | Inr udpVersion \<Rightarrow>
               if udpVersion = ''udp4'' then Inr (inet4_sockaddr ip port, AF_INET, UDPAddr ip port zone, False)
               else if udpVersion = ''udp6'' \<or> udpVersion = ''udp'' then
                 (case inet6_sockaddr N ip port zone of
                    Inl err \<Rightarrow> Inl err
                  | Inr sa \<Rightarrow> Inr (sa, AF_INET6, UDPAddr ip port zone, udpVersion = ''udp6''))
               else Inl ErrUnsupportedProtocol))"

definition GetUnixSockAddr :: "'k netsys \<Rightarrow> string \<Rightarrow> string \<Rightarrow> gerror + sockaddr \<times> sofamily \<times> netaddr" where
  "GetUnixSockAddr N proto addr =
     (case n_resolveUnix N proto addr of
        Inl err \<Rightarrow> Inl err
      | Inr (name, network) \<Rightarrow>
          if network = ''unix'' then Inr (SockaddrUnix name, AF_UNIX, UnixAddr name) else Inl ErrUnsupportedUDSProtocol)"

section \<open>Sockets\<close>

definition sysSocket :: "'k netsys \<Rightarrow> 'k \<Rightarrow> sofamily \<Rightarrow> sotype \<Rightarrow> soproto \<Rightarrow> 'k \<times> int \<times> errno option" where
  "sysSocket N k family sotype' proto = n_socket N k family sotype' proto True"

definition sysBlockSocket :: "'k netsys \<Rightarrow> 'k \<Rightarrow> sofamily \<Rightarrow> sotype \<Rightarrow> soproto \<Rightarrow> 'k \<times> int \<times> errno option" where
  "sysBlockSocket N k family sotype' proto = n_socket N k family sotype' proto False"

definition in_progress :: "gerror option \<Rightarrow> bool" where
  "in_progress err = (case err of Some (SyscallError name n) \<Rightarrow> n = EINPROGRESS | _ \<Rightarrow> False)"

text \<open>The deferred function: close the socket unless all went well or a connection is in progress.\<close>

fun close_on_error :: "'k netsys \<Rightarrow> int \<Rightarrow> 'k \<times> gerror option \<Rightarrow> 'k \<times> gerror option" where
  "close_on_error N fd (k, err) =
     (if err \<noteq> None \<and> \<not> in_progress err then fst (n_close N k fd) else k, err)"

definition listen_or_connect :: "'k netsys \<Rightarrow> int \<Rightarrow> bool \<Rightarrow> 'k \<Rightarrow> int \<Rightarrow> sockaddr \<Rightarrow> 'k \<times> gerror option" where
  "listen_or_connect N backlog passive k fd sa =
     (if passive then
        and_then (syscall_err ''bind'' (n_bind N k fd sa)) (\<lambda>k. syscall_err ''listen'' (n_listen N k fd backlog))
      else syscall_err ''connect'' (n_connect N k fd sa))"

definition tcpSocket ::
  "'k netsys \<Rightarrow> int \<Rightarrow> string \<Rightarrow> string \<Rightarrow> bool \<Rightarrow> 'k sockOption list \<Rightarrow> 'k \<Rightarrow> 'k \<times> int \<times> netaddr option \<times> gerror option" where
  "tcpSocket N backlog proto addr passive sockOpts k =
     (case GetTCPSockAddr N proto addr of
        Inl err \<Rightarrow> (k, 0, None, Some err)
      | Inr (sa, family, netAddr, ipv6only) \<Rightarrow>
          (case sysSocket N k family SOCK_STREAM IPPROTO_TCP of (k, fd, e) \<Rightarrow>
             if e \<noteq> None then (k, fd, Some netAddr, NewSyscallError ''socket'' e)
             else
               (case close_on_error N fd
                       (and_then (if family = AF_INET6 \<and> ipv6only then SetIPv6Only N k fd 1 else (k, None)) (\<lambda>k.
                        and_then (setSockOpts N sockOpts k fd) (\<lambda>k.
                        listen_or_connect N backlog passive k fd sa))) of
                  (k, err) \<Rightarrow> (k, fd, Some netAddr, err))))"

definition tcpConnect ::
  "'k netsys \<Rightarrow> string \<Rightarrow> string \<Rightarrow> 'k sockOption list \<Rightarrow> 'k \<Rightarrow> 'k \<times> int \<times> netaddr option \<times> sockaddr option \<times> gerror option" where
  "tcpConnect N proto addr sockopts k =
     (case GetTCPSockAddr N proto addr of
        Inl err \<Rightarrow> (k, 0, None, None, Some err)
      | Inr (sa, family, netAddr, ipv6only) \<Rightarrow>
          (case sysBlockSocket N k family SOCK_STREAM IPPROTO_TCP of (k, fd, e) \<Rightarrow>
             if e \<noteq> None then (k, fd, Some netAddr, Some sa, NewSyscallError ''socket'' e)
             else
               (case and_then (if family = AF_INET6 \<and> ipv6only then SetIPv6Only N k fd 1 else (k, None)) (\<lambda>k.
                     and_then (setSockOpts N sockopts k fd) (\<lambda>k.
                     and_then (syscall_err ''connect'' (n_connect N k fd sa)) (\<lambda>k.
                     syscall_err ''fcntl nonblock'' (n_nonblock N k fd)))) of
                  (k, err) \<Rightarrow> (if err \<noteq> None then fst (n_close N k fd) else k, fd, Some netAddr, Some sa, err))))"

definition udpSocket ::
  "'k netsys \<Rightarrow> string \<Rightarrow> string \<Rightarrow> bool \<Rightarrow> 'k sockOption list \<Rightarrow> 'k \<Rightarrow> 'k \<times> int \<times> netaddr option \<times> gerror option" where
  "udpSocket N proto addr connect sockOpts k =
     (case GetUDPSockAddr N proto addr of
        Inl err \<Rightarrow> (k, 0, None, Some err)
      | Inr (sa, family, netAddr, ipv6only) \<Rightarrow>
          (case sysSocket N k family SOCK_DGRAM IPPROTO_UDP of (k, fd, e) \<Rightarrow>
             if e \<noteq> None then (k, fd, Some netAddr, NewSyscallError ''socket'' e)
             else
               (case close_on_error N fd
                       (and_then (if family = AF_INET6 \<and> ipv6only then SetIPv6Only N k fd 1 else (k, None)) (\<lambda>k.
                        and_then (syscall_err ''setsockopt'' (n_setsockopt N k fd SO_BROADCAST 1)) (\<lambda>k.
                        and_then (setSockOpts N sockOpts k fd) (\<lambda>k.
                        if connect then syscall_err ''connect'' (n_connect N k fd sa)
                        else syscall_err ''bind'' (n_bind N k fd sa))))) of
                  (k, err) \<Rightarrow> (k, fd, Some netAddr, err))))"

definition udsSocket ::
  "'k netsys \<Rightarrow> int \<Rightarrow> string \<Rightarrow> string \<Rightarrow> bool \<Rightarrow> 'k sockOption list \<Rightarrow> 'k \<Rightarrow> 'k \<times> int \<times> netaddr option \<times> gerror option" where
  "udsSocket N backlog proto addr passive sockOpts k =
     (case GetUnixSockAddr N proto addr of
        Inl err \<Rightarrow> (k, 0, None, Some err)
      | Inr (sa, family, netAddr) \<Rightarrow>
          (case sysSocket N k family SOCK_STREAM ProtoDefault of (k, fd, e) \<Rightarrow>
             if e \<noteq> None then (k, fd, Some netAddr, NewSyscallError ''socket'' e)
             else
               (case close_on_error N fd
                       (and_then (setSockOpts N sockOpts k fd) (\<lambda>k. listen_or_connect N backlog passive k fd sa)) of
                  (k, err) \<Rightarrow> (k, fd, Some netAddr, err))))"

text \<open>The exported functions of \<open>socket.go\<close>.\<close>

definition TCPSocket where [simp]: "TCPSocket N backlog proto addr passive sockOpts k = tcpSocket N backlog proto addr passive sockOpts k"
definition UDPSocket where [simp]: "UDPSocket N proto addr connect sockOpts k = udpSocket N proto addr connect sockOpts k"
definition UnixSocket where [simp]: "UnixSocket N backlog proto addr passive sockOpts k = udsSocket N backlog proto addr passive sockOpts k"
definition TCPConnect where [simp]: "TCPConnect N proto addr sockopts k = tcpConnect N proto addr sockopts k"

section \<open>Descriptors\<close>

text \<open>
  \<open>fds k\<close> are the open descriptors. \<open>socket\<close> opens a new one, \<open>close\<close> closes one even when it reports an error,
  and no other call changes them.
\<close>

definition fds_sys :: "'k netsys \<Rightarrow> ('k \<Rightarrow> int set) \<Rightarrow> bool" where
  "fds_sys N fds \<longleftrightarrow>
     (\<forall>k fam ty pr nb. case n_socket N k fam ty pr nb of (k', fd, e) \<Rightarrow>
        if e = None then fd \<notin> fds k \<and> fds k' = insert fd (fds k) else fds k' = fds k) \<and>
     (\<forall>k fd nm v. fds (fst (n_setsockopt N k fd nm v)) = fds k) \<and> (\<forall>k fd a. fds (fst (n_bind N k fd a)) = fds k) \<and>
     (\<forall>k fd b. fds (fst (n_listen N k fd b)) = fds k) \<and> (\<forall>k fd a. fds (fst (n_connect N k fd a)) = fds k) \<and>
     (\<forall>k fd. fds (fst (n_nonblock N k fd)) = fds k) \<and> (\<forall>k fd. fds (fst (n_close N k fd)) = fds k - {fd}) \<and>
     (\<forall>k path. fds (fst (n_removeAll N k path)) = fds k)"

definition opts_keep :: "'k netsys \<Rightarrow> ('k \<Rightarrow> int set) \<Rightarrow> 'k sockOption list \<Rightarrow> bool" where
  "opts_keep N fds opts \<longleftrightarrow> (\<forall>(f, v)\<in>set opts. \<forall>k fd. fds (fst (f N k fd v)) = fds k)"

definition fd_outcome :: "('k \<Rightarrow> int set) \<Rightarrow> 'k \<Rightarrow> 'k \<Rightarrow> int \<Rightarrow> gerror option \<Rightarrow> bool" where
  "fd_outcome fds k k' fd err \<longleftrightarrow>
     (err = None \<longrightarrow> fd \<notin> fds k \<and> fds k' = insert fd (fds k)) \<and> (err \<noteq> None \<and> \<not> in_progress err \<longrightarrow> fds k' = fds k)"

lemma fds_sysD:
  assumes "fds_sys N fds"
  shows "n_socket N k fam ty pr nb = (k', fd, None) \<Longrightarrow> fd \<notin> fds k \<and> fds k' = insert fd (fds k)"
    "n_socket N k fam ty pr nb = (k', fd, Some e) \<Longrightarrow> fds k' = fds k"
    "fds (fst (n_setsockopt N k fd nm v)) = fds k" "fds (fst (n_bind N k fd a)) = fds k" "fds (fst (n_listen N k fd b)) = fds k"
    "fds (fst (n_connect N k fd a)) = fds k" "fds (fst (n_nonblock N k fd)) = fds k" "fds (fst (n_close N k fd)) = fds k - {fd}"
    "fds (fst (n_removeAll N k path)) = fds k"
proof -
  have s: "case n_socket N k fam ty pr nb of (k', fd, e) \<Rightarrow>
      if e = None then fd \<notin> fds k \<and> fds k' = insert fd (fds k) else fds k' = fds k"
    using conjunct1[OF assms[unfolded fds_sys_def]] by (elim allE)
  show "n_socket N k fam ty pr nb = (k', fd, None) \<Longrightarrow> fd \<notin> fds k \<and> fds k' = insert fd (fds k)"
    "n_socket N k fam ty pr nb = (k', fd, Some e) \<Longrightarrow> fds k' = fds k" using s by auto
qed (use assms in \<open>auto simp: fds_sys_def\<close>)

lemma and_then_keeps:
  assumes "fds (fst r) = K" "\<And>k. fds k = K \<Longrightarrow> fds (fst (f k)) = K"
  shows "fds (fst (and_then r f)) = K"
  using assms by (cases r) auto

lemma fst_err [simp]: "fst (syscall_err nm r) = fst r" "fst (plain_err r) = fst r"
  by (simp_all add: syscall_err_def plain_err_def)

lemma setSockOpts_keep: "opts_keep N fds opts \<Longrightarrow> fds (fst (setSockOpts N opts k fd)) = fds k"
proof (induction opts arbitrary: k)
  case (Cons o' opts)
  obtain f v where o': "o' = (f, v)" by (cases o')
  show ?case unfolding o' setSockOpts.simps
    by (rule and_then_keeps[where fds = fds]) (use Cons o' in \<open>auto simp: opts_keep_def\<close>)
qed simp

lemma close_on_error_fds:
  assumes "fds_sys N fds" "fds (fst r) = insert fd K" "fd \<notin> K" "close_on_error N fd r = (k', err)"
  shows "(err = None \<longrightarrow> fds k' = insert fd K) \<and> (err \<noteq> None \<and> \<not> in_progress err \<longrightarrow> fds k' = K)"
proof -
  obtain k1 e where r: "r = (k1, e)" by (cases r)
  have c: "fds (fst (n_close N k1 fd)) = K" using fds_sysD(8)[OF assms(1), of k1 fd] assms(2,3) r by simp
  have "err = e" "k' = (if e \<noteq> None \<and> \<not> in_progress e then fst (n_close N k1 fd) else k1)" using assms(4) r by (auto split: if_splits)
  then show ?thesis using c assms(2) r by simp
qed

lemma sockets_keep:
  assumes "fds_sys N fds"
  shows "fds (fst (listen_or_connect N backlog passive k fd sa)) = fds k" "fds (fst (SetIPv6Only N k fd v)) = fds k"
    "fds (fst (syscall_err nm (n_setsockopt N k fd so w))) = fds k" "fds (fst (syscall_err nm (n_connect N k fd sa))) = fds k"
    "fds (fst (syscall_err nm (n_bind N k fd sa))) = fds k" "fds (fst (syscall_err nm (n_nonblock N k fd))) = fds k"
proof -
  note F = fds_sysD(3-7)[OF assms]
  show "fds (fst (listen_or_connect N backlog passive k fd sa)) = fds k"
  proof (cases "passive = True")
    case True
    show ?thesis unfolding listen_or_connect_def using True by (simp, intro and_then_keeps[where fds = fds]) (simp_all add: F)
  qed (simp add: listen_or_connect_def F)
  show "fds (fst (SetIPv6Only N k fd v)) = fds k"
    "fds (fst (syscall_err nm (n_setsockopt N k fd so w))) = fds k" "fds (fst (syscall_err nm (n_connect N k fd sa))) = fds k"
    "fds (fst (syscall_err nm (n_bind N k fd sa))) = fds k" "fds (fst (syscall_err nm (n_nonblock N k fd))) = fds k"
    by (simp_all add: SetIPv6Only_def F)
qed

lemma opened_socket_fds:
  assumes "fds_sys N fds" "sysSocket N k fam ty pr = (k1, fd, None)" "fds (fst r) = fds k1" "close_on_error N fd r = (k', err)"
  shows "fd_outcome fds k k' fd err"
proof -
  have n: "fd \<notin> fds k" "fds k1 = insert fd (fds k)" using assms(2) fds_sysD(1)[OF assms(1)] unfolding sysSocket_def by blast+
  from close_on_error_fds[OF assms(1) _ n(1) assms(4)] assms(3) n show ?thesis unfolding fd_outcome_def by blast
qed

lemma no_socket_fds:
  assumes "fds_sys N fds" "sysSocket N k fam ty pr = (k1, fd, Some e)"
  shows "fd_outcome fds k k1 fd (NewSyscallError nm (Some e))"
  using assms fds_sysD(2)[OF assms(1)] unfolding sysSocket_def fd_outcome_def NewSyscallError_def by auto

lemma tcpSocket_fds:
  assumes F: "fds_sys N fds" and o: "opts_keep N fds opts" and t: "tcpSocket N backlog proto addr passive opts k = (k', fd, a, err)"
  shows "fd_outcome fds k k' fd err"
proof (cases "GetTCPSockAddr N proto addr")
  case (Inr x)
  obtain sa fam na v6 where x: "x = (sa, fam, na, v6)" by (cases x) auto
  obtain k1 fd1 e where s: "sysSocket N k fam SOCK_STREAM IPPROTO_TCP = (k1, fd1, e)" by (cases "sysSocket N k fam SOCK_STREAM IPPROTO_TCP") auto
  let ?r = "and_then (if fam = AF_INET6 \<and> v6 then SetIPv6Only N k1 fd1 1 else (k1, None)) (\<lambda>k.
      and_then (setSockOpts N opts k fd1) (\<lambda>k. listen_or_connect N backlog passive k fd1 sa))"
  have r: "fds (fst ?r) = fds k1"
    by (intro and_then_keeps[where fds = fds]) (simp_all add: sockets_keep[OF F] setSockOpts_keep[OF o])
  show ?thesis
  proof (cases e)
    case None
    have "close_on_error N fd1 ?r = (k', err)" "fd = fd1"
      using t Inr x s None by (auto simp: tcpSocket_def simp del: close_on_error.simps split: prod.splits)
    with opened_socket_fds[OF F _ r] s None show ?thesis by blast
  qed (use t Inr x s no_socket_fds[OF F] in \<open>auto simp: tcpSocket_def\<close>)
qed (use t in \<open>auto simp: tcpSocket_def fd_outcome_def\<close>)

lemma udpSocket_fds:
  assumes F: "fds_sys N fds" and o: "opts_keep N fds opts" and t: "udpSocket N proto addr conn opts k = (k', fd, a, err)"
  shows "fd_outcome fds k k' fd err"
proof (cases "GetUDPSockAddr N proto addr")
  case (Inr x)
  obtain sa fam na v6 where x: "x = (sa, fam, na, v6)" by (cases x) auto
  obtain k1 fd1 e where s: "sysSocket N k fam SOCK_DGRAM IPPROTO_UDP = (k1, fd1, e)" by (cases "sysSocket N k fam SOCK_DGRAM IPPROTO_UDP") auto
  let ?r = "and_then (if fam = AF_INET6 \<and> v6 then SetIPv6Only N k1 fd1 1 else (k1, None)) (\<lambda>k.
      and_then (syscall_err ''setsockopt'' (n_setsockopt N k fd1 SO_BROADCAST 1)) (\<lambda>k.
      and_then (setSockOpts N opts k fd1) (\<lambda>k.
      if conn then syscall_err ''connect'' (n_connect N k fd1 sa) else syscall_err ''bind'' (n_bind N k fd1 sa))))"
  have r: "fds (fst ?r) = fds k1"
    by (intro and_then_keeps[where fds = fds]) (simp_all add: fds_sysD(3-7)[OF F] sockets_keep[OF F] setSockOpts_keep[OF o])
  show ?thesis
  proof (cases e)
    case None
    have "close_on_error N fd1 ?r = (k', err)" "fd = fd1"
      using t Inr x s None by (auto simp: udpSocket_def simp del: close_on_error.simps split: prod.splits)
    with opened_socket_fds[OF F _ r] s None show ?thesis by blast
  qed (use t Inr x s no_socket_fds[OF F] in \<open>auto simp: udpSocket_def\<close>)
qed (use t in \<open>auto simp: udpSocket_def fd_outcome_def\<close>)

lemma udsSocket_fds:
  assumes F: "fds_sys N fds" and o: "opts_keep N fds opts" and t: "udsSocket N backlog proto addr passive opts k = (k', fd, a, err)"
  shows "fd_outcome fds k k' fd err"
proof (cases "GetUnixSockAddr N proto addr")
  case (Inr x)
  obtain sa fam na where x: "x = (sa, fam, na)" by (cases x) auto
  obtain k1 fd1 e where s: "sysSocket N k fam SOCK_STREAM ProtoDefault = (k1, fd1, e)" by (cases "sysSocket N k fam SOCK_STREAM ProtoDefault") auto
  let ?r = "and_then (setSockOpts N opts k1 fd1) (\<lambda>k. listen_or_connect N backlog passive k fd1 sa)"
  have r: "fds (fst ?r) = fds k1"
    by (intro and_then_keeps[where fds = fds]) (simp_all add: sockets_keep[OF F] setSockOpts_keep[OF o])
  show ?thesis
  proof (cases e)
    case None
    have "close_on_error N fd1 ?r = (k', err)" "fd = fd1"
      using t Inr x s None by (auto simp: udsSocket_def simp del: close_on_error.simps split: prod.splits)
    with opened_socket_fds[OF F _ r] s None show ?thesis by blast
  qed (use t Inr x s no_socket_fds[OF F] in \<open>auto simp: udsSocket_def\<close>)
qed (use t in \<open>auto simp: udsSocket_def fd_outcome_def\<close>)

lemma tcpConnect_fds:
  assumes F: "fds_sys N fds" and o: "opts_keep N fds opts" and t: "tcpConnect N proto addr opts k = (k', fd, a, sa, err)"
  shows "if err = None then fd \<notin> fds k \<and> fds k' = insert fd (fds k) else fds k' = fds k"
proof (cases "GetTCPSockAddr N proto addr")
  case (Inr x)
  obtain sa1 fam na v6 where x: "x = (sa1, fam, na, v6)" by (cases x) auto
  obtain k1 fd1 e where s: "n_socket N k fam SOCK_STREAM IPPROTO_TCP False = (k1, fd1, e)" by (cases "n_socket N k fam SOCK_STREAM IPPROTO_TCP False") auto
  let ?r = "and_then (if fam = AF_INET6 \<and> v6 then SetIPv6Only N k1 fd1 1 else (k1, None)) (\<lambda>k.
      and_then (setSockOpts N opts k fd1) (\<lambda>k. and_then (syscall_err ''connect'' (n_connect N k fd1 sa1)) (\<lambda>k.
      syscall_err ''fcntl nonblock'' (n_nonblock N k fd1))))"
  have r: "fds (fst ?r) = fds k1"
    by (intro and_then_keeps[where fds = fds]) (simp_all add: fds_sysD(3-7)[OF F] sockets_keep[OF F] setSockOpts_keep[OF o])
  show ?thesis
  proof (cases e)
    case None
    obtain k2 e2 where r2: "?r = (k2, e2)" by (cases ?r)
    then have "k' = (if e2 \<noteq> None then fst (n_close N k2 fd1) else k2)" "fd = fd1" "err = e2"
      using t Inr x s None by (auto simp: tcpConnect_def sysBlockSocket_def)
    moreover have "fd1 \<notin> fds k" "fds k1 = insert fd1 (fds k)" using fds_sysD(1)[OF F] s None by blast+
    ultimately show ?thesis using r r2 fds_sysD(8)[OF F, of k2 fd1] by auto
  qed (use t Inr x s fds_sysD(2)[OF F] in \<open>auto simp: tcpConnect_def sysBlockSocket_def NewSyscallError_def\<close>)
qed (use t in \<open>auto simp: tcpConnect_def\<close>)

section \<open>Addresses\<close>

lemma To4_16: "To4 ip = Some a \<Longrightarrow> length a = 4 \<and> To16 ip = Some (ipv4InIPv6Prefix @ a)"
  by (auto simp: To4_def To16_def split: if_splits) (metis append_take_drop_id)

lemma inet4_sockaddr_To4: "To4 ip = Some a \<Longrightarrow> inet4_sockaddr ip port = SockaddrInet4 port a"
  by (auto simp: To4_def inet4_sockaddr_def split: if_splits)

text \<open>An address that was resolved survives the way to the kernel and back; an IPv4 address comes back in its 16-byte form.\<close>

lemma GetTCPSockAddr_roundtrip:
  assumes "GetTCPSockAddr N proto addr = Inr (sa, fam, TCPAddr ip port zone, v6)" "length ip \<in> {4, 16}"
    and "zone \<noteq> [] \<longrightarrow> (\<exists>i. n_ifindex N zone = Inr i \<and> 0 < i \<and> i < 2 ^ 32 \<and> ifname i = Some zone)"
  shows "SockaddrToTCPOrUnixAddr ifname mem (Some sa) = Ret (Some (TCPAddr (the (To16 ip)) port (if To4 ip = None then zone else [])))"
proof (cases "To4 ip")
  case (Some a)
  then have "sa = SockaddrInet4 port a" using assms(1) inet4_sockaddr_To4[OF Some]
    by (auto simp: GetTCPSockAddr_def determineTCPProto_def split: sum.splits if_splits)
  then show ?thesis using To4_16[OF Some] Some by (simp add: SockaddrToTCPOrUnixAddr_def sockaddrInet4ToIP_spec)
next
  case None
  then have l: "length ip = 16" using assms(2) by (auto simp: To4_def)
  then have "inet6_sockaddr N ip port zone = Inr sa" using assms(1) None
    by (auto simp: GetTCPSockAddr_def determineTCPProto_def To16_def split: sum.splits if_splits)
  then obtain z where z: "sa = SockaddrInet6 port z ip" "zone = [] \<longrightarrow> z = 0" "zone \<noteq> [] \<longrightarrow> z \<noteq> 0 \<and> ifname z = Some zone"
    using assms(3) l by (auto simp: inet6_sockaddr_def Let_def take_bit_int_eq_self unsigned_of_int split: if_splits sum.splits)
  then show ?thesis using None l
    by (cases "zone = []") (auto simp: SockaddrToTCPOrUnixAddr_def sockaddrInet6ToIPAndZone_def ip6ZoneToString_def To16_def)
qed

end
