(* ===== verification/Listener.thy ===== *)
theory Listener
  imports Socket RingBuffer
begin

text \<open>
  The options (\<open>options.go\<close>), the listener (\<open>listener.go\<close>) and what \<open>gnet.Run\<close> does with its arguments before it
  starts an engine: the buffer sizes and the address (\<open>gnet.go\<close>). A listener that could not be created leaves no
  descriptor behind, closing it twice is closing it once, and the options of a TCP listener are set before its
  socket is bound.
\<close>

section \<open>Options\<close>

datatype LoadBalancing = RoundRobin | LeastConnections | SourceAddrHash

datatype TCPSocketOpt = TCPNoDelay | TCPDelay

text \<open>The keep-alive period is in nanoseconds; a logger is a reference, which is nil by default.\<close>

record options =
  o_Multicore :: bool
  o_NumEventLoop :: int
  o_LB :: LoadBalancing
  o_ReuseAddr :: bool
  o_ReusePort :: bool
  o_ReadBufferCap :: int
  o_WriteBufferCap :: int
  o_LockOSThread :: bool
  o_Ticker :: bool
  o_TCPKeepAlive :: int
  o_TCPNoDelay :: TCPSocketOpt
  o_SocketRecvBuffer :: int
  o_SocketSendBuffer :: int
  o_LogPath :: string
  o_LogLevel :: int
  o_Logger :: "nat option"

definition o_zero :: options where
  "o_zero = \<lparr>o_Multicore = False, o_NumEventLoop = 0, o_LB = RoundRobin, o_ReuseAddr = False, o_ReusePort = False,
     o_ReadBufferCap = 0, o_WriteBufferCap = 0, o_LockOSThread = False, o_Ticker = False, o_TCPKeepAlive = 0,
     o_TCPNoDelay = TCPNoDelay, o_SocketRecvBuffer = 0, o_SocketSendBuffer = 0, o_LogPath = [], o_LogLevel = 0, o_Logger = None\<rparr>"

definition WithOptions :: "options \<Rightarrow> options \<Rightarrow> options" where "WithOptions opts _ = opts"
definition WithMulticore :: "bool \<Rightarrow> options \<Rightarrow> options" where "WithMulticore v o' = o'\<lparr>o_Multicore := v\<rparr>"
definition WithLockOSThread :: "bool \<Rightarrow> options \<Rightarrow> options" where "WithLockOSThread v o' = o'\<lparr>o_LockOSThread := v\<rparr>"
definition WithReadBufferCap :: "int \<Rightarrow> options \<Rightarrow> options" where "WithReadBufferCap v o' = o'\<lparr>o_ReadBufferCap := v\<rparr>"
definition WithWriteBufferCap :: "int \<Rightarrow> options \<Rightarrow> options" where "WithWriteBufferCap v o' = o'\<lparr>o_WriteBufferCap := v\<rparr>"
definition WithLoadBalancing :: "LoadBalancing \<Rightarrow> options \<Rightarrow> options" where "WithLoadBalancing v o' = o'\<lparr>o_LB := v\<rparr>"
definition WithNumEventLoop :: "int \<Rightarrow> options \<Rightarrow> options" where "WithNumEventLoop v o' = o'\<lparr>o_NumEventLoop := v\<rparr>"
definition WithReusePort :: "bool \<Rightarrow> options \<Rightarrow> options" where "WithReusePort v o' = o'\<lparr>o_ReusePort := v\<rparr>"
definition WithReuseAddr :: "bool \<Rightarrow> options \<Rightarrow> options" where "WithReuseAddr v o' = o'\<lparr>o_ReuseAddr := v\<rparr>"
definition WithTCPKeepAlive :: "int \<Rightarrow> options \<Rightarrow> options" where "WithTCPKeepAlive v o' = o'\<lparr>o_TCPKeepAlive := v\<rparr>"
definition WithTCPNoDelay :: "TCPSocketOpt \<Rightarrow> options \<Rightarrow> options" where "WithTCPNoDelay v o' = o'\<lparr>o_TCPNoDelay := v\<rparr>"
definition WithSocketRecvBuffer :: "int \<Rightarrow> options \<Rightarrow> options" where "WithSocketRecvBuffer v o' = o'\<lparr>o_SocketRecvBuffer := v\<rparr>"
definition WithSocketSendBuffer :: "int \<Rightarrow> options \<Rightarrow> options" where "WithSocketSendBuffer v o' = o'\<lparr>o_SocketSendBuffer := v\<rparr>"
definition WithTicker :: "bool \<Rightarrow> options \<Rightarrow> options" where "WithTicker v o' = o'\<lparr>o_Ticker := v\<rparr>"
definition WithLogPath :: "string \<Rightarrow> options \<Rightarrow> options" where "WithLogPath v o' = o'\<lparr>o_LogPath := v\<rparr>"
definition WithLogLevel :: "int \<Rightarrow> options \<Rightarrow> options" where "WithLogLevel v o' = o'\<lparr>o_LogLevel := v\<rparr>"
definition WithLogger :: "nat option \<Rightarrow> options \<Rightarrow> options" where "WithLogger v o' = o'\<lparr>o_Logger := v\<rparr>"

definition loadOptions :: "(options \<Rightarrow> options) list \<Rightarrow> options" where
  "loadOptions opts = foldl (\<lambda>o' f. f o') o_zero opts"

section \<open>Arguments of \<open>Run\<close>\<close>

definition MaxStreamBufferCap :: int where
  "MaxStreamBufferCap = 64 * 1024"

text \<open>The capacity of the read and of the write buffer; \<open>NewClient\<close> has the same code.\<close>

definition run_bufferCap :: "int \<Rightarrow> int go" where
  "run_bufferCap c =
     (if c \<le> 0 then Ret MaxStreamBufferCap
      else if c \<le> DefaultBufferSize then Ret DefaultBufferSize
      else ceil_pow2 c)"

definition run_options :: "options \<Rightarrow> (gerror + options) go" where
  "run_options o' =
     (if o_LockOSThread o' \<and> o_NumEventLoop o' > 10000 then Ret (Inl ErrTooManyEventLoopThreads)
      else
        go_bind (run_bufferCap (o_ReadBufferCap o')) (\<lambda>r.
        go_bind (run_bufferCap (o_WriteBufferCap o')) (\<lambda>w.
        Ret (Inr (o'\<lparr>o_ReadBufferCap := r, o_WriteBufferCap := w\<rparr>)))))"

text \<open>
  \<open>strings.Split\<close>: the fields between the occurrences of a separator, which is not empty; \<open>strings.ToLower\<close> is
  the parameter \<open>lower\<close>.
\<close>

fun split_at_sep :: "string \<Rightarrow> string \<Rightarrow> string \<Rightarrow> string list" where
  "split_at_sep sep field [] = [field]"
| "split_at_sep sep field (c # cs) =
     (if sep \<noteq> [] \<and> take (length sep) (c # cs) = sep then field # split_at_sep sep [] (drop (length sep) (c # cs))
      else split_at_sep sep (field @ [c]) cs)"

definition strings_Split :: "string \<Rightarrow> string \<Rightarrow> string list" where
  "strings_Split s sep = split_at_sep sep [] s"

definition parseProtoAddr :: "(string \<Rightarrow> string) \<Rightarrow> string \<Rightarrow> (string \<times> string) go" where
  "parseProtoAddr lower addr =
     (let address = lower addr; pair = strings_Split address ''://''
      in if length pair > 1 then
           go_bind (go_index pair 0) (\<lambda>network. go_bind (go_index pair 1) (\<lambda>address. Ret (network, address)))
         else Ret (''tcp'', address))"

definition bool2int :: "bool \<Rightarrow> int" where
  "bool2int b = (if b then 1 else 0)"

section \<open>The listener\<close>

record 'k listener =
  ln_closed :: bool
  ln_fd :: int
  ln_addr :: "netaddr option"
  ln_address :: string
  ln_network :: string
  ln_sockOpts :: "'k sockOption list"

definition ln_normalize :: "'k netsys \<Rightarrow> int \<Rightarrow> 'k \<Rightarrow> 'k listener \<Rightarrow> 'k \<times> 'k listener \<times> gerror option" where
  "ln_normalize N backlog k ln =
     (if ln_network ln \<in> {''tcp'', ''tcp4'', ''tcp6''} then
        (case TCPSocket N backlog (ln_network ln) (ln_address ln) True (ln_sockOpts ln) k of (k, fd, addr, err) \<Rightarrow>
           (k, ln\<lparr>ln_fd := fd, ln_addr := addr, ln_network := ''tcp''\<rparr>, err))
      else if ln_network ln \<in> {''udp'', ''udp4'', ''udp6''} then
        (case UDPSocket N (ln_network ln) (ln_address ln) False (ln_sockOpts ln) k of (k, fd, addr, err) \<Rightarrow>
           (k, ln\<lparr>ln_fd := fd, ln_addr := addr, ln_network := ''udp''\<rparr>, err))
      else if ln_network ln = ''unix'' then
        (case UnixSocket N backlog (ln_network ln) (ln_address ln) True (ln_sockOpts ln) (fst (n_removeAll N k (ln_address ln))) of
           (k, fd, addr, err) \<Rightarrow> (k, ln\<lparr>ln_fd := fd, ln_addr := addr\<rparr>, err))
      else (k, ln, Some ErrUnsupportedProtocol))"

definition ln_close :: "'k netsys \<Rightarrow> 'k \<Rightarrow> 'k listener \<Rightarrow> 'k \<times> 'k listener" where
  "ln_close N k ln =
     (if ln_closed ln then (k, ln)
      else
        let k = (if ln_fd ln > 0 then fst (n_close N k (ln_fd ln)) else k);
            k = (if ln_network ln = ''unix'' then fst (n_removeAll N k (ln_address ln)) else k)
        in (k, ln\<lparr>ln_closed := True\<rparr>))"

definition hasPrefix :: "string \<Rightarrow> string \<Rightarrow> bool" where
  "hasPrefix s prefix \<longleftrightarrow> take (length prefix) s = prefix"

definition lnSockOpts :: "string \<Rightarrow> options \<Rightarrow> 'k sockOption list" where
  "lnSockOpts network o' =
     (if o_ReusePort o' \<or> hasPrefix network ''udp'' then [(SetReuseport, 1)] else []) @
     (if o_ReuseAddr o' then [(SetReuseAddr, 1)] else []) @
     (if o_TCPNoDelay o' = TCPNoDelay \<and> hasPrefix network ''tcp'' then [(SetNoDelay, 1)] else []) @
     (if o_SocketRecvBuffer o' > 0 then [(SetRecvBuffer, o_SocketRecvBuffer o')] else []) @
     (if o_SocketSendBuffer o' > 0 then [(SetSendBuffer, o_SocketSendBuffer o')] else [])"

definition initListener ::
  "'k netsys \<Rightarrow> int \<Rightarrow> string \<Rightarrow> string \<Rightarrow> options \<Rightarrow> 'k \<Rightarrow> 'k \<times> 'k listener \<times> gerror option" where
  "initListener N backlog network addr o' k =
     ln_normalize N backlog k
       \<lparr>ln_closed = False, ln_fd = 0, ln_addr = None, ln_address = addr, ln_network = network, ln_sockOpts = lnSockOpts network o'\<rparr>"

section \<open>Descriptors of a listener\<close>

lemma lnSockOpts_keep:
  assumes "fds_sys N fds"
  shows "opts_keep N fds (lnSockOpts network o')"
  unfolding opts_keep_def lnSockOpts_def
  by (auto simp: SetReuseport_def SetReuseAddr_def SetNoDelay_def SetRecvBuffer_def SetSendBuffer_def fds_sysD(3)[OF assms])

lemma initListener_fds:
  assumes F: "fds_sys N fds" and i: "initListener N backlog network addr o' k = (k', ln, err)"
  shows "fd_outcome fds k k' (ln_fd ln) err" "\<not> ln_closed ln"
proof -
  have o: "opts_keep N fds (lnSockOpts network o')" by (rule lnSockOpts_keep[OF F])
  have "fd_outcome fds k k' (ln_fd ln) err \<and> \<not> ln_closed ln"
  proof (cases "network \<in> {''tcp'', ''tcp4'', ''tcp6''}")
    case True
    obtain k1 fd a e where t: "tcpSocket N backlog network addr True (lnSockOpts network o') k = (k1, fd, a, e)"
      by (cases "tcpSocket N backlog network addr True (lnSockOpts network o') k") auto
    from tcpSocket_fds[OF F o t] i t True show ?thesis by (auto simp: initListener_def ln_normalize_def)
  next
    case tcp: False
    show ?thesis
    proof (cases "network \<in> {''udp'', ''udp4'', ''udp6''}")
      case True
      obtain k1 fd a e where t: "udpSocket N network addr False (lnSockOpts network o') k = (k1, fd, a, e)"
        by (cases "udpSocket N network addr False (lnSockOpts network o') k") auto
      from udpSocket_fds[OF F o t] i t True show ?thesis by (auto simp: initListener_def ln_normalize_def)
    next
      case udp: False
      let ?k = "fst (n_removeAll N k addr)"
      have r: "fds ?k = fds k" by (rule fds_sysD(9)[OF F])
      obtain k1 fd a e where t: "udsSocket N backlog network addr True (lnSockOpts network o') ?k = (k1, fd, a, e)"
        by (cases "udsSocket N backlog network addr True (lnSockOpts network o') ?k") auto
      from udsSocket_fds[OF F o t] i t tcp udp r show ?thesis
        by (cases "network = ''unix''") (auto simp: initListener_def ln_normalize_def fd_outcome_def)
    qed
  qed
  then show "fd_outcome fds k k' (ln_fd ln) err" "\<not> ln_closed ln" by auto
qed

lemma ln_close_fds:
  assumes "fds_sys N fds" "\<not> ln_closed ln" "0 < ln_fd ln" "ln_close N k ln = (k', ln')"
  shows "fds k' = fds k - {ln_fd ln}" "ln_closed ln'"
proof -
  have "k' = (let k = fst (n_close N k (ln_fd ln)) in if ln_network ln = ''unix'' then fst (n_removeAll N k (ln_address ln)) else k)"
    "ln' = ln\<lparr>ln_closed := True\<rparr>" using assms(2-4) by (auto simp: ln_close_def Let_def split: if_splits)
  then show "fds k' = fds k - {ln_fd ln}" "ln_closed ln'" by (simp_all add: Let_def fds_sysD(8,9)[OF assms(1)])
qed

lemma ln_close_once: "ln_close N k ln = (k', ln') \<Longrightarrow> ln_close N k2 ln' = (k2, ln')"
  by (auto simp: ln_close_def Let_def split: if_splits)

section \<open>The order of the system calls\<close>

text \<open>\<open>log k\<close> are the calls that have been made.\<close>

datatype ncall =
    CSocket sofamily sotype
  | CSetsockopt int soname int
  | CBind int sockaddr
  | CListen int int
  | CClose int

definition logs_calls :: "'k netsys \<Rightarrow> ('k \<Rightarrow> ncall list) \<Rightarrow> bool" where
  "logs_calls N log \<longleftrightarrow>
     (\<forall>k fam ty pr nb. log (fst (n_socket N k fam ty pr nb)) = log k @ [CSocket fam ty]) \<and>
     (\<forall>k fd nm v. log (fst (n_setsockopt N k fd nm v)) = log k @ [CSetsockopt fd nm v]) \<and>
     (\<forall>k fd a. log (fst (n_bind N k fd a)) = log k @ [CBind fd a]) \<and>
     (\<forall>k fd b. log (fst (n_listen N k fd b)) = log k @ [CListen fd b])"

text \<open>The options of a TCP listener as the kernel sees them.\<close>

definition lnOptNames :: "options \<Rightarrow> (soname \<times> int) list" where
  "lnOptNames o' =
     (if o_ReusePort o' then [(SO_REUSEPORT, 1)] else []) @
     (if o_ReuseAddr o' then [(SO_REUSEADDR, 1)] else []) @
     (if o_TCPNoDelay o' = TCPNoDelay then [(TCP_NODELAY, 1)] else []) @
     (if o_SocketRecvBuffer o' > 0 then [(SO_RCVBUF, o_SocketRecvBuffer o')] else []) @
     (if o_SocketSendBuffer o' > 0 then [(SO_SNDBUF, o_SocketSendBuffer o')] else [])"

lemma logs_callsD:
  assumes "logs_calls N log"
  shows "log (fst (n_socket N k fam ty pr nb)) = log k @ [CSocket fam ty]"
    "log (fst (n_setsockopt N k fd nm v)) = log k @ [CSetsockopt fd nm v]"
    "log (fst (n_bind N k fd a)) = log k @ [CBind fd a]" "log (fst (n_listen N k fd b)) = log k @ [CListen fd b]"
  using assms by (auto simp: logs_calls_def)

lemma and_then_None: "and_then r f = (k', None) \<longleftrightarrow> snd r = None \<and> f (fst r) = (k', None)"
  by (cases r) auto

lemma setSockOpts_append:
  "setSockOpts N (xs @ ys) k fd = and_then (setSockOpts N xs k fd) (\<lambda>k. setSockOpts N ys k fd)"
proof (induction xs arbitrary: k)
  case (Cons x xs)
  obtain f v where "x = (f, v)" by (cases x)
  then show ?case by (cases "f N k fd v") (simp add: Cons)
qed simp

lemma setSockOpts_one: "setSockOpts N [(f, v)] k fd = f N k fd v"
  by (cases "f N k fd v") simp

lemma lnSockOpts_log:
  assumes L: "logs_calls N log" and s: "setSockOpts N (lnSockOpts network o') k fd = (k', None)"
    and n: "hasPrefix network ''tcp''" "\<not> hasPrefix network ''udp''"
  shows "log k' = log k @ map (\<lambda>(nm, v). CSetsockopt fd nm v) (lnOptNames o')"
proof -
  define step where "step = (\<lambda>xs ns. \<forall>k k'. setSockOpts N xs k fd = (k', None) \<longrightarrow>
    log k' = log k @ map (\<lambda>(nm, v). CSetsockopt fd nm v) ns)"
  have app: "step (xs @ ys) (ns @ ms)" if "step xs ns" "step ys ms" for xs ys ns ms
    using that unfolding step_def setSockOpts_append and_then_None by (metis append_assoc map_append prod.collapse)
  have one: "step (if c then [(f, v)] else []) (if c then [(nm, v)] else [])"
    if "\<And>k. fst (f N k fd v) = fst (n_setsockopt N k fd nm v)" for c f v nm
  proof (cases c)
    case True
    have "log k' = log k @ [CSetsockopt fd nm v]" if "f N k fd v = (k', None)" for k k'
      using \<open>\<And>k. fst (f N k fd v) = fst (n_setsockopt N k fd nm v)\<close>[of k] logs_callsD(2)[OF L, of k fd nm v] that by simp
    then show ?thesis using True by (simp add: step_def setSockOpts_one del: setSockOpts.simps)
  qed (simp add: step_def)
  have "step (lnSockOpts network o') (lnOptNames o')"
    unfolding lnSockOpts_def lnOptNames_def
    by (simp only: n simp_thms) (intro app one,
        simp_all only: SetReuseport_def SetReuseAddr_def SetNoDelay_def SetRecvBuffer_def SetSendBuffer_def fst_err)
  then show ?thesis using s unfolding step_def by blast
qed

lemma close_on_error_None: "close_on_error N fd r = (k', None) \<Longrightarrow> r = (k', None)"
  by (cases r) (auto split: if_splits)

lemma tcpSocket_ok:
  assumes t: "tcpSocket N backlog proto addr passive opts k = (k', fd, a, None)"
  obtains sa fam v6 k1 where "n_socket N k fam SOCK_STREAM IPPROTO_TCP True = (k1, fd, None)"
    "and_then (if fam = AF_INET6 \<and> v6 then SetIPv6Only N k1 fd 1 else (k1, None)) (\<lambda>k.
      and_then (setSockOpts N opts k fd) (\<lambda>k. listen_or_connect N backlog passive k fd sa)) = (k', None)"
proof (cases "GetTCPSockAddr N proto addr")
  case (Inr x)
  obtain sa fam na v6 where x: "x = (sa, fam, na, v6)" by (cases x) auto
  obtain k1 fd1 e where s: "sysSocket N k fam SOCK_STREAM IPPROTO_TCP = (k1, fd1, e)" by (cases "sysSocket N k fam SOCK_STREAM IPPROTO_TCP") auto
  show ?thesis
  proof (cases e)
    case None
    have r: "close_on_error N fd1 (and_then (if fam = AF_INET6 \<and> v6 then SetIPv6Only N k1 fd1 1 else (k1, None)) (\<lambda>k.
      and_then (setSockOpts N opts k fd1) (\<lambda>k. listen_or_connect N backlog passive k fd1 sa))) = (k', None)" and fd: "fd = fd1"
      using t Inr x s None by (auto simp: tcpSocket_def simp del: close_on_error.simps split: prod.splits)
    have "n_socket N k fam SOCK_STREAM IPPROTO_TCP True = (k1, fd, None)" using s None fd by (simp add: sysSocket_def)
    from that[OF this close_on_error_None[OF r[folded fd]]] show ?thesis .
  qed (use t Inr x s in \<open>auto simp: tcpSocket_def NewSyscallError_def\<close>)
qed (use t in \<open>simp add: tcpSocket_def\<close>)

lemma initListener_log:
  assumes L: "logs_calls N log" and i: "initListener N backlog network addr o' k = (k', ln, None)"
    and n: "network \<in> {''tcp'', ''tcp4'', ''tcp6''}"
  shows "\<exists>fam sa v6. log k' = log k @ CSocket fam SOCK_STREAM # (if v6 then [CSetsockopt (ln_fd ln) IPV6_V6ONLY 1] else []) @
    map (\<lambda>(nm, v). CSetsockopt (ln_fd ln) nm v) (lnOptNames o') @ [CBind (ln_fd ln) sa, CListen (ln_fd ln) backlog]"
proof -
  let ?fd = "ln_fd ln" and ?opts = "lnSockOpts network o'"
  have p: "hasPrefix network ''tcp''" "\<not> hasPrefix network ''udp''" using n by (auto simp: hasPrefix_def)
  have "tcpSocket N backlog network addr True ?opts k = (k', ?fd, ln_addr ln, None)"
    using i n by (auto simp: initListener_def ln_normalize_def split: prod.splits)
  then obtain sa fam v6 k1 where s: "n_socket N k fam SOCK_STREAM IPPROTO_TCP True = (k1, ?fd, None)"
    and r: "and_then (if fam = AF_INET6 \<and> v6 then SetIPv6Only N k1 ?fd 1 else (k1, None)) (\<lambda>k.
      and_then (setSockOpts N ?opts k ?fd) (\<lambda>k. listen_or_connect N backlog True k ?fd sa)) = (k', None)"
    by (rule tcpSocket_ok)
  define k2 where "k2 = fst (if fam = AF_INET6 \<and> v6 then SetIPv6Only N k1 ?fd 1 else (k1, None))"
  define k3 where "k3 = fst (setSockOpts N ?opts k2 ?fd)"
  have o: "setSockOpts N ?opts k2 ?fd = (k3, None)" and l: "listen_or_connect N backlog True k3 ?fd sa = (k', None)"
    using r unfolding and_then_None k2_def k3_def by (auto simp: prod_eq_iff)
  have "log k' = log k3 @ [CBind ?fd sa, CListen ?fd backlog]"
    using l logs_callsD(3)[OF L, of k3 ?fd sa] logs_callsD(4)[OF L, of "fst (n_bind N k3 ?fd sa)" ?fd backlog]
    unfolding listen_or_connect_def if_True and_then_None by (auto simp: syscall_err_def)
  moreover have "log k2 = log k1 @ (if fam = AF_INET6 \<and> v6 then [CSetsockopt ?fd IPV6_V6ONLY 1] else [])"
    using logs_callsD(2)[OF L] by (auto simp: k2_def SetIPv6Only_def)
  moreover have "log k1 = log k @ [CSocket fam SOCK_STREAM]" using logs_callsD(1)[OF L, of k fam SOCK_STREAM IPPROTO_TCP True] s by simp
  ultimately show ?thesis using lnSockOpts_log[OF L o p]
    by (intro exI[of _ fam] exI[of _ sa] exI[of _ "fam = AF_INET6 \<and> v6"]) simp
qed

section \<open>Arguments\<close>

lemma run_bufferCap_spec:
  assumes "c \<le> 2 ^ 62"
  shows "\<exists>j. run_bufferCap c = Ret (2 ^ j) \<and> 1024 \<le> (2 ^ j :: int) \<and> c \<le> 2 ^ j \<and> (1024 < c \<longrightarrow> 2 ^ j < 2 * c)"
proof (cases "c \<le> 1024")
  case True
  show ?thesis
  proof (cases "c \<le> 0")
    case True
    then show ?thesis by (intro exI[of _ 16]) (simp add: run_bufferCap_def MaxStreamBufferCap_def)
  next
    case False
    with True show ?thesis by (intro exI[of _ 10]) (simp add: run_bufferCap_def DefaultBufferSize_def)
  qed
next
  case False
  with ceil_pow2_least[of c] assms obtain j where "ceil_pow2 c = Ret (2 ^ Suc j)" "2 ^ j < c" "c \<le> 2 ^ Suc j" by auto
  with False show ?thesis by (intro exI[of _ "Suc j"]) (simp add: run_bufferCap_def DefaultBufferSize_def)
qed

lemma split_before_colon:
  "CHR '':'' \<notin> set net \<Longrightarrow> split_at_sep ''://'' f (net @ ''://'' @ a) = (f @ net) # split_at_sep ''://'' [] a"
  by (induction net arbitrary: f) auto

lemma parseProtoAddr_scheme:
  assumes "lower (net @ ''://'' @ a) = net @ ''://'' @ a" "CHR '':'' \<notin> set net" "strings_Split a ''://'' = [a]"
  shows "parseProtoAddr lower (net @ ''://'' @ a) = Ret (net, a)"
  using split_before_colon[OF assms(2), of "[]" a] assms(1,3)
  by (simp add: parseProtoAddr_def strings_Split_def go_index_def)

lemma split_single: "length (split_at_sep sep f s) = 1 \<Longrightarrow> split_at_sep sep f s = [f @ s]"
proof (induction sep f s rule: split_at_sep.induct)
  case (2 sep f c cs)
  have "split_at_sep sep g u \<noteq> []" for g u by (induction sep g u rule: split_at_sep.induct) auto
  with 2 show ?case by (auto split: if_splits)
qed simp

lemma parseProtoAddr_plain:
  assumes "length (strings_Split (lower a) ''://'') = 1"
  shows "parseProtoAddr lower a = Ret (''tcp'', lower a)"
  using assms by (simp add: parseProtoAddr_def)

end
