(* ===== verification/Startup.thy ===== *)
theory Startup
  imports Polling Listener
begin

text \<open>
  The life of an engine from \<open>gnet.Run\<close> to its return: opening and closing a poller
  (\<open>internal/netpoll/epoll_default_poller.go\<close>), starting the event loops, serving and stopping (\<open>engine.go\<close>,
  \<open>gnet.go\<close>), and what the goroutine of a loop does when its polling ends (\<open>reactor_default_linux.go\<close>).

  Listeners are shared: the loops and the engine refer to them, and several of them close the same one. They
  live in a list, a reference is a position in it, and the listener of \<open>Run\<close> is the first.

  The lemmas account for every descriptor: which ones a start opens, which ones a failing start leaves behind,
  and that a stopped engine has closed all of them.
\<close>

section \<open>Pollers\<close>

record 'k epollsys =
  e_create :: "'k \<Rightarrow> 'k \<times> int \<times> errno option"
  e_eventfd :: "'k \<Rightarrow> 'k \<times> int \<times> errno option"
  e_add :: "'k \<Rightarrow> int \<Rightarrow> int \<Rightarrow> 32 word \<Rightarrow> 'k \<times> errno option"

record 'u poller =
  po_fd :: int
  po_efd :: int
  po_logic :: "'u plogic option"

definition po_AddRead :: "'k epollsys \<Rightarrow> 'k \<Rightarrow> 'u poller \<Rightarrow> int \<Rightarrow> 'k \<times> gerror option" where
  "po_AddRead E k p fd = syscall_err ''epoll_ctl add'' (e_add E k (po_fd p) fd readEvents)"

definition po_Close :: "'k netsys \<Rightarrow> 'k \<Rightarrow> 'u poller \<Rightarrow> 'k \<times> gerror option" where
  "po_Close N k p =
     and_then (syscall_err ''close'' (n_close N k (po_fd p))) (\<lambda>k. syscall_err ''close'' (n_close N k (po_efd p)))"

definition OpenPoller :: "'k netsys \<Rightarrow> 'k epollsys \<Rightarrow> 'k \<Rightarrow> 'k \<times> 'u poller option \<times> gerror option" where
  "OpenPoller N E k =
     (case e_create E k of (k, fd, err) \<Rightarrow>
        if err \<noteq> None then (k, None, NewSyscallError ''epoll_create1'' err)
        else
          (case e_eventfd E k of (k, efd, err) \<Rightarrow>
             let p = \<lparr>po_fd = fd, po_efd = efd, po_logic = None\<rparr>
             in if err \<noteq> None then (fst (po_Close N k p), None, NewSyscallError ''eventfd'' err)
                else
                  (case po_AddRead E k p efd of (k, err) \<Rightarrow>
                     if err \<noteq> None then (fst (po_Close N k p), None, err) else (k, Some p, None))))"

definition InitLogic :: "'u plogic \<Rightarrow> 'u poller \<Rightarrow> 'u poller" where
  "InitLogic lg p = p\<lparr>po_logic := Some lg\<rparr>"

section \<open>The engine\<close>

text \<open>The goroutines of an engine: loops with a listener of their own, sub-reactors and the main reactor.\<close>

datatype goroutine = GRun nat | GSub nat | GMain

record ('k, 'u) eloop =
  lp_idx :: int
  lp_ln :: nat
  lp_poller :: "'u poller"
  lp_state :: "('k, 'u) lstate"

record ('k, 'u) estate =
  es_k :: 'k
  es_lns :: "'k listener list"
  es_ln :: "nat option"
  es_loops :: "('k, 'u) eloop list"
  es_main :: "('k, 'u) eloop option"
  es_striker :: "int option"
  es_running :: "goroutine list"
  es_inShutdown :: bool

definition c_zero :: conn where
  "c_zero = \<lparr>c_ctx = None, c_peer = None, c_localAddr = None, c_remoteAddr = None, c_out = None, c_attached = False,
     c_in = er_zero, c_buf = [], c_fd = 0, c_isDatagram = False, c_opened = False, c_isWebSock = False\<rparr>"

text \<open>\<open>new(eventloop)\<close> with its listener, poller and buffer; \<open>u\<close> is the state of the user's handler.\<close>

definition new_eventloop :: "'k \<Rightarrow> 'u \<Rightarrow> 'k listener \<Rightarrow> nat \<Rightarrow> 'u poller \<Rightarrow> int \<Rightarrow> int \<Rightarrow> ('k, 'u) eloop" where
  "new_eventloop k u ln r p bufLen idx =
     \<lparr>lp_idx = idx, lp_ln = r, lp_poller = p,
      lp_state = \<lparr>ls_k = k, ls_user = u, ls_tick = 0, ls_conn = (\<lambda>_. c_zero), ls_connections = Map.empty,
        ls_udpSockets = Map.empty, ls_connCount = 0, ls_lnfd = ln_fd ln, ls_lnaddr = ln_addr ln, ls_bufLen = bufLen,
        ls_efd = po_efd p, ls_wakeup = False, ls_urgent = [], ls_async = []\<rparr>\<rparr>"

text \<open>\<open>lb.register\<close> gives the loop its number.\<close>

definition eng_register :: "('k, 'u) estate \<Rightarrow> ('k, 'u) eloop \<Rightarrow> ('k, 'u) estate" where
  "eng_register es el = es\<lparr>es_loops := es_loops es @ [el\<lparr>lp_idx := glen (es_loops es)\<rparr>]\<rparr>"

text \<open>
  The listener of loop \<open>i\<close>: the first loop takes the engine's, the others make their own. One that could not be
  created is unreachable afterwards.
\<close>

definition loop_listener ::
  "'k netsys \<Rightarrow> int \<Rightarrow> string \<Rightarrow> string \<Rightarrow> options \<Rightarrow> nat \<Rightarrow> nat \<Rightarrow> ('k, 'u) estate \<Rightarrow> ('k, 'u) estate \<times> nat \<times> gerror option" where
  "loop_listener N backlog network address opts i ln es =
     (if i > 0 then
        (case initListener N backlog network address opts (es_k es) of (k, l, err) \<Rightarrow>
           if err \<noteq> None then (es\<lparr>es_k := k\<rparr>, ln, err)
           else (es\<lparr>es_k := k, es_lns := es_lns es @ [l]\<rparr>, length (es_lns es), None))
      else (es, ln, None))"

fun activateEventLoops_loop ::
  "'k netsys \<Rightarrow> 'k epollsys \<Rightarrow> int \<Rightarrow> 'u plogic \<Rightarrow> 'u \<Rightarrow> string \<Rightarrow> string \<Rightarrow> options \<Rightarrow> nat \<Rightarrow> nat \<Rightarrow> nat \<Rightarrow>
   ('k, 'u) estate \<Rightarrow> ('k, 'u) estate \<times> gerror option" where
  "activateEventLoops_loop N E backlog lg u network address opts i 0 ln es = (es, None)"
| "activateEventLoops_loop N E backlog lg u network address opts i (Suc m) ln es =
     (case loop_listener N backlog network address opts i ln es of (es, ln, err) \<Rightarrow>
        if err \<noteq> None then (es, err)
        else
          (case OpenPoller N E (es_k es) of
             (k, None, err) \<Rightarrow> (es\<lparr>es_k := k\<rparr>, err)
           | (k, Some p, err) \<Rightarrow>
               let p = InitLogic lg p;
                   el = new_eventloop k u (es_lns es ! ln) ln p (o_ReadBufferCap opts) 0
               in (case po_AddRead E k p (ln_fd (es_lns es ! ln)) of (k, err) \<Rightarrow>
                     if err \<noteq> None then (es\<lparr>es_k := k\<rparr>, err)
                     else
                       let es = eng_register (es\<lparr>es_k := k\<rparr>) el;
                           es = (if glen (es_loops es) - 1 = 0 \<and> o_Ticker opts then es\<lparr>es_striker := Some 0\<rparr> else es)
                       in activateEventLoops_loop N E backlog lg u network address opts (Suc i) m ln es)))"

text \<open>A goroutine is started for each registered loop; none runs before.\<close>

definition eng_startEventLoops :: "('k, 'u) estate \<Rightarrow> ('k, 'u) estate" where
  [simp]: "eng_startEventLoops es = es\<lparr>es_running := map GRun [0..<length (es_loops es)]\<rparr>"

definition eng_startSubReactors :: "('k, 'u) estate \<Rightarrow> ('k, 'u) estate" where
  [simp]: "eng_startSubReactors es = es\<lparr>es_running := map GSub [0..<length (es_loops es)]\<rparr>"

definition activateEventLoops ::
  "'k netsys \<Rightarrow> 'k epollsys \<Rightarrow> int \<Rightarrow> 'u plogic \<Rightarrow> 'u \<Rightarrow> options \<Rightarrow> nat \<Rightarrow> nat \<Rightarrow> ('k, 'u) estate \<Rightarrow>
   ('k, 'u) estate \<times> gerror option" where
  "activateEventLoops N E backlog lg u opts numEventLoop ln es =
     (let l = es_lns es ! ln
      in case activateEventLoops_loop N E backlog lg u (ln_network l) (ln_address l) opts 0 numEventLoop ln (es\<lparr>es_ln := None\<rparr>) of
           (es, err) \<Rightarrow>
             if err \<noteq> None then (es, err)
             else (eng_startEventLoops es, None))"

fun activateReactors_loop ::
  "'k netsys \<Rightarrow> 'k epollsys \<Rightarrow> 'u \<Rightarrow> options \<Rightarrow> nat \<Rightarrow> nat \<Rightarrow> ('k, 'u) estate \<Rightarrow> ('k, 'u) estate \<times> gerror option" where
  "activateReactors_loop N E u opts 0 ln es = (es, None)"
| "activateReactors_loop N E u opts (Suc m) ln es =
     (case OpenPoller N E (es_k es) of
        (k, None, err) \<Rightarrow> (es\<lparr>es_k := k\<rparr>, err)
      | (k, Some p, err) \<Rightarrow>
          activateReactors_loop N E u opts m ln
            (eng_register (es\<lparr>es_k := k\<rparr>) (new_eventloop k u (es_lns es ! ln) ln p (o_ReadBufferCap opts) 0)))"

definition activateReactors ::
  "'k netsys \<Rightarrow> 'k epollsys \<Rightarrow> 'u \<Rightarrow> options \<Rightarrow> nat \<Rightarrow> nat \<Rightarrow> ('k, 'u) estate \<Rightarrow> ('k, 'u) estate \<times> gerror option" where
  "activateReactors N E u opts numEventLoop ln es =
     (case activateReactors_loop N E u opts numEventLoop ln es of (es, err) \<Rightarrow>
        if err \<noteq> None then (es, err)
        else
          let es = eng_startSubReactors es
          in (case OpenPoller N E (es_k es) of
                (k, None, err) \<Rightarrow> (es\<lparr>es_k := k\<rparr>, err)
              | (k, Some p, err) \<Rightarrow>
                  let el = new_eventloop k u (es_lns es ! ln) ln p 0 (-1)
                  in (case po_AddRead E k p (ln_fd (es_lns es ! ln)) of (k, err) \<Rightarrow>
                        if err \<noteq> None then (es\<lparr>es_k := k\<rparr>, err)
                        else
                          (es\<lparr>es_k := k, es_main := Some el, es_running := es_running es @ [GMain],
                              es_striker := (if o_Ticker opts then Some (-1) else es_striker es)\<rparr>, None))))"

definition eng_start ::
  "'k netsys \<Rightarrow> 'k epollsys \<Rightarrow> int \<Rightarrow> 'u plogic \<Rightarrow> 'u \<Rightarrow> options \<Rightarrow> nat \<Rightarrow> nat \<Rightarrow> ('k, 'u) estate \<Rightarrow>
   ('k, 'u) estate \<times> gerror option" where
  "eng_start N E backlog lg u opts numEventLoop ln es =
     (if o_ReusePort opts \<or> ln_network (es_lns es ! ln) = ''udp''
      then activateEventLoops N E backlog lg u opts numEventLoop ln es
      else activateReactors N E u opts numEventLoop ln es)"

text \<open>The errors of closing a poller are dropped.\<close>

definition eng_closeEventLoops :: "'k netsys \<Rightarrow> ('k, 'u) estate \<Rightarrow> ('k, 'u) estate" where
  "eng_closeEventLoops N es = es\<lparr>es_k := foldl (\<lambda>k el. fst (po_Close N k (lp_poller el))) (es_k es) (es_loops es)\<rparr>"

text \<open>The number of loops \<open>serve\<close> starts.\<close>

definition eng_numLoops :: "options \<Rightarrow> nat \<Rightarrow> int" where
  "eng_numLoops opts cpus =
     (if o_NumEventLoop opts > 0 then o_NumEventLoop opts else if o_Multicore opts then int cpus else 1)"

text \<open>\<open>ln.close()\<close> through a reference.\<close>

definition es_ln_close :: "'k netsys \<Rightarrow> nat \<Rightarrow> ('k, 'u) estate \<Rightarrow> ('k, 'u) estate" where
  "es_ln_close N r es =
     (case ln_close N (es_k es) (es_lns es ! r) of (k, l) \<Rightarrow> es\<lparr>es_k := k, es_lns := (es_lns es)[r := l]\<rparr>)"

text \<open>
  \<open>serve\<close> up to the deferred \<open>stop\<close>: \<open>Inl\<close> is the engine that serves, \<open>Inr\<close> an early return. \<open>boot\<close> is the
  action \<open>OnBoot\<close> returns.
\<close>

definition eng_serve ::
  "'k netsys \<Rightarrow> 'k epollsys \<Rightarrow> int \<Rightarrow> 'u plogic \<Rightarrow> 'u \<Rightarrow> nat \<Rightarrow> action \<Rightarrow> options \<Rightarrow> 'k listener \<Rightarrow> 'k \<Rightarrow>
   ('k, 'u) estate + ('k, 'u) estate \<times> gerror option" where
  "eng_serve N E backlog lg u cpus boot opts ln k =
     (let es = \<lparr>es_k = k, es_lns = [ln], es_ln = Some 0, es_loops = [], es_main = None, es_striker = None, es_running = [],
                es_inShutdown = False\<rparr>
      in if boot = ActShutdown then Inr (es, None)
         else
           (case eng_start N E backlog lg u opts (nat (eng_numLoops opts cpus)) 0 es of (es, err) \<Rightarrow>
              if err \<noteq> None then Inr (eng_closeEventLoops N es, err) else Inl es))"

definition gnet_Run ::
  "'k netsys \<Rightarrow> 'k epollsys \<Rightarrow> int \<Rightarrow> (string \<Rightarrow> string) \<Rightarrow> 'u plogic \<Rightarrow> 'u \<Rightarrow> nat \<Rightarrow> action \<Rightarrow> string \<Rightarrow> (options \<Rightarrow> options) list \<Rightarrow>
   'k \<Rightarrow> (('k, 'u) estate + 'k \<times> gerror option) go" where
  "gnet_Run N E backlog lower lg u cpus boot protoAddr opts k =
     go_bind (run_options (loadOptions opts)) (\<lambda>r.
     case r of
       Inl err \<Rightarrow> Ret (Inr (k, Some err))
     | Inr o' \<Rightarrow>
         go_bind (parseProtoAddr lower protoAddr) (\<lambda>(network, addr).
         case initListener N backlog network addr o' k of (k, ln, err) \<Rightarrow>
           if err \<noteq> None then Ret (Inr (k, err))
           else
             (case eng_serve N E backlog lg u cpus boot o' ln k of
                Inl es \<Rightarrow> Ret (Inl es)
              | Inr (es, err) \<Rightarrow> Ret (Inr (es_k (es_ln_close N 0 es), err)))))"

section \<open>Stopping\<close>

text \<open>A shutdown task for a loop; the kernel state is the engine's.\<close>

definition lp_notify :: "'k world \<Rightarrow> 'k \<Rightarrow> ('k, 'u) eloop \<Rightarrow> 'k \<times> ('k, 'u) eloop" where
  "lp_notify W k el =
     (case pl_UrgentTrigger W ((lp_state el)\<lparr>ls_k := k\<rparr>) TShutdown of (st, err) \<Rightarrow> (ls_k st, el\<lparr>lp_state := st\<rparr>))"

fun notify_loops :: "'k world \<Rightarrow> 'k \<Rightarrow> ('k, 'u) eloop list \<Rightarrow> 'k \<times> ('k, 'u) eloop list" where
  "notify_loops W k [] = (k, [])"
| "notify_loops W k (el # els) =
     (case lp_notify W k el of (k, el) \<Rightarrow> case notify_loops W k els of (k, els) \<Rightarrow> (k, el # els))"

definition eng_notify :: "'k world \<Rightarrow> 'k netsys \<Rightarrow> ('k, 'u) estate \<Rightarrow> ('k, 'u) estate go" where
  "eng_notify W N es =
     (case notify_loops W (es_k es) (es_loops es) of (k, els) \<Rightarrow>
        let es = es\<lparr>es_k := k, es_loops := els\<rparr>
        in case es_main es of
             None \<Rightarrow> Ret es
           | Some m \<Rightarrow>
               (case es_ln es of
                  None \<Rightarrow> Panic NilDereference
                | Some r \<Rightarrow>
                    let es = es_ln_close N r es
                    in case lp_notify W (es_k es) m of (k, m) \<Rightarrow> Ret (es\<lparr>es_k := k, es_main := Some m\<rparr>)))"

text \<open>
  What the goroutine of a loop does when its polling has ended; \<open>conns\<close> and \<open>udps\<close> are the orders in which
  \<open>closeAllSockets\<close> meets the entries of its maps.
\<close>

definition lp_closeAll ::
  "'k world \<Rightarrow> 'u handler \<Rightarrow> nat list \<Rightarrow> nat list \<Rightarrow> nat \<Rightarrow> ('k, 'u) estate \<Rightarrow> ('k, 'u) estate go" where
  "lp_closeAll W h conns udps i es =
     (let el = es_loops es ! i
      in go_bind (el_closeAllSockets W h conns udps ((lp_state el)\<lparr>ls_k := es_k es\<rparr>)) (\<lambda>st.
         Ret (es\<lparr>es_k := ls_k st, es_loops := (es_loops es)[i := el\<lparr>lp_state := st\<rparr>]\<rparr>)))"

fun go_exit ::
  "'k world \<Rightarrow> 'k netsys \<Rightarrow> 'u handler \<Rightarrow> nat list \<Rightarrow> nat list \<Rightarrow> goroutine \<Rightarrow> ('k, 'u) estate \<Rightarrow> ('k, 'u) estate go" where
  "go_exit W N h conns udps (GRun i) es =
     go_bind (lp_closeAll W h conns udps i es) (\<lambda>es. Ret (es_ln_close N (lp_ln (es_loops es ! i)) es))"
| "go_exit W N h conns udps (GSub i) es = lp_closeAll W h conns udps i es"
| "go_exit W N h conns udps GMain es = Ret es"

text \<open>The goroutines end in the given order, each with the orders of its maps.\<close>

fun exits ::
  "'k world \<Rightarrow> 'k netsys \<Rightarrow> 'u handler \<Rightarrow> (goroutine \<times> nat list \<times> nat list) list \<Rightarrow> ('k, 'u) estate \<Rightarrow> ('k, 'u) estate go" where
  "exits W N h [] es = Ret es"
| "exits W N h ((g, conns, udps) # gs) es = go_bind (go_exit W N h conns udps g es) (exits W N h gs)"

text \<open>The end of \<open>stop\<close>: the pollers are closed, the ticker is cancelled and the flag is set.\<close>

definition eng_close :: "'k netsys \<Rightarrow> ('k, 'u) estate \<Rightarrow> ('k, 'u) estate" where
  "eng_close N es =
     (let es = eng_closeEventLoops N es;
          es = (case es_main es of None \<Rightarrow> es | Some m \<Rightarrow> es\<lparr>es_k := fst (po_Close N (es_k es) (lp_poller m))\<rparr>)
      in es\<lparr>es_striker := None, es_inShutdown := True\<rparr>)"

text \<open>\<open>stop\<close> after the signal it waits for, and the deferred \<open>ln.close()\<close> of \<open>Run\<close>.\<close>

definition eng_stop ::
  "'k world \<Rightarrow> 'k netsys \<Rightarrow> 'u handler \<Rightarrow> (goroutine \<times> nat list \<times> nat list) list \<Rightarrow> ('k, 'u) estate \<Rightarrow> ('k, 'u) estate go" where
  "eng_stop W N h order es =
     go_bind (eng_notify W N es) (\<lambda>es. go_bind (exits W N h order es) (\<lambda>es. Ret (eng_close N es)))"

definition run_finish ::
  "'k world \<Rightarrow> 'k netsys \<Rightarrow> 'u handler \<Rightarrow> (goroutine \<times> nat list \<times> nat list) list \<Rightarrow> ('k, 'u) estate \<Rightarrow> ('k, 'u) estate go" where
  "run_finish W N h order es = go_bind (eng_stop W N h order es) (\<lambda>es. Ret (es_ln_close N 0 es))"

section \<open>Accounting for descriptors\<close>

text \<open>The descriptors \<open>xs\<close> are open, each once, beside those in \<open>K\<close>.\<close>

definition accounts :: "('k \<Rightarrow> int set) \<Rightarrow> int set \<Rightarrow> 'k \<Rightarrow> int list \<Rightarrow> bool" where
  "accounts fds K k xs \<longleftrightarrow> distinct xs \<and> set xs \<inter> K = {} \<and> fds k = K \<union> set xs"

definition po_fds :: "'u poller \<Rightarrow> int list" where
  "po_fds p = [po_fd p, po_efd p]"

definition ln_fds :: "'k listener \<Rightarrow> int list" where
  "ln_fds l = (if ln_closed l then [] else [ln_fd l])"

definition es_fds :: "('k, 'u) estate \<Rightarrow> int list" where
  "es_fds es =
     concat (map ln_fds (es_lns es)) @ concat (map (\<lambda>el. po_fds (lp_poller el)) (es_loops es)) @
     (case es_main es of None \<Rightarrow> [] | Some m \<Rightarrow> po_fds (lp_poller m))"

text \<open>
  The kernel: a call that opens a descriptor returns a fresh one and \<open>-1\<close> on an error, closing an open
  descriptor reports no error, and registering changes no descriptor.
\<close>

definition opens :: "('k \<Rightarrow> int set) \<Rightarrow> 'k \<Rightarrow> 'k \<times> int \<times> errno option \<Rightarrow> bool" where
  "opens fds k r \<longleftrightarrow>
     (case r of (k', fd, e) \<Rightarrow>
        if e = None then fd \<notin> fds k \<and> fds k' = insert fd (fds k) else fd = -1 \<and> fds k' = fds k)"

definition boot_sys :: "'k netsys \<Rightarrow> 'k epollsys \<Rightarrow> ('k \<Rightarrow> int set) \<Rightarrow> bool" where
  "boot_sys N E fds \<longleftrightarrow>
     fds_sys N fds \<and> (\<forall>k. \<forall>fd\<in>fds k. 0 \<le> fd) \<and> (\<forall>k. \<forall>fd\<in>fds k. snd (n_close N k fd) = None) \<and>
     (\<forall>k. opens fds k (e_create E k)) \<and> (\<forall>k. opens fds k (e_eventfd E k)) \<and>
     (\<forall>k p fd ev. fds (fst (e_add E k p fd ev)) = fds k)"

lemma boot_sysD:
  assumes "boot_sys N E fds"
  shows "fds_sys N fds" "fd \<in> fds k \<Longrightarrow> 0 \<le> fd" "fd \<in> fds k \<Longrightarrow> snd (n_close N k fd) = None"
    "opens fds k (e_create E k)" "opens fds k (e_eventfd E k)" "fds (fst (e_add E k p fd ev)) = fds k"
    "fds (fst (n_close N k fd)) = fds k - {fd}"
  using assms fds_sysD(8)[of N fds] by (auto simp: boot_sys_def)

lemma accounts_perm: "accounts fds K k xs \<Longrightarrow> mset ys = mset xs \<Longrightarrow> accounts fds K k ys"
  using mset_eq_setD mset_eq_imp_distinct_iff unfolding accounts_def by metis

lemma accounts_open: "accounts fds K k xs \<Longrightarrow> fd \<notin> fds k \<Longrightarrow> fds k' = insert fd (fds k) \<Longrightarrow> accounts fds K k' (fd # xs)"
  by (auto simp: accounts_def)

lemma accounts_close: "accounts fds K k (fd # xs) \<Longrightarrow> fds k' = fds k - {fd} \<Longrightarrow> accounts fds K k' xs"
  by (auto simp: accounts_def)

lemma accounts_same: "fds k' = fds k \<Longrightarrow> accounts fds K k' xs = accounts fds K k xs"
  by (simp add: accounts_def)

lemma po_Close_accounts:
  assumes B: "boot_sys N E fds" and h: "accounts fds K k (po_fds p @ xs)"
  shows "accounts fds K (fst (po_Close N k p)) xs"
proof -
  let ?k = "fst (n_close N k (po_fd p))"
  have "po_fd p \<in> fds k" using h by (simp add: accounts_def po_fds_def)
  then have "po_Close N k p = syscall_err ''close'' (n_close N ?k (po_efd p))"
    using boot_sysD(3)[OF B] by (auto simp: po_Close_def syscall_err_def NewSyscallError_def)
  moreover have "accounts fds K ?k (po_efd p # xs)"
    by (rule accounts_close[where fds = fds, OF _ boot_sysD(7)[OF B]]) (use h in \<open>simp add: po_fds_def\<close>)
  ultimately show ?thesis using accounts_close[where fds = fds, OF _ boot_sysD(7)[OF B]] by (simp add: syscall_err_def)
qed

lemma po_AddRead_accounts:
  assumes "boot_sys N E fds"
  shows "accounts fds K (fst (po_AddRead E k p fd)) xs = accounts fds K k xs"
  by (simp add: po_AddRead_def accounts_same[where fds = fds, OF boot_sysD(6)[OF assms]])

lemma OpenPoller_accounts:
  fixes p :: "'u poller option"
  assumes B: "boot_sys N E fds" and h: "accounts fds K k xs" and o: "OpenPoller N E k = (k', p, err)"
  shows "case p of None \<Rightarrow> err \<noteq> None \<and> accounts fds K k' xs
    | Some p \<Rightarrow> err = None \<and> po_logic p = None \<and> accounts fds K k' (po_fds p @ xs)"
proof -
  obtain k1 fd e1 where c: "e_create E k = (k1, fd, e1)" by (cases "e_create E k") auto
  obtain k2 efd e2 where ev: "e_eventfd E k1 = (k2, efd, e2)" by (cases "e_eventfd E k1") auto
  let ?p = "\<lparr>po_fd = fd, po_efd = efd, po_logic = None\<rparr> :: 'u poller"
  obtain k3 e3 where a: "po_AddRead E k2 ?p efd = (k3, e3)" by (cases "po_AddRead E k2 ?p efd")
  have c': "if e1 = None then fd \<notin> fds k \<and> fds k1 = insert fd (fds k) else fds k1 = fds k"
    using boot_sysD(4)[OF B, of k] c by (auto simp: opens_def split: if_splits)
  have ev': "if e2 = None then efd \<notin> fds k1 \<and> fds k2 = insert efd (fds k1) else efd = -1 \<and> fds k2 = fds k1"
    using boot_sysD(5)[OF B, of k1] ev by (auto simp: opens_def split: if_splits)
  consider "e1 \<noteq> None" | "e1 = None" "e2 \<noteq> None" | "e1 = None" "e2 = None" by blast
  then show ?thesis
  proof cases
    case 1
    then show ?thesis using o c c' h accounts_same[of fds k1 k] by (auto simp: OpenPoller_def NewSyscallError_def)
  next
    case 2
    have h1: "accounts fds K k2 (fd # xs)" using c' ev' 2 accounts_open[OF h] accounts_same[of fds k2 k1] by simp
    then have n: "snd (n_close N k2 fd) = None" using boot_sysD(3)[OF B, of fd k2] by (simp add: accounts_def)
    let ?k = "fst (n_close N k2 fd)"
    have h2: "accounts fds K ?k xs" by (rule accounts_close[where fds = fds, OF h1 boot_sysD(7)[OF B]])
    have "fds (fst (n_close N ?k (-1))) = fds ?k" using boot_sysD(2)[OF B, of "-1" ?k] boot_sysD(7)[OF B] by auto
    then have "accounts fds K (fst (po_Close N k2 ?p)) xs"
      using h2 n ev' 2 accounts_same[of fds "fst (n_close N ?k (-1))" ?k] by (simp add: po_Close_def syscall_err_def NewSyscallError_def)
    then show ?thesis using o c ev 2 by (auto simp: OpenPoller_def NewSyscallError_def Let_def)
  next
    case 3
    have h2: "accounts fds K k2 (efd # fd # xs)" using accounts_open[OF accounts_open[OF h]] c' ev' 3 by metis
    have "accounts fds K k2 (po_fds ?p @ xs)" using h2 by (auto simp: accounts_def po_fds_def)
    then have h3: "accounts fds K k3 (po_fds ?p @ xs)" using a po_AddRead_accounts[OF B, of K k2 ?p efd] by simp
    show ?thesis
    proof (cases e3)
      case None
      then show ?thesis using o c ev 3 a h3 by (auto simp: OpenPoller_def Let_def)
    next
      case (Some e)
      then show ?thesis using o c ev 3 a po_Close_accounts[OF B h3] by (auto simp: OpenPoller_def Let_def)
    qed
  qed
qed

lemma es_fds_upd [simp]:
  "es_fds (es\<lparr>es_k := k\<rparr>) = es_fds es" "es_fds (es\<lparr>es_ln := l\<rparr>) = es_fds es" "es_fds (es\<lparr>es_running := r\<rparr>) = es_fds es"
  "es_fds (es\<lparr>es_striker := t\<rparr>) = es_fds es" "es_fds (es\<lparr>es_inShutdown := b\<rparr>) = es_fds es"
  by (simp_all add: es_fds_def)

lemma es_ln_close_frame [simp]:
  "es_loops (es_ln_close N r es) = es_loops es" "es_main (es_ln_close N r es) = es_main es"
  "length (es_lns (es_ln_close N r es)) = length (es_lns es)" "es_running (es_ln_close N r es) = es_running es"
  by (simp_all add: es_ln_close_def split: prod.splits)

lemma es_ln_close_closed:
  "r < length (es_lns es) \<Longrightarrow> ln_closed (es_lns (es_ln_close N r es) ! r)"
  "ln_closed (es_lns es ! j) \<Longrightarrow> ln_closed (es_lns (es_ln_close N r es) ! j)"
proof -
  show "r < length (es_lns es) \<Longrightarrow> ln_closed (es_lns (es_ln_close N r es) ! r)" by (simp add: es_ln_close_def ln_close_def Let_def)
  show "ln_closed (es_lns es ! j) \<Longrightarrow> ln_closed (es_lns (es_ln_close N r es) ! j)"
    by (cases "r = j") (auto simp: es_ln_close_def ln_close_def Let_def)
qed

lemma es_ln_close_accounts:
  assumes B: "boot_sys N E fds" and K: "0 \<in> K" and h: "accounts fds K (es_k es) (es_fds es @ xs)" and r: "r < length (es_lns es)"
  shows "accounts fds K (es_k (es_ln_close N r es)) (es_fds (es_ln_close N r es) @ xs)"
proof (cases "ln_closed (es_lns es ! r)")
  case True
  then show ?thesis using h r by (simp add: es_ln_close_def ln_close_def)
next
  case False
  let ?l = "es_lns es ! r" and ?es = "es_ln_close N r es"
  obtain k l where c: "ln_close N (es_k es) ?l = (k, l)" by (cases "ln_close N (es_k es) ?l")
  have es: "?es = es\<lparr>es_k := k, es_lns := (es_lns es)[r := l]\<rparr>" using c by (simp add: es_ln_close_def)
  have s: "es_lns es = take r (es_lns es) @ ?l # drop (Suc r) (es_lns es)" using r by (rule id_take_nth_drop)
  have "concat (map ln_fds (es_lns es)) =
      concat (map ln_fds (take r (es_lns es))) @ ln_fd ?l # concat (map ln_fds (drop (Suc r) (es_lns es)))"
    using False by (subst s) (simp add: ln_fds_def)
  moreover have "ln_closed l" using c by (auto simp: ln_close_def Let_def split: if_splits)
  then have "concat (map ln_fds ((es_lns es)[r := l])) =
      concat (map ln_fds (take r (es_lns es))) @ concat (map ln_fds (drop (Suc r) (es_lns es)))"
    using r by (simp add: upd_conv_take_nth_drop ln_fds_def)
  ultimately have "mset (ln_fd ?l # es_fds ?es @ xs) = mset (es_fds es @ xs)" by (simp add: es es_fds_def)
  from accounts_perm[OF h this] have h': "accounts fds K (es_k es) (ln_fd ?l # es_fds ?es @ xs)" .
  then have "0 \<le> ln_fd ?l" "ln_fd ?l \<noteq> 0" using K boot_sysD(2)[OF B, of "ln_fd ?l" "es_k es"] by (auto simp: accounts_def)
  then have "fds k = fds (es_k es) - {ln_fd ?l}" using ln_close_fds(1)[OF boot_sysD(1)[OF B] False _ c] by simp
  then show ?thesis using accounts_close[where fds = fds, OF h'] by (simp add: es)
qed

lemma close_pollers_accounts:
  assumes B: "boot_sys N E fds"
  shows "accounts fds K k (concat (map (\<lambda>el. po_fds (lp_poller el)) els) @ xs) \<Longrightarrow>
    accounts fds K (foldl (\<lambda>k el. fst (po_Close N k (lp_poller el))) k els) xs"
proof (induction els arbitrary: k)
  case (Cons el els)
  then show ?case using po_Close_accounts[OF B, of K k "lp_poller el"] by simp
qed simp

section \<open>Started engines\<close>

text \<open>A loop as the engine starts it: the initial state of the loop invariant, with nothing queued.\<close>

definition loop_fresh :: "'k listener list \<Rightarrow> 'u plogic option \<Rightarrow> int \<Rightarrow> nat \<Rightarrow> ('k, 'u) eloop \<Rightarrow> bool" where
  "loop_fresh lns lg idx r el \<longleftrightarrow>
     lp_idx el = idx \<and> lp_ln el = r \<and> po_logic (lp_poller el) = lg \<and> loop_start (lp_state el) \<and>
     ls_urgent (lp_state el) = [] \<and> ls_async (lp_state el) = [] \<and> ls_udpSockets (lp_state el) = Map.empty \<and>
     ls_efd (lp_state el) = po_efd (lp_poller el) \<and> ls_lnfd (lp_state el) = ln_fd (lns ! r)"

lemma new_eventloop_fresh:
  "loop_fresh lns (po_logic p) idx r ((new_eventloop k u (lns ! r) r p b idx')\<lparr>lp_idx := idx\<rparr>)"
  by (simp add: loop_fresh_def new_eventloop_def loop_start_def c_zero_def)

definition es_good :: "('k \<Rightarrow> int set) \<Rightarrow> int set \<Rightarrow> ('k, 'u) estate \<Rightarrow> bool" where
  "es_good fds K es \<longleftrightarrow> accounts fds K (es_k es) (es_fds es) \<and> (\<forall>l\<in>set (es_lns es). \<not> ln_closed l) \<and> es_lns es \<noteq> []"

definition ev_inv :: "('k \<Rightarrow> int set) \<Rightarrow> int set \<Rightarrow> 'u plogic \<Rightarrow> nat \<Rightarrow> nat \<Rightarrow> ('k, 'u) estate \<Rightarrow> bool" where
  "ev_inv fds K lg i ln es \<longleftrightarrow>
     es_good fds K es \<and> es_main es = None \<and> i = length (es_loops es) \<and> length (es_lns es) = max 1 i \<and> (i = 0 \<longrightarrow> ln = 0) \<and>
     (\<forall>j<i. loop_fresh (es_lns es) (Some lg) (int j) j (es_loops es ! j))"

lemma loop_listener_inv:
  assumes B: "boot_sys N E fds" and I: "ev_inv fds K lg i ln es" and p: "\<not> in_progress err"
    and l: "loop_listener N backlog network address opts i ln es = (es1, ln1, err)"
  shows "es_good fds K es1 \<and> es_loops es1 = es_loops es \<and> es_main es1 = es_main es \<and>
    (err = None \<longrightarrow> ln1 = i \<and> length (es_lns es1) = Suc i \<and> (\<forall>j<i. es_lns es1 ! j = es_lns es ! j))"
proof (cases "i > 0")
  case True
  obtain k ln' e where n: "initListener N backlog network address opts (es_k es) = (k, ln', e)"
    by (cases "initListener N backlog network address opts (es_k es)") auto
  note f = initListener_fds[OF boot_sysD(1)[OF B] n]
  have len: "length (es_lns es) = i" using I True by (simp add: ev_inv_def max_def split: if_splits)
  show ?thesis
  proof (cases e)
    case None
    then have es1: "es1 = es\<lparr>es_k := k, es_lns := es_lns es @ [ln']\<rparr>" "ln1 = i" using l n True len by (simp_all add: loop_listener_def)
    have "mset (es_fds es1) = mset (ln_fd ln' # es_fds es)" using f(2) es1 by (simp add: es_fds_def ln_fds_def)
    moreover have "accounts fds K k (ln_fd ln' # es_fds es)"
      using accounts_open[of fds K "es_k es" "es_fds es" "ln_fd ln'" k] f(1) None I by (simp add: fd_outcome_def ev_inv_def es_good_def)
    ultimately have "accounts fds K k (es_fds es1)" by (metis accounts_perm)
    then show ?thesis using I es1 f(2) len by (simp add: ev_inv_def es_good_def nth_append)
  next
    case (Some x)
    then have "es1 = es\<lparr>es_k := k\<rparr>" "err = e" using l n True by (auto simp: loop_listener_def)
    moreover have "fds k = fds (es_k es)" using f(1) p Some calculation by (simp add: fd_outcome_def)
    ultimately show ?thesis using I Some accounts_same[of fds k "es_k es"] by (simp add: ev_inv_def es_good_def)
  qed
next
  case False
  then show ?thesis using l I by (auto simp: loop_listener_def ev_inv_def)
qed

lemma activateEventLoops_loop_inv:
  assumes B: "boot_sys N E fds" and A: "\<And>k p fd ev. snd (e_add E k p fd ev) = None"
  shows "activateEventLoops_loop N E backlog lg u network address opts i m ln es = (es', err) \<Longrightarrow> ev_inv fds K lg i ln es \<Longrightarrow>
    \<not> in_progress err \<Longrightarrow> es_good fds K es' \<and> es_main es' = None \<and> (err = None \<longrightarrow> (\<exists>ln'. ev_inv fds K lg (i + m) ln' es'))"
proof (induction m arbitrary: i ln es)
  case 0
  then show ?case by (auto simp: ev_inv_def)
next
  case (Suc m)
  obtain es1 ln1 e1 where l: "loop_listener N backlog network address opts i ln es = (es1, ln1, e1)"
    by (cases "loop_listener N backlog network address opts i ln es") auto
  obtain k p e2 where o: "OpenPoller N E (es_k es1) = (k, p :: 'b poller option, e2)" by (metis surj_pair)
  show ?case
  proof (cases e1)
    case (Some x)
    then show ?thesis using Suc.prems l loop_listener_inv[OF B Suc.prems(2) _ l] by (auto simp: ev_inv_def)
  next
    case None
    note L = loop_listener_inv[OF B Suc.prems(2) _ l, unfolded None]
    then have L: "es_good fds K es1" "es_loops es1 = es_loops es" "es_main es1 = None" "ln1 = i" "length (es_lns es1) = Suc i"
      "\<forall>j<i. es_lns es1 ! j = es_lns es ! j" using Suc.prems(2) by (auto simp: in_progress_def ev_inv_def)
    have P: "case p of None \<Rightarrow> e2 \<noteq> None \<and> accounts fds K k (es_fds es1)
      | Some p \<Rightarrow> e2 = None \<and> po_logic p = None \<and> accounts fds K k (po_fds p @ es_fds es1)"
      by (rule OpenPoller_accounts[OF B _ o]) (use L(1) in \<open>simp add: es_good_def\<close>)
    show ?thesis
    proof (cases p)
      case None
      with P have "es_good fds K (es1\<lparr>es_k := k\<rparr>)" "e2 \<noteq> None" using L(1) by (simp_all add: es_good_def)
      moreover have "es' = es1\<lparr>es_k := k\<rparr>" "err = e2" using Suc.prems(1) l o \<open>e1 = None\<close> None by simp_all
      ultimately show ?thesis using L(3) by auto
    next
      case (Some q)
      let ?q = "InitLogic lg q" and ?n = "length (es_loops es)"
      obtain k2 e3 where a: "po_AddRead E k ?q (ln_fd (es_lns es1 ! ln1)) = (k2, e3)"
        by (cases "po_AddRead E k ?q (ln_fd (es_lns es1 ! ln1))")
      have e3: "e3 = None" using a A by (auto simp: po_AddRead_def syscall_err_def NewSyscallError_def)
      let ?el = "new_eventloop k u (es_lns es1 ! ln1) ln1 ?q (o_ReadBufferCap opts) 0"
      define es2 where "es2 = (let es = eng_register (es1\<lparr>es_k := k2\<rparr>) ?el in
        if glen (es_loops es) - 1 = 0 \<and> o_Ticker opts then es\<lparr>es_striker := Some 0\<rparr> else es)"
      have run: "activateEventLoops_loop N E backlog lg u network address opts (Suc i) m ln1 es2 = (es', err)"
        using Suc.prems(1) l o None Some a e3 by (simp add: es2_def Let_def)
      have es2: "es_k es2 = k2" "es_lns es2 = es_lns es1" "es_loops es2 = es_loops es @ [?el\<lparr>lp_idx := int ?n\<rparr>]" "es_main es2 = None"
        using L by (auto simp: es2_def Let_def eng_register_def)
      have "mset (es_fds es2) = mset (po_fds q @ es_fds es1)"
        using es2 L by (simp add: es_fds_def new_eventloop_def InitLogic_def po_fds_def)
      moreover have "accounts fds K k2 (po_fds q @ es_fds es1)"
        using P Some a po_AddRead_accounts[OF B, of K k ?q "ln_fd (es_lns es1 ! ln1)"] by simp
      ultimately have "accounts fds K k2 (es_fds es2)" by (metis accounts_perm)
      then have g: "es_good fds K es2" using L(1) es2 by (simp add: es_good_def)
      have i: "?n = i" and old: "\<forall>j<i. loop_fresh (es_lns es) (Some lg) (int j) j (es_loops es ! j)"
        using Suc.prems(2) by (auto simp: ev_inv_def)
      have "loop_fresh (es_lns es1) (Some lg) (int i) i (?el\<lparr>lp_idx := int ?n\<rparr>)"
        using new_eventloop_fresh[of "es_lns es1" ?q "int i" i k u "o_ReadBufferCap opts" 0] L(4) i by (simp add: InitLogic_def)
      moreover have "loop_fresh (es_lns es1) (Some lg) (int j) j (es_loops es ! j)" if "j < i" for j
        using old L(6) that by (simp add: loop_fresh_def)
      ultimately have "\<forall>j<Suc i. loop_fresh (es_lns es2) (Some lg) (int j) j (es_loops es2 ! j)"
        using es2 i by (simp add: less_Suc_eq nth_append)
      then have "ev_inv fds K lg (Suc i) ln1 es2" using g es2 L(5) i by (simp add: ev_inv_def)
      from Suc.IH[OF run this Suc.prems(3)] show ?thesis by simp
    qed
  qed
qed

definition re_inv :: "('k \<Rightarrow> int set) \<Rightarrow> int set \<Rightarrow> ('k, 'u) estate \<Rightarrow> bool" where
  "re_inv fds K es \<longleftrightarrow> es_good fds K es \<and> es_main es = None \<and> es_ln es = Some 0 \<and> length (es_lns es) = 1 \<and>
     (\<forall>j<length (es_loops es). loop_fresh (es_lns es) None (int j) 0 (es_loops es ! j))"

lemma re_inv_upd [simp]: "re_inv fds K (es\<lparr>es_running := r\<rparr>) = re_inv fds K es"
  by (simp add: re_inv_def es_good_def)

lemma reactor_poller:
  fixes es :: "('k, 'u) estate"
  assumes B: "boot_sys N E fds" and I: "re_inv fds K es" and o: "OpenPoller N E (es_k es) = (k, p, err)"
  shows "case p of None \<Rightarrow> err \<noteq> None \<and> re_inv fds K (es\<lparr>es_k := k\<rparr>)
    | Some p \<Rightarrow> po_logic p = None \<and> accounts fds K k (po_fds p @ es_fds es)"
  using OpenPoller_accounts[OF B _ o, of K "es_fds es"] I by (auto simp: re_inv_def es_good_def split: option.splits)

lemma activateReactors_loop_inv:
  fixes es :: "('k, 'u) estate"
  assumes B: "boot_sys N E fds"
  shows "activateReactors_loop N E u opts m 0 es = (es', err) \<Longrightarrow> re_inv fds K es \<Longrightarrow>
    re_inv fds K es' \<and> (err = None \<longrightarrow> length (es_loops es') = length (es_loops es) + m)"
proof (induction m arbitrary: es)
  case (Suc m)
  obtain k p e where o: "OpenPoller N E (es_k es) = (k, p :: 'u poller option, e)" by (metis surj_pair)
  note P = reactor_poller[OF B Suc.prems(2) o]
  show ?case
  proof (cases p)
    case None
    then show ?thesis using P Suc.prems(1) o by auto
  next
    case (Some q)
    let ?el = "new_eventloop k u (es_lns es ! 0) 0 q (o_ReadBufferCap opts) 0"
    define es2 where "es2 = eng_register (es\<lparr>es_k := k\<rparr>) ?el"
    have run: "activateReactors_loop N E u opts m 0 es2 = (es', err)" using Suc.prems(1) o Some by (simp add: es2_def)
    have es2: "es_lns es2 = es_lns es" "es_k es2 = k" "es_loops es2 = es_loops es @ [?el\<lparr>lp_idx := glen (es_loops es)\<rparr>]"
      "es_main es2 = es_main es" "es_ln es2 = es_ln es" by (simp_all add: es2_def eng_register_def)
    have "mset (es_fds es2) = mset (po_fds q @ es_fds es)" using es2 by (simp add: es_fds_def new_eventloop_def)
    then have "accounts fds K k (es_fds es2)" using P Some by (metis (no_types, lifting) accounts_perm option.simps(5))
    moreover have "loop_fresh (es_lns es) None (glen (es_loops es)) 0 (?el\<lparr>lp_idx := glen (es_loops es)\<rparr>)"
      using new_eventloop_fresh[of "es_lns es" q _ 0] P Some by simp
    ultimately have "re_inv fds K es2" using Suc.prems(2) es2 by (simp add: re_inv_def es_good_def less_Suc_eq nth_append)
    from Suc.IH[OF run this] show ?thesis using es2 by simp
  qed
qed simp

text \<open>The engine after a start without an error, in the mode with a listener for each loop or with a main reactor.\<close>

definition started :: "bool \<Rightarrow> 'u plogic \<Rightarrow> nat \<Rightarrow> ('k, 'u) estate \<Rightarrow> bool" where
  "started own lg n es \<longleftrightarrow>
     length (es_loops es) = n \<and>
     (if own then es_main es = None \<and> length (es_lns es) = max 1 n \<and> es_running es = map GRun [0..<n] \<and>
        (\<forall>j<n. loop_fresh (es_lns es) (Some lg) (int j) j (es_loops es ! j))
      else (\<exists>m. es_main es = Some m \<and> loop_fresh (es_lns es) None (-1) 0 m) \<and> es_ln es = Some 0 \<and> length (es_lns es) = 1 \<and>
        es_running es = map GSub [0..<n] @ [GMain] \<and>
        (\<forall>j<n. loop_fresh (es_lns es) None (int j) 0 (es_loops es ! j)))"

lemma activateReactors_spec:
  fixes es :: "('k, 'u) estate" and lg :: "'u plogic"
  assumes B: "boot_sys N E fds" and A: "\<And>k p fd ev. snd (e_add E k p fd ev) = None"
    and a: "activateReactors N E u opts n 0 es = (es', err)" and I: "re_inv fds K es" "es_loops es = []"
  shows "es_good fds K es' \<and> length (es_lns es') = 1 \<and> (if err = None then started False lg n es' else es_main es' = None)"
proof -
  obtain es1 e1 where l: "activateReactors_loop N E u opts n 0 es = (es1, e1)" by (metis surj_pair)
  note L = activateReactors_loop_inv[OF B l I(1)]
  let ?es = "es1\<lparr>es_running := map GSub [0..<length (es_loops es1)]\<rparr>"
  obtain k p e2 where o: "OpenPoller N E (es_k ?es) = (k, p :: 'u poller option, e2)" by (metis surj_pair)
  have "re_inv fds K ?es" using L by simp
  note P = reactor_poller[OF B this o]
  show ?thesis
  proof (cases e1)
    case (Some x)
    then show ?thesis using a l L by (auto simp: activateReactors_def re_inv_def)
  next
    case e1: None
    show ?thesis
    proof (cases p)
      case None
      then show ?thesis using a l o e1 P by (auto simp: activateReactors_def re_inv_def)
    next
      case (Some q)
      let ?m = "new_eventloop k u (es_lns es1 ! 0) 0 q 0 (-1)"
      obtain k2 e3 where r: "po_AddRead E k q (ln_fd (es_lns es1 ! 0)) = (k2, e3)" by (metis surj_pair)
      have "e3 = None" using r A by (auto simp: po_AddRead_def syscall_err_def NewSyscallError_def)
      then have es': "es' = ?es\<lparr>es_k := k2, es_main := Some ?m, es_running := es_running ?es @ [GMain],
          es_striker := (if o_Ticker opts then Some (-1) else es_striker ?es)\<rparr>" "err = None"
        using a l o e1 Some r by (auto simp: activateReactors_def Let_def)
      have "mset (es_fds es') = mset (po_fds q @ es_fds es1)" using L by (simp add: es' es_fds_def new_eventloop_def re_inv_def)
      moreover have "accounts fds K k2 (po_fds q @ es_fds es1)"
        using P Some r po_AddRead_accounts[OF B, of K k q "ln_fd (es_lns es1 ! 0)"] by simp
      ultimately have "accounts fds K k2 (es_fds es')" by (metis accounts_perm)
      moreover have "loop_fresh (es_lns es1) None (-1) 0 ?m"
        using new_eventloop_fresh[of "es_lns es1" q "-1" 0 k u 0 0] P Some by (simp add: new_eventloop_def)
      ultimately show ?thesis using L I(2) e1 by (auto simp: es' re_inv_def es_good_def started_def)
    qed
  qed
qed

lemma activateEventLoops_spec:
  assumes B: "boot_sys N E fds" and A: "\<And>k p fd ev. snd (e_add E k p fd ev) = None"
    and a: "activateEventLoops N E backlog lg u opts n 0 es = (es', err)" and I: "ev_inv fds K lg 0 0 es" "\<not> in_progress err"
  shows "es_good fds K es' \<and> es_main es' = None \<and> (err = None \<longrightarrow> started True lg n es')"
proof -
  let ?l = "es_lns es ! 0"
  obtain es1 e1 where l: "activateEventLoops_loop N E backlog lg u (ln_network ?l) (ln_address ?l) opts 0 n 0 (es\<lparr>es_ln := None\<rparr>) = (es1, e1)"
    by (metis surj_pair)
  have "ev_inv fds K lg 0 0 (es\<lparr>es_ln := None\<rparr>)" using I by (simp add: ev_inv_def es_good_def)
  moreover have "err = e1" using a l by (auto simp: activateEventLoops_def Let_def split: if_splits)
  ultimately have "es_good fds K es1 \<and> es_main es1 = None \<and> (e1 = None \<longrightarrow> (\<exists>ln'. ev_inv fds K lg (0 + n) ln' es1))"
    using activateEventLoops_loop_inv[OF B A l] I(2) by blast
  then show ?thesis using a l by (cases e1) (auto simp: activateEventLoops_def Let_def ev_inv_def started_def es_good_def)
qed

section \<open>Failing starts\<close>

lemma es_ln_close_local:
  "es_k (es_ln_close N r (es\<lparr>es_loops := x, es_main := y\<rparr>)) = es_k (es_ln_close N r es)"
  "es_lns (es_ln_close N r (es\<lparr>es_loops := x, es_main := y\<rparr>)) = es_lns (es_ln_close N r es)"
  by (simp_all add: es_ln_close_def split: prod.splits)

lemma last_ln_close:
  assumes B: "boot_sys N E fds" and K: "0 \<in> K" and h: "accounts fds K (es_k es) (concat (map ln_fds (es_lns es)))" and n: "es_lns es \<noteq> []"
  shows "accounts fds K (es_k (es_ln_close N 0 es)) (concat (map ln_fds (tl (es_lns es))))"
proof -
  let ?es = "es\<lparr>es_loops := [], es_main := None\<rparr>"
  have "accounts fds K (es_k ?es) (es_fds ?es @ [])" using h by (simp add: es_fds_def)
  from es_ln_close_accounts[OF B K this, of 0] n
  have "accounts fds K (es_k (es_ln_close N 0 es)) (concat (map ln_fds (es_lns (es_ln_close N 0 es))))"
    by (simp add: es_fds_def es_ln_close_local)
  moreover have "ln_closed (hd (es_lns (es_ln_close N 0 es)))" "tl (es_lns (es_ln_close N 0 es)) = tl (es_lns es)"
    "es_lns (es_ln_close N 0 es) \<noteq> []"
    using n es_ln_close_closed(1)[of 0 es N] by (cases "es_lns es"; auto simp: es_ln_close_def split: prod.splits)+
  ultimately show ?thesis by (cases "es_lns (es_ln_close N 0 es)") (auto simp: ln_fds_def)
qed

definition es_init :: "'k \<Rightarrow> 'k listener \<Rightarrow> ('k, 'u) estate" where
  "es_init k ln = \<lparr>es_k = k, es_lns = [ln], es_ln = Some 0, es_loops = [], es_main = None, es_striker = None, es_running = [],
     es_inShutdown = False\<rparr>"

abbreviation own_mode :: "options \<Rightarrow> 'k listener \<Rightarrow> bool" where
  "own_mode opts ln \<equiv> o_ReusePort opts \<or> ln_network ln = ''udp''"

lemma eng_start_spec:
  fixes lg :: "'u plogic" and es :: "('k, 'u) estate"
  assumes B: "boot_sys N E fds" and A: "\<And>k p fd ev. snd (e_add E k p fd ev) = None"
    and s: "eng_start N E backlog lg u opts n 0 (es_init k ln) = (es, err)"
    and h: "accounts fds K k [ln_fd ln]" "\<not> ln_closed ln" "\<not> in_progress err"
  shows "es_good fds K es" "err = None \<longrightarrow> started (own_mode opts ln) lg n es" "err \<noteq> None \<longrightarrow> es_main es = None"
    "\<not> own_mode opts ln \<longrightarrow> length (es_lns es) = 1"
proof -
  have e: "ev_inv fds K lg 0 0 (es_init k ln)" and r: "re_inv fds K (es_init k ln)"
    using h by (simp_all add: ev_inv_def re_inv_def es_good_def es_init_def es_fds_def ln_fds_def)
  have "es_good fds K es \<and> (err = None \<longrightarrow> started (own_mode opts ln) lg n es) \<and> (err \<noteq> None \<longrightarrow> es_main es = None) \<and>
    (\<not> own_mode opts ln \<longrightarrow> length (es_lns es) = 1)"
  proof (cases "own_mode opts ln")
    case True
    have "activateEventLoops N E backlog lg u opts n 0 (es_init k ln) = (es, err)"
      using s True by (auto simp: eng_start_def es_init_def)
    from activateEventLoops_spec[OF B A this e h(3)] True show ?thesis by auto
  next
    case False
    have "activateReactors N E u opts n 0 (es_init k ln) = (es, err)" using s False by (auto simp: eng_start_def es_init_def)
    from activateReactors_spec[OF B A this r, of lg] False show ?thesis by (auto simp: es_init_def split: if_splits)
  qed
  then show "es_good fds K es" "err = None \<longrightarrow> started (own_mode opts ln) lg n es" "err \<noteq> None \<longrightarrow> es_main es = None"
    "\<not> own_mode opts ln \<longrightarrow> length (es_lns es) = 1" by auto
qed

lemma eng_serve_failure:
  fixes es :: "('k, 'u) estate"
  assumes B: "boot_sys N E fds" and A: "\<And>k p fd ev. snd (e_add E k p fd ev) = None"
    and s: "eng_serve N E backlog lg u cpus boot opts ln k = Inr (es, err)"
    and h: "accounts fds K k [ln_fd ln]" "\<not> ln_closed ln" "\<not> in_progress err" and K: "0 \<in> K"
  shows "accounts fds K (es_k (es_ln_close N 0 es)) (map ln_fd (tl (es_lns es)))"
    "\<not> own_mode opts ln \<longrightarrow> tl (es_lns es) = []"
proof -
  let ?n = "nat (eng_numLoops opts cpus)"
  obtain es1 e1 where st: "eng_start N E backlog lg u opts ?n 0 (es_init k ln) = (es1, e1)" by (metis surj_pair)
  have "accounts fds K (es_k es) (concat (map ln_fds (es_lns es))) \<and> (\<forall>l\<in>set (es_lns es). \<not> ln_closed l) \<and> es_lns es \<noteq> [] \<and>
    (\<not> own_mode opts ln \<longrightarrow> tl (es_lns es) = [])"
  proof (cases "boot = ActShutdown")
    case True
    then show ?thesis using s h by (auto simp: eng_serve_def ln_fds_def)
  next
    case False
    have "eng_serve N E backlog lg u cpus boot opts ln k = (if e1 \<noteq> None then Inr (eng_closeEventLoops N es1, e1) else Inl es1)"
      using st False by (simp add: eng_serve_def es_init_def)
    then have e: "es = eng_closeEventLoops N es1" "err = e1" "e1 \<noteq> None" using s by (auto split: if_splits)
    note S = eng_start_spec[OF B A st h(1,2) h(3)[unfolded e(2)]]
    have "accounts fds K (es_k es1) (concat (map (\<lambda>el. po_fds (lp_poller el)) (es_loops es1)) @ concat (map ln_fds (es_lns es1)))"
      by (rule accounts_perm[of fds K "es_k es1" "es_fds es1"]) (use S e(3) in \<open>auto simp: es_good_def es_fds_def\<close>)
    from close_pollers_accounts[OF B this] S e show ?thesis
      by (auto simp: eng_closeEventLoops_def es_good_def length_Suc_conv)
  qed
  then have c: "accounts fds K (es_k es) (concat (map ln_fds (es_lns es)))" "\<forall>l\<in>set (tl (es_lns es)). \<not> ln_closed l" "es_lns es \<noteq> []"
    and t: "\<not> own_mode opts ln \<longrightarrow> tl (es_lns es) = []" by (auto dest: list.set_sel(2))
  have "concat (map ln_fds ls) = map ln_fd ls" if "\<forall>l\<in>set ls. \<not> ln_closed l" for ls :: "'k listener list"
    using that by (induction ls) (auto simp: ln_fds_def)
  then show "accounts fds K (es_k (es_ln_close N 0 es)) (map ln_fd (tl (es_lns es)))" using last_ln_close[OF B K c(1,3)] c(2) by simp
  show "\<not> own_mode opts ln \<longrightarrow> tl (es_lns es) = []" by (rule t)
qed

section \<open>Stopping\<close>

text \<open>Every step of a stop keeps the account, the pollers and the references, and reopens no listener.\<close>

definition evolves :: "('k \<Rightarrow> int set) \<Rightarrow> int set \<Rightarrow> ('k, 'u) estate \<Rightarrow> ('k, 'u) estate \<Rightarrow> bool" where
  "evolves fds K es es' \<longleftrightarrow>
     map lp_poller (es_loops es') = map lp_poller (es_loops es) \<and> map lp_ln (es_loops es') = map lp_ln (es_loops es) \<and>
     map_option lp_poller (es_main es') = map_option lp_poller (es_main es) \<and> length (es_lns es') = length (es_lns es) \<and>
     (\<forall>j. ln_closed (es_lns es ! j) \<longrightarrow> ln_closed (es_lns es' ! j)) \<and>
     (accounts fds K (es_k es) (es_fds es) \<longrightarrow> accounts fds K (es_k es') (es_fds es'))"

lemma evolves_refl [simp]: "evolves fds K es es"
  by (simp add: evolves_def)

lemma evolves_trans: "evolves fds K es es1 \<Longrightarrow> evolves fds K es1 es2 \<Longrightarrow> evolves fds K es es2"
  by (simp add: evolves_def)

lemma es_fds_pollers:
  "es_fds es = concat (map ln_fds (es_lns es)) @ concat (map po_fds (map lp_poller (es_loops es))) @
     (case map_option lp_poller (es_main es) of None \<Rightarrow> [] | Some p \<Rightarrow> po_fds p)"
  by (simp add: es_fds_def comp_def split: option.splits)

lemma evolves_pollers:
  assumes "map lp_poller (es_loops es') = map lp_poller (es_loops es)" "map lp_ln (es_loops es') = map lp_ln (es_loops es)"
    "map_option lp_poller (es_main es') = map_option lp_poller (es_main es)" "es_lns es' = es_lns es" "fds (es_k es') = fds (es_k es)"
  shows "evolves fds K es es'"
  using assms accounts_same[of fds "es_k es'" "es_k es"] unfolding evolves_def es_fds_pollers by simp

lemma es_ln_close_evolves:
  assumes "boot_sys N E fds" "0 \<in> K" "r < length (es_lns es)"
  shows "evolves fds K es (es_ln_close N r es)"
  using es_ln_close_accounts[OF assms(1,2) _ assms(3), of "[]"] es_ln_close_closed(2)[of es _ N r] by (simp add: evolves_def)

lemma lp_notify_frame:
  assumes "\<And>k fd d. fds (fst (w_write W k fd d)) = fds k" "lp_notify W k el = (k', el')"
  shows "fds k' = fds k \<and> lp_poller el' = lp_poller el \<and> lp_ln el' = lp_ln el \<and> lp_idx el' = lp_idx el \<and>
    ls_urgent (lp_state el') = ls_urgent (lp_state el) @ [TShutdown] \<and> ls_wakeup (lp_state el') \<and>
    ls_connections (lp_state el') = ls_connections (lp_state el) \<and> ls_udpSockets (lp_state el') = ls_udpSockets (lp_state el)"
proof -
  obtain k1 n e where w: "w_write W k (ls_efd (lp_state el)) [1, 0, 0, 0, 0, 0, 0, 0] = (k1, n, e)" by (metis surj_pair)
  then have "fds k1 = fds k" using assms(1)[of k "ls_efd (lp_state el)" "[1, 0, 0, 0, 0, 0, 0, 0]"] by simp
  then show ?thesis using assms(2) w
    by (cases "ls_wakeup (lp_state el)") (auto simp: lp_notify_def pl_UrgentTrigger_def pl_wakeup_def)
qed

lemma notify_loops_frame:
  assumes "\<And>k fd d. fds (fst (w_write W k fd d)) = fds k"
  shows "notify_loops W k els = (k', els') \<Longrightarrow>
    fds k' = fds k \<and> map lp_poller els' = map lp_poller els \<and> map lp_ln els' = map lp_ln els"
proof (induction els arbitrary: k k' els')
  case (Cons el els)
  obtain k1 el1 where n: "lp_notify W k el = (k1, el1)" by (metis surj_pair)
  obtain k2 els2 where ns: "notify_loops W k1 els = (k2, els2)" by (metis surj_pair)
  from lp_notify_frame[OF assms n] Cons.IH[OF ns] Cons.prems n ns show ?case by auto
qed simp

lemma eng_notify_evolves:
  assumes B: "boot_sys N E fds" "0 \<in> K" and W: "\<And>k fd d. fds (fst (w_write W k fd d)) = fds k"
    and r: "es_main es \<noteq> None \<longrightarrow> (\<exists>r<length (es_lns es). es_ln es = Some r)"
  shows "\<exists>es'. eng_notify W N es = Ret es' \<and> evolves fds K es es' \<and>
    (\<forall>r. es_main es \<noteq> None \<and> es_ln es = Some r \<longrightarrow> ln_closed (es_lns es' ! r))"
proof -
  obtain k els where n: "notify_loops W (es_k es) (es_loops es) = (k, els)" by (metis surj_pair)
  note F = notify_loops_frame[OF W n]
  let ?es = "es\<lparr>es_k := k, es_loops := els\<rparr>"
  have e1: "evolves fds K es ?es" by (rule evolves_pollers) (use F in auto)
  show ?thesis
  proof (cases "es_main es")
    case None
    then show ?thesis using n e1 by (simp add: eng_notify_def)
  next
    case (Some m)
    then obtain r where r: "r < length (es_lns es)" "es_ln es = Some r" using r by auto
    let ?es2 = "es_ln_close N r ?es"
    obtain k2 m2 where m: "lp_notify W (es_k ?es2) m = (k2, m2)" by (metis surj_pair)
    let ?es3 = "?es2\<lparr>es_k := k2, es_main := Some m2\<rparr>"
    have "evolves fds K ?es ?es2" by (rule es_ln_close_evolves[OF B]) (simp add: r)
    moreover have "evolves fds K ?es2 ?es3" by (rule evolves_pollers) (use lp_notify_frame[OF W m] Some in auto)
    ultimately have "evolves fds K es ?es3" using e1 evolves_trans by blast
    moreover have "eng_notify W N es = Ret ?es3" using n Some r(2) m by (simp add: eng_notify_def Let_def)
    moreover have "ln_closed (es_lns ?es3 ! r)" using es_ln_close_closed(1)[of r ?es N] r(1) by simp
    ultimately show ?thesis using r(2) by auto
  qed
qed

lemma lp_closeAll_evolves:
  assumes "i < length (es_loops es)"
  shows "\<exists>es'. lp_closeAll W h [] [] i es = Ret es' \<and> evolves fds K es es'"
proof -
  let ?es = "es\<lparr>es_loops := (es_loops es)[i := (es_loops es ! i)\<lparr>lp_state := (lp_state (es_loops es ! i))\<lparr>ls_k := es_k es\<rparr>\<rparr>]\<rparr>"
  have "map lp_poller (es_loops ?es) = map lp_poller (es_loops es)" "map lp_ln (es_loops ?es) = map lp_ln (es_loops es)"
    using assms by (simp_all add: list_eq_iff_nth_eq nth_list_update)
  then have "evolves fds K es ?es" by (rule evolves_pollers) simp_all
  then show ?thesis by (simp add: lp_closeAll_def el_closeAllSockets_def Let_def)
qed

fun in_range :: "('k, 'u) estate \<Rightarrow> goroutine \<Rightarrow> bool" where
  "in_range es (GRun i) = (i < length (es_loops es) \<and> lp_ln (es_loops es ! i) < length (es_lns es))"
| "in_range es (GSub i) = (i < length (es_loops es))"
| "in_range es GMain = True"

lemma evolves_ln: "evolves fds K es es' \<Longrightarrow> i < length (es_loops es) \<Longrightarrow> lp_ln (es_loops es' ! i) = lp_ln (es_loops es ! i)"
  unfolding evolves_def by (metis length_map nth_map)

lemma evolves_length: "evolves fds K es es' \<Longrightarrow> length (es_loops es') = length (es_loops es) \<and> length (es_lns es') = length (es_lns es)"
  unfolding evolves_def by (metis length_map)

lemma evolves_in_range: "evolves fds K es es' \<Longrightarrow> in_range es g \<Longrightarrow> in_range es' g"
  using evolves_ln[of fds K es es'] evolves_length[of fds K es es'] by (cases g) auto

lemma go_exit_evolves:
  assumes B: "boot_sys N E fds" "0 \<in> K" and g: "in_range es g"
  shows "\<exists>es'. go_exit W N h [] [] g es = Ret es' \<and> evolves fds K es es' \<and>
    (\<forall>i. g = GRun i \<longrightarrow> ln_closed (es_lns es' ! lp_ln (es_loops es ! i)))"
proof (cases g)
  case (GRun i)
  then obtain es1 where c: "lp_closeAll W h [] [] i es = Ret es1" "evolves fds K es es1"
    using lp_closeAll_evolves[of i es W h fds K] g by auto
  then have r: "lp_ln (es_loops es1 ! i) = lp_ln (es_loops es ! i)" "lp_ln (es_loops es ! i) < length (es_lns es1)"
    using evolves_ln[OF c(2)] evolves_length[OF c(2)] g GRun by auto
  from es_ln_close_evolves[OF B r(2)] es_ln_close_closed(1)[OF r(2)] evolves_trans[OF c(2)] c(1) r(1) GRun show ?thesis by auto
next
  case (GSub i)
  then show ?thesis using lp_closeAll_evolves[of i es W h fds K] g by auto
qed simp

lemma exits_evolves:
  assumes B: "boot_sys N E fds" "0 \<in> K"
  shows "\<forall>g\<in>set gs. in_range es g \<Longrightarrow> \<exists>es'. exits W N h (map (\<lambda>g. (g, [], [])) gs) es = Ret es' \<and> evolves fds K es es' \<and>
    (\<forall>i. GRun i \<in> set gs \<longrightarrow> ln_closed (es_lns es' ! lp_ln (es_loops es ! i)))"
proof (induction gs arbitrary: es)
  case (Cons g gs)
  then obtain es1 where g: "go_exit W N h [] [] g es = Ret es1" "evolves fds K es es1"
    "\<forall>i. g = GRun i \<longrightarrow> ln_closed (es_lns es1 ! lp_ln (es_loops es ! i))" using go_exit_evolves[OF B, of es g W h] by auto
  have "\<forall>g\<in>set gs. in_range es1 g" using Cons.prems evolves_in_range[OF g(2)] by simp
  with Cons.IH[of es1] obtain es2 where e: "exits W N h (map (\<lambda>g. (g, [], [])) gs) es1 = Ret es2" "evolves fds K es1 es2"
    "\<forall>i. GRun i \<in> set gs \<longrightarrow> ln_closed (es_lns es2 ! lp_ln (es_loops es1 ! i))" by blast
  have "ln_closed (es_lns es2 ! lp_ln (es_loops es ! i))" if "GRun i \<in> set (g # gs)" for i
  proof -
    have "i < length (es_loops es)" using that Cons.prems by (metis in_range.simps(1))
    then show ?thesis using that g(3) e(2,3) evolves_ln[OF g(2), of i] by (auto simp: evolves_def)
  qed
  then show ?case using g(1) e(1) evolves_trans[OF g(2) e(2)] by auto
qed simp

lemma eng_close_accounts:
  assumes B: "boot_sys N E fds" and h: "accounts fds K (es_k es) (es_fds es)"
  shows "accounts fds K (es_k (eng_close N es)) (concat (map ln_fds (es_lns es)))" "es_lns (eng_close N es) = es_lns es"
    "es_inShutdown (eng_close N es)"
proof -
  let ?m = "case es_main es of None \<Rightarrow> [] | Some m \<Rightarrow> po_fds (lp_poller m)" and ?l = "concat (map ln_fds (es_lns es))"
  have "accounts fds K (es_k es) (concat (map (\<lambda>el. po_fds (lp_poller el)) (es_loops es)) @ ?m @ ?l)"
    by (rule accounts_perm[OF h]) (simp add: es_fds_def)
  from close_pollers_accounts[OF B this] have c: "accounts fds K (es_k (eng_closeEventLoops N es)) (?m @ ?l)"
    by (simp add: eng_closeEventLoops_def)
  show "accounts fds K (es_k (eng_close N es)) ?l"
  proof (cases "es_main es")
    case (Some m)
    then show ?thesis using c po_Close_accounts[OF B, of K _ "lp_poller m" ?l] by (simp add: eng_close_def eng_closeEventLoops_def)
  qed (use c in \<open>simp add: eng_close_def eng_closeEventLoops_def\<close>)
  show "es_lns (eng_close N es) = es_lns es" "es_inShutdown (eng_close N es)"
    by (auto simp: eng_close_def eng_closeEventLoops_def Let_def split: option.splits)
qed

text \<open>
  A started engine with no connections is stopped: whatever the order in which its goroutines end, all its
  descriptors are closed when \<open>Run\<close> returns.
\<close>

lemma run_finish_closes:
  assumes B: "boot_sys N E fds" "0 \<in> K" and W: "\<And>k fd d. fds (fst (w_write W k fd d)) = fds k"
    and g: "es_good fds K es" and s: "started own lg n es" and p: "set order = set (es_running es)"
  shows "\<exists>es'. run_finish W N h (map (\<lambda>g. (g, [], [])) order) es = Ret es' \<and> fds (es_k es') = K \<and> es_inShutdown es'"
proof -
  have lns: "es_lns es \<noteq> []" and h: "accounts fds K (es_k es) (es_fds es)" using g by (auto simp: es_good_def)
  have "es_main es \<noteq> None \<longrightarrow> (\<exists>r<length (es_lns es). es_ln es = Some r)" using s by (auto simp: started_def split: if_splits)
  from eng_notify_evolves[OF B W this] obtain es1 where n: "eng_notify W N es = Ret es1" "evolves fds K es es1"
    "\<forall>r. es_main es \<noteq> None \<and> es_ln es = Some r \<longrightarrow> ln_closed (es_lns es1 ! r)" by blast
  have "\<forall>g\<in>set order. in_range es g"
  proof (cases own)
    case True
    then have "lp_ln (es_loops es ! j) = j" if "j < n" for j using s that by (simp add: started_def loop_fresh_def)
    then show ?thesis using s p True by (auto simp: started_def)
  qed (use s p in \<open>auto simp: started_def\<close>)
  then have "\<forall>g\<in>set order. in_range es1 g" using evolves_in_range[OF n(2)] by blast
  from exits_evolves[OF B this] obtain es2 where x: "exits W N h (map (\<lambda>g. (g, [], [])) order) es1 = Ret es2"
    "evolves fds K es1 es2" "\<forall>i. GRun i \<in> set order \<longrightarrow> ln_closed (es_lns es2 ! lp_ln (es_loops es1 ! i))" by blast
  let ?es = "eng_close N es2"
  have ev: "evolves fds K es es2" by (rule evolves_trans[OF n(2) x(2)])
  then have h2: "accounts fds K (es_k es2) (es_fds es2)" using h by (simp add: evolves_def)
  have closed: "ln_closed (es_lns es2 ! j)" if "j < length (es_lns es2)" "0 < j" for j
  proof -
    have "own \<and> j < n" using s that evolves_length[OF ev] by (auto simp: started_def split: if_splits)
    moreover from this have "lp_ln (es_loops es1 ! j) = j" using evolves_ln[OF n(2), of j] s by (simp add: started_def loop_fresh_def)
    moreover from calculation have "GRun j \<in> set order" using s p by (auto simp: started_def)
    ultimately show ?thesis using x(3) by metis
  qed
  have "concat (map ln_fds (tl (es_lns es2))) = []"
  proof -
    have "\<forall>l\<in>set (tl (es_lns es2)). ln_closed l" using closed by (auto simp: in_set_conv_nth nth_tl)
    then show ?thesis by (auto simp: ln_fds_def)
  qed
  moreover have "es_lns ?es \<noteq> []" using lns evolves_length[OF ev] eng_close_accounts(2)[OF B(1) h2] by auto
  ultimately have "accounts fds K (es_k (es_ln_close N 0 ?es)) []"
    using last_ln_close[OF B, of ?es] eng_close_accounts(1,2)[OF B(1) h2] by (simp del: concat_eq_Nil_conv)
  then have "fds (es_k (es_ln_close N 0 ?es)) = K" by (simp add: accounts_def)
  moreover have "es_inShutdown (es_ln_close N 0 ?es)" using eng_close_accounts(3)[OF B(1) h2] by (simp add: es_ln_close_def split: prod.splits)
  ultimately show ?thesis using n(1) x(1) by (simp add: run_finish_def eng_stop_def)
qed

text \<open>\<open>Run\<close> as a whole.\<close>

lemma gnet_Run_cases:
  assumes r: "gnet_Run N E backlog lower lg u cpus boot protoAddr opts k = Ret res"
  obtains (err) e where "res = Inr (k, Some e)"
  | (listen) o' network addr k1 ln e where "initListener N backlog network addr o' k = (k1, ln, e)" "e \<noteq> None" "res = Inr (k1, e)"
  | (serve) o' network addr k1 ln es where "run_options (loadOptions opts) = Ret (Inr o')"
      "parseProtoAddr lower protoAddr = Ret (network, addr)"
      "initListener N backlog network addr o' k = (k1, ln, None)" "eng_serve N E backlog lg u cpus boot o' ln k1 = Inl es" "res = Inl es"
  | (fail) o' network addr k1 ln es e where "run_options (loadOptions opts) = Ret (Inr o')"
      "parseProtoAddr lower protoAddr = Ret (network, addr)"
      "initListener N backlog network addr o' k = (k1, ln, None)" "eng_serve N E backlog lg u cpus boot o' ln k1 = Inr (es, e)"
      "res = Inr (es_k (es_ln_close N 0 es), e)"
  using r unfolding gnet_Run_def
  by (elim go_bind_RetE) (auto elim!: go_bind_RetE split: sum.splits prod.splits if_splits)

end
