(* ===== verification/Shutdown.thy ===== *)
theory Shutdown
  imports Prelude
begin

text \<open>
  The shutdown signal of \<open>engine.go\<close>: \<open>waitForShutdown\<close> and \<open>signalShutdown\<close>, and \<open>Stop\<close> of \<open>gnet.go\<close>. One goroutine
  waits; any number of others, the loops that end and the callers of \<open>Stop\<close>, signal. The steps are those of the
  mutex, of \<open>sync.Once\<close> and of \<open>sync.Cond\<close>: \<open>Once.Do\<close> lets its first caller run the function and holds the
  others until it has returned, \<open>Cond.Wait\<close> enters the list of waiters and gives the mutex up, sleeps until a signal
  takes it from the list and locks the mutex again, and \<open>Cond.Signal\<close> wakes a goroutine that is in the list.
\<close>

section \<open>Steps\<close>

text \<open>The goroutine that runs the function of \<open>Once\<close> and the one that holds the mutex are noted in the state.\<close>

datatype once = OFresh | OBusy nat | ODone

datatype owner = ByMain | ByGo nat

text \<open>Where the waiting goroutine is: before \<open>Lock\<close>, before \<open>Wait\<close>, in the list, woken up, before \<open>Unlock\<close>, returned.\<close>

datatype mpc = MStart | MLocked | MWaiting | MWoken | MRelocked | MReturned

text \<open>Where a goroutine is in \<open>signalShutdown\<close>.\<close>

datatype spc = SIdle | SDo | SLock | SSignal | SUnlock | SLeave | SReturned

record sdstate =
  sd_once :: once
  sd_lock :: "owner option"
  sd_main :: mpc
  sd_pc :: "nat \<Rightarrow> spc"

definition sd_start :: sdstate where
  "sd_start = \<lparr>sd_once = OFresh, sd_lock = None, sd_main = MStart, sd_pc = (\<lambda>_. SIdle)\<rparr>"

text \<open>A step of the waiting goroutine; \<open>None\<close> when it is blocked or has returned.\<close>

definition waitForShutdown_step :: "sdstate \<Rightarrow> sdstate option" where
  "waitForShutdown_step s =
     (case sd_main s of
        MStart \<Rightarrow> if sd_lock s \<noteq> None then None else Some (s\<lparr>sd_lock := Some ByMain, sd_main := MLocked\<rparr>)
      | MLocked \<Rightarrow> Some (s\<lparr>sd_lock := None, sd_main := MWaiting\<rparr>)
      | MWaiting \<Rightarrow> None
      | MWoken \<Rightarrow> if sd_lock s \<noteq> None then None else Some (s\<lparr>sd_lock := Some ByMain, sd_main := MRelocked\<rparr>)
      | MRelocked \<Rightarrow> Some (s\<lparr>sd_lock := None, sd_main := MReturned\<rparr>)
      | MReturned \<Rightarrow> None)"

definition signalShutdown_step :: "nat \<Rightarrow> sdstate \<Rightarrow> sdstate option" where
  "signalShutdown_step g s =
     (case sd_pc s g of
        SIdle \<Rightarrow> Some (s\<lparr>sd_pc := (sd_pc s)(g := SDo)\<rparr>)
      | SDo \<Rightarrow>
          (case sd_once s of
             OFresh \<Rightarrow> Some (s\<lparr>sd_once := OBusy g, sd_pc := (sd_pc s)(g := SLock)\<rparr>)
           | OBusy g' \<Rightarrow> None
           | ODone \<Rightarrow> Some (s\<lparr>sd_pc := (sd_pc s)(g := SReturned)\<rparr>))
      | SLock \<Rightarrow> if sd_lock s \<noteq> None then None else Some (s\<lparr>sd_lock := Some (ByGo g), sd_pc := (sd_pc s)(g := SSignal)\<rparr>)
      | SSignal \<Rightarrow>
          Some (s\<lparr>sd_main := (if sd_main s = MWaiting then MWoken else sd_main s), sd_pc := (sd_pc s)(g := SUnlock)\<rparr>)
      | SUnlock \<Rightarrow> Some (s\<lparr>sd_lock := None, sd_pc := (sd_pc s)(g := SLeave)\<rparr>)
      | SLeave \<Rightarrow> Some (s\<lparr>sd_once := ODone, sd_pc := (sd_pc s)(g := SReturned)\<rparr>)
      | SReturned \<Rightarrow> None)"

inductive sd_step :: "sdstate \<Rightarrow> sdstate \<Rightarrow> bool" where
  main: "waitForShutdown_step s = Some s' \<Longrightarrow> sd_step s s'"
| signaller: "signalShutdown_step g s = Some s' \<Longrightarrow> sd_step s s'"

inductive_cases sd_stepE: "sd_step s s'"

section \<open>Stop\<close>

text \<open>
  \<open>Stop\<close> after the signal. \<open>engines\<close> is the registry of the running engines. The list says, for each turn of the
  loop, whether the engine was in shutdown and whether the context had ended (with which error) or the ticker fired;
  the result is \<open>None\<close> while it still polls.
\<close>

fun stop_poll :: "(bool \<times> gerror option) list \<Rightarrow> gerror option option" where
  "stop_poll [] = None"
| "stop_poll ((inShutdown, ctx) # ts) =
     (if inShutdown then Some None else if ctx \<noteq> None then Some ctx else stop_poll ts)"

definition gnet_Stop ::
  "(string \<rightharpoonup> 'e) \<Rightarrow> string \<Rightarrow> bool \<Rightarrow> (bool \<times> gerror option) list \<Rightarrow> (string \<rightharpoonup> 'e) \<times> gerror option option" where
  "gnet_Stop engines protoAddr inShutdown ts =
     (case engines protoAddr of
        None \<Rightarrow> (engines, Some (Some ErrEngineInShutdown))
      | Some e \<Rightarrow>
          if inShutdown then (engines(protoAddr := None), Some (Some ErrEngineInShutdown))
          else
            (case stop_poll ts of
               None \<Rightarrow> (engines, None)
             | Some r \<Rightarrow> (engines(protoAddr := None), Some r)))"

section \<open>Invariants\<close>

definition inside :: "spc \<Rightarrow> bool" where
  "inside p \<longleftrightarrow> p \<in> {SLock, SSignal, SUnlock, SLeave}"

text \<open>\<open>signalled s\<close>: the one signal has been given.\<close>

definition signalled :: "sdstate \<Rightarrow> bool" where
  "signalled s \<longleftrightarrow> sd_once s = ODone \<or> (\<exists>g. sd_pc s g = SUnlock \<or> sd_pc s g = SLeave)"

definition inv_at :: "sdstate \<Rightarrow> nat \<Rightarrow> bool" where
  "inv_at s g \<longleftrightarrow>
     (inside (sd_pc s g) \<longleftrightarrow> sd_once s = OBusy g) \<and> (sd_pc s g = SReturned \<longrightarrow> sd_once s = ODone) \<and>
     (sd_lock s = Some (ByGo g) \<longleftrightarrow> sd_pc s g = SSignal \<or> sd_pc s g = SUnlock)"

definition main_inv :: "sdstate \<Rightarrow> bool" where
  "main_inv s \<longleftrightarrow> (sd_lock s = Some ByMain \<longleftrightarrow> sd_main s = MLocked \<or> sd_main s = MRelocked)"

definition sd_inv :: "sdstate \<Rightarrow> bool" where
  "sd_inv s \<longleftrightarrow> (\<forall>g. inv_at s g) \<and> main_inv s"

lemma sd_start_inv: "sd_inv sd_start"
  by (simp add: sd_inv_def inv_at_def main_inv_def sd_start_def inside_def)

lemma waitForShutdown_inv: "waitForShutdown_step s = Some s' \<Longrightarrow> sd_inv s \<Longrightarrow> sd_inv s'"
  by (auto simp: waitForShutdown_step_def sd_inv_def inv_at_def main_inv_def split: mpc.splits if_splits)

lemma inv_at_step: "signalShutdown_step g s = Some s' \<Longrightarrow> inv_at s g \<Longrightarrow> inv_at s g' \<Longrightarrow> inv_at s' g'"
  by (cases "sd_pc s g"; cases "g' = g")
    (auto simp: signalShutdown_step_def inv_at_def inside_def split: once.splits if_splits)

lemma main_inv_step: "signalShutdown_step g s = Some s' \<Longrightarrow> inv_at s g \<Longrightarrow> main_inv s \<Longrightarrow> main_inv s'"
  by (cases "sd_pc s g") (auto simp: signalShutdown_step_def inv_at_def main_inv_def split: once.splits if_splits)

lemma signalShutdown_inv: "signalShutdown_step g s = Some s' \<Longrightarrow> sd_inv s \<Longrightarrow> sd_inv s'"
  unfolding sd_inv_def using inv_at_step main_inv_step by blast

lemma sd_step_inv: "sd_step s s' \<Longrightarrow> sd_inv s \<Longrightarrow> sd_inv s'"
  by (auto elim!: sd_stepE intro: waitForShutdown_inv signalShutdown_inv)

lemma sd_reach_inv: "sd_step\<^sup>*\<^sup>* s s' \<Longrightarrow> sd_inv s \<Longrightarrow> sd_inv s'"
  by (induction rule: rtranclp_induct) (auto intro: sd_step_inv)

section \<open>The signal arrives\<close>

definition awaited :: "sdstate \<Rightarrow> bool" where
  "awaited s \<longleftrightarrow> sd_main s = MWaiting \<and> \<not> signalled s \<or> sd_main s \<in> {MWoken, MRelocked, MReturned}"

lemma awaited_step: "sd_step s s' \<Longrightarrow> awaited s \<Longrightarrow> awaited s'"
  by (erule sd_stepE)
    (auto simp: waitForShutdown_step_def signalShutdown_step_def awaited_def signalled_def split: mpc.splits spc.splits once.splits if_splits)

lemma awaited_reach: "sd_step\<^sup>*\<^sup>* s s' \<Longrightarrow> awaited s \<Longrightarrow> awaited s'"
  by (induction rule: rtranclp_induct) (auto intro: awaited_step)

text \<open>A goroutine that was woken up can return: the mutex is given up by whoever holds it.\<close>

lemma woken_returns:
  assumes "sd_inv s" "sd_main s \<in> {MWoken, MRelocked, MReturned}"
  shows "\<exists>s'. sd_step\<^sup>*\<^sup>* s s' \<and> sd_main s' = MReturned"
proof -
  have relocked: "\<exists>s'. sd_step\<^sup>*\<^sup>* s s' \<and> sd_main s' = MReturned" if "sd_main s = MRelocked" for s
    using that sd_step.main[of s] by (intro exI[of _ "s\<lparr>sd_lock := None, sd_main := MReturned\<rparr>"]) (auto simp: waitForShutdown_step_def)
  have free: "\<exists>s'. sd_step\<^sup>*\<^sup>* s s' \<and> sd_main s' = MReturned" if "sd_main s = MWoken" "sd_lock s = None" for s
  proof -
    let ?s = "s\<lparr>sd_lock := Some ByMain, sd_main := MRelocked\<rparr>"
    have "sd_step s ?s" using that by (intro sd_step.main) (simp add: waitForShutdown_step_def)
    with relocked[of ?s] show ?thesis by (auto intro: converse_rtranclp_into_rtranclp)
  qed
  have unlock: "\<exists>s'. sd_step\<^sup>*\<^sup>* s s' \<and> sd_main s' = MReturned" if "sd_main s = MWoken" "sd_pc s g = SUnlock" for s g
  proof -
    let ?s = "s\<lparr>sd_lock := None, sd_pc := (sd_pc s)(g := SLeave)\<rparr>"
    have "sd_step s ?s" using that by (intro sd_step.signaller[of g]) (simp add: signalShutdown_step_def)
    with free[of ?s] that show ?thesis by (auto intro: converse_rtranclp_into_rtranclp)
  qed
  have sig: "\<exists>s'. sd_step\<^sup>*\<^sup>* s s' \<and> sd_main s' = MReturned" if "sd_main s = MWoken" "sd_pc s g = SSignal" for s g
  proof -
    let ?s = "s\<lparr>sd_pc := (sd_pc s)(g := SUnlock)\<rparr>"
    have "sd_step s ?s" using that by (intro sd_step.signaller[of g]) (simp add: signalShutdown_step_def)
    with unlock[of ?s g] that show ?thesis by (auto intro: converse_rtranclp_into_rtranclp)
  qed
  consider "sd_main s = MReturned" | "sd_main s = MRelocked" | "sd_main s = MWoken" using assms(2) by blast
  then show ?thesis
  proof cases
    case 3
    show ?thesis
    proof (cases "sd_lock s")
      case None
      then show ?thesis using free 3 by blast
    next
      case (Some w)
      then obtain g where "w = ByGo g" using assms(1) 3 by (cases w) (auto simp: sd_inv_def main_inv_def)
      then have "sd_pc s g = SSignal \<or> sd_pc s g = SUnlock" using assms(1) Some by (auto simp: sd_inv_def inv_at_def)
      then show ?thesis using sig unlock 3 by blast
    qed
  qed (use relocked[of s] in auto)
qed

section \<open>The signal is lost\<close>

definition lost :: "sdstate \<Rightarrow> bool" where
  "lost s \<longleftrightarrow> sd_once s = ODone \<and> (\<forall>g. \<not> inside (sd_pc s g)) \<and> sd_main s \<in> {MStart, MLocked, MWaiting}"

lemma lost_step: "sd_step s s' \<Longrightarrow> lost s \<Longrightarrow> lost s'"
proof (erule sd_stepE)
  assume "waitForShutdown_step s = Some s'" "lost s"
  then show ?thesis by (auto simp: waitForShutdown_step_def lost_def split: mpc.splits if_splits)
next
  fix g assume st: "signalShutdown_step g s = Some s'" "lost s"
  then have "\<not> inside (sd_pc s g)" by (simp add: lost_def)
  then show ?thesis using st by (auto simp: signalShutdown_step_def lost_def inside_def split: spc.splits once.splits if_splits)
qed

lemma lost_reach: "sd_step\<^sup>*\<^sup>* s s' \<Longrightarrow> lost s \<Longrightarrow> lost s'"
  by (induction rule: rtranclp_induct) (auto intro: lost_step)

end
