(* ===== verification/StartupProperties.thy ===== *)
theory StartupProperties
  imports Startup Shutdown
begin

text \<open>
  The properties of sockets and listeners (\<open>src/internal/socket\<close>, \<open>src/listener.go\<close>), of the arguments of \<open>Run\<close>
  (\<open>src/gnet.go\<close>), and of starting and stopping an engine (\<open>src/engine.go\<close>), with a small kernel on which their
  hypotheses hold: it has a limit on the number of open descriptors and a log of the calls on sockets.
\<close>

section \<open>A small kernel\<close>

record net_k =
  nk_open :: "nat list"
  nk_limit :: nat
  nk_log :: "ncall list"

definition nk_fds :: "net_k \<Rightarrow> int set" where
  "nk_fds k = int ` set (nk_open k)"

definition nk_fresh :: "net_k \<Rightarrow> nat" where
  "nk_fresh k = Suc (foldr max (nk_open k) 0)"

definition nk_new :: "net_k \<Rightarrow> net_k \<times> int \<times> errno option" where
  "nk_new k =
     (if length (nk_open k) \<ge> nk_limit k then (k, -1, Some (OtherErrno 24))
      else (k\<lparr>nk_open := nk_fresh k # nk_open k\<rparr>, int (nk_fresh k), None))"

definition nk_add_log :: "net_k \<Rightarrow> ncall \<Rightarrow> net_k" where
  "nk_add_log k c = k\<lparr>nk_log := nk_log k @ [c]\<rparr>"

definition nk_close :: "net_k \<Rightarrow> int \<Rightarrow> net_k \<times> errno option" where
  "nk_close k fd = (k\<lparr>nk_open := filter (\<lambda>n. int n \<noteq> fd) (nk_open k)\<rparr>, None)"

definition demo_net :: "net_k netsys" where
  "demo_net = \<lparr>n_socket = (\<lambda>k fam ty pr nb. nk_new (nk_add_log k (CSocket fam ty))),
     n_setsockopt = (\<lambda>k fd nm v. (nk_add_log k (CSetsockopt fd nm v), None)), n_setlinger = (\<lambda>k fd a b. (k, None)),
     n_bind = (\<lambda>k fd sa. (nk_add_log k (CBind fd sa), None)), n_listen = (\<lambda>k fd b. (nk_add_log k (CListen fd b), None)),
     n_connect = (\<lambda>k fd sa. (k, None)), n_nonblock = (\<lambda>k fd. (k, None)), n_close = nk_close,
     n_resolveTCP = (\<lambda>n a. Inr (if a = '':80'' then [] else [127, 0, 0, 1], 80, [])),
     n_resolveUDP = (\<lambda>n a. Inr ([127, 0, 0, 1], 80, [])), n_resolveUnix = (\<lambda>n a. Inr (a, ''unix'')),
     n_ifindex = (\<lambda>z. Inr 1), n_removeAll = (\<lambda>k p. (k, None))\<rparr>"

definition demo_epoll :: "net_k epollsys" where
  "demo_epoll = \<lparr>e_create = nk_new, e_eventfd = nk_new, e_add = (\<lambda>k p fd ev. (k, None))\<rparr>"

definition net_start :: "nat \<Rightarrow> net_k" where
  "net_start limit = \<lparr>nk_open = [2, 1, 0], nk_limit = limit, nk_log = []\<rparr>"

text \<open>The event handler of the examples, and \<open>Run\<close> on the kernel with its options and its limit of descriptors.\<close>

definition demo_plogic :: "nat plogic" where
  "demo_plogic = \<lparr>lg_init = (\<lambda>u. u), lg_proc = (\<lambda>u. (u, None)), lg_wait = (\<lambda>u. 100)\<rparr>"

definition net_handler :: "nat handler" where
  "net_handler = \<lparr>h_OnOpen = (\<lambda>c u. Finish (u, None, ActNone)), h_OnTraffic = (\<lambda>c u. Finish (u, ActNone)),
     h_OnClose = (\<lambda>c e u. (u, ActNone))\<rparr>"

definition net_world :: "net_k world" where
  "net_world = \<lparr>w_env = (\<lambda>_. (\<lambda>_ _. 0, first_ring)), w_read = (\<lambda>k fd n. (k, -1, [], Some EAGAIN)), w_write = (\<lambda>k fd d. (k, glen d, None)),
     w_writev = (\<lambda>k fd iov. (k, glen (concat iov), None)), w_close = nk_close, w_ctl = (\<lambda>k op' fd ev. (k, None)),
     w_send = (\<lambda>k fd d. (k, None)), w_sendto = (\<lambda>k fd d sa. (k, None)),
     w_recvfrom = (\<lambda>k fd len. (k, -1, [], None, Some EAGAIN)), w_ifname = (\<lambda>_. None)\<rparr>"

definition demo_run :: "(options \<Rightarrow> options) list \<Rightarrow> nat \<Rightarrow> ((net_k, nat) estate + net_k \<times> gerror option) go" where
  "demo_run opts limit = gnet_Run demo_net demo_epoll 128 (\<lambda>s. s) demo_plogic 0 1 ActNone ''tcp://x:80'' opts (net_start limit)"

lemmas demo_listener_simps = initListener_def ln_normalize_def tcpSocket_def GetTCPSockAddr_def demo_net_def
  determineTCPProto_def To4_def sysSocket_def nk_new_def net_start_def nk_add_log_def NewSyscallError_def lnSockOpts_def
  hasPrefix_def SetNoDelay_def SetReuseport_def listen_or_connect_def syscall_err_def nk_fresh_def o_zero_def

lemmas demo_start_simps = eng_serve_def eng_numLoops_def eng_start_def activateReactors_def activateEventLoops_def
  loop_listener_def OpenPoller_def demo_epoll_def po_AddRead_def po_Close_def nk_close_def InitLogic_def new_eventloop_def
  eng_register_def eng_closeEventLoops_def Let_def

lemmas demo_run_simps = demo_run_def gnet_Run_def run_options_def loadOptions_def WithReusePort_def WithNumEventLoop_def
  run_bufferCap_def MaxStreamBufferCap_def parseProtoAddr_def strings_Split_def go_index_def demo_listener_simps demo_start_simps

lemma nk_fresh_new: "nk_fresh k \<notin> set (nk_open k)"
proof -
  have "n \<in> set xs \<Longrightarrow> n \<le> foldr max xs (0::nat)" for n xs by (induction xs) auto
  then show ?thesis by (fastforce simp: nk_fresh_def)
qed

lemma nk_new_opens: "opens nk_fds k (nk_new k)"
  using nk_fresh_new[of k] by (auto simp: opens_def nk_new_def nk_fds_def)

lemma nk_log_fds [simp]: "nk_fds (nk_add_log k c) = nk_fds k"
  by (simp add: nk_fds_def nk_add_log_def)

lemma nk_close_fds: "nk_fds (fst (nk_close k fd)) = nk_fds k - {fd}"
  by (auto simp: nk_fds_def nk_close_def)


lemma demo_fds_sys: "fds_sys demo_net nk_fds"
proof -
  have "case nk_new (nk_add_log k c) of (k', fd, e) \<Rightarrow>
      if e = None then fd \<notin> nk_fds k \<and> nk_fds k' = insert fd (nk_fds k) else nk_fds k' = nk_fds k" for k c
    using nk_new_opens[of "nk_add_log k c"] by (auto simp: opens_def split: prod.splits if_splits)
  then show ?thesis by (simp add: fds_sys_def demo_net_def nk_close_fds)
qed

lemma demo_boot_sys: "boot_sys demo_net demo_epoll nk_fds"
  unfolding boot_sys_def using demo_fds_sys nk_new_opens
  by (auto simp: demo_epoll_def) (auto simp: demo_net_def nk_close_def nk_fds_def)

lemma demo_adds: "snd (e_add demo_epoll k p fd ev) = None"
  by (simp add: demo_epoll_def)

lemma demo_logs: "logs_calls demo_net nk_log"
  by (simp add: logs_calls_def demo_net_def nk_add_log_def nk_new_def)

lemma net_start_fds: "nk_fds (net_start n) = {0, 1, 2}"
  by (auto simp: nk_fds_def net_start_def)

lemma demo_run_reactors: "\<exists>es. demo_run [] 20 = Ret (Inl es) \<and> es_main es \<noteq> None \<and> length (es_loops es) = 1"
  by (simp add: demo_run_simps)



section \<open>Sockets and listeners\<close>



text \<open>
  connecting to a server leaks no descriptor either: the blocking connect of \<open>TCPConnect\<close> returns a new
  descriptor, or an error and has closed the socket, whichever call failed.
\<close>

theorem connect_no_leak:
  assumes "fds_sys N fds" "opts_keep N fds opts" "tcpConnect N proto addr opts k = (k', fd, a, sa, err)"
  shows "if err = None then fd \<notin> fds k \<and> fds k' = insert fd (fds k) else fds k' = fds k"
  by (rule tcpConnect_fds[OF assms])

theorem connect_no_leak_witness:
  "nk_fds (fst (tcpConnect (demo_net\<lparr>n_connect := \<lambda>k fd sa. (k, Some ECONNRESET)\<rparr>) ''tcp'' ''x:80'' [(SetNoDelay, 1)] (net_start 9))) = {0, 1, 2}"
proof -
  let ?N = "demo_net\<lparr>n_connect := \<lambda>k fd sa. (k, Some ECONNRESET)\<rparr>"
  obtain k fd a sa e where c: "tcpConnect ?N ''tcp'' ''x:80'' [(SetNoDelay, 1)] (net_start 9) = (k, fd, a, sa, e)" by (metis surj_pair)
  have F: "fds_sys ?N nk_fds" using demo_fds_sys by (simp add: fds_sys_def)
  have o: "opts_keep ?N nk_fds [(SetNoDelay, 1)]" using fds_sysD(3)[OF F] by (simp add: opts_keep_def SetNoDelay_def)
  have "e = Some (SyscallError ''connect'' ECONNRESET)" using c
    by (auto simp: tcpConnect_def GetTCPSockAddr_def demo_net_def determineTCPProto_def To4_def sysBlockSocket_def nk_new_def
        net_start_def nk_add_log_def SetNoDelay_def syscall_err_def NewSyscallError_def)
  then show ?thesis using connect_no_leak[OF F o c] c net_start_fds by simp
qed

text \<open>
  the options of a TCP listener reach the kernel in the order of the code, after the socket was created and before
  it is bound, and it listens last; the kernel is asked for nothing else.
\<close>

theorem listener_call_order:
  assumes "logs_calls N log" "initListener N backlog network addr o' k = (k', ln, None)" "network \<in> {''tcp'', ''tcp4'', ''tcp6''}"
  shows "\<exists>fam sa v6. log k' = log k @ CSocket fam SOCK_STREAM # (if v6 then [CSetsockopt (ln_fd ln) IPV6_V6ONLY 1] else []) @
    map (\<lambda>(nm, v). CSetsockopt (ln_fd ln) nm v) (lnOptNames o') @ [CBind (ln_fd ln) sa, CListen (ln_fd ln) backlog]"
  by (rule initListener_log[OF assms])

theorem listener_call_order_witness:
  "\<exists>fam sa v6. nk_log (fst (initListener demo_net 128 ''tcp'' ''x:80'' (o_zero\<lparr>o_ReusePort := True\<rparr>) (net_start 9))) =
    CSocket fam SOCK_STREAM # (if v6 then [CSetsockopt 3 IPV6_V6ONLY 1] else []) @
    [CSetsockopt 3 SO_REUSEPORT 1, CSetsockopt 3 TCP_NODELAY 1, CBind 3 sa, CListen 3 128]"
proof -
  let ?o = "o_zero\<lparr>o_ReusePort := True\<rparr>"
  obtain k ln e where i: "initListener demo_net 128 ''tcp'' ''x:80'' ?o (net_start 9) = (k, ln, e)" by (metis surj_pair)
  have e: "ln_fd ln = 3" "e = None" using i
    by (auto simp: demo_listener_simps)
  have "nk_log (net_start 9) = []" by (simp add: net_start_def)
  moreover have "lnOptNames ?o = [(SO_REUSEPORT, 1), (TCP_NODELAY, 1)]" by (simp add: lnOptNames_def o_zero_def)
  ultimately show ?thesis using listener_call_order[OF demo_logs i[unfolded e(2)]] unfolding e(1) i by simp
qed

text \<open>
  an address the resolver returned, translated for the kernel by \<open>GetTCPSockAddr\<close> and back by
  \<open>SockaddrToTCPOrUnixAddr\<close>, is the same address: the same port, the same IP (an IPv4 address in its 16-byte form) and,
  for IPv6, the same zone.
\<close>

theorem tcp_addr_roundtrip:
  assumes "GetTCPSockAddr N proto addr = Inr (sa, fam, TCPAddr ip port zone, v6)" "length ip \<in> {4, 16}"
    and "zone \<noteq> [] \<longrightarrow> (\<exists>i. n_ifindex N zone = Inr i \<and> 0 < i \<and> i < 2 ^ 32 \<and> ifname i = Some zone)"
  shows "SockaddrToTCPOrUnixAddr ifname mem (Some sa) = Ret (Some (TCPAddr (the (To16 ip)) port (if To4 ip = None then zone else [])))"
  by (rule GetTCPSockAddr_roundtrip[OF assms])

theorem tcp_addr_roundtrip_witness:
  "\<exists>sa fam v6. GetTCPSockAddr demo_net ''tcp'' ''x:80'' = Inr (sa, fam, TCPAddr [127, 0, 0, 1] 80 [], v6) \<and>
    SockaddrToTCPOrUnixAddr (\<lambda>_. None) (\<lambda>_ _. 0) (Some sa) = Ret (Some (TCPAddr (ipv4InIPv6Prefix @ [127, 0, 0, 1]) 80 []))"
proof -
  have g: "GetTCPSockAddr demo_net ''tcp'' ''x:80'' = Inr (inet4_sockaddr [127, 0, 0, 1] 80, AF_INET, TCPAddr [127, 0, 0, 1] 80 [], False)"
    by (simp add: GetTCPSockAddr_def demo_net_def determineTCPProto_def To4_def)
  from tcp_addr_roundtrip[OF g, of "\<lambda>_. None" "\<lambda>_ _. 0"] g show ?thesis by (auto simp: To16_def)
qed

section \<open>Arguments\<close>

text \<open>
  whatever buffer sizes the options ask for (up to \<open>2 ^ 62\<close>), \<open>Run\<close> uses powers of two of at least 1024 that are not
  smaller than what was asked for and less than twice as large when more than 1024 was asked for.
\<close>

theorem buffer_caps:
  assumes "c \<le> 2 ^ 62"
  shows "\<exists>j. run_bufferCap c = Ret (2 ^ j) \<and> 1024 \<le> (2 ^ j :: int) \<and> c \<le> 2 ^ j \<and> (1024 < c \<longrightarrow> 2 ^ j < 2 * c)"
  by (rule run_bufferCap_spec[OF assms])

theorem buffer_caps_witness: "\<exists>j. run_bufferCap 3000 = Ret (2 ^ j) \<and> 3000 \<le> (2 ^ j :: int) \<and> (2 ^ j :: int) < 6000"
  using buffer_caps[of 3000] by auto

text \<open>
  an address with a scheme is taken apart into the scheme and the rest, and one without is an address for TCP.
\<close>

theorem parse_address:
  assumes "CHR '':'' \<notin> set net" "strings_Split a ''://'' = [a]"
  shows "(lower (net @ ''://'' @ a) = net @ ''://'' @ a \<longrightarrow> parseProtoAddr lower (net @ ''://'' @ a) = Ret (net, a)) \<and>
    (lower a = a \<longrightarrow> parseProtoAddr lower a = Ret (''tcp'', a))"
  using parseProtoAddr_scheme[OF _ assms] parseProtoAddr_plain[of lower a] assms(2) by simp

theorem parse_address_witness:
  "parseProtoAddr (\<lambda>s. s) ''unix://a.sock'' = Ret (''unix'', ''a.sock'') \<and> parseProtoAddr (\<lambda>s. s) '':80'' = Ret (''tcp'', '':80'')"
  using parse_address[of "''unix''" "''a.sock''" "\<lambda>s. s"] parse_address[of "[]" "'':80''" "\<lambda>s. s"] by (simp add: strings_Split_def)

section \<open>Starting and stopping an engine\<close>

lemma run_options_keep:
  "run_options o1 = Ret (Inr o2) \<Longrightarrow> o_ReusePort o2 = o_ReusePort o1 \<and> o_NumEventLoop o2 = o_NumEventLoop o1 \<and> o_Multicore o2 = o_Multicore o1"
  by (auto simp: run_options_def elim!: go_bind_RetE split: if_splits)


lemma listener_account:
  assumes "fds_sys N fds" "initListener N backlog network addr o' k = (k', ln, None)"
  shows "accounts fds (fds k) k' [ln_fd ln]"
  using initListener_fds(1)[OF assms] by (auto simp: fd_outcome_def accounts_def)

lemma gnet_Run_started:
  assumes B: "boot_sys N E fds" and A: "\<And>k p fd ev. snd (e_add E k p fd ev) = None"
    and r: "gnet_Run N E backlog lower lg u cpus boot protoAddr opts k = Ret (Inl es)"
  obtains o' own where "run_options (loadOptions opts) = Ret (Inr o')" "es_good fds (fds k) es"
    "started own lg (nat (eng_numLoops o' cpus)) es"
  using r
proof (cases rule: gnet_Run_cases)
  case (serve o' network addr k1 ln es1)
  let ?n = "nat (eng_numLoops o' cpus)"
  obtain es2 e2 where s: "eng_start N E backlog lg u o' ?n 0 (es_init k1 ln) = (es2, e2)" by (metis surj_pair)
  have "eng_serve N E backlog lg u cpus boot o' ln k1 = (if boot = ActShutdown then Inr (es_init k1 ln, None)
      else if e2 \<noteq> None then Inr (eng_closeEventLoops N es2, e2) else Inl es2)"
    using s by (simp add: eng_serve_def es_init_def)
  then have e: "es2 = es" "e2 = None" using serve(4,5) by (auto split: if_splits)
  note S = eng_start_spec[OF B A s listener_account[OF boot_sysD(1)[OF B] serve(3)] initListener_fds(2)[OF boot_sysD(1)[OF B] serve(3)]]
  then have "es_good fds (fds k) es" "started (own_mode o' ln) lg ?n es" using e by (simp_all add: in_progress_def)
  with that serve(1) show ?thesis by blast
qed auto



text \<open>
  with a listener for each loop (\<open>SO_REUSEPORT\<close> or UDP) a start that fails leaves the listeners of all loops after
  the first open, and nothing else: \<open>serve\<close> closes the pollers only, and \<open>Run\<close> the first listener.
\<close>

theorem failed_start_leaks_listeners:
  fixes es :: "('k, 'u) estate"
  assumes "boot_sys N E fds" "\<And>k p fd ev. snd (e_add E k p fd ev) = None"
    and i: "initListener N backlog network addr opts k = (k1, ln, None)"
    and "eng_serve N E backlog lg u cpus boot opts ln k1 = Inr (es, err)" "0 \<in> fds k" "\<not> in_progress err"
  shows "fds (es_k (es_ln_close N 0 es)) = fds k \<union> set (map ln_fd (tl (es_lns es))) \<and>
    distinct (map ln_fd (tl (es_lns es))) \<and> set (map ln_fd (tl (es_lns es))) \<inter> fds k = {}"
  using eng_serve_failure(1)[OF assms(1,2,4) listener_account[OF boot_sysD(1)[OF assms(1)] i]
      initListener_fds(2)[OF boot_sysD(1)[OF assms(1)] i] assms(6,5)]
  by (simp add: accounts_def)

theorem failed_start_leaks_listeners_witness:
  "\<exists>k1 ln es err. initListener demo_net 128 ''tcp'' ''x:80'' (o_zero\<lparr>o_ReusePort := True, o_NumEventLoop := 2\<rparr>) (net_start 8) = (k1, ln, None) \<and>
    eng_serve demo_net demo_epoll 128 demo_plogic 0 1 ActNone (o_zero\<lparr>o_ReusePort := True, o_NumEventLoop := 2\<rparr>) ln k1 = Inr (es, err) \<and>
    err \<noteq> None \<and> nk_fds (es_k (es_ln_close demo_net 0 es)) = {0, 1, 2, 6}"
proof -
  let ?o = "o_zero\<lparr>o_ReusePort := True, o_NumEventLoop := 2\<rparr>"
  obtain k1 ln e where i': "initListener demo_net 128 ''tcp'' ''x:80'' ?o (net_start 8) = (k1, ln, e)" by (metis surj_pair)
  have "e = None" and k: "nk_open k1 = [3, 2, 1, 0]" "nk_limit k1 = 8" "ln_network ln = ''tcp''" "ln_address ln = ''x:80''"
    using i' by (auto simp: demo_listener_simps)
  note i = i'[unfolded this(1)]
  have "\<exists>es err. eng_serve demo_net demo_epoll 128 demo_plogic 0 1 ActNone ?o ln k1 = Inr (es, Some err) \<and> \<not> in_progress (Some err) \<and>
      map ln_fd (tl (es_lns es)) = [6]"
    using k by (simp add: demo_start_simps demo_listener_simps numeral_2_eq_2 in_progress_def)
  then obtain es err where s: "eng_serve demo_net demo_epoll 128 demo_plogic 0 1 ActNone ?o ln k1 = Inr (es, Some err)"
    "\<not> in_progress (Some err)" "map ln_fd (tl (es_lns es)) = [6]" by (elim exE conjE)
  from failed_start_leaks_listeners[OF demo_boot_sys demo_adds i s(1) _ s(2)] s(3) net_start_fds
  have "nk_fds (es_k (es_ln_close demo_net 0 es)) = {0, 1, 2, 6}" by auto
  with i s(1) show ?thesis by blast
qed

text \<open>
  C29: an engine that started is complete: there are exactly as many loops as the options ask for, numbered in order,
  each in the initial state of the loop invariant with empty queues, its own poller and its listener's descriptor; the
  descriptors of all listeners and pollers are open, distinct and new.
\<close>

theorem started_engine_complete:
  assumes B: "boot_sys N E fds" and A: "\<And>k p fd ev. snd (e_add E k p fd ev) = None"
    and r: "gnet_Run N E backlog lower lg u cpus boot protoAddr opts k = Ret (Inl es)"
  shows "length (es_loops es) = nat (eng_numLoops (loadOptions opts) cpus) \<and>
    (\<forall>j<length (es_loops es). lp_idx (es_loops es ! j) = int j \<and> loop_inv isopen (lp_state (es_loops es ! j)) \<and>
       wake_ok (lp_state (es_loops es ! j)) \<and> ls_efd (lp_state (es_loops es ! j)) = po_efd (lp_poller (es_loops es ! j)) \<and>
       ls_lnfd (lp_state (es_loops es ! j)) = ln_fd (es_lns es ! lp_ln (es_loops es ! j))) \<and>
    distinct (es_fds es) \<and> fds (es_k es) = fds k \<union> set (es_fds es) \<and> set (es_fds es) \<inter> fds k = {}"
proof -
  obtain o' own where o: "run_options (loadOptions opts) = Ret (Inr o')" and g: "es_good fds (fds k) es"
    and st: "started own lg (nat (eng_numLoops o' cpus)) es" by (rule gnet_Run_started[OF B A r])
  let ?ok = "\<lambda>el j. lp_idx el = int j \<and> loop_inv isopen (lp_state el) \<and> wake_ok (lp_state el) \<and>
    ls_efd (lp_state el) = po_efd (lp_poller el) \<and> ls_lnfd (lp_state el) = ln_fd (es_lns es ! lp_ln el)"
  have fresh: "loop_fresh (es_lns es) lgo (int j) r el \<Longrightarrow> ?ok el j" for lgo r el j
    by (simp add: loop_fresh_def wake_ok_def loop_start_inv)
  have "\<exists>lgo r. loop_fresh (es_lns es) lgo (int j) r (es_loops es ! j)" if "j < length (es_loops es)" for j
    using st that by (cases own) (auto simp: started_def)
  then have "?ok (es_loops es ! j) j" if "j < length (es_loops es)" for j using fresh that by blast
  moreover have "length (es_loops es) = nat (eng_numLoops (loadOptions opts) cpus)"
    using st run_options_keep[OF o] by (simp add: started_def eng_numLoops_def)
  ultimately show ?thesis using g by (simp add: es_good_def accounts_def)
qed

theorem started_engine_complete_witness:
  "\<exists>es. demo_run [] 20 = Ret (Inl es) \<and> length (es_loops es) = 1 \<and> loop_inv (\<lambda>k fd. True) (lp_state (es_loops es ! 0)) \<and>
    nk_fds (es_k es) = {0, 1, 2} \<union> set (es_fds es)"
proof -
  obtain es where r: "demo_run [] 20 = Ret (Inl es)" "length (es_loops es) = 1" using demo_run_reactors by blast
  from started_engine_complete[OF demo_boot_sys demo_adds r(1)[unfolded demo_run_def], of "\<lambda>k fd. True"] r net_start_fds show ?thesis by auto
qed



text \<open>
  C35: in the default mode, with one listener and a main reactor, the pollers are created without the poller
  functions \<open>init\<close>, \<open>proc\<close> and \<open>waitTimeOut\<close>: after a start without an error the first thing every loop does
  is to call a nil function and panic.
\<close>

theorem reactors_panic:
  assumes "boot_sys N E fds" "\<And>k p fd ev. snd (e_add E k p fd ev) = None"
    and "gnet_Run N E backlog lower lg u cpus boot protoAddr opts k = Ret (Inl es)" "es_main es \<noteq> None"
    and "el \<in> set (es_loops es) \<or> es_main es = Some el"
  shows "pl_Polling W h cb (po_logic (lp_poller el)) st outs = Panic NilDereference"
proof -
  obtain o' own where "started own lg (nat (eng_numLoops o' cpus)) es" by (rule gnet_Run_started[OF assms(1-3)])
  then have "po_logic (lp_poller el) = None"
    using assms(4,5) by (cases own) (auto simp: started_def loop_fresh_def in_set_conv_nth)
  then show ?thesis by (simp add: pl_Polling_def)
qed

theorem reactors_panic_witness:
  "\<exists>es. demo_run [] 20 = Ret (Inl es) \<and>
    pl_Polling net_world net_handler (el_onEvent net_world net_handler) (po_logic (lp_poller (es_loops es ! 0))) (lp_state (es_loops es ! 0)) [] =
      Panic NilDereference"
proof -
  obtain es where r: "demo_run [] 20 = Ret (Inl es)" "es_main es \<noteq> None" "length (es_loops es) = 1" using demo_run_reactors by blast
  from reactors_panic[OF demo_boot_sys demo_adds r(1)[unfolded demo_run_def] r(2), of "es_loops es ! 0"] r show ?thesis by simp
qed

text \<open>
  the listener forgets whether it was asked for IPv4 only: \<open>normalize\<close> replaces \<open>tcp4\<close> by \<open>tcp\<close>, and the loops after
  the first listen with the network of the first listener. For an address without an IP the first loop listens on an
  IPv4 socket and the others on IPv6 sockets that accept both.
\<close>

theorem later_loops_lose_network:
  assumes "initListener N backlog ''tcp4'' addr o' k = (k', ln, None)"
    and "n_resolveTCP N ''tcp4'' addr = Inr ([], port, [])" "n_resolveTCP N ''tcp'' addr = Inr ([], port, [])"
  shows "GetTCPSockAddr N ''tcp4'' addr = Inr (SockaddrInet4 port (replicate 4 0), AF_INET, TCPAddr [] port [], False) \<and>
    GetTCPSockAddr N (ln_network ln) addr = Inr (SockaddrInet6 port 0 (replicate 16 0), AF_INET6, TCPAddr [] port [], False)"
proof -
  have "ln_network ln = ''tcp''" using assms(1) by (auto simp: initListener_def ln_normalize_def split: prod.splits)
  then show ?thesis using assms(2,3)
    by (simp add: GetTCPSockAddr_def determineTCPProto_def To4_def To16_def inet4_sockaddr_def inet6_sockaddr_def)
qed

theorem later_loops_lose_network_witness:
  "\<exists>ln. snd (initListener demo_net 128 ''tcp4'' '':80'' o_zero (net_start 9)) = (ln, None) \<and>
    GetTCPSockAddr demo_net ''tcp4'' '':80'' = Inr (SockaddrInet4 80 (replicate 4 0), AF_INET, TCPAddr [] 80 [], False) \<and>
    GetTCPSockAddr demo_net (ln_network ln) '':80'' = Inr (SockaddrInet6 80 0 (replicate 16 0), AF_INET6, TCPAddr [] 80 [], False)"
proof -
  obtain k ln e where i: "initListener demo_net 128 ''tcp4'' '':80'' o_zero (net_start 9) = (k, ln, e)" by (metis surj_pair)
  then have e: "e = None" by (auto simp: demo_listener_simps To16_def inet4_sockaddr_def)
  have "n_resolveTCP demo_net ''tcp4'' '':80'' = Inr ([], 80, [])" "n_resolveTCP demo_net ''tcp'' '':80'' = Inr ([], 80, [])"
    by (simp_all add: demo_net_def)
  from later_loops_lose_network[OF i[unfolded e] this] i e show ?thesis by simp
qed

section \<open>The shutdown signal\<close>

text \<open>A schedule: who takes the next step; a goroutine that is blocked keeps its place.\<close>

fun sd_run :: "owner list \<Rightarrow> sdstate \<Rightarrow> sdstate" where
  "sd_run [] s = s"
| "sd_run (ByMain # ws) s = sd_run ws (case waitForShutdown_step s of None \<Rightarrow> s | Some s' \<Rightarrow> s')"
| "sd_run (ByGo g # ws) s = sd_run ws (case signalShutdown_step g s of None \<Rightarrow> s | Some s' \<Rightarrow> s')"

lemma sd_run_reach: "sd_step\<^sup>*\<^sup>* s (sd_run ws s)"
proof (induction ws s rule: sd_run.induct)
  case (2 ws s)
  then show ?case by (auto split: option.splits dest: sd_step.main intro: converse_rtranclp_into_rtranclp)
next
  case (3 g ws s)
  then show ?case by (auto split: option.splits dest: sd_step.signaller intro: converse_rtranclp_into_rtranclp)
qed simp

text \<open>
  C32: once the engine waits, the shutdown signal reaches it: if \<open>stop\<close> is waiting and nobody has signalled, then after
  any interleaving in which some goroutine has returned from \<open>signalShutdown\<close> the waiting goroutine has been woken up,
  and it can return from \<open>waitForShutdown\<close> however the mutex is held at that moment.
\<close>

theorem shutdown_signal_arrives:
  assumes "sd_step\<^sup>*\<^sup>* sd_start s" "sd_main s = MWaiting" "sd_once s = OFresh" "sd_step\<^sup>*\<^sup>* s s'" "sd_pc s' g = SReturned"
  shows "sd_main s' \<in> {MWoken, MRelocked, MReturned} \<and> (\<exists>s''. sd_step\<^sup>*\<^sup>* s' s'' \<and> sd_main s'' = MReturned)"
proof -
  have i: "sd_inv s" "sd_inv s'" using sd_reach_inv[OF assms(1) sd_start_inv] sd_reach_inv[OF assms(4)] by auto
  then have "\<not> inside (sd_pc s x)" for x using assms(3) by (auto simp: sd_inv_def inv_at_def)
  then have "awaited s" using assms(2,3) by (auto simp: awaited_def signalled_def inside_def)
  from awaited_reach[OF assms(4) this] have "awaited s'" .
  moreover have "signalled s'" using i(2) assms(5) by (auto simp: sd_inv_def inv_at_def signalled_def)
  ultimately have "sd_main s' \<in> {MWoken, MRelocked, MReturned}" by (auto simp: awaited_def)
  with woken_returns[OF i(2)] show ?thesis by blast
qed

theorem shutdown_signal_arrives_witness:
  "sd_main (sd_run (replicate 6 (ByGo 0)) (sd_run [ByMain, ByMain] sd_start)) \<in> {MWoken, MRelocked, MReturned}"
proof -
  let ?s = "sd_run [ByMain, ByMain] sd_start"
  have s: "sd_main ?s = MWaiting" "sd_once ?s = OFresh" by (simp_all add: sd_start_def waitForShutdown_step_def)
  have "sd_pc (sd_run (replicate 6 (ByGo 0)) ?s) 0 = SReturned"
    by (simp add: sd_start_def waitForShutdown_step_def signalShutdown_step_def numeral_eq_Suc)
  from shutdown_signal_arrives[OF sd_run_reach s sd_run_reach this] show ?thesis by blast
qed

text \<open>
  C36: a signal that comes too early is lost for good: \<open>waitForShutdown\<close> waits without asking whether the signal was
  already given, and \<open>signalShutdown\<close> signals once. If a loop has ended, or \<open>Stop\<close> was called, before the engine waits,
  it never returns from the wait, whatever the other goroutines do.
\<close>

theorem early_shutdown_signal_lost:
  assumes "sd_step\<^sup>*\<^sup>* sd_start s" "sd_once s = ODone" "sd_main s = MStart" "sd_step\<^sup>*\<^sup>* s s'"
  shows "sd_main s' \<noteq> MReturned"
proof -
  have "sd_inv s" using sd_reach_inv[OF assms(1) sd_start_inv] .
  then have "lost s" using assms(2,3) by (auto simp: lost_def sd_inv_def inv_at_def)
  from lost_reach[OF assms(4) this] show ?thesis by (auto simp: lost_def)
qed

theorem early_shutdown_signal_lost_witness:
  "sd_once (sd_run (replicate 6 (ByGo 0)) sd_start) = ODone \<and>
    sd_main (sd_run ([ByMain, ByMain, ByMain] @ replicate 6 (ByGo 1)) (sd_run (replicate 6 (ByGo 0)) sd_start)) \<noteq> MReturned"
proof -
  let ?s = "sd_run (replicate 6 (ByGo 0)) sd_start"
  have s: "sd_once ?s = ODone" "sd_main ?s = MStart" by (simp_all add: sd_start_def signalShutdown_step_def numeral_eq_Suc)
  from early_shutdown_signal_lost[OF sd_run_reach s sd_run_reach] s(1) show ?thesis by blast
qed

end
