(* ===== verification/BlockingPoller.thy ===== *)
theory BlockingPoller
  imports Polling
begin

text \<open>
  The polling loop that \<open>epoll_optimized_poller.go\<close>, \<open>kqueue_default_poller.go\<close> and \<open>kqueue_optimized_poller.go\<close> (all
  under \<open>internal/netpoll\<close>) have in common. It differs from that of \<open>Polling\<close>: there is no user \<open>proc\<close>, and a wait
  that ends without an event, or is interrupted, leads to the next wait at once, which blocks. What the three
  differ in is the record \<open>blk\<close>: the event list, the dispatch of the events and the chores.
\<close>

section \<open>The loop\<close>

record ('l, 'e, 'k, 'u) blk =
  bk_fill :: "'l \<Rightarrow> 'e list \<Rightarrow> 'l"
  bk_dispatch :: "'l \<Rightarrow> nat \<Rightarrow> ('k, 'u) lstate \<Rightarrow> bool \<Rightarrow>
    (('k, 'u) lstate \<times> bool + ('k, 'u) lstate \<times> gerror option) go"
  bk_chores :: "('k, 'u) lstate \<Rightarrow> (('k, 'u) lstate \<times> bool \<times> gerror option) go"
  bk_resize :: "int \<Rightarrow> 'l \<Rightarrow> 'l"

text \<open>\<open>bs_block\<close>: the next wait has no timeout, otherwise it returns at once.\<close>

record 'l bstate =
  bs_events :: 'l
  bs_chores :: bool
  bs_block :: bool

definition blk_round ::
  "('l, 'e, 'k, 'u) blk \<Rightarrow> 'l bstate \<Rightarrow> ('k, 'u) lstate \<Rightarrow> int \<times> errno option \<times> 'e list \<Rightarrow>
   ('l bstate \<times> ('k, 'u) lstate + ('k, 'u) lstate \<times> gerror option) go" where
  "blk_round B bs st out =
     (case out of (n, err, filled) \<Rightarrow>
        let l = bk_fill B (bs_events bs) filled
        in if n = 0 \<or> n < 0 \<and> err = Some EINTR then Ret (Inl (bs\<lparr>bs_events := l, bs_block := True\<rparr>, st))
           else if err \<noteq> None then Ret (Inr (st, map_option Errno err))
           else
             go_bind (bk_dispatch B l (nat n) st (bs_chores bs)) (\<lambda>res.
             case res of
               Inr r \<Rightarrow> Ret (Inr r)
             | Inl (st, doChores) \<Rightarrow>
                 go_bind (if doChores then bk_chores B st else Ret (st, False, None)) (\<lambda>(st, doChores, err).
                 if err \<noteq> None then Ret (Inr (st, err))
                 else Ret (Inl (\<lparr>bs_events = bk_resize B n l, bs_chores = doChores, bs_block = False\<rparr>, st)))))"

fun blk_rounds ::
  "('l, 'e, 'k, 'u) blk \<Rightarrow> 'l bstate \<Rightarrow> ('k, 'u) lstate \<Rightarrow> (int \<times> errno option \<times> 'e list) list \<Rightarrow>
   ('l bstate \<times> ('k, 'u) lstate + ('k, 'u) lstate \<times> gerror option) go" where
  "blk_rounds B bs st [] = Ret (Inl (bs, st))"
| "blk_rounds B bs st (out # outs) =
     go_bind (blk_round B bs st out) (\<lambda>res.
     case res of Inl (bs, st) \<Rightarrow> blk_rounds B bs st outs | Inr r \<Rightarrow> Ret (Inr r))"

section \<open>What a poller provides\<close>

locale blocking_poller =
  fixes B :: "('l, 'e, 'k, 'u) blk" and ok :: "'l \<Rightarrow> bool"
  assumes dispatch_q: "bk_dispatch B l n st ch = Ret (Inl (st', ch')) \<Longrightarrow> q_le st st'"
    and chores_wake: "bk_chores B st = Ret (st', retry, None) \<Longrightarrow> wake_ok st'"
    and chores_stop: "ls_urgent st = TShutdown # ts \<Longrightarrow>
      bk_chores B st = Ret (st\<lparr>ls_urgent := ts\<rparr>, False, Some ErrEngineShutdown)"
    and fill_ok: "ok l \<Longrightarrow> ok (bk_fill B l es)"
    and resize_ok: "ok l \<Longrightarrow> ok (bk_resize B m l)"
begin

lemma round_goes_on:
  assumes "blk_round B bs st (n, err, es) = Ret (Inl (bs', st'))"
  obtains "st' = st" "bs_chores bs' = bs_chores bs" "bs_block bs'" "bs_events bs' = bk_fill B (bs_events bs) es"
    "n = 0 \<or> n < 0 \<and> err = Some EINTR"
  | st1 ch where "bk_dispatch B (bk_fill B (bs_events bs) es) (nat n) st (bs_chores bs) = Ret (Inl (st1, ch))"
    "(if ch then bk_chores B st1 else Ret (st1, False, None)) = Ret (st', bs_chores bs', None)" "\<not> bs_block bs'"
    "bs_events bs' = bk_resize B n (bk_fill B (bs_events bs) es)"
proof (cases "n = 0 \<or> n < 0 \<and> err = Some EINTR")
  case True
  with assms that(1) show ?thesis by (auto simp: blk_round_def Let_def)
next
  case False
  with assms have "go_bind (bk_dispatch B (bk_fill B (bs_events bs) es) (nat n) st (bs_chores bs)) (\<lambda>res.
      case res of Inr r \<Rightarrow> Ret (Inr r)
      | Inl (st, doChores) \<Rightarrow> go_bind (if doChores then bk_chores B st else Ret (st, False, None)) (\<lambda>(st, doChores, err).
         if err \<noteq> None then Ret (Inr (st, err))
         else Ret (Inl (\<lparr>bs_events = bk_resize B n (bk_fill B (bs_events bs) es), bs_chores = doChores, bs_block = False\<rparr>, st)))) =
      Ret (Inl (bs', st'))"
    unfolding blk_round_def prod.case Let_def by (simp split: if_split_asm)
  then show ?thesis
    by (rule go_bind_RetE) (auto elim!: go_bind_RetE split: sum.splits if_splits intro!: that(2))
qed

lemma round_wakes:
  assumes "blk_round B bs st out = Ret (Inl (bs', st'))" "wake_ok st"
  shows "wake_ok st'"
proof -
  obtain n err es where "out = (n, err, es)" by (cases out)
  with assms(1) have "blk_round B bs st (n, err, es) = Ret (Inl (bs', st'))" by simp
  then show ?thesis
  proof (cases rule: round_goes_on)
    case 1
    with assms(2) show ?thesis by simp
  next
    case (2 st1 ch)
    then have "wake_ok st1" using dispatch_q q_le_wake assms(2) by blast
    with 2(2) chores_wake show ?thesis by (cases ch) auto
  qed
qed

lemma round_events: "blk_round B bs st out = Ret (Inl (bs', st')) \<Longrightarrow> ok (bs_events bs) \<Longrightarrow> ok (bs_events bs')"
  by (cases out) (auto elim!: round_goes_on intro!: fill_ok resize_ok)

lemma rounds_induct:
  assumes "blk_rounds B bs st outs = Ret (Inl (bs', st'))" "P bs st"
    and "\<And>bs st out bs' st'. blk_round B bs st out = Ret (Inl (bs', st')) \<Longrightarrow> P bs st \<Longrightarrow> P bs' st'"
  shows "P bs' st'"
  using assms(1,2)
proof (induction outs arbitrary: bs st)
  case (Cons out outs)
  from Cons.prems(1) obtain bs1 st1 where "blk_round B bs st out = Ret (Inl (bs1, st1))"
    "blk_rounds B bs1 st1 outs = Ret (Inl (bs', st'))"
    by (auto elim!: go_bind_RetE split: sum.splits)
  with Cons.IH assms(3) Cons.prems(2) show ?case by blast
qed simp

lemma rounds_wake: "blk_rounds B bs st outs = Ret (Inl (bs', st')) \<Longrightarrow> wake_ok st \<Longrightarrow> wake_ok st'"
  using rounds_induct[of bs st outs bs' st' "\<lambda>_. wake_ok"] round_wakes by blast

lemma rounds_events:
  "blk_rounds B bs st outs = Ret (Inl (bs', st')) \<Longrightarrow> ok (bs_events bs) \<Longrightarrow> ok (bs_events bs')"
  using rounds_induct[of bs st outs bs' st' "\<lambda>bs _. ok (bs_events bs)"] round_events by blast

text \<open>A shutdown task ends the loop in the round in which the poller is woken up.\<close>

lemma round_shutdown:
  assumes "bk_dispatch B (bk_fill B (bs_events bs) es) (nat n) st (bs_chores bs) = Ret (Inl (st1, True))"
    and "ls_urgent st1 = TShutdown # ts" "0 < n"
  shows "blk_round B bs st (n, None, es) = Ret (Inr (st1\<lparr>ls_urgent := ts\<rparr>, Some ErrEngineShutdown))"
  using assms chores_stop[OF assms(2)] by (simp add: blk_round_def Let_def)

end

text \<open>
  Waiting for events changes nothing while none arrives. This includes the case that the chores asked to be run again
  because the poller could not be woken up: then the loop waits without a timeout all the same.
\<close>

lemma idle_rounds:
  "\<forall>out\<in>set outs. fst out = 0 \<Longrightarrow>
    \<exists>bs'. blk_rounds B bs st outs = Ret (Inl (bs', st)) \<and> bs_chores bs' = bs_chores bs \<and> (outs \<noteq> [] \<longrightarrow> bs_block bs')"
proof (induction outs arbitrary: bs)
  case (Cons out outs)
  obtain err es where "out = (0, err, es)" using Cons.prems by (cases out) auto
  then have "blk_rounds B bs st (out # outs) =
      blk_rounds B (bs\<lparr>bs_events := bk_fill B (bs_events bs) es, bs_block := True\<rparr>) st outs"
    by (simp add: blk_round_def Let_def)
  with Cons.IH[of "bs\<lparr>bs_events := bk_fill B (bs_events bs) es, bs_block := True\<rparr>"] Cons.prems
  show ?case by (cases outs) auto
qed simp

end
