(* ===== verification/LoadBalancer.thy ===== *)
theory LoadBalancer
  imports Connection
begin

text \<open>
  The load balancers of \<open>load_balancer.go\<close>. An event loop is its address, a number; the two fields of it that a
  balancer touches are \<open>idx\<close>, kept in a store, and the connection count, which is read through the function
  \<open>conns\<close>. \<open>addr_str\<close> stands for \<open>net.Addr.String\<close>. The three balancers satisfy one contract, the locale
  \<open>balancer\<close>.
\<close>

section \<open>CRC-32\<close>

text \<open>\<open>hash/crc32.ChecksumIEEE\<close>: the reflected polynomial, bit by bit.\<close>

definition crc_bit :: "32 word \<Rightarrow> 32 word" where
  "crc_bit c = (if and c 1 \<noteq> 0 then xor (drop_bit 1 c) 0xEDB88320 else drop_bit 1 c)"

definition crc_byte :: "32 word \<Rightarrow> byte \<Rightarrow> 32 word" where
  "crc_byte c b = (crc_bit ^^ 8) (xor c (ucast b))"

definition ChecksumIEEE :: "byte list \<Rightarrow> 32 word" where
  "ChecksumIEEE bs = not (foldl crc_byte (not 0) bs)"

section \<open>Iterating over the loops\<close>

text \<open>The body of \<open>iterate\<close>, which stops at the first loop for which \<open>f\<close> returns false.\<close>

fun lb_iterate :: "(int \<Rightarrow> nat \<Rightarrow> 's \<Rightarrow> 's \<times> bool) \<Rightarrow> int \<Rightarrow> nat list \<Rightarrow> 's \<Rightarrow> 's" where
  "lb_iterate f i [] s = s"
| "lb_iterate f i (el # els) s =
     (case f i el s of (s, go_on) \<Rightarrow> if \<not> go_on then s else lb_iterate f (i + 1) els s)"

section \<open>Round robin\<close>

record rrlb =
  nextLoopIndex :: int
  rr_eventLoops :: "nat list"
  rr_size :: int

definition rr_zero :: rrlb where
  "rr_zero = \<lparr>nextLoopIndex = 0, rr_eventLoops = [], rr_size = 0\<rparr>"

definition rr_register :: "rrlb \<Rightarrow> (nat \<Rightarrow> int) \<Rightarrow> nat \<Rightarrow> rrlb \<times> (nat \<Rightarrow> int)" where
  "rr_register lb idx el =
     (lb\<lparr>rr_eventLoops := rr_eventLoops lb @ [el], rr_size := rr_size lb + 1\<rparr>, idx(el := rr_size lb))"

definition rr_next :: "rrlb \<Rightarrow> netaddr option \<Rightarrow> (rrlb \<times> nat) go" where
  "rr_next lb a =
     go_bind (go_index (rr_eventLoops lb) (nextLoopIndex lb)) (\<lambda>el.
     let lb = lb\<lparr>nextLoopIndex := nextLoopIndex lb + 1\<rparr>
     in Ret (if nextLoopIndex lb \<ge> rr_size lb then lb\<lparr>nextLoopIndex := 0\<rparr> else lb, el))"

definition rr_iterate :: "(int \<Rightarrow> nat \<Rightarrow> 's \<Rightarrow> 's \<times> bool) \<Rightarrow> rrlb \<Rightarrow> 's \<Rightarrow> 's" where
  "rr_iterate f lb s = lb_iterate f 0 (rr_eventLoops lb) s"

definition rr_len :: "rrlb \<Rightarrow> int" where
  "rr_len lb = rr_size lb"

section \<open>Least connections\<close>

record lclb =
  lc_eventLoops :: "nat list"
  lc_size :: int

definition lc_zero :: lclb where
  "lc_zero = \<lparr>lc_eventLoops = [], lc_size = 0\<rparr>"

fun lc_minLoop :: "(nat \<Rightarrow> int) \<Rightarrow> nat list \<Rightarrow> nat \<Rightarrow> int \<Rightarrow> nat" where
  "lc_minLoop conns [] el minN = el"
| "lc_minLoop conns (v # vs) el minN =
     (let n = conns v in if n < minN then lc_minLoop conns vs v n else lc_minLoop conns vs el minN)"

definition lc_min :: "(nat \<Rightarrow> int) \<Rightarrow> lclb \<Rightarrow> nat go" where
  "lc_min conns lb =
     go_bind (go_index (lc_eventLoops lb) 0) (\<lambda>el.
     go_bind (go_slice (lc_eventLoops lb) 1 (glen (lc_eventLoops lb))) (\<lambda>rest.
     Ret (lc_minLoop conns rest el (conns el))))"

definition lc_register :: "lclb \<Rightarrow> (nat \<Rightarrow> int) \<Rightarrow> nat \<Rightarrow> lclb \<times> (nat \<Rightarrow> int)" where
  "lc_register lb idx el =
     (lb\<lparr>lc_eventLoops := lc_eventLoops lb @ [el], lc_size := lc_size lb + 1\<rparr>, idx(el := lc_size lb))"

definition lc_next :: "(nat \<Rightarrow> int) \<Rightarrow> lclb \<Rightarrow> netaddr option \<Rightarrow> (lclb \<times> nat) go" where
  "lc_next conns lb a = go_bind (lc_min conns lb) (\<lambda>el. Ret (lb, el))"

definition lc_iterate :: "(int \<Rightarrow> nat \<Rightarrow> 's \<Rightarrow> 's \<times> bool) \<Rightarrow> lclb \<Rightarrow> 's \<Rightarrow> 's" where
  "lc_iterate f lb s = lb_iterate f 0 (lc_eventLoops lb) s"

definition lc_len :: "lclb \<Rightarrow> int" where
  "lc_len lb = lc_size lb"

section \<open>Source-address hash\<close>

record shlb =
  sh_eventLoops :: "nat list"
  sh_size :: int

definition sh_zero :: shlb where
  "sh_zero = \<lparr>sh_eventLoops = [], sh_size = 0\<rparr>"

definition sh_register :: "shlb \<Rightarrow> (nat \<Rightarrow> int) \<Rightarrow> nat \<Rightarrow> shlb \<times> (nat \<Rightarrow> int)" where
  "sh_register lb idx el =
     (lb\<lparr>sh_eventLoops := sh_eventLoops lb @ [el], sh_size := sh_size lb + 1\<rparr>, idx(el := sh_size lb))"

text \<open>\<open>int(v)\<close> of a \<open>uint32\<close> with 64-bit integers.\<close>

definition sh_hash :: "byte list \<Rightarrow> int" where
  "sh_hash s = (let v = uint (ChecksumIEEE s) in if v \<ge> 0 then v else - v)"

definition sh_next :: "(netaddr \<Rightarrow> byte list) \<Rightarrow> shlb \<Rightarrow> netaddr option \<Rightarrow> (shlb \<times> nat) go" where
  "sh_next addr_str lb a =
     (case a of
        None \<Rightarrow> Panic NilDereference
      | Some a \<Rightarrow>
          go_bind (go_mod (sh_hash (addr_str a)) (sh_size lb)) (\<lambda>i.
          go_bind (go_index (sh_eventLoops lb) i) (\<lambda>el. Ret (lb, el))))"

definition sh_iterate :: "(int \<Rightarrow> nat \<Rightarrow> 's \<Rightarrow> 's \<times> bool) \<Rightarrow> shlb \<Rightarrow> 's \<Rightarrow> 's" where
  "sh_iterate f lb s = lb_iterate f 0 (sh_eventLoops lb) s"

definition sh_len :: "shlb \<Rightarrow> int" where
  "sh_len lb = sh_size lb"

section \<open>Specification\<close>

definition rr_ok :: "rrlb \<Rightarrow> bool" where
  "rr_ok lb \<longleftrightarrow> rr_size lb = glen (rr_eventLoops lb) \<and> 0 \<le> nextLoopIndex lb \<and>
     (nextLoopIndex lb < rr_size lb \<or> rr_size lb = 0 \<and> nextLoopIndex lb = 0)"

definition lc_ok :: "lclb \<Rightarrow> bool" where
  "lc_ok lb \<longleftrightarrow> lc_size lb = glen (lc_eventLoops lb)"

definition sh_ok :: "shlb \<Rightarrow> bool" where
  "sh_ok lb \<longleftrightarrow> sh_size lb = glen (sh_eventLoops lb)"

text \<open>Registering loops one after the other, and \<open>k\<close> calls of \<open>next\<close>.\<close>

fun register_all :: "('b \<Rightarrow> (nat \<Rightarrow> int) \<Rightarrow> nat \<Rightarrow> 'b \<times> (nat \<Rightarrow> int)) \<Rightarrow> 'b \<Rightarrow> (nat \<Rightarrow> int) \<Rightarrow> nat list \<Rightarrow> 'b \<times> (nat \<Rightarrow> int)" where
  "register_all reg lb idx [] = (lb, idx)"
| "register_all reg lb idx (el # els) = (case reg lb idx el of (lb, idx) \<Rightarrow> register_all reg lb idx els)"

fun rr_picks :: "rrlb \<Rightarrow> nat \<Rightarrow> (rrlb \<times> nat list) go" where
  "rr_picks lb 0 = Ret (lb, [])"
| "rr_picks lb (Suc k) =
     go_bind (rr_next lb None) (\<lambda>(lb, el). go_bind (rr_picks lb k) (\<lambda>(lb, els). Ret (lb, el # els)))"

text \<open>
  The contract of a balancer: \<open>register\<close> appends a loop and numbers it by its position, and \<open>next\<close> returns one
  of the registered loops for the addresses it can handle.
\<close>

locale balancer =
  fixes ok :: "'b \<Rightarrow> bool"
    and loops :: "'b \<Rightarrow> nat list"
    and register :: "'b \<Rightarrow> (nat \<Rightarrow> int) \<Rightarrow> nat \<Rightarrow> 'b \<times> (nat \<Rightarrow> int)"
    and pick :: "'b \<Rightarrow> netaddr option \<Rightarrow> ('b \<times> nat) go"
    and handles :: "netaddr option \<Rightarrow> bool"
  assumes register_law: "ok lb \<Longrightarrow> register lb idx el = (lb', idx') \<Longrightarrow>
      ok lb' \<and> loops lb' = loops lb @ [el] \<and> idx' = idx(el := glen (loops lb))"
    and pick_law: "ok lb \<Longrightarrow> loops lb \<noteq> [] \<Longrightarrow> handles a \<Longrightarrow>
      \<exists>lb' el. pick lb a = Ret (lb', el) \<and> el \<in> set (loops lb) \<and> ok lb' \<and> loops lb' = loops lb"
begin

lemma register_all_law:
  "ok lb \<Longrightarrow> register_all register lb idx els = (lb', idx') \<Longrightarrow> distinct els \<Longrightarrow>
   ok lb' \<and> loops lb' = loops lb @ els \<and> (\<forall>i<length els. idx' (els ! i) = glen (loops lb) + int i) \<and>
   (\<forall>el. el \<notin> set els \<longrightarrow> idx' el = idx el)"
proof (induction els arbitrary: lb idx)
  case (Cons el els)
  obtain lb1 idx1 where r: "register lb idx el = (lb1, idx1)" by (cases "register lb idx el")
  note l = register_law[OF Cons.prems(1) r]
  have run: "register_all register lb1 idx1 els = (lb', idx')" and d: "distinct els" "el \<notin> set els"
    using Cons.prems r by auto
  have IH: "ok lb'" "loops lb' = loops lb1 @ els" "\<And>i. i < length els \<Longrightarrow> idx' (els ! i) = glen (loops lb1) + int i"
    "\<And>x. x \<notin> set els \<Longrightarrow> idx' x = idx1 x"
    using Cons.IH[OF _ run d(1)] l by blast+
  have "idx' ((el # els) ! i) = glen (loops lb) + int i" if "i < length (el # els)" for i
    using that IH(3)[of "i - 1"] IH(4)[OF d(2)] l by (cases i) auto
  then show ?case using IH l by auto
qed simp

end

section \<open>The three balancers\<close>

lemma go_index_mem: "0 \<le> i \<Longrightarrow> i < glen xs \<Longrightarrow> \<exists>x. go_index xs i = Ret x \<and> x \<in> set xs"
  by (simp add: go_index_def nat_less_iff)

interpretation rr: balancer rr_ok rr_eventLoops rr_register rr_next "\<lambda>_. True"
proof unfold_locales
  show "\<exists>lb' el. rr_next lb a = Ret (lb', el) \<and> el \<in> set (rr_eventLoops lb) \<and> rr_ok lb' \<and> rr_eventLoops lb' = rr_eventLoops lb"
    if "rr_ok lb" "rr_eventLoops lb \<noteq> []" for lb a
  proof -
    have "0 \<le> nextLoopIndex lb" "nextLoopIndex lb < glen (rr_eventLoops lb)" using that by (auto simp: rr_ok_def)
    then obtain el where "go_index (rr_eventLoops lb) (nextLoopIndex lb) = Ret el" "el \<in> set (rr_eventLoops lb)"
      using go_index_mem by blast
    with that show ?thesis by (auto simp: rr_next_def rr_ok_def Let_def)
  qed
qed (auto simp: rr_register_def rr_ok_def)

lemma lc_minLoop_least:
  "minN = conns el \<Longrightarrow> lc_minLoop conns vs el minN \<in> set (el # vs) \<and>
   (\<forall>v\<in>set (el # vs). conns (lc_minLoop conns vs el minN) \<le> conns v)"
proof (induction vs arbitrary: el minN)
  case (Cons v vs)
  then show ?case using Cons.IH[OF refl, of v] Cons.IH[OF refl, of el] by (force simp: Let_def)
qed simp

lemma lc_min_least:
  assumes "lc_eventLoops lb \<noteq> []"
  shows "\<exists>el. lc_min conns lb = Ret el \<and> el \<in> set (lc_eventLoops lb) \<and> (\<forall>v\<in>set (lc_eventLoops lb). conns el \<le> conns v)"
proof -
  from assms obtain e es where l: "lc_eventLoops lb = e # es" by (cases "lc_eventLoops lb") auto
  then have "lc_min conns lb = Ret (lc_minLoop conns es e (conns e))"
    by (simp add: lc_min_def go_index_def go_slice_Ret)
  with lc_minLoop_least[where conns = conns and el = e and vs = es, OF refl] l show ?thesis by auto
qed

interpretation lc: balancer lc_ok lc_eventLoops lc_register "lc_next conns" "\<lambda>_. True" for conns
proof unfold_locales
  show "\<exists>lb' el. lc_next conns lb a = Ret (lb', el) \<and> el \<in> set (lc_eventLoops lb) \<and> lc_ok lb' \<and>
    lc_eventLoops lb' = lc_eventLoops lb" if "lc_ok lb" "lc_eventLoops lb \<noteq> []" for lb a
    using lc_min_least[OF that(2), of conns] that(1) by (auto simp: lc_next_def)
qed (auto simp: lc_register_def lc_ok_def)

lemma sh_next_index:
  assumes "sh_ok lb" "sh_eventLoops lb \<noteq> []"
  shows "sh_next addr_str lb (Some a) = Ret (lb, sh_eventLoops lb ! nat (uint (ChecksumIEEE (addr_str a)) mod sh_size lb))"
proof -
  let ?v = "uint (ChecksumIEEE (addr_str a))"
  have s: "0 < sh_size lb" using assms by (auto simp: sh_ok_def)
  have "0 \<le> ?v mod sh_size lb" "?v mod sh_size lb < glen (sh_eventLoops lb)" using s assms(1) by (auto simp: sh_ok_def)
  then show ?thesis using s by (simp add: sh_next_def sh_hash_def go_mod_Ret go_index_def)
qed

interpretation sh: balancer sh_ok sh_eventLoops sh_register "sh_next addr_str" "\<lambda>a. a \<noteq> None" for addr_str
proof unfold_locales
  show "\<exists>lb' el. sh_next addr_str lb a = Ret (lb', el) \<and> el \<in> set (sh_eventLoops lb) \<and> sh_ok lb' \<and>
    sh_eventLoops lb' = sh_eventLoops lb" if lb: "sh_ok lb" "sh_eventLoops lb \<noteq> []" and "a \<noteq> None" for lb a
  proof -
    from \<open>a \<noteq> None\<close> obtain a' where a: "a = Some a'" by blast
    have "nat (uint (ChecksumIEEE (addr_str a')) mod sh_size lb) < length (sh_eventLoops lb)"
      using lb by (simp add: sh_ok_def nat_less_iff)
    with sh_next_index[OF lb] a lb(1) show ?thesis by simp
  qed
qed (auto simp: sh_register_def sh_ok_def)

section \<open>Fairness of round robin\<close>

lemma mod_step: "0 < n \<Longrightarrow> i < n \<Longrightarrow> (if i + 1 \<ge> n then 0 else i + 1) = (i + 1) mod (n::nat)"
  by (auto simp: mod_if)

lemma rr_next_step:
  assumes "rr_ok lb" "rr_eventLoops lb \<noteq> []" "n = length (rr_eventLoops lb)" "nextLoopIndex lb = int i"
  shows "i < n \<and> rr_next lb a = Ret (lb\<lparr>nextLoopIndex := int (Suc i mod n)\<rparr>, rr_eventLoops lb ! i)"
proof -
  have n: "0 < n" "i < n" using assms by (auto simp: rr_ok_def)
  then have "rr_next lb a = Ret (lb\<lparr>nextLoopIndex := int (if i + 1 \<ge> n then 0 else i + 1)\<rparr>, rr_eventLoops lb ! i)"
    using assms by (auto simp: rr_next_def go_index_def rr_ok_def Let_def)
  then show ?thesis using n mod_step[OF n] by simp
qed

lemma rr_picks_spec:
  assumes "rr_ok lb" "rr_eventLoops lb \<noteq> []" "n = length (rr_eventLoops lb)" "nextLoopIndex lb = int i"
  shows "rr_picks lb k = Ret (lb\<lparr>nextLoopIndex := int ((i + k) mod n)\<rparr>,
    map (\<lambda>j. rr_eventLoops lb ! ((i + j) mod n)) [0..<k])"
  using assms
proof (induction k arbitrary: lb i)
  case 0
  then have "i < n" by (auto simp: rr_ok_def)
  with 0 show ?case by simp
next
  case (Suc k)
  let ?lb = "lb\<lparr>nextLoopIndex := int (Suc i mod n)\<rparr>"
  have s: "i < n" "rr_next lb None = Ret (?lb, rr_eventLoops lb ! i)" using rr_next_step[OF Suc.prems] by auto
  have "rr_ok ?lb" using Suc.prems s(1) by (auto simp: rr_ok_def)
  from Suc.IH[OF this, of "Suc i mod n"] Suc.prems
  have "rr_picks ?lb k = Ret (lb\<lparr>nextLoopIndex := int ((Suc i mod n + k) mod n)\<rparr>,
      map (\<lambda>j. rr_eventLoops lb ! ((Suc i mod n + j) mod n)) [0..<k])" by simp
  moreover have "map (\<lambda>j. rr_eventLoops lb ! ((i + j) mod n)) [0..<Suc k] =
      rr_eventLoops lb ! i # map (\<lambda>j. rr_eventLoops lb ! ((Suc i mod n + j) mod n)) [0..<k]"
    using s(1) by (simp add: upt_conv_Cons map_Suc_upt[symmetric] mod_simps del: upt_Suc)
  ultimately show ?case using s by (simp add: mod_simps)
qed

lemma rr_round_fair:
  assumes "rr_ok lb" "rr_eventLoops lb \<noteq> []" "n = length (rr_eventLoops lb)"
  shows "\<exists>els. rr_picks lb n = Ret (lb, els) \<and> mset els = mset (rr_eventLoops lb)"
proof -
  obtain i where i: "nextLoopIndex lb = int i" using assms(1) by (metis rr_ok_def nonneg_int_cases)
  have "i < n" using assms i by (auto simp: rr_ok_def)
  let ?els = "map (\<lambda>j. rr_eventLoops lb ! ((i + j) mod n)) [0..<n]"
  have "?els = rotate i (rr_eventLoops lb)"
    using assms(3) by (intro nth_equalityI) (simp_all add: nth_rotate add.commute)
  then have "mset ?els = mset (rr_eventLoops lb)"
    by (metis append_take_drop_id mset_append rotate_drop_take union_commute)
  moreover have "lb\<lparr>nextLoopIndex := int ((i + n) mod n)\<rparr> = lb" using i \<open>i < n\<close> by simp
  ultimately show ?thesis using rr_picks_spec[OF assms i, of n] by metis
qed

lemma rr_picks_add:
  "rr_picks lb k = Ret (lb1, es1) \<Longrightarrow> rr_picks lb1 m = Ret (lb2, es2) \<Longrightarrow> rr_picks lb (k + m) = Ret (lb2, es1 @ es2)"
proof (induction k arbitrary: lb es1)
  case (Suc k)
  obtain lb' el es where "rr_next lb None = Ret (lb', el)" "rr_picks lb' k = Ret (lb1, es)" "es1 = el # es"
    using Suc.prems(1) by (auto elim!: go_bind_RetE)
  with Suc.IH[OF _ Suc.prems(2)] show ?case by simp
qed simp

lemma rr_rounds_fair:
  assumes "rr_ok lb" "rr_eventLoops lb \<noteq> []"
  shows "\<exists>els. rr_picks lb (m * length (rr_eventLoops lb)) = Ret (lb, els) \<and>
    (\<forall>el. count_list els el = m * count_list (rr_eventLoops lb) el)"
proof (induction m)
  case (Suc m)
  let ?n = "length (rr_eventLoops lb)"
  obtain els where els: "rr_picks lb (m * ?n) = Ret (lb, els)" "\<And>el. count_list els el = m * count_list (rr_eventLoops lb) el"
    using Suc by blast
  obtain es where es: "rr_picks lb ?n = Ret (lb, es)" "mset es = mset (rr_eventLoops lb)"
    using rr_round_fair[OF assms refl] by blast
  have "count_list es el = count_list (rr_eventLoops lb) el" for el
    using es(2) by (metis count_mset)
  then show ?case using rr_picks_add[OF es(1) els(1)] els(2) by (intro exI[of _ "es @ els"]) simp
qed simp

end
