(* ===== verification/Engine.thy ===== *)
theory Engine
  imports Polling LoadBalancer
begin

text \<open>
  Accepting connections (\<open>acceptor.go\<close>), by the engine in its main reactor or by a loop with a listener of its own. The
  listener's system calls are the fields of the record \<open>'k listen\<close>, the engine keeps one kernel state that its
  loops share, and a balancer is its \<open>next\<close> function. \<open>keepAlive\<close> is the period in seconds.
\<close>

section \<open>Accepting\<close>

record 'k listen =
  a_accept :: "'k \<Rightarrow> int \<Rightarrow> 'k \<times> int \<times> sockaddr option \<times> errno option"
  a_nonblock :: "'k \<Rightarrow> int \<Rightarrow> 'k \<times> errno option"
  a_keepalive :: "'k \<Rightarrow> int \<Rightarrow> int \<Rightarrow> 'k \<times> errno option"

record ('k, 'u, 'b) engine =
  en_k :: 'k
  en_lb :: 'b
  en_loops :: "nat \<Rightarrow> ('k, 'u) lstate"
  en_network :: string
  en_keepAlive :: int
  en_writeBufferCap :: int

text \<open>\<open>c0\<close> is the address of the new connection object in the loop that gets it.\<close>

definition eng_accept ::
  "'k world \<Rightarrow> 'k listen \<Rightarrow> ('b \<Rightarrow> netaddr option \<Rightarrow> ('b \<times> nat) go) \<Rightarrow> stale \<Rightarrow> nat \<Rightarrow>
   ('k, 'u, 'b) engine \<Rightarrow> int \<Rightarrow> (('k, 'u, 'b) engine \<times> gerror option) go" where
  "eng_accept W A pick mem c0 eng fd =
     (case a_accept A (en_k eng) fd of (k, nfd, sa, err) \<Rightarrow>
        let eng = eng\<lparr>en_k := k\<rparr>
        in if err \<noteq> None then Ret (eng, if err = Some EAGAIN then None else Some ErrAcceptSocket)
           else
             (case a_nonblock A (en_k eng) nfd of (k, err) \<Rightarrow>
                let eng = eng\<lparr>en_k := k\<rparr>
                in if err \<noteq> None then Ret (eng, NewSyscallError ''fcntl nonblock'' err)
                   else
                     go_bind (SockaddrToTCPOrUnixAddr (w_ifname W) mem sa) (\<lambda>remoteAddr.
                     let eng = (if en_keepAlive eng > 0 \<and> en_network eng = ''tcp''
                                then eng\<lparr>en_k := fst (a_keepalive A (en_k eng) nfd (en_keepAlive eng))\<rparr> else eng)
                     in go_bind (pick (en_lb eng) remoteAddr) (\<lambda>(lb, el).
                        let st = (en_loops eng el)\<lparr>ls_k := en_k eng\<rparr>;
                            st = upd_conn st c0 (newTCPConn (en_writeBufferCap eng) nfd sa (ls_lnaddr st) remoteAddr)
                        in case pl_UrgentTrigger W st (TRegister c0) of (st, err) \<Rightarrow>
                             go_bind
                               (if err \<noteq> None
                                then (case w_close W (ls_k st) nfd of (k, _) \<Rightarrow> el_releaseTCP (st\<lparr>ls_k := k\<rparr>) c0)
                                else Ret st)
                               (\<lambda>st. Ret (eng\<lparr>en_k := ls_k st, en_lb := lb, en_loops := (en_loops eng)(el := st)\<rparr>, None))))))"

text \<open>\<open>eventloop.accept\<close>, for loops that have a listener of their own; \<open>network\<close> is the listener's.\<close>

definition el_accept ::
  "'k world \<Rightarrow> 'k listen \<Rightarrow> 'u handler \<Rightarrow> string \<Rightarrow> int \<Rightarrow> int \<Rightarrow> stale \<Rightarrow> nat \<Rightarrow>
   ('k, 'u) lstate \<Rightarrow> int \<Rightarrow> (('k, 'u) lstate \<times> gerror option) go" where
  "el_accept W A h network keepAlive cap mem c0 st fd =
     (if network = ''udp'' then el_readUDP W h st fd c0
      else
        (case a_accept A (ls_k st) (ls_lnfd st) of (k, nfd, sa, err) \<Rightarrow>
           let st = st\<lparr>ls_k := k\<rparr>
           in if err \<noteq> None then Ret (st, if err = Some EAGAIN then None else NewSyscallError ''accept'' err)
              else
                (case a_nonblock A (ls_k st) nfd of (k, err) \<Rightarrow>
                   let st = st\<lparr>ls_k := k\<rparr>
                   in if err \<noteq> None then Ret (st, NewSyscallError ''fcntl nonblock'' err)
                      else
                        go_bind (SockaddrToTCPOrUnixAddr (w_ifname W) mem sa) (\<lambda>remoteAddr.
                        let st = (if keepAlive > 0 \<and> network = ''tcp''
                                  then st\<lparr>ls_k := fst (a_keepalive A (ls_k st) nfd keepAlive)\<rparr> else st);
                            st = upd_conn st c0 (newTCPConn cap nfd sa (ls_lnaddr st) remoteAddr)
                        in go_bind (pl_AddRead W st c0) (\<lambda>(st, err).
                           if err \<noteq> None then Ret (st, err)
                           else el_open W h (st\<lparr>ls_connections := (ls_connections st)(nfd \<mapsto> c0)\<rparr>) c0)))))"

text \<open>The callback of \<open>eventloop.run\<close>.\<close>

definition el_runEvent ::
  "'k world \<Rightarrow> 'k listen \<Rightarrow> 'u handler \<Rightarrow> string \<Rightarrow> int \<Rightarrow> int \<Rightarrow> stale \<Rightarrow> (('k, 'u) lstate \<Rightarrow> nat) \<Rightarrow> ('k, 'u) callback" where
  "el_runEvent W A h network keepAlive cap mem new st fd ev =
     (case ls_connections st fd of
        Some c \<Rightarrow> c_handleEvents W h st c ev
      | None \<Rightarrow> el_accept W A h network keepAlive cap mem (new st) st fd)"

section \<open>Accepted connections\<close>

text \<open>A successful \<open>accept\<close> queues the registration of the new connection on the loop the balancer chose.\<close>

lemma eng_accept_hands_over:
  assumes a: "a_accept A (en_k eng) fd = (k1, nfd, sa, None)" and n: "a_nonblock A k1 nfd = (k2, None)"
    and sa: "\<forall>a. sa = Some a \<longrightarrow> sockaddr_ok a"
    and pick: "\<And>r. pick (en_lb eng) r = Ret (lb', el)"
    and wk: "\<And>k. ls_wakeup (en_loops eng el) \<or> snd (snd (w_write W k (ls_efd (en_loops eng el)) [1, 0, 0, 0, 0, 0, 0, 0])) = None"
  shows "\<exists>eng' r. eng_accept W A pick mem c0 eng fd = Ret (eng', None) \<and>
    ls_urgent (en_loops eng' el) = ls_urgent (en_loops eng el) @ [TRegister c0] \<and> ls_wakeup (en_loops eng' el) \<and>
    ls_conn (en_loops eng' el) c0 = newTCPConn (en_writeBufferCap eng) nfd sa (ls_lnaddr (en_loops eng el)) r \<and>
    (\<forall>el'. el' \<noteq> el \<longrightarrow> en_loops eng' el' = en_loops eng el') \<and> en_lb eng' = lb'"
proof -
  obtain r where r: "SockaddrToTCPOrUnixAddr (w_ifname W) mem sa = Ret r"
    using SockaddrToTCPOrUnixAddr_total[OF sa] by blast
  let ?e1 = "eng\<lparr>en_k := k2\<rparr>"
  define e2 where "e2 = (if en_keepAlive eng > 0 \<and> en_network eng = ''tcp''
    then ?e1\<lparr>en_k := fst (a_keepalive A k2 nfd (en_keepAlive eng))\<rparr> else ?e1)"
  have e2: "en_lb e2 = en_lb eng" "en_loops e2 = en_loops eng" "en_writeBufferCap e2 = en_writeBufferCap eng"
    by (auto simp: e2_def)
  let ?st0 = "(en_loops eng el)\<lparr>ls_k := en_k e2\<rparr>"
  let ?st = "upd_conn ?st0 c0 (newTCPConn (en_writeBufferCap eng) nfd sa (ls_lnaddr (en_loops eng el)) r)"
  obtain st' e where t: "pl_UrgentTrigger W ?st (TRegister c0) = (st', e)" by (cases "pl_UrgentTrigger W ?st (TRegister c0)")
  have e: "e = None" "ls_urgent st' = ls_urgent (en_loops eng el) @ [TRegister c0]" "ls_wakeup st'" "ls_conn st' = ls_conn ?st"
    using t wk[of "en_k e2"] by (auto simp: pl_UrgentTrigger_def pl_wakeup_def NewSyscallError_def split: if_splits prod.splits)
  have "eng_accept W A pick mem c0 eng fd = Ret (e2\<lparr>en_k := ls_k st', en_lb := lb', en_loops := (en_loops eng)(el := st')\<rparr>, None)"
    using a n r pick t e(1) by (cases "en_keepAlive eng > 0 \<and> en_network eng = ''tcp''") (auto simp: eng_accept_def Let_def e2_def)
  with e show ?thesis by auto
qed

text \<open>\<open>el_accept\<close> gives up the new descriptor without closing it when the poller refuses it.\<close>

lemma el_accept_leaks:
  assumes a: "a_accept A (ls_k st) (ls_lnfd st) = (k1, nfd, sa, None)" and n: "a_nonblock A k1 nfd = (k2, None)"
    and net: "network \<noteq> ''udp''" "keepAlive \<le> 0" and sa: "\<forall>a. sa = Some a \<longrightarrow> sockaddr_ok a"
    and ctl: "w_ctl W k2 EPOLL_CTL_ADD nfd readEvents = (k3, Some er)"
    and F: "fds_ok W isopen" and op: "isopen k2 nfd"
  shows "\<exists>st'. el_accept W A h network keepAlive cap mem c0 st fd = Ret (st', Some (SyscallError ''epoll_ctl add'' er)) \<and>
    isopen (ls_k st') nfd \<and> ls_connections st' = ls_connections st"
proof -
  obtain r where r: "SockaddrToTCPOrUnixAddr (w_ifname W) mem sa = Ret r"
    using SockaddrToTCPOrUnixAddr_total[OF sa] by blast
  have "isopen k3 = isopen k2" using fds_okD(7)[OF F ctl] .
  then show ?thesis using a n net r ctl op
    by (simp add: el_accept_def Let_def pl_AddRead_def pl_attached_def pl_ctl_def newTCPConn_def NewSyscallError_def)
qed

section \<open>The callback of a loop with a listener\<close>

lemma el_open_q: "el_open W h st c = Ret (st', e) \<Longrightarrow> q_le st st'"
  unfolding el_open_def Let_def
  by (auto elim!: go_bind_RetE split: if_splits option.splits dest!: callbacks_q(2) c_open_q q_le_base(7) el_handleAction_q)
    (blast intro: q_le_trans)+

lemma el_readUDP_q: "el_readUDP W h st fd c0 = Ret (st', e) \<Longrightarrow> q_le st st'"
  unfolding el_readUDP_def Let_def
  by (auto elim!: go_bind_RetE split: if_splits prod.splits option.splits dest!: callbacks_q(1))

lemma el_accept_q:
  assumes "el_accept W A h network keepAlive cap mem c0 st fd = Ret (st', e)"
  shows "q_le st st'"
proof (cases "network = ''udp''")
  case True
  with assms show ?thesis by (auto simp: el_accept_def dest: el_readUDP_q)
next
  case False
  obtain k1 nfd sa e1 where a: "a_accept A (ls_k st) (ls_lnfd st) = (k1, nfd, sa, e1)" by (metis surj_pair)
  obtain k2 e2 where n: "a_nonblock A k1 nfd = (k2, e2)" by (metis surj_pair)
  show ?thesis
  proof (cases "e1 \<noteq> None \<or> e2 \<noteq> None")
    case True
    with assms False a n show ?thesis by (auto simp: el_accept_def Let_def split: if_splits)
  next
    case no_err: False
    then obtain k r st1 e' where "pl_AddRead W (upd_conn (st\<lparr>ls_k := k\<rparr>) c0 (newTCPConn cap nfd sa (ls_lnaddr st) r)) c0 = Ret (st1, e')"
      and r: "(if e' \<noteq> None then Ret (st1, e') else el_open W h (st1\<lparr>ls_connections := (ls_connections st1)(nfd \<mapsto> c0)\<rparr>) c0) = Ret (st', e)"
      using assms False a n by (auto simp: el_accept_def Let_def elim!: go_bind_RetE split: if_splits)
    then have "q_le st st1" by (auto dest: q_le_base(6))
    with r show ?thesis by (auto split: if_splits dest!: el_open_q intro: q_le_trans)
  qed
qed

lemma el_runEvent_q: "el_runEvent W A h network keepAlive cap mem new st fd ev = Ret (st', e) \<Longrightarrow> q_le st st'"
  by (auto simp: el_runEvent_def c_handleEvents_def elim!: go_bind_RetE split: if_splits option.splits
      dest!: el_accept_q el_read_q el_write_q) (blast intro: q_le_trans)+

interpretation run: poll_callback "el_runEvent W A h network keepAlive cap mem new" for W A h network keepAlive cap mem new
  by unfold_locales (rule el_runEvent_q)

end
