(* ===== verification/PollAttachment.thy ===== *)
theory PollAttachment
  imports Engine
begin

text \<open>
  Poll attachments (\<open>internal/netpoll/poll_data_unix.go\<close>, \<open>poll_data_linux.go\<close>, \<open>poll_data_bsd.go\<close>): the objects whose
  addresses the pollers built with the tag \<open>poll_opt\<close> store in the events of the kernel. A connection takes its
  attachment from a pool when it is created and puts it back, cleared, when it is released; so what the attachment
  holds follows from the connection. A listener's attachment is made by \<open>packPollAttachment\<close> (\<open>listener.go\<close>), and the
  poller has one for waking up. The pool may hand an attachment out again to another connection, which is left out.
\<close>

section \<open>Attachments\<close>

text \<open>The callbacks that are stored: \<open>accept\<close> of the engine or of a loop, \<open>readUDP\<close>, and \<open>handleEvents\<close> of a connection.\<close>

datatype pa_callback = CbAccept | CbReadUDP | CbHandleEvents nat

record attachment =
  pa_FD :: int
  pa_Callback :: "pa_callback option"

definition pa_new :: attachment where
  "pa_new = \<lparr>pa_FD = 0, pa_Callback = None\<rparr>"

text \<open>\<open>sync.Pool\<close> returns an object that was put into it, at position \<open>i\<close>, or a new one.\<close>

definition GetPollAttachment :: "nat option \<Rightarrow> attachment list \<Rightarrow> attachment \<times> attachment list" where
  "GetPollAttachment i pool =
     (case i of
        None \<Rightarrow> (pa_new, pool)
      | Some i \<Rightarrow> if i < length pool then (pool ! i, take i pool @ drop (Suc i) pool) else (pa_new, pool))"

definition PutPollAttachment :: "attachment option \<Rightarrow> attachment list \<Rightarrow> attachment list" where
  "PutPollAttachment pa pool =
     (case pa of None \<Rightarrow> pool | Some pa \<Rightarrow> pool @ [pa\<lparr>pa_FD := 0, pa_Callback := None\<rparr>])"

definition packPollAttachment :: "int \<Rightarrow> pa_callback \<Rightarrow> attachment" where
  "packPollAttachment lnfd handler = \<lparr>pa_FD = lnfd, pa_Callback = Some handler\<rparr>"

text \<open>Attachments are told apart by their owners.\<close>

datatype pa_ref = PaWake | PaListen | PaConn nat

text \<open>What the attachment holds: the poller's has no callback, and that of a released connection has been cleared.\<close>

definition pa_deref :: "('k, 'u) lstate \<Rightarrow> pa_ref \<Rightarrow> attachment" where
  "pa_deref st r =
     (case r of
        PaWake \<Rightarrow> \<lparr>pa_FD = ls_efd st, pa_Callback = None\<rparr>
      | PaListen \<Rightarrow> packPollAttachment (ls_lnfd st) CbAccept
      | PaConn c \<Rightarrow>
          let x = ls_conn st c
          in if c_attached x then \<lparr>pa_FD = c_fd x, pa_Callback = Some (if c_isDatagram x then CbReadUDP else CbHandleEvents c)\<rparr>
             else pa_new)"

text \<open>Every attachment in the pool is clear, so a new connection starts from a clear one.\<close>

definition pa_pool_ok :: "attachment list \<Rightarrow> bool" where
  "pa_pool_ok pool \<longleftrightarrow> (\<forall>pa\<in>set pool. pa = pa_new)"

lemma pa_pool:
  "pa_pool_ok pool \<Longrightarrow> pa_pool_ok (PutPollAttachment pa pool)"
  "pa_pool_ok pool \<Longrightarrow> fst (GetPollAttachment i pool) = pa_new \<and> pa_pool_ok (snd (GetPollAttachment i pool))"
  by (auto simp: pa_pool_ok_def PutPollAttachment_def GetPollAttachment_def pa_new_def split: option.splits
      dest: in_set_takeD in_set_dropD)

end
