(* ===== verification/Kqueue.thy ===== *)
theory Kqueue
  imports BlockingPoller PollAttachment Startup
begin

text \<open>
  The poller and the reactors of FreeBSD, DragonFly and macOS (\<open>internal/netpoll/kqueue_default_poller.go\<close>,
  \<open>internal/netpoll/kqueue_events.go\<close>, \<open>reactor_default_bsd.go\<close>, \<open>connection_bsd.go\<close>).

  \<open>unix.Kevent\<close> without an event list is the argument \<open>kev\<close>, a function from the kernel's state and a list of
  changes. The handlers of \<open>eventloop.go\<close> and \<open>connection.go\<close> are those of \<open>EventLoop\<close>: \<open>bsd_world\<close> presents a
  kernel with \<open>kevent\<close> to them as a \<open>world\<close>, in which the calls of the poller are the changes this poller makes, and
  waking the poller up is a write to the descriptor \<open>noteFd\<close>, which stands for the user event. What this leaves out
  is the name of the call in the errors of the poller.
\<close>

section \<open>Events\<close>

text \<open>The filters, with the one that \<open>kqueue_events.go\<close> adds for exceptional events.\<close>

datatype kfilter = EVFILT_READ | EVFILT_WRITE | EVFILT_USER | EVFilterSock

datatype kflag = EV_ADD | EV_DELETE | EV_CLEAR | EV_EOF | EV_ERROR

record kevent =
  ke_ident :: int
  ke_filter :: kfilter
  ke_flags :: "kflag list"
  ke_trigger :: bool
  ke_udata :: "pa_ref option"

definition kevent_for :: "int \<Rightarrow> kfilter \<Rightarrow> kflag list \<Rightarrow> kevent" where
  "kevent_for fd filt flags = \<lparr>ke_ident = fd, ke_filter = filt, ke_flags = flags, ke_trigger = False, ke_udata = None\<rparr>"

definition kq_note :: "kevent list" where
  "kq_note = [\<lparr>ke_ident = 0, ke_filter = EVFILT_USER, ke_flags = [], ke_trigger = True, ke_udata = None\<rparr>]"

type_synonym 'k kevent_call = "'k \<Rightarrow> kevent list \<Rightarrow> 'k \<times> errno option"

section \<open>The event list\<close>

record kqlist =
  kl_size :: int
  kl_events :: "kevent list"

definition kq_InitPollEventsCap :: int where "kq_InitPollEventsCap = 64"
definition kq_MaxPollEventsCap :: int where "kq_MaxPollEventsCap = 512"
definition kq_MinPollEventsCap :: int where "kq_MinPollEventsCap = 16"
definition kq_MaxAsyncTasksAtOneTime :: nat where "kq_MaxAsyncTasksAtOneTime = 128"

definition kq_newEventList :: "int \<Rightarrow> kqlist" where
  "kq_newEventList sz = \<lparr>kl_size = sz, kl_events = replicate (nat sz) (kevent_for 0 EVFILT_READ [])\<rparr>"

definition kl_expand :: "kqlist \<Rightarrow> kqlist" where
  "kl_expand l = (let newSize = kl_size l * 2 in if newSize \<le> kq_MaxPollEventsCap then kq_newEventList newSize else l)"

definition kl_shrink :: "kqlist \<Rightarrow> kqlist" where
  "kl_shrink l = (let newSize = kl_size l div 2 in if newSize \<ge> kq_MinPollEventsCap then kq_newEventList newSize else l)"

section \<open>The poller\<close>

record 'k kqsys =
  q_kqueue :: "'k \<Rightarrow> 'k \<times> int \<times> errno option"
  q_kevent :: "'k \<Rightarrow> int \<Rightarrow> kevent list \<Rightarrow> 'k \<times> errno option"

text \<open>The poller, as its descriptor; the task queues are part of the state of the loop.\<close>

definition kq_Close :: "'k netsys \<Rightarrow> 'k \<Rightarrow> int \<Rightarrow> 'k \<times> gerror option" where
  "kq_Close N k fd = syscall_err ''close'' (n_close N k fd)"

definition kq_OpenPoller :: "'k netsys \<Rightarrow> 'k kqsys \<Rightarrow> 'k \<Rightarrow> 'k \<times> int option \<times> gerror option" where
  "kq_OpenPoller N Q k =
     (case q_kqueue Q k of (k, fd, err) \<Rightarrow>
        if err \<noteq> None then (k, None, NewSyscallError ''kqueue'' err)
        else
          (case q_kevent Q k fd [kevent_for 0 EVFILT_USER [EV_ADD, EV_CLEAR]] of (k, err) \<Rightarrow>
             if err \<noteq> None then (fst (kq_Close N k fd), None, NewSyscallError ''kevent add|clear'' err)
             else (k, Some fd, None)))"

text \<open>The changes of the poller's operations.\<close>

definition ch_AddReadWrite :: "int \<Rightarrow> kevent list" where
  "ch_AddReadWrite fd = [kevent_for fd EVFILT_READ [EV_ADD], kevent_for fd EVFILT_WRITE [EV_ADD]]"

definition ch_AddRead :: "int \<Rightarrow> kevent list" where
  "ch_AddRead fd = [kevent_for fd EVFILT_READ [EV_ADD]]"

definition ch_AddWrite :: "int \<Rightarrow> kevent list" where
  "ch_AddWrite fd = [kevent_for fd EVFILT_WRITE [EV_ADD]]"

definition ch_ModRead :: "int \<Rightarrow> kevent list" where
  "ch_ModRead fd = [kevent_for fd EVFILT_WRITE [EV_DELETE]]"

definition ch_ModReadWrite :: "int \<Rightarrow> kevent list" where
  "ch_ModReadWrite fd = [kevent_for fd EVFILT_WRITE [EV_ADD]]"

definition kq_AddReadWrite :: "'k kevent_call \<Rightarrow> 'k \<Rightarrow> int \<Rightarrow> 'k \<times> gerror option" where
  "kq_AddReadWrite kev k fd = syscall_err ''kevent add'' (kev k (ch_AddReadWrite fd))"

definition kq_AddRead :: "'k kevent_call \<Rightarrow> 'k \<Rightarrow> int \<Rightarrow> 'k \<times> gerror option" where
  "kq_AddRead kev k fd = syscall_err ''kevent add'' (kev k (ch_AddRead fd))"

definition kq_AddWrite :: "'k kevent_call \<Rightarrow> 'k \<Rightarrow> int \<Rightarrow> 'k \<times> gerror option" where
  "kq_AddWrite kev k fd = syscall_err ''kevent add'' (kev k (ch_AddWrite fd))"

definition kq_ModRead :: "'k kevent_call \<Rightarrow> 'k \<Rightarrow> int \<Rightarrow> 'k \<times> gerror option" where
  "kq_ModRead kev k fd = syscall_err ''kevent delete'' (kev k (ch_ModRead fd))"

definition kq_ModReadWrite :: "'k kevent_call \<Rightarrow> 'k \<Rightarrow> int \<Rightarrow> 'k \<times> gerror option" where
  "kq_ModReadWrite kev k fd = syscall_err ''kevent add'' (kev k (ch_ModReadWrite fd))"

definition kq_Delete :: "'k \<Rightarrow> int \<Rightarrow> 'k \<times> gerror option" where
  "kq_Delete k fd = (k, None)"

section \<open>A kernel with kevent as a world\<close>

text \<open>The kernel, and the pseudo descriptor of the user event: whether it is open and what was written to it.\<close>

record 'k bsd =
  bd_k :: 'k
  bd_noteOpen :: bool
  bd_notes :: "byte list"

definition noteFd :: int where "noteFd = -1"

definition bsd_note :: "'k kevent_call \<Rightarrow> 'k bsd \<Rightarrow> byte list \<Rightarrow> 'k bsd \<times> int \<times> errno option" where
  "bsd_note kev b d =
     (if \<not> bd_noteOpen b then (b, -1, Some EBADF)
      else
        (case kev (bd_k b) kq_note of (k, e) \<Rightarrow>
           if e = None then (b\<lparr>bd_k := k, bd_notes := bd_notes b @ d\<rparr>, glen d, None) else (b\<lparr>bd_k := k\<rparr>, -1, e)))"

definition bsd_lift :: "'k bsd \<Rightarrow> 'k \<times> 'a \<Rightarrow> 'k bsd \<times> 'a" where
  "bsd_lift b r = (b\<lparr>bd_k := fst r\<rparr>, snd r)"

definition bsd_ctl :: "'k kevent_call \<Rightarrow> 'k \<Rightarrow> ctlop \<Rightarrow> int \<Rightarrow> 32 word \<Rightarrow> 'k \<times> errno option" where
  "bsd_ctl kev k op' fd ev =
     (case op' of
        EPOLL_CTL_ADD \<Rightarrow>
          kev k (if ev = readEvents then ch_AddRead fd else if ev = writeEvents then ch_AddWrite fd else ch_AddReadWrite fd)
      | EPOLL_CTL_MOD \<Rightarrow> kev k (if ev = readEvents then ch_ModRead fd else ch_ModReadWrite fd)
      | EPOLL_CTL_DEL \<Rightarrow> (k, None))"

definition bsd_world :: "'k world \<Rightarrow> 'k kevent_call \<Rightarrow> 'k bsd world" where
  "bsd_world W kev =
     \<lparr>w_env = w_env W,
      w_read = (\<lambda>b fd len. if fd = noteFd then (b, -1, [], Some EBADF) else bsd_lift b (w_read W (bd_k b) fd len)),
      w_write = (\<lambda>b fd d. if fd = noteFd then bsd_note kev b d else bsd_lift b (w_write W (bd_k b) fd d)),
      w_writev = (\<lambda>b fd iov. if fd = noteFd then bsd_note kev b (concat iov) else bsd_lift b (w_writev W (bd_k b) fd iov)),
      w_close = (\<lambda>b fd. if fd = noteFd then (b\<lparr>bd_noteOpen := False\<rparr>, Some EBADF) else bsd_lift b (w_close W (bd_k b) fd)),
      w_ctl = (\<lambda>b op' fd ev. bsd_lift b (bsd_ctl kev (bd_k b) op' fd ev)),
      w_send = (\<lambda>b fd d. bsd_lift b (w_send W (bd_k b) fd d)),
      w_sendto = (\<lambda>b fd d sa. bsd_lift b (w_sendto W (bd_k b) fd d sa)),
      w_recvfrom = (\<lambda>b fd len. bsd_lift b (w_recvfrom W (bd_k b) fd len)),
      w_ifname = w_ifname W\<rparr>"

text \<open>\<open>Trigger\<close> and \<open>UrgentTrigger\<close>.\<close>

definition kq_wakeup ::
  "'k kevent_call \<Rightarrow> ('k bsd, 'u) lstate \<Rightarrow> ('k bsd, 'u) lstate \<times> gerror option" where
  "kq_wakeup kev st =
     (if \<not> ls_wakeup st then
        (case bsd_note kev (ls_k st) [1, 0, 0, 0, 0, 0, 0, 0] of (b, n, e) \<Rightarrow>
           (st\<lparr>ls_wakeup := True, ls_k := b\<rparr>, NewSyscallError ''kevent trigger'' (if e = Some EAGAIN then None else e)))
      else (st, None))"

definition kq_Trigger ::
  "'k kevent_call \<Rightarrow> ('k bsd, 'u) lstate \<Rightarrow> 'u task \<Rightarrow> ('k bsd, 'u) lstate \<times> gerror option" where
  "kq_Trigger kev st t = kq_wakeup kev (st\<lparr>ls_async := ls_async st @ [t]\<rparr>)"

definition kq_UrgentTrigger ::
  "'k kevent_call \<Rightarrow> ('k bsd, 'u) lstate \<Rightarrow> 'u task \<Rightarrow> ('k bsd, 'u) lstate \<times> gerror option" where
  "kq_UrgentTrigger kev st t = kq_wakeup kev (st\<lparr>ls_urgent := ls_urgent st @ [t]\<rparr>)"

section \<open>Polling\<close>

type_synonym ('k, 'u) kq_callback =
  "('k, 'u) lstate \<Rightarrow> int \<Rightarrow> kfilter \<Rightarrow> (('k, 'u) lstate \<times> gerror option) go"

definition kq_evFilter :: "kevent \<Rightarrow> kfilter" where
  "kq_evFilter ev = (if EV_EOF \<in> set (ke_flags ev) \<or> EV_ERROR \<in> set (ke_flags ev) then EVFilterSock else ke_filter ev)"

primrec kq_dispatch ::
  "('k, 'u) kq_callback \<Rightarrow> kevent list \<Rightarrow> nat \<Rightarrow> int \<Rightarrow> ('k, 'u) lstate \<Rightarrow> bool \<Rightarrow>
   (('k, 'u) lstate \<times> bool + ('k, 'u) lstate \<times> gerror option) go" where
  "kq_dispatch cb evs 0 i st doChores = Ret (Inl (st, doChores))"
| "kq_dispatch cb evs (Suc m) i st doChores =
     go_bind (go_index evs i) (\<lambda>ev.
     if ke_ident ev \<noteq> 0 then
       go_bind (cb st (ke_ident ev) (kq_evFilter ev)) (\<lambda>(st, err).
       if err = Some ErrAcceptSocket \<or> err = Some ErrEngineShutdown then Ret (Inr (st, err))
       else kq_dispatch cb evs m (i + 1) st doChores)
     else kq_dispatch cb evs m (i + 1) st True)"

definition kq_resize :: "int \<Rightarrow> kqlist \<Rightarrow> kqlist" where
  "kq_resize n l = (if n = kl_size l then kl_expand l else if n < kl_size l div 2 then kl_shrink l else l)"

definition kq_poller ::
  "'k world \<Rightarrow> 'u handler \<Rightarrow> ('k, 'u) kq_callback \<Rightarrow> (kqlist, kevent, 'k, 'u) blk" where
  "kq_poller W h cb =
     \<lparr>bk_fill = (\<lambda>l es. l\<lparr>kl_events := go_copy (kl_events l) es\<rparr>),
      bk_dispatch = (\<lambda>l n. kq_dispatch cb (kl_events l) n 0),
      bk_chores = run_chores kq_MaxAsyncTasksAtOneTime W h,
      bk_resize = kq_resize\<rparr>"

definition kq_Polling ::
  "'k world \<Rightarrow> 'u handler \<Rightarrow> ('k, 'u) kq_callback \<Rightarrow> ('k, 'u) lstate \<Rightarrow> (int \<times> errno option \<times> kevent list) list \<Rightarrow>
   (kqlist bstate \<times> ('k, 'u) lstate + ('k, 'u) lstate \<times> gerror option) go" where
  "kq_Polling W h cb st outs =
     blk_rounds (kq_poller W h cb)
       \<lparr>bs_events = kq_newEventList kq_InitPollEventsCap, bs_chores = False, bs_block = True\<rparr> st outs"

section \<open>Reactors\<close>

text \<open>\<open>conn.handleEvents\<close>, which the callbacks of the reactors repeat.\<close>

definition kq_handleEvents ::
  "'k world \<Rightarrow> 'u handler \<Rightarrow> ('k, 'u) lstate \<Rightarrow> nat \<Rightarrow> kfilter \<Rightarrow> (('k, 'u) lstate \<times> gerror option) go" where
  "kq_handleEvents W h st c filt =
     (case filt of
        EVFilterSock \<Rightarrow> el_closeConn W h st c (Some (Errno ECONNRESET))
      | EVFILT_WRITE \<Rightarrow> go_bind (out_IsEmpty st c) (\<lambda>empty. if \<not> empty then el_write W h st c else Ret (st, None))
      | EVFILT_READ \<Rightarrow> el_read W h st c
      | EVFILT_USER \<Rightarrow> Ret (st, None))"

definition kq_onEvent :: "'k world \<Rightarrow> 'u handler \<Rightarrow> ('k, 'u) kq_callback" where
  "kq_onEvent W h st fd filt =
     (case ls_connections st fd of
        Some c \<Rightarrow> kq_handleEvents W h st c filt
      | None \<Rightarrow> Ret (st, None))"

definition kq_runEvent ::
  "'k world \<Rightarrow> 'k listen \<Rightarrow> 'u handler \<Rightarrow> string \<Rightarrow> int \<Rightarrow> int \<Rightarrow> stale \<Rightarrow> (('k, 'u) lstate \<Rightarrow> nat) \<Rightarrow> ('k, 'u) kq_callback" where
  "kq_runEvent W A h network keepAlive cap mem new st fd filt =
     (case ls_connections st fd of
        Some c \<Rightarrow> kq_handleEvents W h st c filt
      | None \<Rightarrow> el_accept W A h network keepAlive cap mem (new st) st fd)"

section \<open>What the kernel promises\<close>

text \<open>
  \<open>reg k fd filt\<close>: the filter is registered for \<open>fd\<close>. \<open>kevent\<close> applies a list of changes in order and stops at the first
  one it refuses; adding a filter again is no error, deleting one that is not there is.
\<close>

type_synonym kinterest = "int \<Rightarrow> kfilter \<Rightarrow> bool"

definition kq_change :: "kinterest \<Rightarrow> kevent \<Rightarrow> kinterest" where
  "kq_change r ch =
     (if EV_DELETE \<in> set (ke_flags ch) then r(ke_ident ch := (r (ke_ident ch))(ke_filter ch := False))
      else if EV_ADD \<in> set (ke_flags ch) then r(ke_ident ch := (r (ke_ident ch))(ke_filter ch := True))
      else r)"

definition kq_missing :: "kinterest \<Rightarrow> kevent \<Rightarrow> bool" where
  "kq_missing r ch \<longleftrightarrow> EV_DELETE \<in> set (ke_flags ch) \<and> \<not> r (ke_ident ch) (ke_filter ch)"

fun kq_applies :: "kinterest \<Rightarrow> kevent list \<Rightarrow> kinterest \<Rightarrow> errno option \<Rightarrow> bool" where
  "kq_applies r [] r' e \<longleftrightarrow> r' = r \<and> e = None"
| "kq_applies r (ch # chs) r' e \<longleftrightarrow>
     (if kq_missing r ch then r' = r \<and> e = Some ENOENT
      else r' = r \<and> e \<noteq> None \<or> kq_applies (kq_change r ch) chs r' e)"

definition kqueue_ok :: "'k world \<Rightarrow> 'k kevent_call \<Rightarrow> ('k \<Rightarrow> kinterest) \<Rightarrow> bool" where
  "kqueue_ok W kev reg \<longleftrightarrow>
     (\<forall>k chs. kq_applies (reg k) chs (reg (fst (kev k chs))) (snd (kev k chs))) \<and>
     (\<forall>k fd d. reg (fst (w_write W k fd d)) = reg k) \<and>
     (\<forall>k fd iov. reg (fst (w_writev W k fd iov)) = reg k) \<and>
     (\<forall>k fd len. reg (fst (w_read W k fd len)) = reg k) \<and>
     (\<forall>k fd. reg (fst (w_close W k fd)) = (reg k)(fd := \<lambda>_. False))"

text \<open>\<open>kevent\<close> moves no bytes and closes no descriptor.\<close>

definition kevent_ok :: "'k kevent_call \<Rightarrow> ('k \<Rightarrow> int \<Rightarrow> byte list) \<Rightarrow> ('k \<Rightarrow> int \<Rightarrow> bool) \<Rightarrow> bool" where
  "kevent_ok kev peer isopen \<longleftrightarrow> (\<forall>k chs. peer (fst (kev k chs)) = peer k \<and> isopen (fst (kev k chs)) = isopen k)"

definition bsd_peer :: "('k \<Rightarrow> int \<Rightarrow> byte list) \<Rightarrow> 'k bsd \<Rightarrow> int \<Rightarrow> byte list" where
  "bsd_peer peer b fd = (if fd = noteFd then bd_notes b else peer (bd_k b) fd)"

definition bsd_isopen :: "('k \<Rightarrow> int \<Rightarrow> bool) \<Rightarrow> 'k bsd \<Rightarrow> int \<Rightarrow> bool" where
  "bsd_isopen isopen b fd = (if fd = noteFd then bd_noteOpen b else isopen (bd_k b) fd)"

text \<open>The interest in writing, in the form the handlers speak of.\<close>

definition bsd_watch :: "('k \<Rightarrow> kinterest) \<Rightarrow> 'k bsd \<Rightarrow> int \<Rightarrow> 32 word option" where
  "bsd_watch reg b fd = (if reg (bd_k b) fd EVFILT_WRITE then Some readWriteEvents else None)"

section \<open>The handlers on this kernel\<close>

lemma bsd_sel [simp]:
  "w_env (bsd_world W kev) = w_env W"
  "w_read (bsd_world W kev) b fd len =
     (if fd = noteFd then (b, -1, [], Some EBADF) else bsd_lift b (w_read W (bd_k b) fd len))"
  "w_write (bsd_world W kev) b fd d = (if fd = noteFd then bsd_note kev b d else bsd_lift b (w_write W (bd_k b) fd d))"
  "w_writev (bsd_world W kev) b fd iov =
     (if fd = noteFd then bsd_note kev b (concat iov) else bsd_lift b (w_writev W (bd_k b) fd iov))"
  "w_close (bsd_world W kev) b fd =
     (if fd = noteFd then (b\<lparr>bd_noteOpen := False\<rparr>, Some EBADF) else bsd_lift b (w_close W (bd_k b) fd))"
  "w_ctl (bsd_world W kev) b op' fd ev = bsd_lift b (bsd_ctl kev (bd_k b) op' fd ev)"
  by (simp_all add: bsd_world_def)

lemma bsd_env_ok: "env_ok W \<Longrightarrow> env_ok (bsd_world W kev)"
  by (simp add: env_ok_def)

lemma bsd_reads_ok:
  assumes "reads_ok W"
  shows "reads_ok (bsd_world W kev)"
  unfolding reads_ok_def
proof (intro allI)
  fix b :: "'a bsd" and fd len
  have "case w_read W (bd_k b) fd len of (k', n, data, e) \<Rightarrow> if e = None then n = glen data \<and> n \<le> len else n = -1"
    using assms by (simp add: reads_ok_def)
  then show "case w_read (bsd_world W kev) b fd len of (k', n, data, e) \<Rightarrow>
      if e = None then n = glen data \<and> n \<le> len else n = -1"
    by (auto simp: bsd_lift_def split: prod.splits if_splits)
qed

lemma bsd_ctl_kernel: "kevent_ok kev peer isopen \<Longrightarrow>
    peer (fst (bsd_ctl kev k op' fd ev)) = peer k \<and> isopen (fst (bsd_ctl kev k op' fd ev)) = isopen k"
  by (cases op') (simp_all add: kevent_ok_def bsd_ctl_def)

lemma bsd_sends:
  assumes "sends peer (bd_k b) fd d r" "fd \<noteq> noteFd"
  shows "sends (bsd_peer peer) b fd d (bsd_lift b r)"
  using assms by (cases r) (auto simp: sends_def bsd_lift_def bsd_peer_def)

lemma bsd_note_sends:
  assumes "kevent_ok kev peer isopen"
  shows "sends (bsd_peer peer) b noteFd d (bsd_note kev b d)"
proof -
  obtain k e where k: "kev (bd_k b) kq_note = (k, e)" by (metis surj_pair)
  then have "peer k = peer (bd_k b)" using assms by (metis kevent_ok_def fst_conv)
  with k show ?thesis by (auto simp: sends_def bsd_note_def bsd_peer_def)
qed

lemma bsd_peer_upd: "peer k = peer (bd_k b) \<Longrightarrow> bsd_peer peer (b\<lparr>bd_k := k\<rparr>) = bsd_peer peer b"
  by (auto simp: fun_eq_iff bsd_peer_def)

lemma bsd_kernel_ok:
  assumes K: "kernel_ok W peer" and Q: "kevent_ok kev peer isopen"
  shows "kernel_ok (bsd_world W kev) (bsd_peer peer)"
proof -
  have "sends (bsd_peer peer) b fd d (w_write (bsd_world W kev) b fd d)" for b :: "'a bsd" and fd d
    using K bsd_sends[of peer b fd d] bsd_note_sends[OF Q] by (simp add: kernel_ok_def)
  moreover have "sends (bsd_peer peer) b fd (concat iov) (w_writev (bsd_world W kev) b fd iov)" for b :: "'a bsd" and fd iov
    using K bsd_sends[of peer b fd] bsd_note_sends[OF Q] by (simp add: kernel_ok_def)
  moreover have "bsd_peer peer (fst (w_read (bsd_world W kev) b fd len)) = bsd_peer peer b" for b :: "'a bsd" and fd len
    using K by (simp add: kernel_ok_def bsd_lift_def bsd_peer_upd)
  moreover have "bsd_peer peer (fst (w_close (bsd_world W kev) b fd)) = bsd_peer peer b" for b :: "'a bsd" and fd
  proof -
    have "bsd_peer peer (b\<lparr>bd_noteOpen := False\<rparr>) = bsd_peer peer b" by (auto simp: fun_eq_iff bsd_peer_def)
    with K show ?thesis by (simp add: kernel_ok_def bsd_lift_def bsd_peer_upd)
  qed
  moreover have "bsd_peer peer (fst (w_ctl (bsd_world W kev) b op' fd ev)) = bsd_peer peer b" for b :: "'a bsd" and op' fd ev
    using bsd_ctl_kernel[OF Q] by (simp add: bsd_lift_def bsd_peer_upd)
  ultimately show ?thesis by (simp add: kernel_ok_def)
qed

lemma bsd_isopen_upd: "isopen k = isopen (bd_k b) \<Longrightarrow> bsd_isopen isopen (b\<lparr>bd_k := k\<rparr>) = bsd_isopen isopen b"
  by (auto simp: fun_eq_iff bsd_isopen_def)

lemma bsd_note_isopen:
  assumes "kevent_ok kev peer isopen"
  shows "bsd_isopen isopen (fst (bsd_note kev b d)) = bsd_isopen isopen b"
    "\<not> bd_noteOpen b \<Longrightarrow> snd (snd (bsd_note kev b d)) = Some EBADF"
proof -
  obtain k e where k: "kev (bd_k b) kq_note = (k, e)" by (metis surj_pair)
  then have "isopen k = isopen (bd_k b)" using assms by (metis kevent_ok_def fst_conv)
  with k show "bsd_isopen isopen (fst (bsd_note kev b d)) = bsd_isopen isopen b"
    by (intro ext) (simp add: bsd_note_def bsd_isopen_def)
qed (simp add: bsd_note_def)

lemma bsd_fds_ok:
  assumes F: "fds_ok W isopen" and Q: "kevent_ok kev peer isopen"
  shows "fds_ok (bsd_world W kev) (bsd_isopen isopen)"
proof -
  let ?W = "bsd_world W kev" and ?o = "bsd_isopen isopen"
  have "?o (fst (w_write ?W b fd d)) = ?o b \<and> (\<not> ?o b fd \<longrightarrow> snd (snd (w_write ?W b fd d)) = Some EBADF)" for b :: "'a bsd" and fd d
    using F bsd_note_isopen[OF Q] by (simp add: fds_ok_def bsd_lift_def bsd_isopen_upd) (simp add: bsd_isopen_def)
  moreover have "?o (fst (w_writev ?W b fd iov)) = ?o b \<and> (\<not> ?o b fd \<longrightarrow> snd (snd (w_writev ?W b fd iov)) = Some EBADF)"
    for b :: "'a bsd" and fd iov
    using F bsd_note_isopen[OF Q] by (simp add: fds_ok_def bsd_lift_def bsd_isopen_upd) (simp add: bsd_isopen_def)
  moreover have "?o (fst (w_read ?W b fd len)) = ?o b \<and> (\<not> ?o b fd \<longrightarrow> snd (snd (snd (w_read ?W b fd len))) = Some EBADF)"
    for b :: "'a bsd" and fd len
    using F by (simp add: fds_ok_def bsd_lift_def bsd_isopen_upd) (simp add: bsd_isopen_def)
  moreover have "?o (fst (w_ctl ?W b op' fd ev)) = ?o b" for b :: "'a bsd" and op' fd ev
    using bsd_ctl_kernel[OF Q] by (simp add: bsd_lift_def bsd_isopen_upd)
  moreover have "\<not> ?o (fst (w_close ?W b fd)) fd" for b :: "'a bsd" and fd
    using F by (simp add: fds_ok_def bsd_lift_def bsd_isopen_def)
  ultimately show ?thesis unfolding fds_ok_def by blast
qed

lemma kq_single:
  assumes "kqueue_ok W kev reg" "kev k [ch] = (k', None)"
  shows "reg k' = kq_change (reg k) ch \<and> \<not> kq_missing (reg k) ch"
proof -
  have "kq_applies (reg k) [ch] (reg (fst (kev k [ch]))) (snd (kev k [ch]))" using assms(1) unfolding kqueue_ok_def by blast
  with assms(2) show ?thesis by (simp split: if_split_asm)
qed

lemma kq_refused:
  assumes "kqueue_ok W kev reg" "kev k [ch] = (k', Some e)"
  shows "reg k' = reg k \<and> (kq_missing (reg k) ch \<longrightarrow> e = ENOENT)"
proof -
  have "kq_applies (reg k) [ch] (reg (fst (kev k [ch]))) (snd (kev k [ch]))" using assms(1) unfolding kqueue_ok_def by blast
  with assms(2) show ?thesis by (simp split: if_split_asm)
qed

text \<open>The note leaves the interest alone.\<close>

lemma kq_note_reg: "kqueue_ok W kev reg \<Longrightarrow> kev k kq_note = (k', e) \<Longrightarrow> reg k' = reg k"
  using kq_single[of W kev reg k "hd kq_note" k'] kq_refused[of W kev reg k "hd kq_note" k']
  by (cases e) (auto simp: kq_note_def kq_change_def)

lemma bsd_ctl_ok:
  assumes Q: "kqueue_ok W kev reg"
  shows "ctl_ok (bsd_world W kev) (bsd_watch reg)"
proof -
  let ?W = "bsd_world W kev"
  have rw: "readWriteEvents \<noteq> readEvents" by (simp add: readWriteEvents_def readEvents_def writeEvents_def EPOLLPRI_def EPOLLIN_def EPOLLOUT_def)
  have upd: "bsd_watch reg (b\<lparr>bd_k := k\<rparr>) = bsd_watch reg b" if "reg k = reg (bd_k b)" for b :: "'a bsd" and k
    using that by (auto simp: fun_eq_iff bsd_watch_def)
  have noted: "bsd_watch reg (fst (bsd_note kev b d)) = bsd_watch reg b" for b :: "'a bsd" and d
  proof -
    obtain k e where "kev (bd_k b) kq_note = (k, e)" by (metis surj_pair)
    with kq_note_reg[OF Q this] show ?thesis by (auto simp: fun_eq_iff bsd_note_def bsd_watch_def)
  qed
  have "bsd_watch reg (fst (w_ctl ?W b EPOLL_CTL_MOD fd readWriteEvents)) = (bsd_watch reg b)(fd \<mapsto> readWriteEvents)"
    if s: "snd (w_ctl ?W b EPOLL_CTL_MOD fd readWriteEvents) = None" for b :: "'a bsd" and fd
  proof -
    obtain k where k: "kev (bd_k b) (ch_ModReadWrite fd) = (k, None)"
      using s rw by (cases "kev (bd_k b) (ch_ModReadWrite fd)") (simp add: bsd_ctl_def bsd_lift_def)
    have "reg k = kq_change (reg (bd_k b)) (kevent_for fd EVFILT_WRITE [EV_ADD])"
      using kq_single[OF Q k[unfolded ch_ModReadWrite_def]] by simp
    with k rw show ?thesis by (auto simp: fun_eq_iff bsd_ctl_def bsd_lift_def bsd_watch_def kq_change_def kevent_for_def)
  qed
  moreover have "bsd_watch reg (fst (w_write ?W b fd d)) = bsd_watch reg b"
    "bsd_watch reg (fst (w_writev ?W b fd iov)) = bsd_watch reg b"
    "bsd_watch reg (fst (w_read ?W b fd len)) = bsd_watch reg b" for b :: "'a bsd" and fd d iov len
    using Q noted upd by (simp_all add: bsd_lift_def kqueue_ok_def)
  ultimately show ?thesis by (simp add: ctl_ok_def)
qed

end
