(* ===== verification/KqueueLoop.thy ===== *)
theory KqueueLoop
  imports Kqueue LoopProperties
begin

text \<open>
  The event loop on a kernel with \<open>kevent\<close>: the polling loop of \<open>kqueue_default_poller.go\<close> as an instance of
  \<open>blocking_poller\<close>, the invariant of a loop with the reactors of \<open>reactor_default_bsd.go\<close>, and the comparison of the
  two pollers. What the two have in common as interest lists is the locale \<open>interest_list\<close>, which both interpret.
\<close>

section \<open>The calls of the poller\<close>

text \<open>An error with another name of the failing call.\<close>

definition relabel :: "string \<Rightarrow> gerror option \<Rightarrow> gerror option" where
  "relabel call e = (case e of Some (SyscallError _ n) \<Rightarrow> Some (SyscallError call n) | _ \<Rightarrow> e)"

lemma relabel_new: "relabel call (NewSyscallError call' e) = NewSyscallError call e"
  by (cases e) (simp_all add: relabel_def NewSyscallError_def)

text \<open>The calls the handlers make are those of this poller, up to the name in an error.\<close>

lemma event_sets_distinct [simp]:
  "writeEvents \<noteq> readEvents" "readWriteEvents \<noteq> readEvents" "readWriteEvents \<noteq> writeEvents"
  by (simp_all add: readWriteEvents_def readEvents_def writeEvents_def EPOLLPRI_def EPOLLIN_def EPOLLOUT_def)

definition bsd_call :: "('k bsd, 'u) lstate \<Rightarrow> string \<Rightarrow> 'k \<times> gerror option \<Rightarrow> (('k bsd, 'u) lstate \<times> gerror option) go" where
  "bsd_call st call r = Ret (st\<lparr>ls_k := (ls_k st)\<lparr>bd_k := fst r\<rparr>\<rparr>, relabel call (snd r))"

lemma bsd_poller_calls:
  assumes "c_attached (ls_conn st c)"
  defines "k \<equiv> bd_k (ls_k st)" and "fd \<equiv> c_fd (ls_conn st c)"
  shows "pl_AddRead (bsd_world W kev) st c = bsd_call st ''epoll_ctl add'' (kq_AddRead kev k fd)"
    "pl_AddWrite (bsd_world W kev) st c = bsd_call st ''epoll_ctl add'' (kq_AddWrite kev k fd)"
    "pl_AddReadWrite (bsd_world W kev) st c = bsd_call st ''epoll_ctl add'' (kq_AddReadWrite kev k fd)"
    "pl_ModRead (bsd_world W kev) st c = bsd_call st ''epoll_ctl mod'' (kq_ModRead kev k fd)"
    "pl_ModReadWrite (bsd_world W kev) st c = bsd_call st ''epoll_ctl mod'' (kq_ModReadWrite kev k fd)"
    "Ret (pl_Delete (bsd_world W kev) st fd) = bsd_call st ''epoll_ctl del'' (kq_Delete k fd)"
  using assms(1) unfolding k_def fd_def
  by (simp_all add: pl_AddRead_def pl_AddWrite_def pl_AddReadWrite_def pl_ModRead_def pl_ModReadWrite_def pl_Delete_def
      pl_attached_def pl_ctl_def bsd_call_def bsd_ctl_def bsd_lift_def kq_AddRead_def kq_AddWrite_def kq_AddReadWrite_def
      kq_ModRead_def kq_ModReadWrite_def kq_Delete_def syscall_err_def relabel_new case_prod_unfold)
    (simp add: relabel_def NewSyscallError_def)

lemma bsd_triggers:
  assumes "ls_efd st = noteFd"
  shows "pl_Trigger (bsd_world W kev) st t = (fst (kq_Trigger kev st t), relabel ''write'' (snd (kq_Trigger kev st t)))"
    "pl_UrgentTrigger (bsd_world W kev) st t =
      (fst (kq_UrgentTrigger kev st t), relabel ''write'' (snd (kq_UrgentTrigger kev st t)))"
proof -
  have "pl_wakeup (bsd_world W kev) st' = (fst (kq_wakeup kev st'), relabel ''write'' (snd (kq_wakeup kev st')))"
    if "ls_efd st' = noteFd" for st' :: "('a bsd, 'b) lstate"
    using that by (simp add: pl_wakeup_def kq_wakeup_def relabel_new split: prod.split) (simp add: relabel_def)
  with assms show "pl_Trigger (bsd_world W kev) st t = (fst (kq_Trigger kev st t), relabel ''write'' (snd (kq_Trigger kev st t)))"
    "pl_UrgentTrigger (bsd_world W kev) st t =
      (fst (kq_UrgentTrigger kev st t), relabel ''write'' (snd (kq_UrgentTrigger kev st t)))"
    by (simp_all add: pl_Trigger_def kq_Trigger_def pl_UrgentTrigger_def kq_UrgentTrigger_def)
qed

section \<open>Polling\<close>

definition kqlist_ok :: "kqlist \<Rightarrow> bool" where
  "kqlist_ok l \<longleftrightarrow> kl_size l \<in> {16, 32, 64, 128, 256, 512} \<and> glen (kl_events l) = kl_size l"

lemma kqlist_new: "sz \<in> {16, 32, 64, 128, 256, 512} \<Longrightarrow> kqlist_ok (kq_newEventList sz)"
  by (auto simp: kqlist_ok_def kq_newEventList_def)

lemma kqlist_resize: "kqlist_ok l \<Longrightarrow> kqlist_ok (kq_resize n l)"
proof -
  assume l: "kqlist_ok l"
  then have "kl_size l \<in> {16, 32, 64, 128, 256, 512}" by (simp add: kqlist_ok_def)
  then have "kqlist_ok (kl_expand l)" "kqlist_ok (kl_shrink l)"
    using l by (auto simp: kl_expand_def kl_shrink_def Let_def kq_MaxPollEventsCap_def kq_MinPollEventsCap_def intro!: kqlist_new)
  with l show ?thesis by (simp add: kq_resize_def)
qed

lemma kq_handleEvents_q: "kq_handleEvents W h st c filt = Ret (st', e) \<Longrightarrow> q_le st st'"
  by (cases filt) (auto simp: kq_handleEvents_def elim!: go_bind_RetE split: if_splits
      dest: el_read_q el_write_q el_closeConn_q)

lemma kq_onEvent_q: "kq_onEvent W h st fd filt = Ret (st', e) \<Longrightarrow> q_le st st'"
  by (auto simp: kq_onEvent_def split: option.splits dest: kq_handleEvents_q)

lemma kq_dispatch_q:
  assumes cb: "\<And>st fd filt st' e. cb st fd filt = Ret (st', e) \<Longrightarrow> q_le st st'"
  shows "kq_dispatch cb evs m i st ch = Ret (Inl (st', ch')) \<Longrightarrow> q_le st st'"
proof (induction m arbitrary: i st ch)
  case (Suc m)
  obtain ev where ev: "go_index evs i = Ret ev" using Suc.prems by (auto elim!: go_bind_RetE)
  show ?case
  proof (cases "ke_ident ev = 0")
    case True
    with ev Suc.prems Suc.IH show ?thesis by simp
  next
    case False
    then obtain st1 e where "cb st (ke_ident ev) (kq_evFilter ev) = Ret (st1, e)"
      "kq_dispatch cb evs m (i + 1) st1 ch = Ret (Inl (st', ch'))"
      using Suc.prems ev by (auto elim!: go_bind_RetE split: if_splits)
    with Suc.IH cb q_le_trans show ?thesis by blast
  qed
qed simp

lemma kq_runEvent_q: "kq_runEvent W A h network keepAlive cap mem new st fd filt = Ret (st', e) \<Longrightarrow> q_le st st'"
  by (auto simp: kq_runEvent_def split: option.splits dest: kq_handleEvents_q el_accept_q)

lemma run_chores_wake: "run_chores N W h st = Ret (st', retry, None) \<Longrightarrow> wake_ok st'"
  unfolding wake_ok_def by (rule chores_no_lost_wakeup)

lemma kq_blocking:
  assumes "\<And>st fd filt st' e. cb st fd filt = Ret (st', e) \<Longrightarrow> q_le st st'"
  shows "blocking_poller (kq_poller W h cb) kqlist_ok"
proof unfold_locales
  fix l :: kqlist and es
  assume "kqlist_ok l"
  then show "kqlist_ok (bk_fill (kq_poller W h cb) l es)" by (simp add: kq_poller_def kqlist_ok_def)
qed (auto simp: kq_poller_def chores_shutdown intro: kq_dispatch_q[where cb = cb, OF assms] kqlist_resize run_chores_wake)

interpretation kq: blocking_poller "kq_poller W h (kq_onEvent W h)" kqlist_ok for W h
  by (rule kq_blocking[where cb = "kq_onEvent W h" for W h, OF kq_onEvent_q])

interpretation kqrun: blocking_poller "kq_poller W h (kq_runEvent W A h network keepAlive cap mem new)" kqlist_ok
  for W A h network keepAlive cap mem new
  by (rule kq_blocking[where cb = "kq_runEvent W A h network keepAlive cap mem new" for W A h network keepAlive cap mem new,
        OF kq_runEvent_q])

section \<open>The invariant of a loop\<close>

lemma kq_handleEvents_handled:
  assumes K: "kernel_ok W peer" and R: "ctl_ok W reg" and E: "env_ok W" and F: "fds_ok W isopen" and D: "reads_ok W"
    and H: "handler_fits M h" and T: "table_ok st" and L: "live isopen st c xs zs" and op: "c_opened (ls_conn st c)"
    and small: "length xs + M \<le> 2 ^ 62" "glen zs + ls_bufLen st \<le> 2 ^ 62"
  shows "\<exists>st' e. kq_handleEvents W h st c filt = Ret (st', e) \<and> handled isopen st c st'"
proof (cases filt)
  case EVFILT_READ
  with el_read_handled[OF K R E F D H T L small] show ?thesis by (simp add: kq_handleEvents_def)
next
  case EVFILT_WRITE
  have em: "out_IsEmpty st c = Ret (xs = [])" using L out_IsEmpty_rep by (auto simp: live_def)
  show ?thesis
  proof (cases "xs = []")
    case True
    with EVFILT_WRITE em T L frame_refl show ?thesis by (auto simp: kq_handleEvents_def handled_def)
  next
    case False
    from el_write_keeps[OF K R F T L op this] EVFILT_WRITE em False keeps_handled show ?thesis
      by (fastforce simp: kq_handleEvents_def)
  qed
next
  case EVFILT_USER
  with T L frame_refl show ?thesis by (auto simp: kq_handleEvents_def handled_def)
next
  case EVFilterSock
  with el_closeConn_handled[OF K F T L] show ?thesis by (fastforce simp: kq_handleEvents_def)
qed

lemma kq_onEvent_inv:
  assumes K: "kernel_ok W peer" and R: "ctl_ok W reg" and E: "env_ok W" and F: "fds_ok W isopen" and D: "reads_ok W"
    and H: "handler_fits M h" and I: "loop_inv isopen st"
    and room: "\<And>c. ls_connections st fd = Some c \<Longrightarrow> out_room M st c \<and> in_room st c"
  shows "\<exists>st' e. kq_onEvent W h st fd filt = Ret (st', e) \<and> loop_inv isopen st'"
proof (cases "ls_connections st fd")
  case None
  with I show ?thesis by (simp add: kq_onEvent_def)
next
  case (Some c)
  then have op: "c_opened (ls_conn st c)" using I table_entry by (auto simp: loop_inv_def)
  then obtain xs zs where L: "table_ok st" "live isopen st c xs zs" "c_OutboundBuffered (ls_conn st c) = Ret (glen xs)"
    "c_InboundBuffered (ls_conn st c) = glen zs" by (rule loop_inv_live[OF I])
  then have "length xs + M \<le> 2 ^ 62" "glen zs + ls_bufLen st \<le> 2 ^ 62"
    using room[OF Some] by (auto simp: out_room_def in_room_def)
  from kq_handleEvents_handled[OF K R E F D H L(1,2) op this, of filt] Some handled_loop_inv[OF I]
  show ?thesis by (auto simp: kq_onEvent_def)
qed

text \<open>The steps of a loop on this kernel: those of \<open>el_step\<close>, with the events of \<open>kevent\<close>.\<close>

inductive kq_step :: "'k world \<Rightarrow> 'u handler \<Rightarrow> nat \<Rightarrow> ('k, 'u) lstate \<Rightarrow> ('k, 'u) lstate \<Rightarrow> bool"
  for W h M where
  event: "\<lbrakk>\<And>c. ls_connections st fd = Some c \<Longrightarrow> out_room M st c \<and> in_room st c;
    kq_onEvent W h st fd filt = Ret (st', e)\<rbrakk> \<Longrightarrow> kq_step W h M st st'"
| urgent: "\<lbrakk>ls_urgent st = t # ts; task_ok M st t; run_task W h (st\<lparr>ls_urgent := ts\<rparr>) t = Ret (st', e)\<rbrakk> \<Longrightarrow>
    kq_step W h M st st'"
| async: "\<lbrakk>ls_async st = t # ts; task_ok M st t; run_task W h (st\<lparr>ls_async := ts\<rparr>) t = Ret (st', e)\<rbrakk> \<Longrightarrow>
    kq_step W h M st st'"
| trigger: "pl_Trigger W st t = (st', e) \<Longrightarrow> kq_step W h M st st'"
| urgent_trigger: "pl_UrgentTrigger W st t = (st', e) \<Longrightarrow> kq_step W h M st st'"
| create: "\<not> c_opened (ls_conn st c) \<Longrightarrow> kq_step W h M st (upd_conn st c (newTCPConn cap fd sa l r))"
| kernel: "kq_step W h M st (st\<lparr>ls_k := k\<rparr>)"

lemma kq_step_inv:
  assumes K: "kernel_ok W peer" and R: "ctl_ok W reg" and E: "env_ok W" and F: "fds_ok W isopen" and D: "reads_ok W"
    and H: "handler_fits M h" and small: "2 * M \<le> 2 ^ 62"
    and "kq_step W h M st st'" "loop_inv isopen st"
  shows "loop_inv isopen st'"
proof -
  note other = el_step_inv[OF K R E F D H small _ assms(9)]
  from assms(8) show ?thesis
  proof cases
    case (event fd filt e)
    from kq_onEvent_inv[OF K R E F D H assms(9) event(1), of fd filt] event(2) show ?thesis by auto
  qed (auto intro: other el_step.intros)
qed

lemma kq_reach_inv:
  assumes "kernel_ok W peer" "ctl_ok W reg" "env_ok W" "fds_ok W isopen" "reads_ok W"
    and "handler_fits M h" "2 * M \<le> 2 ^ 62" "(kq_step W h M)\<^sup>*\<^sup>* st0 st" "loop_start st0"
  shows "loop_inv isopen st"
  using assms(8)
proof induction
  case base
  show ?case using assms(9) by (rule loop_start_inv)
next
  case (step st1 st2)
  then show ?case using kq_step_inv[OF assms(1-7)] by blast
qed

section \<open>The two interest lists\<close>

text \<open>The calls the loop makes for a connection: \<open>AddRead\<close> when it is registered, then the two modifications.\<close>

datatype pollop = OpAddRead | OpModRead | OpModReadWrite

definition epoll_op :: "'k world \<Rightarrow> 'k \<Rightarrow> pollop \<Rightarrow> int \<Rightarrow> 'k \<times> errno option" where
  "epoll_op W k p fd =
     (case p of
        OpAddRead \<Rightarrow> w_ctl W k EPOLL_CTL_ADD fd readEvents
      | OpModRead \<Rightarrow> w_ctl W k EPOLL_CTL_MOD fd readEvents
      | OpModReadWrite \<Rightarrow> w_ctl W k EPOLL_CTL_MOD fd readWriteEvents)"

definition kq_op :: "'k kevent_call \<Rightarrow> 'k \<Rightarrow> pollop \<Rightarrow> int \<Rightarrow> 'k \<times> errno option" where
  "kq_op kev k p fd =
     (case p of
        OpAddRead \<Rightarrow> kev k (ch_AddRead fd)
      | OpModRead \<Rightarrow> kev k (ch_ModRead fd)
      | OpModReadWrite \<Rightarrow> kev k (ch_ModReadWrite fd))"

text \<open>The descriptors watched for reading and for writing.\<close>

type_synonym watches = "int \<Rightarrow> bool \<times> bool"

fun watch_after :: "watches \<Rightarrow> (pollop \<times> int) list \<Rightarrow> watches" where
  "watch_after w [] = w"
| "watch_after w ((OpAddRead, fd) # ops) = watch_after (w(fd := (True, snd (w fd)))) ops"
| "watch_after w ((OpModRead, fd) # ops) = watch_after (w(fd := (True, False))) ops"
| "watch_after w ((OpModReadWrite, fd) # ops) = watch_after (w(fd := (True, True))) ops"

text \<open>A descriptor is modified only when it is watched for reading.\<close>

fun ops_sane :: "watches \<Rightarrow> (pollop \<times> int) list \<Rightarrow> bool" where
  "ops_sane w [] \<longleftrightarrow> True"
| "ops_sane w ((p, fd) # ops) \<longleftrightarrow> (p \<noteq> OpAddRead \<longrightarrow> fst (w fd)) \<and> ops_sane (watch_after w [(p, fd)]) ops"

fun poll_run :: "('k \<Rightarrow> pollop \<Rightarrow> int \<Rightarrow> 'k \<times> errno option) \<Rightarrow> 'k \<Rightarrow> (pollop \<times> int) list \<Rightarrow> 'k \<times> errno option" where
  "poll_run f k [] = (k, None)"
| "poll_run f k ((p, fd) # ops) = (case f k p fd of (k, e) \<Rightarrow> if e \<noteq> None then (k, e) else poll_run f k ops)"

text \<open>\<open>lawful\<close> is what the poller relies on: that the kernel does what its manual says.\<close>

locale interest_list =
  fixes f :: "'k \<Rightarrow> pollop \<Rightarrow> int \<Rightarrow> 'k \<times> errno option" and watch :: "'k \<Rightarrow> watches" and lawful :: bool
  assumes op_watch: "lawful \<Longrightarrow> f k p fd = (k', None) \<Longrightarrow> (p \<noteq> OpAddRead \<Longrightarrow> fst (watch k fd)) \<Longrightarrow>
    watch k' = watch_after (watch k) [(p, fd)]"
begin

lemma run_watch: "lawful \<Longrightarrow> poll_run f k ops = (k', None) \<Longrightarrow> ops_sane (watch k) ops \<Longrightarrow> watch k' = watch_after (watch k) ops"
proof (induction ops arbitrary: k)
  case (Cons x ops)
  obtain p fd where x: "x = (p, fd)" by (cases x)
  obtain k1 where k1: "f k p fd = (k1, None)" "poll_run f k1 ops = (k', None)"
    using Cons.prems(2) x by (auto split: prod.splits if_splits)
  have w: "watch k1 = watch_after (watch k) [(p, fd)]" using op_watch[OF Cons.prems(1) k1(1)] Cons.prems(3) x by auto
  have "watch_after (watch k) ((p, fd) # ops) = watch_after (watch_after (watch k) [(p, fd)]) ops"
    by (cases p) simp_all
  with Cons.IH[OF Cons.prems(1) k1(2)] w Cons.prems(3) x show ?case by simp
qed simp

end

definition epoll_watch :: "('k \<Rightarrow> int \<Rightarrow> 32 word option) \<Rightarrow> 'k \<Rightarrow> watches" where
  "epoll_watch reg k fd = (case reg k fd of None \<Rightarrow> (False, False) | Some ev \<Rightarrow> (and ev EPOLLIN \<noteq> 0, and ev EPOLLOUT \<noteq> 0))"

definition kq_watch :: "('k \<Rightarrow> kinterest) \<Rightarrow> 'k \<Rightarrow> watches" where
  "kq_watch reg k fd = (reg k fd EVFILT_READ, reg k fd EVFILT_WRITE)"

lemma event_set_bits:
  "and readEvents EPOLLIN \<noteq> 0" "and readEvents EPOLLOUT = 0" "and readWriteEvents EPOLLIN \<noteq> 0" "and readWriteEvents EPOLLOUT \<noteq> 0"
  by (simp_all add: readWriteEvents_def readEvents_def writeEvents_def EPOLLPRI_def EPOLLIN_def EPOLLOUT_def)

interpretation ep: interest_list "epoll_op W" "epoll_watch reg" "epoll_ok W reg" for W reg
proof unfold_locales
  fix k p fd k'
  assume ok: "epoll_ok W reg" and op: "epoll_op W k p fd = (k', None)"
  have step: "ctl_step reg k op' fd ev (w_ctl W k op' fd ev)" for op' ev using ok by (simp add: epoll_ok_def)
  show "epoll_watch reg k' = watch_after (epoll_watch reg k) [(p, fd)]"
  proof (cases p)
    case OpAddRead
    with op step[of EPOLL_CTL_ADD readEvents] have "reg k fd = None" "reg k' = (reg k)(fd \<mapsto> readEvents)"
      by (auto simp: epoll_op_def ctl_step_def)
    with OpAddRead event_set_bits show ?thesis by (auto simp: fun_eq_iff epoll_watch_def)
  next
    case OpModRead
    with op step[of EPOLL_CTL_MOD readEvents] have "reg k' = (reg k)(fd \<mapsto> readEvents)" by (simp add: epoll_op_def ctl_step_def)
    with OpModRead event_set_bits show ?thesis by (auto simp: fun_eq_iff epoll_watch_def)
  next
    case OpModReadWrite
    with op step[of EPOLL_CTL_MOD readWriteEvents] have "reg k' = (reg k)(fd \<mapsto> readWriteEvents)"
      by (simp add: epoll_op_def ctl_step_def)
    with OpModReadWrite event_set_bits show ?thesis by (auto simp: fun_eq_iff epoll_watch_def)
  qed
qed

interpretation kqi: interest_list "kq_op kev" "kq_watch reg" "kqueue_ok W kev reg" for W kev reg
proof unfold_locales
  fix k p fd k'
  assume ok: "kqueue_ok W kev reg" and op: "kq_op kev k p fd = (k', None)" and rd: "p \<noteq> OpAddRead \<Longrightarrow> fst (kq_watch reg k fd)"
  define ch where "ch = (case p of OpAddRead \<Rightarrow> kevent_for fd EVFILT_READ [EV_ADD]
    | OpModRead \<Rightarrow> kevent_for fd EVFILT_WRITE [EV_DELETE] | OpModReadWrite \<Rightarrow> kevent_for fd EVFILT_WRITE [EV_ADD])"
  have "kev k [ch] = (k', None)"
    using op by (cases p) (simp_all add: kq_op_def ch_def ch_AddRead_def ch_ModRead_def ch_ModReadWrite_def)
  from kq_single[OF ok this] have "reg k' = kq_change (reg k) ch" by simp
  with rd show "kq_watch reg k' = watch_after (kq_watch reg k) [(p, fd)]"
    by (cases p) (auto simp: fun_eq_iff kq_watch_def ch_def kq_change_def kevent_for_def)
qed

text \<open>Both pollers watch the same descriptors for the same events.\<close>

lemma same_interest:
  assumes e: "epoll_ok W reg" and q: "kqueue_ok W' kev reg'"
    and runs: "poll_run (epoll_op W) k ops = (k1, None)" "poll_run (kq_op kev) k' ops = (k1', None)"
    and start: "epoll_watch reg k = w" "kq_watch reg' k' = w" "ops_sane w ops"
  shows "epoll_watch reg k1 = kq_watch reg' k1'"
  using ep.run_watch[OF e runs(1)] kqi.run_watch[OF q runs(2)] start by simp

section \<open>Where the two systems differ\<close>

text \<open>\<open>Delete\<close> does nothing: closing the descriptor removes its filters.\<close>

lemma bsd_close_forgets:
  assumes K: "kernel_ok W peer" and V: "kevent_ok kev peer isopen" and Q: "kqueue_ok W kev reg"
    and c: "conn_open st c xs" and fd: "c_fd (ls_conn st c) \<noteq> noteFd"
  shows "\<exists>st' e. el_closeConn (bsd_world W kev) h st c err = Ret (st', e) \<and>
    (\<forall>filt. \<not> reg (bd_k (ls_k st')) (c_fd (ls_conn st c)) filt)"
proof -
  have "out_rep st c xs" "c_opened (ls_conn st c)" "\<not> is_udp (ls_conn st c)" using c by (auto simp: conn_open_def)
  from el_closeConn_spec[OF bsd_kernel_ok[OF K V] this] obtain st' e where
    r: "el_closeConn (bsd_world W kev) h st c err = Ret (st', e)" "closes (bsd_world W kev) (bsd_peer peer) h st c err xs st' e"
    by blast
  then obtain b where "ls_k st' = fst (w_close (bsd_world W kev) b (c_fd (ls_conn st c)))"
    by (auto simp: closes_def Let_def)
  then have "bd_k (ls_k st') = fst (w_close W (bd_k b) (c_fd (ls_conn st c)))" using fd by (simp add: bsd_lift_def)
  moreover have "reg (fst (w_close W (bd_k b) (c_fd (ls_conn st c)))) (c_fd (ls_conn st c)) = (\<lambda>_. False)"
    using Q by (simp add: kqueue_ok_def)
  ultimately show ?thesis using r(1) by auto
qed

text \<open>The data \<open>OnOpen\<close> returned is watched for when the kernel refuses it: \<open>AddWrite\<close> does not fail here.\<close>

lemma bsd_open_watched:
  assumes Q: "kqueue_ok W kev reg" and E: "env_ok W" and rep: "out_rep st c []" and att: "c_attached (ls_conn st c)"
    and h: "h_OnOpen h c (ls_user st) = Finish (u, Some buf, ActNone)" and buf: "buf \<noteq> []" "glen buf \<le> 2 ^ 62"
    and fd: "fd = c_fd (ls_conn st c)" "fd \<noteq> noteFd"
    and w: "w_write W (bd_k (ls_k st)) fd buf = (k, -1, Some EAGAIN)" and add: "kev k (ch_AddWrite fd) = (k2, None)"
  shows "\<exists>st'. el_open (bsd_world W kev) h st c = Ret (st', None) \<and> c_opened (ls_conn st' c) \<and> out_rep st' c buf \<and>
    reg (bd_k (ls_k st')) fd EVFILT_WRITE"
proof -
  have w': "w_write (bsd_world W kev) (ls_k st) (c_fd (ls_conn st c)) buf = ((ls_k st)\<lparr>bd_k := k\<rparr>, -1, Some EAGAIN)"
    using w fd by (simp add: bsd_lift_def)
  have ctl: "w_ctl (bsd_world W kev) ((ls_k st)\<lparr>bd_k := k\<rparr>) EPOLL_CTL_ADD (c_fd (ls_conn st c)) writeEvents =
      ((ls_k st)\<lparr>bd_k := k2\<rparr>, None)"
    using add fd(1) by (simp add: bsd_lift_def bsd_ctl_def)
  obtain s where "c_opened (ls_conn s c)" "out_rep s c buf"
    "el_open (bsd_world W kev) h st c = el_handleAction (bsd_world W kev) h (s\<lparr>ls_k := (ls_k st)\<lparr>bd_k := k2\<rparr>\<rparr>) c ActNone"
    using el_open_refused[OF bsd_env_ok[OF E] rep att h buf w'] ctl by metis
  moreover have "reg k2 fd EVFILT_WRITE"
    using kq_single[OF Q add[unfolded ch_AddWrite_def]] by (simp add: kq_change_def kevent_for_def)
  ultimately show ?thesis by (auto simp: el_handleAction_def)
qed

text \<open>
  An event with \<open>EV_EOF\<close> closes the connection. \<open>OnTraffic\<close> does not run, whatever is left to be read: the result is the
  same for every \<open>OnTraffic\<close>.
\<close>

lemma kq_eof_closes:
  assumes "kernel_ok W peer" "conn_open st c xs" "ls_connections st fd = Some c" "EV_EOF \<in> set (ke_flags ev)"
  shows "\<exists>st' e. kq_onEvent W h st fd (kq_evFilter ev) = Ret (st', e) \<and> \<not> c_opened (ls_conn st' c) \<and>
    ls_user st' = fst (h_OnClose h c (Some (Errno ECONNRESET)) (ls_user st))"
proof -
  have "out_rep st c xs" "c_opened (ls_conn st c)" "\<not> is_udp (ls_conn st c)" using assms(2) by (auto simp: conn_open_def)
  from el_closeConn_spec[OF assms(1) this, of h "Some (Errno ECONNRESET)"] assms(3,4) show ?thesis
    by (auto simp: kq_onEvent_def kq_evFilter_def kq_handleEvents_def closes_def Let_def)
qed

text \<open>
  When the chores could not wake the poller up, the tasks stay until a socket has an event: the next wait that finds none
  is followed by one without a timeout, and as the wake-up flag is set no trigger wakes the poller up.
\<close>

lemma kq_retry_stalls:
  assumes r: "blk_round (kq_poller W h (kq_onEvent W h)) bs0 st0 out = Ret (Inl (bs, st))" "bs_chores bs" "0 < fst out"
    and idle: "\<forall>out\<in>set outs. fst out = 0"
  shows "(ls_async st \<noteq> [] \<or> ls_urgent st \<noteq> []) \<and>
    (\<exists>bs'. blk_rounds (kq_poller W h (kq_onEvent W h)) bs st outs = Ret (Inl (bs', st)) \<and> (outs \<noteq> [] \<longrightarrow> bs_block bs')) \<and>
    pl_Trigger W st t = (st\<lparr>ls_async := ls_async st @ [t]\<rparr>, None)"
proof -
  obtain n err es where out: "out = (n, err, es)" by (cases out)
  have "(ls_async st \<noteq> [] \<or> ls_urgent st \<noteq> []) \<and> ls_wakeup st" using r(1)[unfolded out]
  proof (cases rule: kq.round_goes_on)
    case 1
    with r(3) out show ?thesis by simp
  next
    case (2 st1 ch)
    then have "run_chores kq_MaxAsyncTasksAtOneTime W h st1 = Ret (st, True, None)"
      using r(2) by (cases ch) (simp_all add: kq_poller_def)
    then show ?thesis by (rule chores_retry)
  qed
  then show ?thesis using idle_rounds[OF idle, of _ bs st] by (auto simp: pl_Trigger_def pl_wakeup_def)
qed

section \<open>Opening the poller\<close>

definition kq_sys :: "'k netsys \<Rightarrow> 'k kqsys \<Rightarrow> ('k \<Rightarrow> int set) \<Rightarrow> bool" where
  "kq_sys N Q fds \<longleftrightarrow> (\<forall>k. opens fds k (q_kqueue Q k)) \<and> (\<forall>k fd chs. fds (fst (q_kevent Q k fd chs)) = fds k) \<and>
     (\<forall>k fd. fds (fst (n_close N k fd)) = fds k - {fd})"

lemma kq_OpenPoller_no_leak:
  assumes "kq_sys N Q fds"
  shows "case kq_OpenPoller N Q k of
      (k', Some fd, err) \<Rightarrow> err = None \<and> fd \<notin> fds k \<and> fds k' = insert fd (fds k)
    | (k', None, err) \<Rightarrow> err \<noteq> None \<and> fds k' = fds k"
proof -
  obtain k1 fd e1 where o: "q_kqueue Q k = (k1, fd, e1)" by (metis surj_pair)
  obtain k2 e2 where v: "q_kevent Q k1 fd [kevent_for 0 EVFILT_USER [EV_ADD, EV_CLEAR]] = (k2, e2)" by (metis surj_pair)
  have "opens fds k (k1, fd, e1)" "fds k2 = fds k1" "fds (fst (n_close N k2 fd)) = fds k2 - {fd}"
    using assms o v unfolding kq_sys_def by (metis fst_conv)+
  then show ?thesis using o v
    by (auto simp: kq_OpenPoller_def opens_def kq_Close_def syscall_err_def NewSyscallError_def split: if_splits option.splits)
qed

end
