(* ===== verification/PollOpt.thy ===== *)
theory PollOpt
  imports KqueueLoop
begin

text \<open>
  The pollers and reactors built with the tag \<open>poll_opt\<close> (\<open>internal/netpoll/epoll_optimized_poller.go\<close>,
  \<open>internal/netpoll/kqueue_optimized_poller.go\<close>, \<open>reactor_optimized_linux.go\<close>, \<open>reactor_optimized_bsd.go\<close>): the event
  carries the address of a poll attachment, whose callback the poller calls, so that no table is looked up.

  \<open>eo_dispatch_default\<close> shows that on Linux this does for a batch of events what the default poller does. With
  \<open>kevent\<close> a batch may hold two events of one connection, and the second finds a cleared attachment when the first
  has closed the connection.
\<close>

section \<open>The optimized epoll poller\<close>

record 'k optsys =
  o_create :: "'k \<Rightarrow> 'k \<times> int \<times> errno option"
  o_eventfd :: "'k \<Rightarrow> 'k \<times> int \<times> errno option"
  o_ctl :: "'k \<Rightarrow> int \<Rightarrow> ctlop \<Rightarrow> int \<Rightarrow> (32 word \<times> pa_ref) option \<Rightarrow> 'k \<times> errno option"

text \<open>\<open>eo_epa\<close> is the descriptor in the attachment of the poller, which is \<open>nil\<close> at first.\<close>

record eopoller =
  eo_fd :: int
  eo_epa :: "int option"

definition eo_Close :: "'k netsys \<Rightarrow> 'k \<Rightarrow> eopoller \<Rightarrow> ('k \<times> gerror option) go" where
  "eo_Close N k p =
     (case syscall_err ''close'' (n_close N k (eo_fd p)) of (k, err) \<Rightarrow>
        if err \<noteq> None then Ret (k, err)
        else
          (case eo_epa p of
             None \<Rightarrow> Panic NilDereference
           | Some efd \<Rightarrow> Ret (syscall_err ''close'' (n_close N k efd))))"

definition eo_AddReadWrite :: "'k optsys \<Rightarrow> 'k \<Rightarrow> eopoller \<Rightarrow> int \<times> pa_ref \<Rightarrow> 'k \<times> gerror option" where
  "eo_AddReadWrite S k p pa =
     syscall_err ''epoll_ctl add'' (o_ctl S k (eo_fd p) EPOLL_CTL_ADD (fst pa) (Some (readWriteEvents, snd pa)))"

definition eo_AddRead :: "'k optsys \<Rightarrow> 'k \<Rightarrow> eopoller \<Rightarrow> int \<times> pa_ref \<Rightarrow> 'k \<times> gerror option" where
  "eo_AddRead S k p pa =
     syscall_err ''epoll_ctl add'' (o_ctl S k (eo_fd p) EPOLL_CTL_ADD (fst pa) (Some (readEvents, snd pa)))"

definition eo_AddWrite :: "'k optsys \<Rightarrow> 'k \<Rightarrow> eopoller \<Rightarrow> int \<times> pa_ref \<Rightarrow> 'k \<times> gerror option" where
  "eo_AddWrite S k p pa =
     syscall_err ''epoll_ctl add'' (o_ctl S k (eo_fd p) EPOLL_CTL_ADD (fst pa) (Some (writeEvents, snd pa)))"

definition eo_ModRead :: "'k optsys \<Rightarrow> 'k \<Rightarrow> eopoller \<Rightarrow> int \<times> pa_ref \<Rightarrow> 'k \<times> gerror option" where
  "eo_ModRead S k p pa =
     syscall_err ''epoll_ctl mod'' (o_ctl S k (eo_fd p) EPOLL_CTL_MOD (fst pa) (Some (readEvents, snd pa)))"

definition eo_ModReadWrite :: "'k optsys \<Rightarrow> 'k \<Rightarrow> eopoller \<Rightarrow> int \<times> pa_ref \<Rightarrow> 'k \<times> gerror option" where
  "eo_ModReadWrite S k p pa =
     syscall_err ''epoll_ctl mod'' (o_ctl S k (eo_fd p) EPOLL_CTL_MOD (fst pa) (Some (readWriteEvents, snd pa)))"

definition eo_Delete :: "'k optsys \<Rightarrow> 'k \<Rightarrow> eopoller \<Rightarrow> int \<Rightarrow> 'k \<times> gerror option" where
  "eo_Delete S k p fd = syscall_err ''epoll_ctl del'' (o_ctl S k (eo_fd p) EPOLL_CTL_DEL fd None)"

definition eo_OpenPoller :: "'k netsys \<Rightarrow> 'k optsys \<Rightarrow> 'k \<Rightarrow> ('k \<times> eopoller option \<times> gerror option) go" where
  "eo_OpenPoller N S k =
     (case o_create S k of (k, fd, err) \<Rightarrow>
        if err \<noteq> None then Ret (k, None, NewSyscallError ''epoll_create1'' err)
        else
          let p = \<lparr>eo_fd = fd, eo_epa = None\<rparr>
          in case o_eventfd S k of (k, efd, err) \<Rightarrow>
               if err \<noteq> None then
                 go_bind (eo_Close N k p) (\<lambda>(k, _). Ret (k, None, NewSyscallError ''eventfd'' err))
               else
                 let p = p\<lparr>eo_epa := Some efd\<rparr>
                 in case eo_AddRead S k p (efd, PaWake) of (k, err) \<Rightarrow>
                      if err \<noteq> None then go_bind (eo_Close N k p) (\<lambda>(k, _). Ret (k, None, err))
                      else Ret (k, Some p, None))"

text \<open>\<open>UrgentTrigger\<close> and \<open>Trigger\<close>: the descriptor to write to is in the poller's attachment.\<close>

definition eo_wakeup ::
  "'k world \<Rightarrow> eopoller \<Rightarrow> ('k, 'u) lstate \<Rightarrow> (('k, 'u) lstate \<times> gerror option) go" where
  "eo_wakeup W p st =
     (if \<not> ls_wakeup st then
        (case eo_epa p of
           None \<Rightarrow> Panic NilDereference
         | Some efd \<Rightarrow>
             (case w_write W (ls_k st) efd [1, 0, 0, 0, 0, 0, 0, 0] of (k, n, e) \<Rightarrow>
                Ret (st\<lparr>ls_wakeup := True, ls_k := k\<rparr>, NewSyscallError ''write'' (if e = Some EAGAIN then None else e))))
      else Ret (st, None))"

definition eo_UrgentTrigger ::
  "'k world \<Rightarrow> eopoller \<Rightarrow> ('k, 'u) lstate \<Rightarrow> 'u task \<Rightarrow> (('k, 'u) lstate \<times> gerror option) go" where
  "eo_UrgentTrigger W p st t = eo_wakeup W p (st\<lparr>ls_urgent := ls_urgent st @ [t]\<rparr>)"

definition eo_Trigger ::
  "'k world \<Rightarrow> eopoller \<Rightarrow> ('k, 'u) lstate \<Rightarrow> 'u task \<Rightarrow> (('k, 'u) lstate \<times> gerror option) go" where
  "eo_Trigger W p st t = eo_wakeup W p (st\<lparr>ls_async := ls_async st @ [t]\<rparr>)"

text \<open>The event list of \<open>epoll_events.go\<close>, with attachments as the data of the events.\<close>

record eolist =
  ol_size :: int
  ol_events :: "(pa_ref \<times> 32 word) list"

definition eo_newEventList :: "int \<Rightarrow> eolist" where
  "eo_newEventList sz = \<lparr>ol_size = sz, ol_events = replicate (nat sz) (PaWake, 0)\<rparr>"

definition eo_resize :: "int \<Rightarrow> eolist \<Rightarrow> eolist" where
  "eo_resize n l =
     (if n = ol_size l then if ol_size l * 2 \<le> MaxPollEventsCap then eo_newEventList (ol_size l * 2) else l
      else if n < ol_size l div 2 then if ol_size l div 2 \<ge> MinPollEventsCap then eo_newEventList (ol_size l div 2) else l
      else l)"

type_synonym ('k, 'u, 'e) pa_call =
  "pa_callback \<Rightarrow> ('k, 'u) lstate \<Rightarrow> int \<Rightarrow> 'e \<Rightarrow> (('k, 'u) lstate \<times> gerror option) go"

text \<open>Calling the callback of an attachment; a cleared one has none, and calling it panics.\<close>

definition pa_invoke ::
  "('k, 'u, 'e) pa_call \<Rightarrow> attachment \<Rightarrow> ('k, 'u) lstate \<Rightarrow> int \<Rightarrow> 'e \<Rightarrow> (('k, 'u) lstate \<times> gerror option) go" where
  "pa_invoke call pa st fd ev =
     (case pa_Callback pa of None \<Rightarrow> Panic NilDereference | Some cb \<Rightarrow> call cb st fd ev)"

primrec eo_dispatch ::
  "'k world \<Rightarrow> ('k, 'u, 32 word) pa_call \<Rightarrow> (pa_ref \<times> 32 word) list \<Rightarrow> nat \<Rightarrow> int \<Rightarrow> ('k, 'u) lstate \<Rightarrow> bool \<Rightarrow>
   (('k, 'u) lstate \<times> bool + ('k, 'u) lstate \<times> gerror option) go" where
  "eo_dispatch W call evs 0 i st doChores = Ret (Inl (st, doChores))"
| "eo_dispatch W call evs (Suc m) i st doChores =
     go_bind (go_index evs i) (\<lambda>(r, ev).
     let pa = pa_deref st r
     in if pa_FD pa \<noteq> ls_efd st then
          go_bind (pa_invoke call pa st (pa_FD pa) ev) (\<lambda>(st, err).
          if err = Some ErrAcceptSocket \<or> err = Some ErrEngineShutdown then Ret (Inr (st, err))
          else eo_dispatch W call evs m (i + 1) st doChores)
        else
          (case w_read W (ls_k st) (ls_efd st) 8 of (k, _) \<Rightarrow>
             eo_dispatch W call evs m (i + 1) (st\<lparr>ls_k := k\<rparr>) True))"

definition eo_poller ::
  "'k world \<Rightarrow> 'u handler \<Rightarrow> ('k, 'u, 32 word) pa_call \<Rightarrow> (eolist, pa_ref \<times> 32 word, 'k, 'u) blk" where
  "eo_poller W h call =
     \<lparr>bk_fill = (\<lambda>l es. l\<lparr>ol_events := go_copy (ol_events l) es\<rparr>),
      bk_dispatch = (\<lambda>l n. eo_dispatch W call (ol_events l) n 0),
      bk_chores = run_chores MaxAsyncTasksAtOneTime W h,
      bk_resize = eo_resize\<rparr>"

definition eo_Polling ::
  "'k world \<Rightarrow> 'u handler \<Rightarrow> ('k, 'u, 32 word) pa_call \<Rightarrow> ('k, 'u) lstate \<Rightarrow> (int \<times> errno option \<times> (pa_ref \<times> 32 word) list) list \<Rightarrow>
   (eolist bstate \<times> ('k, 'u) lstate + ('k, 'u) lstate \<times> gerror option) go" where
  "eo_Polling W h call st outs =
     blk_rounds (eo_poller W h call)
       \<lparr>bs_events = eo_newEventList InitPollEventsCap, bs_chores = False, bs_block = True\<rparr> st outs"

text \<open>The callbacks of a loop; \<open>acc\<close> is the \<open>accept\<close> of its listener.\<close>

definition eo_call ::
  "'k world \<Rightarrow> 'u handler \<Rightarrow> (('k, 'u) lstate \<Rightarrow> nat) \<Rightarrow> ('k, 'u) callback \<Rightarrow> ('k, 'u, 32 word) pa_call" where
  "eo_call W h new acc cb st fd ev =
     (case cb of
        CbAccept \<Rightarrow> acc st fd ev
      | CbReadUDP \<Rightarrow> el_readUDP W h st fd (new st)
      | CbHandleEvents c \<Rightarrow> c_handleEvents W h st c ev)"

section \<open>The optimized kqueue poller\<close>

text \<open>The poller is again its descriptor; it is opened, closed and woken up as the default one.\<close>

definition ko_Close :: "'k netsys \<Rightarrow> 'k \<Rightarrow> int \<Rightarrow> 'k \<times> gerror option" where
  "ko_Close N k fd = syscall_err ''close'' (n_close N k fd)"

definition ko_OpenPoller :: "'k netsys \<Rightarrow> 'k kqsys \<Rightarrow> 'k \<Rightarrow> 'k \<times> int option \<times> gerror option" where
  "ko_OpenPoller N Q k =
     (case q_kqueue Q k of (k, fd, err) \<Rightarrow>
        if err \<noteq> None then (k, None, NewSyscallError ''kqueue'' err)
        else
          (case q_kevent Q k fd [kevent_for 0 EVFILT_USER [EV_ADD, EV_CLEAR]] of (k, err) \<Rightarrow>
             if err \<noteq> None then (fst (ko_Close N k fd), None, NewSyscallError ''kevent add|clear'' err)
             else (k, Some fd, None)))"

definition ko_note :: "kevent list" where
  "ko_note = [\<lparr>ke_ident = 0, ke_filter = EVFILT_USER, ke_flags = [], ke_trigger = True, ke_udata = None\<rparr>]"

definition ko_wakeup :: "'k kevent_call \<Rightarrow> ('k, 'u) lstate \<Rightarrow> ('k, 'u) lstate \<times> gerror option" where
  "ko_wakeup kev st =
     (if \<not> ls_wakeup st then
        (case kev (ls_k st) ko_note of (k, e) \<Rightarrow>
           (st\<lparr>ls_wakeup := True, ls_k := k\<rparr>, NewSyscallError ''kevent trigger'' (if e = Some EAGAIN then None else e)))
      else (st, None))"

definition ko_UrgentTrigger ::
  "'k kevent_call \<Rightarrow> ('k, 'u) lstate \<Rightarrow> 'u task \<Rightarrow> ('k, 'u) lstate \<times> gerror option" where
  "ko_UrgentTrigger kev st t = ko_wakeup kev (st\<lparr>ls_urgent := ls_urgent st @ [t]\<rparr>)"

definition ko_Trigger ::
  "'k kevent_call \<Rightarrow> ('k, 'u) lstate \<Rightarrow> 'u task \<Rightarrow> ('k, 'u) lstate \<times> gerror option" where
  "ko_Trigger kev st t = ko_wakeup kev (st\<lparr>ls_async := ls_async st @ [t]\<rparr>)"

definition ko_Delete :: "'k \<Rightarrow> int \<Rightarrow> 'k \<times> gerror option" where
  "ko_Delete k fd = (k, None)"

definition ko_event :: "int \<times> pa_ref \<Rightarrow> kfilter \<Rightarrow> kflag \<Rightarrow> kevent" where
  "ko_event pa filt flag = (kevent_for (fst pa) filt [flag])\<lparr>ke_udata := Some (snd pa)\<rparr>"

definition ko_AddReadWrite :: "'k kevent_call \<Rightarrow> 'k \<Rightarrow> int \<times> pa_ref \<Rightarrow> 'k \<times> gerror option" where
  "ko_AddReadWrite kev k pa =
     (let ev0 = ko_event pa EVFILT_READ EV_ADD
      in syscall_err ''kevent add'' (kev k [ev0, ev0\<lparr>ke_filter := EVFILT_WRITE\<rparr>]))"

definition ko_AddRead :: "'k kevent_call \<Rightarrow> 'k \<Rightarrow> int \<times> pa_ref \<Rightarrow> 'k \<times> gerror option" where
  "ko_AddRead kev k pa = syscall_err ''kevent add'' (kev k [ko_event pa EVFILT_READ EV_ADD])"

definition ko_AddWrite :: "'k kevent_call \<Rightarrow> 'k \<Rightarrow> int \<times> pa_ref \<Rightarrow> 'k \<times> gerror option" where
  "ko_AddWrite kev k pa = syscall_err ''kevent add'' (kev k [ko_event pa EVFILT_WRITE EV_ADD])"

definition ko_ModRead :: "'k kevent_call \<Rightarrow> 'k \<Rightarrow> int \<times> pa_ref \<Rightarrow> 'k \<times> gerror option" where
  "ko_ModRead kev k pa = syscall_err ''kevent delete'' (kev k [ko_event pa EVFILT_WRITE EV_DELETE])"

definition ko_ModReadWrite :: "'k kevent_call \<Rightarrow> 'k \<Rightarrow> int \<times> pa_ref \<Rightarrow> 'k \<times> gerror option" where
  "ko_ModReadWrite kev k pa = syscall_err ''kevent add'' (kev k [ko_event pa EVFILT_WRITE EV_ADD])"

primrec ko_dispatch ::
  "('k, 'u, kfilter) pa_call \<Rightarrow> kevent list \<Rightarrow> nat \<Rightarrow> int \<Rightarrow> ('k, 'u) lstate \<Rightarrow> bool \<Rightarrow>
   (('k, 'u) lstate \<times> bool + ('k, 'u) lstate \<times> gerror option) go" where
  "ko_dispatch call evs 0 i st doChores = Ret (Inl (st, doChores))"
| "ko_dispatch call evs (Suc m) i st doChores =
     go_bind (go_index evs i) (\<lambda>ev.
     if ke_ident ev \<noteq> 0 then
       (case ke_udata ev of
          None \<Rightarrow> Panic NilDereference
        | Some r \<Rightarrow>
            go_bind (pa_invoke call (pa_deref st r) st (ke_ident ev) (kq_evFilter ev)) (\<lambda>(st, err).
            if err = Some ErrAcceptSocket \<or> err = Some ErrEngineShutdown then Ret (Inr (st, err))
            else ko_dispatch call evs m (i + 1) st doChores))
     else ko_dispatch call evs m (i + 1) st True)"

definition ko_poller ::
  "'k world \<Rightarrow> 'u handler \<Rightarrow> ('k, 'u, kfilter) pa_call \<Rightarrow> (kqlist, kevent, 'k, 'u) blk" where
  "ko_poller W h call = (kq_poller W h (\<lambda>st _ _. Ret (st, None)))\<lparr>bk_dispatch := (\<lambda>l n. ko_dispatch call (kl_events l) n 0)\<rparr>"

definition ko_Polling ::
  "'k world \<Rightarrow> 'u handler \<Rightarrow> ('k, 'u, kfilter) pa_call \<Rightarrow> ('k, 'u) lstate \<Rightarrow> (int \<times> errno option \<times> kevent list) list \<Rightarrow>
   (kqlist bstate \<times> ('k, 'u) lstate + ('k, 'u) lstate \<times> gerror option) go" where
  "ko_Polling W h call st outs =
     blk_rounds (ko_poller W h call)
       \<lparr>bs_events = kq_newEventList kq_InitPollEventsCap, bs_chores = False, bs_block = True\<rparr> st outs"

definition ko_call ::
  "'k world \<Rightarrow> 'u handler \<Rightarrow> (('k, 'u) lstate \<Rightarrow> nat) \<Rightarrow> ('k, 'u) kq_callback \<Rightarrow> ('k, 'u, kfilter) pa_call" where
  "ko_call W h new acc cb st fd filt =
     (case cb of
        CbAccept \<Rightarrow> acc st fd filt
      | CbReadUDP \<Rightarrow> el_readUDP W h st fd (new st)
      | CbHandleEvents c \<Rightarrow> kq_handleEvents W h st c filt)"

section \<open>Polling\<close>

definition eolist_ok :: "eolist \<Rightarrow> bool" where
  "eolist_ok l \<longleftrightarrow> ol_size l \<in> {32, 64, 128, 256, 512, 1024} \<and> glen (ol_events l) = ol_size l"

lemma eolist_resize: "eolist_ok l \<Longrightarrow> eolist_ok (eo_resize n l)"
  by (auto simp: eolist_ok_def eo_resize_def eo_newEventList_def MaxPollEventsCap_def MinPollEventsCap_def)

lemma eo_dispatch_q:
  assumes call: "\<And>cb st fd ev st' e. call cb st fd ev = Ret (st', e) \<Longrightarrow> q_le st st'"
  shows "eo_dispatch W call evs m i st ch = Ret (Inl (st', ch')) \<Longrightarrow> q_le st st'"
proof (induction m arbitrary: i st ch)
  case (Suc m)
  obtain r ev where ix: "go_index evs i = Ret (r, ev)" using Suc.prems by (auto elim!: go_bind_RetE)
  show ?case
  proof (cases "pa_FD (pa_deref st r) = ls_efd st")
    case True
    obtain k x where "w_read W (ls_k st) (ls_efd st) 8 = (k, x)" by (metis surj_pair)
    then have "eo_dispatch W call evs m (i + 1) (st\<lparr>ls_k := k\<rparr>) True = Ret (Inl (st', ch'))"
      using True Suc.prems ix by simp
    from Suc.IH[OF this] show ?thesis by simp
  next
    case False
    then obtain cb st1 e where "call cb st (pa_FD (pa_deref st r)) ev = Ret (st1, e)"
      "eo_dispatch W call evs m (i + 1) st1 ch = Ret (Inl (st', ch'))"
      using Suc.prems ix by (auto simp: pa_invoke_def Let_def elim!: go_bind_RetE split: if_splits option.splits)
    with Suc.IH call q_le_trans show ?thesis by blast
  qed
qed simp

lemma ko_dispatch_q:
  assumes call: "\<And>cb st fd filt st' e. call cb st fd filt = Ret (st', e) \<Longrightarrow> q_le st st'"
  shows "ko_dispatch call evs m i st ch = Ret (Inl (st', ch')) \<Longrightarrow> q_le st st'"
proof (induction m arbitrary: i st ch)
  case (Suc m)
  obtain ev where ix: "go_index evs i = Ret ev" using Suc.prems by (auto elim!: go_bind_RetE)
  show ?case
  proof (cases "ke_ident ev = 0")
    case True
    with ix Suc.prems Suc.IH show ?thesis by simp
  next
    case False
    then obtain cb st1 e where "call cb st (ke_ident ev) (kq_evFilter ev) = Ret (st1, e)"
      "ko_dispatch call evs m (i + 1) st1 ch = Ret (Inl (st', ch'))"
      using Suc.prems ix by (auto simp: pa_invoke_def elim!: go_bind_RetE split: if_splits option.splits)
    with Suc.IH call q_le_trans show ?thesis by blast
  qed
qed simp

lemma c_handleEvents_q: "c_handleEvents W h st c ev = Ret (st', e) \<Longrightarrow> q_le st st'"
  by (auto simp: c_handleEvents_def elim!: go_bind_RetE split: if_splits dest!: el_read_q el_write_q)
    (blast intro: q_le_trans)+

lemma eo_call_q:
  assumes "\<And>st fd ev st' e. acc st fd ev = Ret (st', e) \<Longrightarrow> q_le st st'"
  shows "eo_call W h new acc cb st fd ev = Ret (st', e) \<Longrightarrow> q_le st st'"
  using assms by (cases cb) (auto simp: eo_call_def dest: el_readUDP_q c_handleEvents_q)

lemma ko_call_q:
  assumes "\<And>st fd filt st' e. acc st fd filt = Ret (st', e) \<Longrightarrow> q_le st st'"
  shows "ko_call W h new acc cb st fd filt = Ret (st', e) \<Longrightarrow> q_le st st'"
  using assms by (cases cb) (auto simp: ko_call_def dest: el_readUDP_q kq_handleEvents_q)

lemma eo_blocking:
  assumes "\<And>cb st fd ev st' e. call cb st fd ev = Ret (st', e) \<Longrightarrow> q_le st st'"
  shows "blocking_poller (eo_poller W h call) eolist_ok"
proof unfold_locales
  fix l :: eolist and es
  assume "eolist_ok l"
  then show "eolist_ok (bk_fill (eo_poller W h call) l es)" by (simp add: eo_poller_def eolist_ok_def)
qed (auto simp: eo_poller_def chores_shutdown intro: eo_dispatch_q[where call = call, OF assms] eolist_resize run_chores_wake)

lemma ko_blocking:
  assumes "\<And>cb st fd filt st' e. call cb st fd filt = Ret (st', e) \<Longrightarrow> q_le st st'"
  shows "blocking_poller (ko_poller W h call) kqlist_ok"
proof unfold_locales
  fix l :: kqlist and es
  assume "kqlist_ok l"
  then show "kqlist_ok (bk_fill (ko_poller W h call) l es)" by (simp add: ko_poller_def kq_poller_def kqlist_ok_def)
qed (auto simp: ko_poller_def kq_poller_def chores_shutdown
    intro: ko_dispatch_q[where call = call, OF assms] kqlist_resize run_chores_wake)

text \<open>The loop of \<open>run\<close>, whose listener's attachment holds \<open>eventloop.accept\<close>.\<close>

definition eo_run ::
  "'k world \<Rightarrow> 'k listen \<Rightarrow> 'u handler \<Rightarrow> string \<Rightarrow> int \<Rightarrow> int \<Rightarrow> stale \<Rightarrow> (('k, 'u) lstate \<Rightarrow> nat) \<Rightarrow> ('k, 'u, 32 word) pa_call" where
  "eo_run W A h network keepAlive cap mem new =
     eo_call W h new (\<lambda>st fd ev. el_accept W A h network keepAlive cap mem (new st) st fd)"

definition ko_run ::
  "'k world \<Rightarrow> 'k listen \<Rightarrow> 'u handler \<Rightarrow> string \<Rightarrow> int \<Rightarrow> int \<Rightarrow> stale \<Rightarrow> (('k, 'u) lstate \<Rightarrow> nat) \<Rightarrow> ('k, 'u, kfilter) pa_call" where
  "ko_run W A h network keepAlive cap mem new =
     ko_call W h new (\<lambda>st fd filt. el_accept W A h network keepAlive cap mem (new st) st fd)"

lemma eo_run_q: "eo_run W A h network keepAlive cap mem new cb st fd ev = Ret (st', e) \<Longrightarrow> q_le st st'"
  unfolding eo_run_def by (erule eo_call_q[rotated]) (rule el_accept_q)

lemma ko_run_q: "ko_run W A h network keepAlive cap mem new cb st fd filt = Ret (st', e) \<Longrightarrow> q_le st st'"
  unfolding ko_run_def by (erule ko_call_q[rotated]) (rule el_accept_q)

interpretation eo: blocking_poller "eo_poller W h (eo_run W A h network keepAlive cap mem new)" eolist_ok
  for W A h network keepAlive cap mem new
  by (rule eo_blocking[where call = "eo_run W A h network keepAlive cap mem new" for W A h network keepAlive cap mem new,
        OF eo_run_q])

interpretation ko: blocking_poller "ko_poller W h (ko_run W A h network keepAlive cap mem new)" kqlist_ok
  for W A h network keepAlive cap mem new
  by (rule ko_blocking[where call = "ko_run W A h network keepAlive cap mem new" for W A h network keepAlive cap mem new,
        OF ko_run_q])

section \<open>Opening the optimized epoll poller\<close>

text \<open>When the event descriptor cannot be created, \<open>Close\<close> is called on a poller that has no attachment yet.\<close>

lemma eo_OpenPoller_panics:
  assumes "o_create S k = (k1, fd, None)" "o_eventfd S k1 = (k2, efd, Some e)" "snd (n_close N k2 fd) = None"
  shows "eo_OpenPoller N S k = Panic NilDereference"
  using assms by (simp add: eo_OpenPoller_def eo_Close_def syscall_err_def NewSyscallError_def)

section \<open>Waking up\<close>

text \<open>A poller that \<open>OpenPoller\<close> returned has its attachment, so that triggers do what those of the default poller do.\<close>

lemma eo_OpenPoller_attached: "eo_OpenPoller N S k = Ret (k', Some p, err) \<Longrightarrow> \<exists>efd. eo_epa p = Some efd"
  by (auto simp: eo_OpenPoller_def Let_def elim!: go_bind_RetE split: prod.splits if_splits)

lemma eo_triggers_default:
  assumes "eo_epa p = Some (ls_efd st)"
  shows "eo_UrgentTrigger W p st t = Ret (pl_UrgentTrigger W st t)" "eo_Trigger W p st t = Ret (pl_Trigger W st t)"
  using assms
  by (auto simp: eo_UrgentTrigger_def eo_Trigger_def eo_wakeup_def pl_UrgentTrigger_def pl_Trigger_def pl_wakeup_def split: prod.splits)

text \<open>The triggers of both kqueue pollers make the same call, and queue the task whatever it returns.\<close>

lemma ko_triggers_default:
  assumes "ko_UrgentTrigger kev st t = (st', e)" "kq_UrgentTrigger kev stb t = (stb', eb)" "bd_noteOpen (ls_k stb)"
    "ls_k st = bd_k (ls_k stb)" "ls_wakeup st = ls_wakeup stb"
  shows "e = eb" "ls_k st' = bd_k (ls_k stb')" "ls_wakeup st'" "ls_wakeup stb'" "ls_urgent st' = ls_urgent st @ [t]"
    "ls_urgent stb' = ls_urgent stb @ [t]"
  using assms
  by (auto simp: ko_UrgentTrigger_def ko_wakeup_def kq_UrgentTrigger_def kq_wakeup_def bsd_note_def ko_note_def kq_note_def
      split: if_splits prod.splits)

lemma ko_Trigger_queues: "ko_Trigger kev st t = (st', e) \<Longrightarrow> ls_wakeup st' \<and> ls_async st' = ls_async st @ [t]"
  by (auto simp: ko_Trigger_def ko_wakeup_def split: if_splits prod.splits)

text \<open>Both kqueue pollers are opened in the same way.\<close>

lemma ko_OpenPoller_default: "ko_OpenPoller N Q k = kq_OpenPoller N Q k"
  unfolding ko_OpenPoller_def kq_OpenPoller_def ko_Close_def kq_Close_def ..

section \<open>The optimized epoll poller does what the default one does\<close>

text \<open>
  A batch as the kernel reports it: the poller's attachment or that of an open connection, and no connection twice. The
  descriptor of a connection is not the event descriptor.
\<close>

definition ref_ok :: "nat \<Rightarrow> ('k, 'u) lstate \<Rightarrow> pa_ref \<Rightarrow> bool" where
  "ref_ok M st r =
     (case r of
        PaWake \<Rightarrow> True
      | PaListen \<Rightarrow> False
      | PaConn c \<Rightarrow> c_opened (ls_conn st c) \<and> c_fd (ls_conn st c) \<noteq> ls_efd st \<and> out_room M st c \<and> in_room st c)"

definition batch_ok :: "nat \<Rightarrow> ('k, 'u) lstate \<Rightarrow> (pa_ref \<times> 32 word) list \<Rightarrow> nat \<Rightarrow> nat \<Rightarrow> bool" where
  "batch_ok M st evs i m \<longleftrightarrow> i + m \<le> length evs \<and> (\<forall>j. i \<le> j \<and> j < i + m \<longrightarrow> ref_ok M st (fst (evs ! j))) \<and>
     (\<forall>j j' c. i \<le> j \<and> j < j' \<and> j' < i + m \<and> fst (evs ! j) = PaConn c \<longrightarrow> fst (evs ! j') \<noteq> PaConn c)"

text \<open>The same batch with descriptors.\<close>

definition fd_batch :: "('k, 'u) lstate \<Rightarrow> (pa_ref \<times> 32 word) list \<Rightarrow> (int \<times> 32 word) list \<Rightarrow> nat \<Rightarrow> nat \<Rightarrow> bool" where
  "fd_batch st evs fdevs i m \<longleftrightarrow> length fdevs = length evs \<and>
     (\<forall>j. i \<le> j \<and> j < i + m \<longrightarrow> fdevs ! j = (pa_FD (pa_deref st (fst (evs ! j))), snd (evs ! j)))"

lemma batch_step:
  assumes "batch_ok M st evs i (Suc m)" "fd_batch st evs fdevs i (Suc m)"
    and "\<And>c. fst (evs ! i) \<noteq> PaConn c \<Longrightarrow> ls_conn st' c = ls_conn st c" "ls_efd st' = ls_efd st" "ls_bufLen st' = ls_bufLen st"
  shows "batch_ok M st' evs (Suc i) m \<and> fd_batch st' evs fdevs (Suc i) m"
proof -
  have keep: "ref_ok M st' (fst (evs ! j)) \<and> pa_deref st' (fst (evs ! j)) = pa_deref st (fst (evs ! j))"
    if j: "i < j" "j < i + Suc m" for j
  proof -
    have r: "ref_ok M st (fst (evs ! j))" using assms(1) j unfolding batch_ok_def by simp
    show ?thesis
    proof (cases "fst (evs ! j)")
      case (PaConn c)
      then have "fst (evs ! i) \<noteq> PaConn c" using assms(1) j unfolding batch_ok_def by (metis le_refl)
      then have "ls_conn st' c = ls_conn st c" by (rule assms(3))
      with PaConn r assms(4,5) show ?thesis by (simp add: ref_ok_def pa_deref_def out_room_def in_room_def)
    qed (use r assms(4) in \<open>simp_all add: ref_ok_def pa_deref_def\<close>)
  qed
  show ?thesis using assms(1,2) keep unfolding batch_ok_def fd_batch_def by (metis Suc_le_eq add_Suc add_Suc_right less_imp_le_nat)
qed

lemma eo_call_handle: "eo_call W h new acc (CbHandleEvents c) st fd ev = c_handleEvents W h st c ev"
  by (simp add: eo_call_def)

lemma eo_dispatch_default:
  assumes K: "kernel_ok W peer" and R: "ctl_ok W reg" and E: "env_ok W" and F: "fds_ok W isopen" and D: "reads_ok W"
    and H: "handler_fits M h"
  shows "loop_inv isopen st \<Longrightarrow> batch_ok M st evs i m \<Longrightarrow> fd_batch st evs fdevs i m \<Longrightarrow>
    eo_dispatch W (eo_call W h new acc) evs m (int i) st ch = pl_dispatch W (el_onEvent W h) fdevs m (int i) st ch"
proof (induction m arbitrary: i st ch)
  case (Suc m)
  obtain r ev where rev: "evs ! i = (r, ev)" by (cases "evs ! i")
  have len: "i < length evs" using Suc.prems(2) by (simp add: batch_ok_def)
  have ix: "go_index evs (int i) = Ret (r, ev)" "go_index fdevs (int i) = Ret (pa_FD (pa_deref st r), ev)"
    using len Suc.prems(3) rev by (auto simp: go_index_def fd_batch_def)
  have r: "ref_ok M st r" using Suc.prems(2) rev by (force simp: batch_ok_def)
  have ii: "int i + 1 = int (Suc i)" by simp
  show ?case
  proof (cases r)
    case PaWake
    obtain k x where rd: "w_read W (ls_k st) (ls_efd st) 8 = (k, x)" by (metis surj_pair)
    have "loop_inv isopen (st\<lparr>ls_k := k\<rparr>)" by (rule loop_inv_same[OF Suc.prems(1)]) simp_all
    moreover have "batch_ok M (st\<lparr>ls_k := k\<rparr>) evs (Suc i) m \<and> fd_batch (st\<lparr>ls_k := k\<rparr>) evs fdevs (Suc i) m"
      by (rule batch_step[OF Suc.prems(2,3)]) simp_all
    ultimately have "eo_dispatch W (eo_call W h new acc) evs m (int (Suc i)) (st\<lparr>ls_k := k\<rparr>) True =
        pl_dispatch W (el_onEvent W h) fdevs m (int (Suc i)) (st\<lparr>ls_k := k\<rparr>) True" using Suc.IH by blast
    with PaWake rd ix show ?thesis by (simp add: pa_deref_def add.commute)
  next
    case PaListen
    with r show ?thesis by (simp add: ref_ok_def)
  next
    case (PaConn c)
    then have op: "c_opened (ls_conn st c)" and efd: "c_fd (ls_conn st c) \<noteq> ls_efd st" and room: "out_room M st c" "in_room st c"
      using r by (auto simp: ref_ok_def)
    obtain xs zs where L: "table_ok st" "live isopen st c xs zs" "c_OutboundBuffered (ls_conn st c) = Ret (glen xs)"
      "c_InboundBuffered (ls_conn st c) = glen zs" by (rule loop_inv_live[OF Suc.prems(1) op])
    have "length xs + M \<le> 2 ^ 62" "glen zs + ls_bufLen st \<le> 2 ^ 62" using room L by (auto simp: out_room_def in_room_def)
    from c_handleEvents_handled[OF K R E F D H L(1,2) this] obtain st' e where
      c: "c_handleEvents W h st c ev = Ret (st', e)" "handled isopen st c st'" by blast
    have pa: "pa_deref st r = \<lparr>pa_FD = c_fd (ls_conn st c), pa_Callback = Some (CbHandleEvents c)\<rparr>"
      using PaConn L(2) op by (auto simp: pa_deref_def live_def)
    have "ls_connections st (c_fd (ls_conn st c)) = Some c" using L(1) op by (simp add: table_ok_def)
    then have default: "el_onEvent W h st (c_fd (ls_conn st c)) ev = Ret (st', e)" using c(1) by (simp add: el_onEvent_def)
    have "batch_ok M st' evs (Suc i) m \<and> fd_batch st' evs fdevs (Suc i) m"
    proof (rule batch_step[OF Suc.prems(2,3)])
      show "ls_conn st' c' = ls_conn st c'" if "fst (evs ! i) \<noteq> PaConn c'" for c'
        using that c(2) rev PaConn by (auto simp: handled_def frame_ok_def)
    qed (use c(2) in \<open>simp_all add: handled_def frame_ok_def\<close>)
    with handled_loop_inv[OF Suc.prems(1) c(2)] have
      "eo_dispatch W (eo_call W h new acc) evs m (int (Suc i)) st' ch = pl_dispatch W (el_onEvent W h) fdevs m (int (Suc i)) st' ch"
      using Suc.IH by blast
    then show ?thesis using ix pa efd default c(1) by (simp add: pa_invoke_def eo_call_handle add.commute)
  qed
qed simp

section \<open>Two events of one connection\<close>

text \<open>
  After an event that closes a connection, another event of the same connection in the same batch makes the optimized
  kqueue poller call a nil function; the default one ignores it.
\<close>

lemma ko_second_event_panics:
  assumes K: "kernel_ok W peer" and c: "conn_open st c xs" and tab: "ls_connections st fd = Some c" "fd \<noteq> 0"
    and rest: "snd (h_OnClose h c (Some (Errno ECONNRESET)) (ls_user st)) = ActNone"
    and evs: "evs = [e1, e2]" "ke_ident e1 = fd" "ke_ident e2 = fd" "ke_udata e1 = Some (PaConn c)" "ke_udata e2 = Some (PaConn c)"
      "EV_EOF \<in> set (ke_flags e1)" "c_fd (ls_conn st c) = fd"
  shows "ko_dispatch (ko_call W h new acc) evs 2 0 st ch = Panic NilDereference"
    "\<exists>st'. kq_dispatch (kq_onEvent W h) evs 2 0 st ch = Ret (Inl (st', ch)) \<and> ls_connections st' fd = None"
proof -
  have o: "out_rep st c xs" "c_opened (ls_conn st c)" "\<not> is_udp (ls_conn st c)" "c_attached (ls_conn st c)"
    "\<not> c_isDatagram (ls_conn st c)" using c by (auto simp: conn_open_def)
  have f1: "kq_evFilter e1 = EVFilterSock" using evs by (simp add: kq_evFilter_def)
  obtain st' e where cl: "el_closeConn W h st c (Some (Errno ECONNRESET)) = Ret (st', e)"
    "closes W peer h st c (Some (Errno ECONNRESET)) xs st' e"
    using el_closeConn_spec[OF K o(1-3)] by blast
  have e: "e \<noteq> Some ErrAcceptSocket" "e \<noteq> Some ErrEngineShutdown" and off: "\<not> c_attached (ls_conn st' c)"
    "ls_connections st' fd = None" using cl(2) rest evs(7) by (auto simp: closes_def Let_def)
  have pa: "pa_deref st (PaConn c) = \<lparr>pa_FD = fd, pa_Callback = Some (CbHandleEvents c)\<rparr>" "pa_deref st' (PaConn c) = pa_new"
    using o off evs(7) by (simp_all add: pa_deref_def)
  have ix: "go_index evs 0 = Ret e1" "go_index evs 1 = Ret e2" using evs(1) by (simp_all add: go_index_def)
  have "ko_call W h new acc (CbHandleEvents c) st fd EVFilterSock = Ret (st', e)"
    using cl(1) by (simp add: ko_call_def kq_handleEvents_def)
  then show "ko_dispatch (ko_call W h new acc) evs 2 0 st ch = Panic NilDereference"
    using ix evs(2-5) tab(2) f1 pa e by (simp add: numeral_2_eq_2 pa_invoke_def pa_new_def)
  have "kq_onEvent W h st fd EVFilterSock = Ret (st', e)" "kq_onEvent W h st' fd filt = Ret (st', None)" for filt
    using cl(1) tab(1) off(2) by (simp_all add: kq_onEvent_def kq_handleEvents_def)
  then show "\<exists>st'. kq_dispatch (kq_onEvent W h) evs 2 0 st ch = Ret (Inl (st', ch)) \<and> ls_connections st' fd = None"
    using ix evs(2-5) tab(2) f1 e off(2) by (simp add: numeral_2_eq_2)
qed

end
