(* ===== verification/Reactors.thy ===== *)
theory Reactors
  imports PollOpt
begin

text \<open>
  The goroutines of the event loops from their start to their end (\<open>reactor_default_linux.go\<close>,
  \<open>reactor_default_bsd.go\<close>, \<open>reactor_optimized_linux.go\<close>, \<open>reactor_optimized_bsd.go\<close>): they poll, and when polling ends
  their deferred functions close all connections and, in a loop with its own listener, the listener. The signal that
  ends the engine, the last thing they do, is in \<open>Shutdown\<close>.

  A reactor takes the answers of the kernel; the result is \<open>Inl\<close> while it polls and \<open>Inr\<close> when it has ended. \<open>conns\<close>
  and \<open>udps\<close> are the orders in which Go iterates over the maps of the loop at that time.
\<close>

section \<open>The deferred functions\<close>

type_synonym ('k, 'u) order = "('k, 'u) lstate \<Rightarrow> nat list"

definition sub_exit ::
  "'k world \<Rightarrow> 'u handler \<Rightarrow> ('k, 'u) order \<Rightarrow> ('k, 'u) order \<Rightarrow> ('p + ('k, 'u) lstate \<times> gerror option) go \<Rightarrow>
   ('p + ('k, 'u) lstate \<times> gerror option) go" where
  "sub_exit W h conns udps polling =
     go_bind polling (\<lambda>r.
     case r of
       Inl p \<Rightarrow> Ret (Inl p)
     | Inr (st, err) \<Rightarrow> go_bind (el_closeAllSockets W h (conns st) (udps st) st) (\<lambda>st. Ret (Inr (st, err))))"

definition run_exit ::
  "'k world \<Rightarrow> 'k netsys \<Rightarrow> 'u handler \<Rightarrow> ('k, 'u) order \<Rightarrow> ('k, 'u) order \<Rightarrow> 'k listener \<Rightarrow>
   ('p + ('k, 'u) lstate \<times> gerror option) go \<Rightarrow> ('p + ('k, 'u) lstate \<times> 'k listener) go" where
  "run_exit W N h conns udps ln polling =
     go_bind polling (\<lambda>r.
     case r of
       Inl p \<Rightarrow> Ret (Inl p)
     | Inr (st, err) \<Rightarrow>
         go_bind (el_closeAllSockets W h (conns st) (udps st) st) (\<lambda>st.
         case ln_close N (ls_k st) ln of (k, ln) \<Rightarrow> Ret (Inr (st\<lparr>ls_k := k\<rparr>, ln))))"

section \<open>Linux, default poller\<close>

definition activateSubReactor where
  "activateSubReactor W h lg conns udps st outs = sub_exit W h conns udps (pl_Polling W h (el_onEvent W h) lg st outs)"

definition el_run where
  "el_run W N A h network keepAlive cap mem new lg conns udps ln st outs =
     run_exit W N h conns udps ln (pl_Polling W h (el_runEvent W A h network keepAlive cap mem new) lg st outs)"

section \<open>BSD, default poller\<close>

definition kq_activateSubReactor where
  "kq_activateSubReactor W h conns udps st outs = sub_exit W h conns udps (kq_Polling W h (kq_onEvent W h) st outs)"

definition kq_run where
  "kq_run W N A h network keepAlive cap mem new conns udps ln st outs =
     run_exit W N h conns udps ln (kq_Polling W h (kq_runEvent W A h network keepAlive cap mem new) st outs)"

section \<open>Optimized pollers\<close>

definition eo_activateSubReactor where
  "eo_activateSubReactor W A h network keepAlive cap mem new conns udps st outs =
     sub_exit W h conns udps (eo_Polling W h (eo_run W A h network keepAlive cap mem new) st outs)"

definition eo_runReactor where
  "eo_runReactor W N A h network keepAlive cap mem new conns udps ln st outs =
     run_exit W N h conns udps ln (eo_Polling W h (eo_run W A h network keepAlive cap mem new) st outs)"

definition ko_activateSubReactor where
  "ko_activateSubReactor W A h network keepAlive cap mem new conns udps st outs =
     sub_exit W h conns udps (ko_Polling W h (ko_run W A h network keepAlive cap mem new) st outs)"

definition ko_runReactor where
  "ko_runReactor W N A h network keepAlive cap mem new conns udps ln st outs =
     run_exit W N h conns udps ln (ko_Polling W h (ko_run W A h network keepAlive cap mem new) st outs)"

section \<open>What a reactor leaves behind\<close>

text \<open>The orders list every connection; there are no connected UDP sockets.\<close>

definition orders_ok :: "('k, 'u) order \<Rightarrow> ('k, 'u) order \<Rightarrow> ('k, 'u) lstate \<Rightarrow> bool" where
  "orders_ok conns udps st \<longleftrightarrow> set (conns st) = ran (ls_connections st) \<and> ls_udpSockets st = Map.empty \<and> udps st = []"

definition all_closed :: "('k, 'u) lstate \<Rightarrow> bool" where
  "all_closed st \<longleftrightarrow> ls_connections st = Map.empty \<and> ls_connCount st = 0 \<and> (\<forall>c. \<not> c_opened (ls_conn st c))"

lemma closeAll_closed:
  assumes K: "kernel_ok W peer" and F: "fds_ok W isopen" and I: "loop_inv isopen st" and o: "orders_ok conns udps st"
  shows "\<exists>st'. el_closeAllSockets W h (conns st) (udps st) st = Ret st' \<and> all_closed st'"
  using closeAllSockets_closes[OF K F I, of "conns st" h] o by (auto simp: orders_ok_def all_closed_def)

lemma sub_exit_closes:
  assumes K: "kernel_ok W peer" and F: "fds_ok W isopen" and p: "polling = Ret (Inr (st, err))" and I: "loop_inv isopen st"
    and o: "orders_ok conns udps st"
  shows "\<exists>st'. sub_exit W h conns udps polling = Ret (Inr (st', err)) \<and> all_closed st'"
  using closeAll_closed[OF K F I o, of h] p by (auto simp: sub_exit_def)

lemma run_exit_closes:
  assumes K: "kernel_ok W peer" and F: "fds_ok W isopen" and p: "polling = Ret (Inr (st, err))" and I: "loop_inv isopen st"
    and o: "orders_ok conns udps st"
  shows "\<exists>st' ln'. run_exit W N h conns udps ln polling = Ret (Inr (st', ln')) \<and> all_closed st' \<and> ln_closed ln'"
proof -
  obtain st1 where c: "el_closeAllSockets W h (conns st) (udps st) st = Ret st1" "all_closed st1"
    using closeAll_closed[OF K F I o, of h] by blast
  obtain k ln' where l: "ln_close N (ls_k st1) ln = (k, ln')" by (metis surj_pair)
  then have "ln_closed ln'" by (auto simp: ln_close_def Let_def split: if_splits)
  with c l p show ?thesis by (auto simp: run_exit_def all_closed_def)
qed

end
