(* ===== verification/SocketVariants.thy ===== *)
theory SocketVariants
  imports Listener
begin

text \<open>
  The parts of \<open>internal/socket\<close> that depend on the operating system: the length of the listen queue
  (\<open>sock_linux.go\<close>, \<open>sock_bsd.go\<close>) and the socket creation and the keep-alive option of macOS (\<open>sys_cloexec.go\<close>,
  \<open>sockopts_darwin.go\<close>); and the duplication of descriptors (\<open>internal/netpoll/fd_unix.go\<close>).

  The functions of \<open>strings\<close>, \<open>strconv\<close> and \<open>bufio\<close> that \<open>maxListenerBacklog\<close> calls are defined for ASCII text. The
  content of the file it reads and the answers of \<open>sysctl\<close> are arguments.
\<close>

section \<open>Numbers and text\<close>

definition is_space :: "char \<Rightarrow> bool" where
  "is_space c \<longleftrightarrow> of_char c \<in> {9, 10, 11, 12, 13, 32 :: nat}"

text \<open>\<open>strings.Fields\<close>: the maximal runs of characters that are not white space.\<close>

fun fields_loop :: "string \<Rightarrow> string \<Rightarrow> string list" where
  "fields_loop cur [] = (if cur = [] then [] else [cur])"
| "fields_loop cur (c # cs) =
     (if is_space c then (if cur = [] then [] else [cur]) @ fields_loop [] cs else fields_loop (cur @ [c]) cs)"

definition strings_Fields :: "string \<Rightarrow> string list" where
  "strings_Fields s = fields_loop [] s"

definition digit_val :: "char \<Rightarrow> nat option" where
  "digit_val c = (if 48 \<le> (of_char c :: nat) \<and> (of_char c :: nat) \<le> 57 then Some (of_char c - 48) else None)"

fun parse_digits :: "nat \<Rightarrow> string \<Rightarrow> nat option" where
  "parse_digits acc [] = Some acc"
| "parse_digits acc (c # cs) = (case digit_val c of None \<Rightarrow> None | Some d \<Rightarrow> parse_digits (10 * acc + d) cs)"

text \<open>\<open>strconv.Atoi\<close>: \<open>None\<close> is an error of syntax or of range.\<close>

definition strconv_Atoi :: "string \<Rightarrow> int option" where
  "strconv_Atoi s =
     (let neg = (s \<noteq> [] \<and> hd s = CHR ''-''); digits = (if s \<noteq> [] \<and> hd s \<in> {CHR ''-'', CHR ''+''} then tl s else s)
      in if digits = [] then None
         else
           (case parse_digits 0 digits of
              None \<Rightarrow> None
            | Some n \<Rightarrow>
                let v = (if neg then - int n else int n)
                in if - (2 ^ 63) \<le> v \<and> v < 2 ^ 63 then Some v else None))"

fun nat_digits :: "nat \<Rightarrow> string" where
  "nat_digits n = (if n < 10 then [char_of (48 + n)] else nat_digits (n div 10) @ [char_of (48 + n mod 10)])"

definition strconv_Itoa :: "int \<Rightarrow> string" where
  "strconv_Itoa i = (if i < 0 then CHR ''-'' # nat_digits (nat (- i)) else nat_digits (nat i))"

section \<open>The listen queue\<close>

definition SOMAXCONN :: int where "SOMAXCONN = 128"

text \<open>\<open>ReadString('\n')\<close> at the start of a file: it fails when there is no newline.\<close>

definition read_line :: "string \<Rightarrow> string option" where
  "read_line content =
     (if CHR 0x0A \<in> set content then Some (takeWhile (\<lambda>c. c \<noteq> CHR 0x0A) content @ [CHR 0x0A]) else None)"

text \<open>The content of \<open>/proc/sys/net/core/somaxconn\<close> is the argument, \<open>None\<close> when it cannot be opened.\<close>

definition maxListenerBacklog :: "string option \<Rightarrow> int" where
  "maxListenerBacklog file =
     (case file of
        None \<Rightarrow> SOMAXCONN
      | Some content \<Rightarrow>
          (case read_line content of
             None \<Rightarrow> SOMAXCONN
           | Some line \<Rightarrow>
               let f = strings_Fields line
               in if length f < 1 then SOMAXCONN
                  else
                    (case strconv_Atoi (f ! 0) of
                       None \<Rightarrow> SOMAXCONN
                     | Some n \<Rightarrow> if n = 0 then SOMAXCONN else if n > 2 ^ 16 - 1 then 2 ^ 16 - 1 else n)))"

text \<open>On BSD: the operating system and what \<open>sysctl\<close> answers for the given name.\<close>

definition bsd_maxListenerBacklog :: "string \<Rightarrow> (string \<Rightarrow> 32 word \<times> errno option) \<Rightarrow> int" where
  "bsd_maxListenerBacklog goos sysctl =
     (let (n, err) =
            (if goos = ''darwin'' then sysctl ''kern.ipc.somaxconn''
             else if goos = ''freebsd'' then sysctl ''kern.ipc.soacceptqueue''
             else (0, None))
      in if n = 0 \<or> err \<noteq> None then SOMAXCONN else if uint n > 2 ^ 16 - 1 then 2 ^ 16 - 1 else uint n)"

section \<open>Sockets on macOS\<close>

text \<open>\<open>cloexec\<close> is \<open>unix.CloseOnExec\<close>.\<close>

definition darwin_sysSocket ::
  "'k netsys \<Rightarrow> ('k \<Rightarrow> int \<Rightarrow> 'k) \<Rightarrow> 'k \<Rightarrow> sofamily \<Rightarrow> sotype \<Rightarrow> soproto \<Rightarrow> 'k \<times> int \<times> errno option" where
  "darwin_sysSocket N cloexec k family sotype' proto =
     (case n_socket N k family sotype' proto False of (k, fd, err) \<Rightarrow>
        if err \<noteq> None then (k, fd, err)
        else
          (case n_nonblock N (cloexec k fd) fd of (k, err) \<Rightarrow>
             (if err \<noteq> None then fst (n_close N k fd) else k, fd, err)))"

text \<open>
  The third option is \<open>TCP_KEEPALIVE\<close>, which is called \<open>TCP_KEEPIDLE\<close> elsewhere. The switch compares the error of
  \<open>os.NewSyscallError\<close> with \<open>ENOPROTOOPT\<close>.
\<close>

definition darwin_SetKeepAlivePeriod :: "'k netsys \<Rightarrow> 'k \<Rightarrow> int \<Rightarrow> int \<Rightarrow> 'k \<times> gerror option" where
  "darwin_SetKeepAlivePeriod N k fd secs =
     (if secs \<le> 0 then (k, Some (Errorf ''invalid time duration''))
      else
        and_then (syscall_err ''setsockopt'' (n_setsockopt N k fd SO_KEEPALIVE 1)) (\<lambda>k.
        case syscall_err ''setsockopt'' (n_setsockopt N k fd TCP_KEEPINTVL secs) of (k, err) \<Rightarrow>
          if err = None \<or> err = Some (Errno ENOPROTOOPT)
          then syscall_err ''setsockopt'' (n_setsockopt N k fd TCP_KEEPIDLE secs)
          else (k, err)))"

section \<open>Duplicating descriptors\<close>

record 'k dupsys =
  d_fcntl :: "'k \<Rightarrow> int \<Rightarrow> 'k \<times> int \<times> errno option"
  d_dup :: "'k \<Rightarrow> int \<Rightarrow> 'k \<times> int \<times> errno option"
  d_cloexec :: "'k \<Rightarrow> int \<Rightarrow> 'k"

text \<open>The result: the descriptor, the name of the call that failed and its error.\<close>

definition dupCloseOnExecOld :: "'k dupsys \<Rightarrow> 'k \<Rightarrow> int \<Rightarrow> 'k \<times> int \<times> string \<times> errno option" where
  "dupCloseOnExecOld D k fd =
     (case d_dup D k fd of (k, newFD, err) \<Rightarrow>
        if err \<noteq> None then (k, -1, ''dup'', err) else (d_cloexec D k newFD, newFD, [], None))"

text \<open>The flag is the variable \<open>tryDupCloexec\<close>.\<close>

definition dupCloseOnExec :: "'k dupsys \<Rightarrow> bool \<Rightarrow> 'k \<Rightarrow> int \<Rightarrow> bool \<times> 'k \<times> int \<times> string \<times> errno option" where
  "dupCloseOnExec D fast k fd =
     (if fast then
        (case d_fcntl D k fd of (k, r, err) \<Rightarrow>
           (case err of
              None \<Rightarrow> (fast, k, r, [], None)
            | Some e \<Rightarrow>
                if e = EINVAL \<or> e = ENOSYS then (False, dupCloseOnExecOld D k fd)
                else (fast, k, -1, ''fcntl'', err)))
      else (fast, dupCloseOnExecOld D k fd))"

definition np_Dup :: "'k dupsys \<Rightarrow> bool \<Rightarrow> 'k \<Rightarrow> int \<Rightarrow> bool \<times> 'k \<times> int \<times> string \<times> errno option" where
  "np_Dup D fast k fd = dupCloseOnExec D fast k fd"

definition ln_dup :: "'k dupsys \<Rightarrow> bool \<Rightarrow> 'k \<Rightarrow> 'k listener \<Rightarrow> bool \<times> 'k \<times> int \<times> string \<times> errno option" where
  "ln_dup D fast k ln = np_Dup D fast k (ln_fd ln)"

section \<open>Numbers survive printing and parsing\<close>

declare nat_digits.simps [simp del]

lemma digit_val_char: "d < 10 \<Longrightarrow> digit_val (char_of (48 + d)) = Some d"
  by (simp add: digit_val_def)

lemma parse_digits_snoc:
  "parse_digits acc (xs @ [c]) = (case parse_digits acc xs of None \<Rightarrow> None | Some n \<Rightarrow> map_option (\<lambda>d. 10 * n + d) (digit_val c))"
  by (induction acc xs rule: parse_digits.induct) (auto split: option.splits)

lemma parse_nat_digits: "parse_digits 0 (nat_digits n) = Some n"
proof (induction n rule: nat_digits.induct)
  case (1 n)
  show ?case
  proof (cases "n < 10")
    case True
    then show ?thesis by (simp add: nat_digits.simps[of n] digit_val_char)
  next
    case False
    then have "parse_digits 0 (nat_digits (n div 10)) = Some (n div 10)" using 1 by blast
    then show ?thesis using False by (simp add: nat_digits.simps[of n] parse_digits_snoc digit_val_char)
  qed
qed

lemma nat_digits_chars: "c \<in> set (nat_digits n) \<Longrightarrow> 48 \<le> (of_char c :: nat) \<and> (of_char c :: nat) \<le> 57"
proof (induction n rule: nat_digits.induct)
  case (1 n)
  have d: "48 \<le> (of_char (char_of (48 + d :: nat)) :: nat) \<and> (of_char (char_of (48 + d :: nat)) :: nat) \<le> 57" if "d < 10" for d
    using that by simp
  show ?case
  proof (cases "n < 10")
    case True
    with "1.prems" d show ?thesis by (simp add: nat_digits.simps[of n])
  next
    case False
    then have "c \<in> set (nat_digits (n div 10)) \<or> c = char_of (48 + n mod 10)" using "1.prems" by (auto simp: nat_digits.simps[of n])
    with "1.IH"[OF False] d[of "n mod 10"] show ?thesis by auto
  qed
qed

lemma nat_digits_nonempty: "nat_digits n \<noteq> []"
  by (simp add: nat_digits.simps[of n])

lemma Atoi_Itoa: "- (2 ^ 63) \<le> i \<Longrightarrow> i < 2 ^ 63 \<Longrightarrow> strconv_Atoi (strconv_Itoa i) = Some i"
proof -
  assume i: "- (2 ^ 63) \<le> i" "i < 2 ^ 63"
  have sign: "hd (nat_digits n) \<notin> {CHR ''-'', CHR ''+''}" for n
    using nat_digits_chars[OF hd_in_set[OF nat_digits_nonempty], of n] by auto
  show ?thesis
  proof (cases "i < 0")
    case True
    then show ?thesis using i nat_digits_nonempty by (simp add: strconv_Itoa_def strconv_Atoi_def parse_nat_digits Let_def)
  next
    case False
    then show ?thesis
      using i sign[of "nat i"] nat_digits_nonempty[of "nat i"]
      by (simp add: strconv_Itoa_def strconv_Atoi_def parse_nat_digits Let_def)
  qed
qed

section \<open>The length of the listen queue\<close>

lemma fields_word: "\<forall>c\<in>set w. \<not> is_space c \<Longrightarrow> fields_loop cur (w @ rest) = fields_loop (cur @ w) rest"
  by (induction w arbitrary: cur) auto

lemma backlog_from_file:
  assumes "0 < n" "n < 2 ^ 63"
  shows "maxListenerBacklog (Some (strconv_Itoa n @ [CHR 0x0A])) = min n 65535"
proof -
  let ?w = "nat_digits (nat n)"
  have w: "strconv_Itoa n = ?w" using assms(1) by (simp add: strconv_Itoa_def)
  have chars: "\<not> is_space c" "c \<noteq> CHR 0x0A" if "c \<in> set ?w" for c
    using nat_digits_chars[OF that] by (auto simp: is_space_def)
  have line: "read_line (?w @ [CHR 0x0A]) = Some (?w @ [CHR 0x0A])"
    using chars(2) by (auto simp: read_line_def takeWhile_append)
  have "is_space (CHR 0x0A)" by (simp add: is_space_def)
  then have f: "strings_Fields (?w @ [CHR 0x0A]) = [?w]"
    using chars(1) nat_digits_nonempty by (simp add: strings_Fields_def fields_word)
  have "strconv_Atoi ?w = Some n" using Atoi_Itoa[of n] assms w by simp
  then show ?thesis using assms(1) by (simp add: maxListenerBacklog_def w line f Let_def min_def)
qed

lemma backlog_upper: "maxListenerBacklog file \<le> 65535"
  by (auto simp: maxListenerBacklog_def SOMAXCONN_def Let_def split: option.splits)

lemma bsd_backlog_bounds: "0 < bsd_maxListenerBacklog goos sysctl \<and> bsd_maxListenerBacklog goos sysctl \<le> 65535"
proof -
  have "0 < uint n" if "n \<noteq> 0" for n :: "32 word" using that by (simp add: word_neq_0_conv word_less_def)
  then show ?thesis by (auto simp: bsd_maxListenerBacklog_def SOMAXCONN_def Let_def split: prod.splits)
qed

section \<open>macOS\<close>

lemma darwin_sysSocket_no_leak:
  assumes F: "fds_sys N fds" and C: "\<And>k fd. fds (cloexec k fd) = fds k"
    and s: "darwin_sysSocket N cloexec k family sotype' proto = (k', fd, err)"
  shows "if err = None then fd \<notin> fds k \<and> fds k' = insert fd (fds k) else fds k' = fds k"
proof -
  obtain k1 fd1 e1 where o: "n_socket N k family sotype' proto False = (k1, fd1, e1)" by (metis surj_pair)
  show ?thesis
  proof (cases e1)
    case None
    with o fds_sysD(1)[OF F] have k1: "fd1 \<notin> fds k" "fds k1 = insert fd1 (fds k)" by auto
    obtain k2 e2 where n: "n_nonblock N (cloexec k1 fd1) fd1 = (k2, e2)" by (metis surj_pair)
    then have "fds k2 = fds k1" using fds_sysD(7)[OF F, of "cloexec k1 fd1" fd1] C by simp
    with k1 n s o None fds_sysD(8)[OF F, of k2 fd1] show ?thesis by (auto simp: darwin_sysSocket_def split: if_splits)
  next
    case (Some e)
    with o s fds_sysD(2)[OF F] show ?thesis by (auto simp: darwin_sysSocket_def)
  qed
qed

text \<open>The case for old systems is never taken: the error has been wrapped.\<close>

lemma darwin_keepalive_old_systems:
  assumes "0 < secs" "n_setsockopt N k fd SO_KEEPALIVE 1 = (k1, None)" "n_setsockopt N k1 fd TCP_KEEPINTVL secs = (k2, Some ENOPROTOOPT)"
  shows "darwin_SetKeepAlivePeriod N k fd secs = (k2, Some (SyscallError ''setsockopt'' ENOPROTOOPT))"
  using assms by (simp add: darwin_SetKeepAlivePeriod_def syscall_err_def NewSyscallError_def)

section \<open>Duplicates are closed on exec\<close>

text \<open>\<open>cx k fd\<close>: the descriptor will be closed on exec.\<close>

definition dup_sys :: "'k dupsys \<Rightarrow> ('k \<Rightarrow> int set) \<Rightarrow> ('k \<Rightarrow> int \<Rightarrow> bool) \<Rightarrow> bool" where
  "dup_sys D fds cx \<longleftrightarrow>
     (\<forall>k fd. case d_fcntl D k fd of (k', r, e) \<Rightarrow>
        if e = None then r \<notin> fds k \<and> fds k' = insert r (fds k) \<and> cx k' r else fds k' = fds k) \<and>
     (\<forall>k fd. case d_dup D k fd of (k', r, e) \<Rightarrow>
        if e = None then r \<notin> fds k \<and> fds k' = insert r (fds k) else fds k' = fds k) \<and>
     (\<forall>k fd. fds (d_cloexec D k fd) = fds k \<and> cx (d_cloexec D k fd) fd)"

lemma Dup_cloexec:
  assumes D: "dup_sys D fds cx" and r: "np_Dup D fast k fd = (fast', k', newFD, call, err)"
  shows "(if err = None then newFD \<notin> fds k \<and> fds k' = insert newFD (fds k) \<and> cx k' newFD else newFD = -1 \<and> fds k' = fds k) \<and>
    (fast' \<longrightarrow> fast)"
proof -
  have old: "if err = None then newFD \<notin> fds k1 \<and> fds k' = insert newFD (fds k1) \<and> cx k' newFD else newFD = -1 \<and> fds k' = fds k1"
    if "dupCloseOnExecOld D k1 fd = (k', newFD, call, err)" for k1
  proof -
    obtain k2 r2 e2 where d: "d_dup D k1 fd = (k2, r2, e2)" by (metis surj_pair)
    have "if e2 = None then r2 \<notin> fds k1 \<and> fds k2 = insert r2 (fds k1) else fds k2 = fds k1"
      using D d unfolding dup_sys_def by (metis (mono_tags, lifting) case_prod_conv)
    moreover have "fds (d_cloexec D k2 r2) = fds k2" "cx (d_cloexec D k2 r2) r2" using D by (auto simp: dup_sys_def)
    ultimately show ?thesis using that d by (auto simp: dupCloseOnExecOld_def split: if_splits)
  qed
  obtain k1 r1 e1 where f: "d_fcntl D k fd = (k1, r1, e1)" by (metis surj_pair)
  have f1: "if e1 = None then r1 \<notin> fds k \<and> fds k1 = insert r1 (fds k) \<and> cx k1 r1 else fds k1 = fds k"
    using D f unfolding dup_sys_def by (metis (mono_tags, lifting) case_prod_conv)
  show ?thesis
  proof (cases "fast \<and> e1 \<noteq> Some EINVAL \<and> e1 \<noteq> Some ENOSYS")
    case True
    with r f f1 show ?thesis by (auto simp: np_Dup_def dupCloseOnExec_def split: option.splits)
  next
    case False
    then obtain k2 where k2: "fds k2 = fds k" "dupCloseOnExecOld D k2 fd = (k', newFD, call, err)" "fast' \<longrightarrow> fast"
    proof (cases fast)
      case True
      with False have "e1 = Some EINVAL \<or> e1 = Some ENOSYS" by simp
      with True r f f1 have "fds k1 = fds k" "dupCloseOnExecOld D k1 fd = (k', newFD, call, err)"
        by (auto simp: np_Dup_def dupCloseOnExec_def)
      with True that show ?thesis by blast
    next
      case False
      with r have "dupCloseOnExecOld D k fd = (k', newFD, call, err)" "fast' \<longrightarrow> fast" by (auto simp: np_Dup_def dupCloseOnExec_def)
      with that show ?thesis by blast
    qed
    with old[OF k2(2)] show ?thesis by auto
  qed
qed

end
