(* ===== verification/ConnMethods.thy ===== *)
theory ConnMethods
  imports SocketVariants LoopProperties
begin

text \<open>
  The methods of a connection (\<open>connection.go\<close>) that the other theories have no use for: the accessors, the socket
  options, the deadlines, which are not supported, and \<open>ReadFrom\<close>. The lemmas are about \<open>ReadFrom\<close>, which fills the
  outbound buffer without telling the poller.
\<close>

section \<open>Accessors and socket options\<close>

definition c_SetDeadline :: "conn \<Rightarrow> int \<Rightarrow> gerror option" where "c_SetDeadline c t = Some ErrUnsupportedOp"
definition c_SetReadDeadline :: "conn \<Rightarrow> int \<Rightarrow> gerror option" where "c_SetReadDeadline c t = Some ErrUnsupportedOp"
definition c_SetWriteDeadline :: "conn \<Rightarrow> int \<Rightarrow> gerror option" where "c_SetWriteDeadline c t = Some ErrUnsupportedOp"

definition c_Context :: "conn \<Rightarrow> nat option" where "c_Context c = c_ctx c"
definition c_SetContext :: "conn \<Rightarrow> nat option \<Rightarrow> conn" where "c_SetContext c ctx = c\<lparr>c_ctx := ctx\<rparr>"
definition c_LocalAddr :: "conn \<Rightarrow> netaddr option" where "c_LocalAddr c = c_localAddr c"
definition c_RemoteAddr :: "conn \<Rightarrow> netaddr option" where "c_RemoteAddr c = c_remoteAddr c"
definition c_Fd :: "conn \<Rightarrow> int" where "c_Fd c = c_fd c"

definition c_Dup :: "'k dupsys \<Rightarrow> bool \<Rightarrow> 'k \<Rightarrow> conn \<Rightarrow> bool \<times> 'k \<times> int \<times> errno option" where
  "c_Dup D fast k c = (case np_Dup D fast k (c_fd c) of (fast, k, fd, _, err) \<Rightarrow> (fast, k, fd, err))"

definition c_SetReadBuffer :: "'k netsys \<Rightarrow> 'k \<Rightarrow> conn \<Rightarrow> int \<Rightarrow> 'k \<times> gerror option" where
  "c_SetReadBuffer N k c bytes = SetRecvBuffer N k (c_fd c) bytes"

definition c_SetWriteBuffer :: "'k netsys \<Rightarrow> 'k \<Rightarrow> conn \<Rightarrow> int \<Rightarrow> 'k \<times> gerror option" where
  "c_SetWriteBuffer N k c bytes = SetSendBuffer N k (c_fd c) bytes"

definition c_SetLinger :: "'k netsys \<Rightarrow> 'k \<Rightarrow> conn \<Rightarrow> int \<Rightarrow> 'k \<times> gerror option" where
  "c_SetLinger N k c sec = SetLinger N k (c_fd c) sec"

definition c_SetNoDelay :: "'k netsys \<Rightarrow> 'k \<Rightarrow> conn \<Rightarrow> bool \<Rightarrow> 'k \<times> gerror option" where
  "c_SetNoDelay N k c noDelay = SetNoDelay N k (c_fd c) (bool2int noDelay)"

definition c_GetNoDelay ::
  "('k \<Rightarrow> int \<Rightarrow> soname \<Rightarrow> 'k \<times> int \<times> errno option) \<Rightarrow> 'k \<Rightarrow> conn \<Rightarrow> 'k \<times> int \<times> gerror option" where
  "c_GetNoDelay getopt k c = GetNoDelay getopt k (c_fd c)"

text \<open>What was set is what is read, for a kernel that keeps the option: \<open>val\<close> is its value.\<close>

lemma GetNoDelay_SetNoDelay:
  assumes "c_SetNoDelay N k c b = (k', None)"
    and "\<And>k fd v k'. n_setsockopt N k fd TCP_NODELAY v = (k', None) \<Longrightarrow> val k' fd = v"
    and "\<And>k fd. getopt k fd TCP_NODELAY = (k, val k fd, None)"
  shows "c_GetNoDelay getopt k' c = (k', if b then 1 else 0, None)"
  using assms(1) assms(2)[of k "c_fd c" "bool2int b" k'] assms(3)[of k' "c_fd c"]
  by (cases "n_setsockopt N k (c_fd c) TCP_NODELAY (bool2int b)")
    (auto simp: c_SetNoDelay_def SetNoDelay_def syscall_err_def NewSyscallError_def c_GetNoDelay_def GetNoDelay_def bool2int_def
      split: option.splits if_splits)

text \<open>
  \<open>d\<close> is in nanoseconds, and \<open>int(d.Seconds())\<close> rounds towards zero. For periods of more than about three months the
  floating-point number the code goes through may round up instead.
\<close>

definition whole_seconds :: "int \<Rightarrow> int" where
  "whole_seconds d = (if d < 0 then - ((- d) div 10 ^ 9) else d div 10 ^ 9)"

definition c_SetKeepAlivePeriod :: "'k netsys \<Rightarrow> 'k \<Rightarrow> conn \<Rightarrow> int \<Rightarrow> 'k \<times> gerror option" where
  "c_SetKeepAlivePeriod N k c d = SetKeepAlivePeriod N k (c_fd c) (whole_seconds d)"

definition c_SetWebSock :: "conn \<Rightarrow> bool \<Rightarrow> conn" where "c_SetWebSock c ws = c\<lparr>c_isWebSock := ws\<rparr>"
definition c_IsWebSock :: "conn \<Rightarrow> bool" where "c_IsWebSock c = c_isWebSock c"

section \<open>ReadFrom\<close>

definition c_ReadFrom ::
  "'k world \<Rightarrow> 's reader \<Rightarrow> 's \<Rightarrow> ('k, 'u) lstate \<Rightarrow> nat \<Rightarrow> (('k, 'u) lstate \<times> 's \<times> int \<times> gerror option) go" where
  "c_ReadFrom W rd s st c =
     with_out st c (\<lambda>mb. case w_env W (ls_tick st) of (mem, fresh) \<Rightarrow>
       go_bind (eb_ReadFrom mem fresh rd s mb) (\<lambda>(mb, s, n, err).
       Ret ((set_out st c mb)\<lparr>ls_tick := Suc (ls_tick st)\<rparr>, s, n, err)))"

lemma eb_ReadFrom_idle:
  assumes ok: "reader_ok rd rem" and mb: "eb_rep mb []" "er_rb (eb_ring mb) = None" and ne: "rem s \<noteq> []"
    and fresh: "ring_source fresh" "rb_r fresh = 0"
  shows "\<exists>mb' s'. eb_ReadFrom mem fresh rd s mb = Ret (mb', s', glen (rem s), None) \<and> rem s' = [] \<and> eb_rep mb' (rem s)"
proof -
  have f: "rb_inv fresh" "rb_content fresh = []" using fresh(1) by (auto simp: ring_source_def rb_rep_def)
  from rb_ReadFrom_spec[OF ok f(1) fresh(2), of s mem] ne obtain rb' s' where
    r: "rb_ReadFrom mem rd s fresh = Ret (rb', s', glen (rem s), None)" "rem s' = []" "rb_inv rb'" "rb_content rb' = rem s"
    using f(2) by auto
  have ls: "ll_rep (eb_list mb) []" "0 < eb_maxStatic mb" using mb by (auto simp: eb_rep_def)
  have "ll_IsEmpty (eb_list mb)" using ls(1) by (simp add: ll_IsEmpty_rep)
  moreover have "er_Buffered (eb_ring mb) < eb_maxStatic mb" using mb(2) ls(2) by (simp add: er_Buffered_def)
  ultimately have "eb_ReadFrom mem fresh rd s mb = Ret (mb\<lparr>eb_ring := \<lparr>er_rb = Some rb'\<rparr>\<rparr>, s', glen (rem s), None)"
    using r(1) mb(2) by (cases "eb_ring mb") (simp add: eb_ReadFrom_def er_ReadFrom_def er_instance_def)
  moreover have "eb_rep (mb\<lparr>eb_ring := \<lparr>er_rb = Some rb'\<rparr>\<rparr>) (rem s)"
    by (rule eb_repI[where rs = "rem s" and ls = "[]"]) (use ls r in \<open>auto simp: rb_rep_def\<close>)
  ultimately show ?thesis using r(2) by blast
qed

text \<open>
  While bytes are pending, \<open>Write\<close> and \<open>Writev\<close> only append: the kernel is not called, not even to watch the
  connection for writing.
\<close>

lemma pending_writes_append:
  assumes E: "env_ok W" and flush: "\<forall>op'\<in>set ops. op' \<noteq> OFlush"
  shows "conn_open st c xs \<Longrightarrow> xs \<noteq> [] \<Longrightarrow> glen xs + glen (concat (map out_data ops)) \<le> 2 ^ 62 \<Longrightarrow>
    \<exists>st'. out_run W h c st ops = Ret st' \<and> conn_open st' c (xs @ concat (map out_data ops)) \<and> ls_k st' = ls_k st"
  using flush
proof (induction ops arbitrary: st xs)
  case (Cons op' ops)
  have o: "c_opened (ls_conn st c)" "\<not> c_isDatagram (ls_conn st c)" "out_rep st c xs"
    using Cons.prems(1) by (auto simp: conn_open_def)
  have em: "out_IsEmpty st c = Ret False" using out_IsEmpty_rep[OF o(3)] Cons.prems(2) by simp
  have small: "glen xs + glen (out_data op') \<le> 2 ^ 62" using Cons.prems(3) by simp
  have "\<exists>mb. out_step W h c st op' = Ret (out_upd st c mb (ls_k st) (Suc (ls_tick st))) \<and> eb_rep mb (xs @ out_data op')"
  proof (cases op')
    case (OWrite d)
    with out_Write_rep[OF E o(3), of d] small obtain mb where
      "out_Write W st c d = Ret (out_upd st c mb (ls_k st) (Suc (ls_tick st)))" "eb_rep mb (xs @ d)" by auto
    with OWrite em o(2) show ?thesis by (auto simp: c_Write_def c_write_def Let_def)
  next
    case (OWritev bs)
    with out_Writev_rep[OF E o(3), of bs] small obtain mb where
      "out_Writev W st c bs = Ret (out_upd st c mb (ls_k st) (Suc (ls_tick st)))" "eb_rep mb (xs @ concat bs)" by auto
    with OWritev em o(2) show ?thesis by (auto simp: c_Writev_def c_writev_def Let_def)
  next
    case OFlush
    with Cons.prems(4) show ?thesis by simp
  qed
  then obtain mb where s: "out_step W h c st op' = Ret (out_upd st c mb (ls_k st) (Suc (ls_tick st)))" "eb_rep mb (xs @ out_data op')"
    by blast
  have "conn_open (out_upd st c mb (ls_k st) (Suc (ls_tick st))) c (xs @ out_data op')" using conn_open_upd[OF Cons.prems(1) s(2)] .
  from Cons.IH[OF this] Cons.prems s(1) o(1) show ?case by auto
qed auto

text \<open>
  \<open>ReadFrom\<close> on an idle connection takes everything the reader has, but neither writes to the socket nor asks for
  writability; what \<open>Write\<close> and \<open>Writev\<close> are given afterwards waits as well.
\<close>

lemma ReadFrom_stalls:
  assumes E: "env_ok W" and ok: "reader_ok rd rem" and c: "conn_open st c []" and ring: "c_out (ls_conn st c) = Some mb" "er_rb (eb_ring mb) = None"
    and ne: "rem s \<noteq> []" and fresh: "rb_r (snd (w_env W (ls_tick st))) = 0" and flush: "\<forall>op'\<in>set ops. op' \<noteq> OFlush"
    and small: "glen (rem s) + glen (concat (map out_data ops)) \<le> 2 ^ 62"
  shows "\<exists>st1 s1 st2. c_ReadFrom W rd s st c = Ret (st1, s1, glen (rem s), None) \<and> out_run W h c st1 ops = Ret st2 \<and>
    conn_open st2 c (rem s @ concat (map out_data ops)) \<and> ls_k st2 = ls_k st"
proof -
  obtain mem fr where w: "w_env W (ls_tick st) = (mem, fr)" by (metis surj_pair)
  have mb: "eb_rep mb []" using c ring(1) by (auto simp: conn_open_def out_rep_def)
  obtain mb' s' where r: "eb_ReadFrom mem fr rd s mb = Ret (mb', s', glen (rem s), None)" "eb_rep mb' (rem s)"
    using eb_ReadFrom_idle[OF ok mb ring(2) ne env_source[OF E w]] fresh w by fastforce
  let ?st = "out_upd st c mb' (ls_k st) (Suc (ls_tick st))"
  have "c_ReadFrom W rd s st c = Ret (?st, s', glen (rem s), None)"
    using ring(1) w r(1) by (simp add: c_ReadFrom_def with_out_def out_upd_def set_out_def)
  moreover have "conn_open ?st c (rem s)" using conn_open_upd[OF c r(2)] .
  from pending_writes_append[OF E flush this ne small, of h] obtain st2 where
    "out_run W h c ?st ops = Ret st2" "conn_open st2 c (rem s @ concat (map out_data ops))" "ls_k st2 = ls_k st" by auto
  ultimately show ?thesis by blast
qed

end
