(* ===== verification/Client.thy ===== *)
theory Client
  imports Engine Startup ConnMethods
begin

text \<open>
  Connections the program opens itself: \<open>AddTCPConnector\<close> and \<open>CountConnections\<close> of \<open>gnet.go\<close>, which work on a running
  engine, and the client of \<open>client.go\<close>, an event loop without a listener.

  The kernel appears as \<open>'k world\<close> to the event loop and as \<open>'k netsys\<close>, \<open>'k epollsys\<close> and \<open>'k dupsys\<close> to the rest.
\<close>

section \<open>Counting connections\<close>

definition el_loadConn :: "('k, 'u) lstate \<Rightarrow> int" where
  "el_loadConn st = ls_connCount st"

text \<open>\<open>loops\<close> is the order in which the balancer iterates.\<close>

definition CountConnections :: "('k, 'u, 'b) engine \<Rightarrow> nat list \<Rightarrow> int" where
  "CountConnections eng loops = foldl (\<lambda>count el. count + el_loadConn (en_loops eng el)) 0 loops"

text \<open>\<open>Engine.Dup\<close>; the listener is \<open>nil\<close> in an engine whose loops have their own.\<close>

definition eng_Dup :: "'k dupsys \<Rightarrow> bool \<Rightarrow> ('k, 'u) estate \<Rightarrow> (bool \<times> 'k \<times> int \<times> errno option) go" where
  "eng_Dup D fast es =
     (case es_ln es of
        None \<Rightarrow> Panic NilDereference
      | Some r \<Rightarrow>
          (case ln_dup D fast (es_k es) (es_lns es ! r) of (fast, k, fd, _, err) \<Rightarrow> Ret (fast, k, fd, err)))"

section \<open>Outgoing connections of an engine\<close>

definition connectorOpts :: "options \<Rightarrow> 'k sockOption list" where
  "connectorOpts o' =
     (if o_TCPNoDelay o' = TCPNoDelay then [(SetNoDelay, 1)] else []) @
     (if o_TCPKeepAlive o' > 0 then [(SetKeepAlivePeriod, o_TCPKeepAlive o' div 10 ^ 9)] else []) @
     (if o_SocketRecvBuffer o' > 0 then [(SetRecvBuffer, o_SocketRecvBuffer o')] else []) @
     (if o_SocketSendBuffer o' > 0 then [(SetSendBuffer, o_SocketSendBuffer o')] else [])"

text \<open>
  \<open>c0\<close> is the address of the new connection object in the loop the balancer picks. \<open>el.register\<close> runs in the goroutine
  of the caller.
\<close>

definition AddTCPConnector ::
  "'k world \<Rightarrow> 'k netsys \<Rightarrow> 'u handler \<Rightarrow> ('b \<Rightarrow> netaddr option \<Rightarrow> ('b \<times> nat) go) \<Rightarrow> nat \<Rightarrow>
   string \<Rightarrow> string \<Rightarrow> nat option \<Rightarrow> (options \<Rightarrow> options) list \<Rightarrow> ('k, 'u, 'b) engine \<Rightarrow>
   (('k, 'u, 'b) engine \<times> nat option \<times> gerror option) go" where
  "AddTCPConnector W N h pick c0 network addr connIdx opts eng =
     (case TCPConnect N network addr (connectorOpts (loadOptions opts)) (en_k eng) of (k, nfd, na, sa, err) \<Rightarrow>
        let eng = eng\<lparr>en_k := k\<rparr>
        in if err \<noteq> None then Ret (eng, None, err)
           else
             go_bind (pick (en_lb eng) na) (\<lambda>(lb, el).
             let x = newTCPConn (en_writeBufferCap eng) nfd sa na na;
                 st = upd_conn ((en_loops eng el)\<lparr>ls_k := en_k eng\<rparr>) c0 (c_SetContext x connIdx)
             in go_bind (el_register W h st c0) (\<lambda>(st, err).
                go_bind
                  (if err \<noteq> None
                   then el_releaseTCP (st\<lparr>ls_k := fst (w_close W (ls_k st) nfd)\<rparr>) c0
                   else Ret st)
                  (\<lambda>st. Ret (eng\<lparr>en_k := ls_k st, en_lb := lb, en_loops := (en_loops eng)(el := st)\<rparr>, Some c0, err)))))"

section \<open>The client\<close>

text \<open>A client whose creation failed has no loop; \<open>cl_running\<close> says that the goroutine of the loop runs.\<close>

record ('k, 'u) client =
  cl_opts :: options
  cl_loop :: "('k, 'u) eloop option"
  cl_ln :: "'k listener"
  cl_running :: bool
  cl_ticker :: bool

text \<open>\<open>&listener{network: "udp"}\<close>.\<close>

definition client_ln :: "'k listener" where
  "client_ln = \<lparr>ln_closed = False, ln_fd = 0, ln_addr = None, ln_address = [], ln_network = ''udp'', ln_sockOpts = []\<rparr>"

text \<open>\<open>logErr\<close> is the error of opening the log file, which is done when there is a path; \<open>u\<close> is the handler's state.\<close>

definition NewClient ::
  "'k netsys \<Rightarrow> 'k epollsys \<Rightarrow> gerror option \<Rightarrow> 'u \<Rightarrow> (options \<Rightarrow> options) list \<Rightarrow> 'k \<Rightarrow> ('k \<times> ('k, 'u) client \<times> gerror option) go" where
  "NewClient N E logErr u opts k =
     (let o' = loadOptions opts;
          cli = \<lparr>cl_opts = o', cl_loop = None, cl_ln = client_ln, cl_running = False, cl_ticker = False\<rparr>
      in if o_LogPath o' \<noteq> [] \<and> logErr \<noteq> None then Ret (k, cli, logErr)
         else
           (case OpenPoller N E k of
              (k, None, err) \<Rightarrow> Ret (k, cli, err)
            | (k, Some p, _) \<Rightarrow>
                go_bind (run_bufferCap (o_ReadBufferCap o')) (\<lambda>r.
                go_bind (run_bufferCap (o_WriteBufferCap o')) (\<lambda>w.
                let o' = o'\<lparr>o_ReadBufferCap := r, o_WriteBufferCap := w\<rparr>
                in Ret (k, cli\<lparr>cl_opts := o', cl_loop := Some (new_eventloop k u client_ln 0 p r 0)\<rparr>, None)))))"

text \<open>\<open>boot\<close> is \<open>OnBoot\<close>, whose action is dropped.\<close>

definition cl_Start :: "('u \<Rightarrow> 'u \<times> action) \<Rightarrow> ('k, 'u) client \<Rightarrow> ('k, 'u) client go" where
  "cl_Start boot cli =
     (case cl_loop cli of
        None \<Rightarrow> Panic NilDereference
      | Some el \<Rightarrow>
          Ret (cli\<lparr>cl_loop := Some (el\<lparr>lp_state := (lp_state el)\<lparr>ls_user := fst (boot (ls_user (lp_state el)))\<rparr>\<rparr>),
                   cl_running := True, cl_ticker := o_Ticker (cl_opts cli)\<rparr>))"

text \<open>The polling of the goroutine that \<open>Start\<close> starts, over the answers of \<open>epoll_wait\<close>; \<open>mem\<close> and \<open>new\<close> as in \<open>Engine\<close>.\<close>

definition cl_polls ::
  "'k world \<Rightarrow> 'k listen \<Rightarrow> 'u handler \<Rightarrow> stale \<Rightarrow> (('k, 'u) lstate \<Rightarrow> nat) \<Rightarrow> ('k, 'u) client \<Rightarrow> ('k, 'u) eloop \<Rightarrow>
   (int \<times> errno option \<times> (int \<times> 32 word) list) list \<Rightarrow> (pstate \<times> ('k, 'u) lstate + ('k, 'u) lstate \<times> gerror option) go" where
  "cl_polls W A h mem new cli el outs =
     pl_Polling W h
       (el_runEvent W A h (ln_network (cl_ln cli)) (o_TCPKeepAlive (cl_opts cli) div 10 ^ 9) (o_WriteBufferCap (cl_opts cli)) mem new)
       (po_logic (lp_poller el)) (lp_state el) outs"

text \<open>
  \<open>Stop\<close>: it queues a shutdown task and waits for the goroutine, which closes all sockets and the listener; then the
  poller is closed. \<open>conns\<close> and \<open>udps\<close> are the orders of the maps, \<open>onShutdown\<close> is \<open>OnShutdown\<close>.
\<close>

definition cl_Stop ::
  "'k world \<Rightarrow> 'k netsys \<Rightarrow> 'u handler \<Rightarrow> ('u \<Rightarrow> 'u) \<Rightarrow> nat list \<Rightarrow> nat list \<Rightarrow> 'k \<Rightarrow> ('k, 'u) client \<Rightarrow>
   ('k \<times> ('k, 'u) client) go" where
  "cl_Stop W N h onShutdown conns udps k cli =
     (case cl_loop cli of
        None \<Rightarrow> Panic NilDereference
      | Some el \<Rightarrow>
          (case lp_notify W k el of (k, el) \<Rightarrow>
             go_bind
               (if cl_running cli then
                  go_bind (el_closeAllSockets W h conns udps ((lp_state el)\<lparr>ls_k := k\<rparr>)) (\<lambda>st.
                  case ln_close N (ls_k st) (cl_ln cli) of (k, ln) \<Rightarrow> Ret (k, el\<lparr>lp_state := st\<lparr>ls_k := k\<rparr>\<rparr>, ln))
                else Ret (k, el, cl_ln cli))
               (\<lambda>(k, el, ln).
                 let k = fst (po_Close N k (lp_poller el));
                     st = (lp_state el)\<lparr>ls_k := k, ls_user := onShutdown (ls_user (lp_state el))\<rparr>
                 in Ret (k, cli\<lparr>cl_loop := Some (el\<lparr>lp_state := st\<rparr>), cl_ln := ln, cl_running := False, cl_ticker := False\<rparr>))))"

section \<open>Enrolling connections\<close>

text \<open>
  What the client learns of a \<open>net.Conn\<close>: whether it is a \<open>syscall.Conn\<close>, the errors of \<open>SyscallConn\<close> and \<open>Control\<close>, its
  descriptor, type and addresses.
\<close>

datatype conntype = UnixConn | TCPConn | UDPConn | OtherConn

record netconn =
  nc_isSyscall :: bool
  nc_rawErr :: bool
  nc_controlErr :: "gerror option"
  nc_fd :: int
  nc_type :: conntype
  nc_local :: netaddr
  nc_remote :: netaddr

text \<open>The options of \<open>Enroll\<close> that are set for every connection.\<close>

definition enroll_buffers :: "'k netsys \<Rightarrow> options \<Rightarrow> int \<Rightarrow> 'k \<Rightarrow> 'k \<times> gerror option" where
  "enroll_buffers N o' fd k =
     and_then (if o_SocketSendBuffer o' > 0 then SetSendBuffer N k fd (o_SocketSendBuffer o') else (k, None)) (\<lambda>k.
     if o_SocketRecvBuffer o' > 0 then SetRecvBuffer N k fd (o_SocketRecvBuffer o') else (k, None))"

definition enroll_tcpOpts :: "'k netsys \<Rightarrow> options \<Rightarrow> int \<Rightarrow> 'k \<Rightarrow> 'k \<times> gerror option" where
  "enroll_tcpOpts N o' fd k =
     and_then (if o_TCPNoDelay o' = TCPDelay then SetNoDelay N k fd 0 else (k, None)) (\<lambda>k.
     if o_TCPKeepAlive o' > 0 then SetKeepAlivePeriod N k fd (whole_seconds (o_TCPKeepAlive o')) else (k, None))"

text \<open>The new connection; \<open>addr_str\<close> is \<open>net.Addr.String\<close>, \<open>mem\<close> memory for its address.\<close>

definition enroll_conn ::
  "'k world \<Rightarrow> 'k netsys \<Rightarrow> (netaddr \<Rightarrow> string) \<Rightarrow> stale \<Rightarrow> options \<Rightarrow> netconn \<Rightarrow> int \<Rightarrow> 'k \<Rightarrow> ('k \<times> (gerror + conn)) go" where
  "enroll_conn W N addr_str mem o' nc dupFD k =
     (case nc_type nc of
        UnixConn \<Rightarrow>
          (case GetUnixSockAddr N (addr_Network (nc_remote nc)) (addr_str (nc_remote nc)) of
             Inl err \<Rightarrow> Ret (k, Inl err)
           | Inr (sa, _, _) \<Rightarrow>
               Ret (k, Inr (newTCPConn (o_WriteBufferCap o') dupFD (Some sa)
                 (Some (UnixAddr (addr_str (nc_remote nc) @ ''.'' @ strconv_Itoa dupFD))) (Some (nc_remote nc)))))
      | TCPConn \<Rightarrow>
          (case enroll_tcpOpts N o' dupFD k of (k, err) \<Rightarrow>
             (case err of
                Some e \<Rightarrow> Ret (k, Inl e)
              | None \<Rightarrow>
                  (case GetTCPSockAddr N (addr_Network (nc_remote nc)) (addr_str (nc_remote nc)) of
                     Inl err \<Rightarrow> Ret (k, Inl err)
                   | Inr (sa, _, _, _) \<Rightarrow>
                       Ret (k, Inr (newTCPConn (o_WriteBufferCap o') dupFD (Some sa) (Some (nc_local nc)) (Some (nc_remote nc)))))))
      | UDPConn \<Rightarrow>
          (case GetUDPSockAddr N (addr_Network (nc_remote nc)) (addr_str (nc_remote nc)) of
             Inl err \<Rightarrow> Ret (k, Inl err)
           | Inr (sa, _, _, _) \<Rightarrow>
               go_bind (newUDPConn (w_ifname W) mem dupFD (Some (nc_local nc)) (Some sa) True) (\<lambda>x. Ret (k, Inr x)))
      | OtherConn \<Rightarrow> Ret (k, Inl ErrUnsupportedProtocol))"

text \<open>The end of \<open>Enroll\<close>: the registration of the new connection, whose object gets the address \<open>c0\<close>.\<close>

definition enroll_register ::
  "'k world \<Rightarrow> nat \<Rightarrow> ('k, 'u) lstate \<Rightarrow> conn \<Rightarrow> ('k, 'u) lstate \<times> nat option \<times> gerror option" where
  "enroll_register W c0 st gc =
     (case pl_UrgentTrigger W (upd_conn st c0 gc) (TRegister c0) of (st, err) \<Rightarrow>
        if err \<noteq> None then (fst (c_Close W st c0), None, err) else (st, Some c0, None))"

text \<open>\<open>Enroll\<close> after the descriptor has been duplicated.\<close>

definition enroll_dup ::
  "'k world \<Rightarrow> 'k netsys \<Rightarrow> (netaddr \<Rightarrow> string) \<Rightarrow> stale \<Rightarrow> nat \<Rightarrow> options \<Rightarrow> netconn \<Rightarrow> int \<Rightarrow> ('k, 'u) lstate \<Rightarrow>
   (('k, 'u) lstate \<times> nat option \<times> gerror option) go" where
  "enroll_dup W N addr_str mem c0 o' nc dupFD st =
     (case enroll_buffers N o' dupFD (ls_k st) of (k, err) \<Rightarrow>
        if err \<noteq> None then Ret (st\<lparr>ls_k := k\<rparr>, None, err)
        else
          go_bind (enroll_conn W N addr_str mem o' nc dupFD k) (\<lambda>(k, r).
          case r of
            Inl err \<Rightarrow> Ret (st\<lparr>ls_k := k\<rparr>, None, Some err)
          | Inr gc \<Rightarrow> Ret (enroll_register W c0 (st\<lparr>ls_k := k\<rparr>) gc)))"

text \<open>\<open>Enroll\<close> before the deferred \<open>c.Close()\<close>.\<close>

definition cl_enroll ::
  "'k world \<Rightarrow> 'k netsys \<Rightarrow> ('k \<Rightarrow> int \<Rightarrow> 'k \<times> int \<times> errno option) \<Rightarrow> (netaddr \<Rightarrow> string) \<Rightarrow> stale \<Rightarrow> nat \<Rightarrow> options \<Rightarrow> netconn \<Rightarrow>
   ('k, 'u) lstate \<Rightarrow> (('k, 'u) lstate \<times> nat option \<times> gerror option) go" where
  "cl_enroll W N dup addr_str mem c0 o' nc st =
     (if \<not> nc_isSyscall nc then Ret (st, None, Some (Errorf ''failed to convert net.Conn to syscall.Conn''))
      else if nc_rawErr nc then Ret (st, None, Some (Errorf ''failed to get syscall.RawConn from net.Conn''))
      else if nc_controlErr nc \<noteq> None then Ret (st, None, nc_controlErr nc)
      else
        (case dup (ls_k st) (nc_fd nc) of (k, dupFD, err) \<Rightarrow>
           if err \<noteq> None then Ret (st\<lparr>ls_k := k\<rparr>, None, map_option Errno err)
           else enroll_dup W N addr_str mem c0 o' nc dupFD (st\<lparr>ls_k := k\<rparr>)))"

definition cl_Enroll ::
  "'k world \<Rightarrow> 'k netsys \<Rightarrow> ('k \<Rightarrow> int \<Rightarrow> 'k \<times> int \<times> errno option) \<Rightarrow> (netaddr \<Rightarrow> string) \<Rightarrow> stale \<Rightarrow> nat \<Rightarrow> options \<Rightarrow> netconn \<Rightarrow>
   ('k, 'u) lstate \<Rightarrow> (('k, 'u) lstate \<times> nat option \<times> gerror option) go" where
  "cl_Enroll W N dup addr_str mem c0 o' nc st =
     go_bind (cl_enroll W N dup addr_str mem c0 o' nc st) (\<lambda>(st, c, err).
     Ret (st\<lparr>ls_k := fst (n_close N (ls_k st) (nc_fd nc))\<rparr>, c, err))"

text \<open>\<open>net.Dial\<close> is the argument \<open>dial\<close>.\<close>

definition cl_Dial ::
  "'k world \<Rightarrow> 'k netsys \<Rightarrow> ('k \<Rightarrow> string \<Rightarrow> string \<Rightarrow> 'k \<times> (gerror + netconn)) \<Rightarrow> ('k \<Rightarrow> int \<Rightarrow> 'k \<times> int \<times> errno option) \<Rightarrow>
   (netaddr \<Rightarrow> string) \<Rightarrow> stale \<Rightarrow> nat \<Rightarrow> options \<Rightarrow> string \<Rightarrow> string \<Rightarrow> ('k, 'u) lstate \<Rightarrow>
   (('k, 'u) lstate \<times> nat option \<times> gerror option) go" where
  "cl_Dial W N dial dup addr_str mem c0 o' network address st =
     (case dial (ls_k st) network address of
        (k, Inl err) \<Rightarrow> Ret (st\<lparr>ls_k := k\<rparr>, None, Some err)
      | (k, Inr nc) \<Rightarrow> cl_Enroll W N dup addr_str mem c0 o' nc (st\<lparr>ls_k := k\<rparr>))"

section \<open>The number of connections\<close>

lemma CountConnections_sum:
  assumes "\<forall>el\<in>set loops. table_ok (en_loops eng el)"
  shows "CountConnections eng loops = (\<Sum>el\<leftarrow>loops. int (card (dom (ls_connections (en_loops eng el)))))"
proof -
  have "foldl (\<lambda>count el. count + el_loadConn (en_loops eng el)) n loops =
      n + (\<Sum>el\<leftarrow>loops. int (card (dom (ls_connections (en_loops eng el)))))" for n
    using assms by (induction loops arbitrary: n) (auto simp: el_loadConn_def table_ok_def)
  then show ?thesis by (simp add: CountConnections_def)
qed

section \<open>Connecting\<close>

text \<open>What the connector's loop looks like when \<open>register\<close> is called.\<close>

definition connector_state :: "('k, 'u, 'b) engine \<Rightarrow> nat \<Rightarrow> nat \<Rightarrow> 'k \<Rightarrow> int \<Rightarrow> netaddr option \<Rightarrow> sockaddr option \<Rightarrow> nat option \<Rightarrow> ('k, 'u) lstate" where
  "connector_state eng el c0 k nfd na sa connIdx =
     upd_conn ((en_loops eng el)\<lparr>ls_k := k\<rparr>) c0 (c_SetContext (newTCPConn (en_writeBufferCap eng) nfd sa na na) connIdx)"

lemma connector_step:
  assumes "tcpConnect N network addr (connectorOpts (loadOptions opts)) (en_k eng) = (k, nfd, na, sa, None)"
    and "pick (en_lb eng) na = Ret (lb, el)"
  shows "AddTCPConnector W N h pick c0 network addr connIdx opts eng =
    go_bind (el_register W h (connector_state eng el c0 k nfd na sa connIdx) c0) (\<lambda>(st, err).
    go_bind (if err \<noteq> None then el_releaseTCP (st\<lparr>ls_k := fst (w_close W (ls_k st) nfd)\<rparr>) c0 else Ret st) (\<lambda>st.
    Ret (eng\<lparr>en_k := ls_k st, en_lb := lb, en_loops := (en_loops eng)(el := st)\<rparr>, Some c0, err)))"
  using assms by (simp add: AddTCPConnector_def connector_state_def Let_def)

lemma connector_newborn:
  assumes "0 < en_writeBufferCap eng" "ls_connections (en_loops eng el) nfd = None"
    "\<forall>a. na = Some a \<longrightarrow> take 3 (addr_Network a) \<noteq> ''udp''"
  shows "newborn (connector_state eng el c0 k nfd na sa connIdx) c0"
proof -
  let ?st = "upd_conn (en_loops eng el) c0 (newTCPConn (en_writeBufferCap eng) nfd sa na na)"
  have "newborn ?st c0" by (rule newTCPConn_newborn[OF _ assms(1) _ assms(3)]) (use assms(2) in auto)
  then show ?thesis
    by (simp add: newborn_def connector_state_def c_SetContext_def out_rep_def is_udp_def c_holds_def newTCPConn_def)
qed

lemma connector_state_inv:
  assumes "loop_inv isopen (en_loops eng el)" "\<not> c_opened (ls_conn (en_loops eng el) c0)"
  shows "loop_inv isopen (connector_state eng el c0 k nfd na sa connIdx)"
proof -
  have "loop_inv isopen ((en_loops eng el)\<lparr>ls_k := k\<rparr>)" by (rule loop_inv_same[OF assms(1)]) simp_all
  then show ?thesis unfolding connector_state_def
    by (rule loop_inv_create) (use assms(2) in \<open>simp_all add: c_SetContext_def newTCPConn_def\<close>)
qed

text \<open>A connector that reports no error keeps the invariant of the loop it joined and touches no other loop.\<close>

lemma connector_keeps_inv:
  assumes K: "kernel_ok W peer" and R: "ctl_ok W reg" and E: "env_ok W" and F: "fds_ok W isopen"
    and H: "handler_fits M h" and small: "2 * M \<le> 2 ^ 62"
    and t: "tcpConnect N network addr (connectorOpts (loadOptions opts)) (en_k eng) = (k, nfd, na, sa, None)"
    and pick: "pick (en_lb eng) na = Ret (lb, el)" and cap: "0 < en_writeBufferCap eng"
    and fresh: "ls_connections (en_loops eng el) nfd = None" "\<forall>a. na = Some a \<longrightarrow> take 3 (addr_Network a) \<noteq> ''udp''"
      "\<not> c_opened (ls_conn (en_loops eng el) c0)" and I: "loop_inv isopen (en_loops eng el)"
  shows "\<exists>eng' err. AddTCPConnector W N h pick c0 network addr connIdx opts eng = Ret (eng', Some c0, err) \<and>
    (err = None \<longrightarrow> loop_inv isopen (en_loops eng' el)) \<and> (\<forall>el'. el' \<noteq> el \<longrightarrow> en_loops eng' el' = en_loops eng el')"
proof -
  let ?st = "connector_state eng el c0 k nfd na sa connIdx"
  have I0: "loop_inv isopen ?st" by (rule connector_state_inv[OF I fresh(3)])
  then have T: "table_ok ?st" by (simp add: loop_inv_def)
  obtain st e where r: "el_register W h ?st c0 = Ret (st, e)" "handled isopen ?st c0 st"
    using el_register_handled[OF K R E F H T connector_newborn[OF cap fresh(1,2)] small] by blast
  have inv: "loop_inv isopen st" by (rule handled_loop_inv[OF I0 r(2)])
  obtain xs where "out_rep st c0 xs" using r(2) by (auto simp: handled_def live_def)
  then obtain mb where mb: "c_out (ls_conn st c0) = Some mb" "eb_rep mb xs" by (auto simp: out_rep_def)
  obtain x where x: "releaseTCP (ls_conn st c0) = Ret x" using releaseTCP_spec[OF mb] by blast
  have run: "AddTCPConnector W N h pick c0 network addr connIdx opts eng =
      go_bind (if e \<noteq> None then el_releaseTCP (st\<lparr>ls_k := fst (w_close W (ls_k st) nfd)\<rparr>) c0 else Ret st) (\<lambda>st.
      Ret (eng\<lparr>en_k := ls_k st, en_lb := lb, en_loops := (en_loops eng)(el := st)\<rparr>, Some c0, e))"
    using connector_step[where pick = pick, OF t pick] r(1) by simp
  show ?thesis
  proof (cases e)
    case None
    with run inv show ?thesis by simp
  next
    case (Some er)
    with run x show ?thesis by (simp add: el_releaseTCP_def)
  qed
qed

text \<open>
  When \<open>OnOpen\<close> asks for a shutdown, \<open>register\<close> returns that as an error; the connector then closes the descriptor and
  releases the connection, which stays in the table of the loop and in its count.
\<close>

lemma connector_dangles:
  assumes t: "tcpConnect N network addr (connectorOpts (loadOptions opts)) (en_k eng) = (k, nfd, na, sa, None)"
    and pick: "pick (en_lb eng) na = Ret (lb, el)" and cap: "0 < en_writeBufferCap eng"
    and h: "h_OnOpen h c0 (ls_user (en_loops eng el)) = Finish (u, None, ActShutdown)"
    and add: "w_ctl W k EPOLL_CTL_ADD nfd readEvents = (k2, None)"
  shows "\<exists>eng'. AddTCPConnector W N h pick c0 network addr connIdx opts eng = Ret (eng', Some c0, Some ErrEngineShutdown) \<and>
    ls_connections (en_loops eng' el) nfd = Some c0 \<and> \<not> c_opened (ls_conn (en_loops eng' el) c0) \<and>
    ls_connCount (en_loops eng' el) = ls_connCount (en_loops eng el) + 1 \<and> \<not> table_ok (en_loops eng' el)"
proof -
  let ?st = "connector_state eng el c0 k nfd na sa connIdx"
  obtain mb where mb: "eb_New (en_writeBufferCap eng) = Inr mb" "eb_rep mb []" using eb_New_rep[OF cap] by blast
  have out: "c_out (ls_conn ?st c0) = Some mb" "c_attached (ls_conn ?st c0)" "c_fd (ls_conn ?st c0) = nfd"
    by (simp_all add: connector_state_def c_SetContext_def newTCPConn_def mb(1))
  define x1 where "x1 = (ls_conn ?st c0)\<lparr>c_opened := True\<rparr>"
  define st1 where "st1 = (el_addConn (upd_conn (?st\<lparr>ls_k := k2, ls_connections := (ls_connections ?st)(nfd \<mapsto> c0)\<rparr>) c0 x1) 1)\<lparr>ls_user := u\<rparr>"
  have st1: "ls_conn st1 c0 = x1" "c_out x1 = Some mb" "ls_connections st1 nfd = Some c0"
    "ls_connCount st1 = ls_connCount (en_loops eng el) + 1"
    using out by (simp_all add: st1_def x1_def el_addConn_def connector_state_def)
  have em: "out_IsEmpty st1 c0 = Ret True" using st1(1,2) mb(2) by (simp add: out_IsEmpty_def with_out_def eb_IsEmpty_rep)
  have user: "ls_user ?st = ls_user (en_loops eng el)" "ls_k ?st = k" by (simp_all add: connector_state_def)
  have "el_open W h (?st\<lparr>ls_k := k2, ls_connections := (ls_connections ?st)(nfd \<mapsto> c0)\<rparr>) c0 = Ret (st1, Some ErrEngineShutdown)"
    using em h user by (simp add: el_open_def el_OnOpen_def Let_def el_handleAction_def st1_def x1_def el_addConn_def)
  then have r: "el_register W h ?st c0 = Ret (st1, Some ErrEngineShutdown)"
    using out add user by (simp add: el_register_def Let_def pl_AddRead_def pl_attached_def pl_ctl_def NewSyscallError_def)
  have out1: "c_out (ls_conn (st1\<lparr>ls_k := fst (w_close W (ls_k st1) nfd)\<rparr>) c0) = Some mb" using st1(1,2) by simp
  obtain y where y: "releaseTCP (ls_conn (st1\<lparr>ls_k := fst (w_close W (ls_k st1) nfd)\<rparr>) c0) = Ret y" "\<not> c_opened y"
    using releaseTCP_spec[OF out1 mb(2)] by auto
  let ?st2 = "upd_conn (st1\<lparr>ls_k := fst (w_close W (ls_k st1) nfd)\<rparr>) c0 y"
  have "AddTCPConnector W N h pick c0 network addr connIdx opts eng =
      Ret (eng\<lparr>en_k := ls_k ?st2, en_lb := lb, en_loops := (en_loops eng)(el := ?st2)\<rparr>, Some c0, Some ErrEngineShutdown)"
    using connector_step[where pick = pick, OF t pick] r y(1) by (simp add: el_releaseTCP_def)
  moreover have "\<not> table_ok ?st2" using y(2) st1(3) by (auto simp: table_ok_def)
  ultimately show ?thesis using y(2) st1(3,4) by simp
qed

text \<open>When the poller refuses the descriptor, \<open>register\<close> has closed it already and it is closed a second time.\<close>

lemma connector_closes_twice:
  assumes t: "tcpConnect N network addr (connectorOpts (loadOptions opts)) (en_k eng) = (k, nfd, na, sa, None)"
    and pick: "pick (en_lb eng) na = Ret (lb, el)" and cap: "0 < en_writeBufferCap eng"
    and add: "w_ctl W k EPOLL_CTL_ADD nfd readEvents = (k2, Some er)"
  shows "\<exists>eng'. AddTCPConnector W N h pick c0 network addr connIdx opts eng =
      Ret (eng', Some c0, Some (SyscallError ''epoll_ctl add'' er)) \<and>
    en_k eng' = fst (w_close W (fst (w_close W k2 nfd)) nfd)"
proof -
  let ?st = "connector_state eng el c0 k nfd na sa connIdx"
  obtain mb where mb: "eb_New (en_writeBufferCap eng) = Inr mb" "eb_rep mb []" using eb_New_rep[OF cap] by blast
  have out: "c_out (ls_conn ?st c0) = Some mb" "c_attached (ls_conn ?st c0)" "c_fd (ls_conn ?st c0) = nfd" "ls_k ?st = k"
    by (simp_all add: connector_state_def c_SetContext_def newTCPConn_def mb(1))
  obtain y mb' where y: "releaseTCP (ls_conn ?st c0) = Ret y" "c_out y = Some mb'" "eb_rep mb' []"
    using releaseTCP_spec[OF out(1) mb(2)] by auto
  obtain z where z: "releaseTCP y = Ret z" using releaseTCP_spec[OF y(2,3)] by blast
  obtain k3 e3 where k3: "w_close W k2 nfd = (k3, e3)" by (metis surj_pair)
  have "el_register W h ?st c0 = Ret (upd_conn (?st\<lparr>ls_k := k3\<rparr>) c0 y, Some (SyscallError ''epoll_ctl add'' er))"
    using out add y(1) k3
    by (simp add: el_register_def Let_def pl_AddRead_def pl_attached_def pl_ctl_def NewSyscallError_def el_releaseTCP_def)
  then show ?thesis
    using connector_step[where pick = pick, OF t pick] z k3 by (simp add: el_releaseTCP_def)
qed

section \<open>The life of a client\<close>

text \<open>
  \<open>NewClient\<close> returns; on an error it leaves no descriptor behind, otherwise the poller's two. The loop is empty, and
  \<open>InitLogic\<close> was not called on its poller.
\<close>

lemma NewClient_accounts:
  fixes u :: 'u
  assumes B: "boot_sys N E fds" and h: "accounts fds K k xs"
    and caps: "o_ReadBufferCap (loadOptions opts) \<le> 2 ^ 62" "o_WriteBufferCap (loadOptions opts) \<le> 2 ^ 62"
  shows "\<exists>k' cli err. NewClient N E logErr u opts k = Ret (k', cli, err) \<and>
    (case cl_loop cli of
       None \<Rightarrow> err \<noteq> None \<and> accounts fds K k' xs
     | Some el \<Rightarrow> err = None \<and> accounts fds K k' (po_fds (lp_poller el) @ xs) \<and> po_logic (lp_poller el) = None \<and>
         loop_start (lp_state el) \<and> ls_udpSockets (lp_state el) = Map.empty)"
proof -
  obtain r w where rw: "run_bufferCap (o_ReadBufferCap (loadOptions opts)) = Ret r" "run_bufferCap (o_WriteBufferCap (loadOptions opts)) = Ret w"
    using run_bufferCap_spec[OF caps(1)] run_bufferCap_spec[OF caps(2)] by blast
  obtain k1 p err where o: "OpenPoller N E k = (k1, p :: 'u poller option, err)" by (metis surj_pair)
  have acc: "case p of None \<Rightarrow> err \<noteq> None \<and> accounts fds K k1 xs
    | Some p \<Rightarrow> err = None \<and> po_logic p = None \<and> accounts fds K k1 (po_fds p @ xs)" by (rule OpenPoller_accounts[OF B h o])
  show ?thesis
  proof (cases "o_LogPath (loadOptions opts) \<noteq> [] \<and> logErr \<noteq> None")
    case True
    with h show ?thesis by (simp add: NewClient_def Let_def)
  next
    case False
    show ?thesis
    proof (cases p)
      case None
      with False o acc show ?thesis by (auto simp: NewClient_def Let_def)
    next
      case (Some p')
      with False o acc rw show ?thesis
        by (auto simp: NewClient_def Let_def new_eventloop_def loop_start_def c_zero_def)
    qed
  qed
qed

text \<open>The goroutine of the client calls a nil function as soon as it polls.\<close>

lemma client_polls_panic: "po_logic (lp_poller el) = None \<Longrightarrow> cl_polls W A h mem new cli el outs = Panic NilDereference"
  by (simp add: cl_polls_def pl_Polling_def)

text \<open>\<open>Stop\<close> closes all connections and the poller.\<close>

lemma cl_Stop_closes:
  assumes K: "kernel_ok W peer" and F: "fds_ok W isopen" and I: "loop_inv isopen (lp_state el)"
    and cli: "cl_loop cli = Some el" "cl_running cli" "cl_ln cli = client_ln"
    and order: "set conns = ran (ls_connections (lp_state el))" "ls_udpSockets (lp_state el) = Map.empty"
  shows "\<exists>k1 k' cli' el'. cl_Stop W N h onShutdown conns [] k cli = Ret (k', cli') \<and> cl_loop cli' = Some el' \<and>
    ls_connections (lp_state el') = Map.empty \<and> ls_connCount (lp_state el') = 0 \<and> (\<forall>c. \<not> c_opened (ls_conn (lp_state el') c)) \<and>
    \<not> cl_running cli' \<and> k' = fst (po_Close N k1 (lp_poller el))"
proof -
  obtain k1 el1 where n: "lp_notify W k el = (k1, el1)" by (metis surj_pair)
  obtain st e where t: "pl_UrgentTrigger W ((lp_state el)\<lparr>ls_k := k\<rparr>) TShutdown = (st, e)" by (metis surj_pair)
  have el1: "el1 = el\<lparr>lp_state := st\<rparr>" "k1 = ls_k st" using n t by (auto simp: lp_notify_def)
  have "loop_inv isopen ((lp_state el)\<lparr>ls_k := k, ls_urgent := ls_urgent (lp_state el) @ [TShutdown]\<rparr>)"
    by (rule loop_inv_same[OF I]) simp_all
  then have I1: "loop_inv isopen st" using t pl_wakeup_inv by (fastforce simp: pl_UrgentTrigger_def)
  have same: "ls_connections st = ls_connections (lp_state el)" "ls_udpSockets st = ls_udpSockets (lp_state el)"
    using t by (auto simp: pl_UrgentTrigger_def pl_wakeup_def split: if_splits prod.splits)
  have "loop_inv isopen (st\<lparr>ls_k := k1\<rparr>)" by (rule loop_inv_same[OF I1]) simp_all
  from closeAllSockets_closes[OF K F this, of conns h] obtain st' where
    c: "el_closeAllSockets W h conns [] (st\<lparr>ls_k := k1\<rparr>) = Ret st'" "ls_connections st' = Map.empty" "ls_connCount st' = 0"
    "\<forall>c. \<not> c_opened (ls_conn st' c)" using order same by auto
  have ln: "ln_close N (ls_k st') client_ln = (ls_k st', client_ln\<lparr>ln_closed := True\<rparr>)"
    by (simp add: ln_close_def client_ln_def)
  show ?thesis using n el1 c cli ln by (auto simp: cl_Stop_def Let_def)
qed

section \<open>Descriptors of enrolled connections\<close>

text \<open>
  \<open>dup\<close> opens a descriptor, \<open>setsockopt\<close> and \<open>write\<close> open and close none.
\<close>

definition enroll_sys :: "'k world \<Rightarrow> 'k netsys \<Rightarrow> ('k \<Rightarrow> int \<Rightarrow> 'k \<times> int \<times> errno option) \<Rightarrow> ('k \<Rightarrow> int set) \<Rightarrow> bool" where
  "enroll_sys W N dup fds \<longleftrightarrow> fds_sys N fds \<and> (\<forall>k fd. opens fds k (dup k fd)) \<and> (\<forall>k fd d. fds (fst (w_write W k fd d)) = fds k)"

lemma pl_wakeup_fds: "\<forall>k fd d. fds (fst (w_write W k fd d)) = fds k \<Longrightarrow> pl_wakeup W st = (st', e) \<Longrightarrow> fds (ls_k st') = fds (ls_k st)"
  by (auto simp: pl_wakeup_def split: if_splits prod.splits) (metis fst_conv)+

lemma enroll_buffers_fds: "fds_sys N fds \<Longrightarrow> fds (fst (enroll_buffers N o' fd k)) = fds k"
  unfolding enroll_buffers_def
  by (rule and_then_keeps[where fds = fds]) (auto simp: SetSendBuffer_def SetRecvBuffer_def fds_sysD(3))

lemma SetKeepAlivePeriod_fds: "fds_sys N fds \<Longrightarrow> fds (fst (SetKeepAlivePeriod N k fd secs)) = fds k"
  unfolding SetKeepAlivePeriod_def
  by (cases "secs \<le> 0"; simp; intro and_then_keeps[where fds = fds]) (simp_all add: fds_sysD(3))

lemma enroll_tcpOpts_fds: "fds_sys N fds \<Longrightarrow> fds (fst (enroll_tcpOpts N o' fd k)) = fds k"
  unfolding enroll_tcpOpts_def
  by (rule and_then_keeps[where fds = fds]) (auto simp: SetNoDelay_def fds_sysD(3) SetKeepAlivePeriod_fds)

lemma enroll_conn_fds:
  assumes F: "fds_sys N fds" and "enroll_conn W N addr_str mem o' nc d k = Ret (k', r)"
  shows "fds k' = fds k"
proof (cases "nc_type nc")
  case TCPConn
  obtain k1 e where t: "enroll_tcpOpts N o' d k = (k1, e)" by (metis surj_pair)
  then have "fds k1 = fds k" using enroll_tcpOpts_fds[OF F, of o' d k] by simp
  with assms(2) TCPConn t show ?thesis by (auto simp: enroll_conn_def split: option.splits sum.splits)
qed (use assms(2) in \<open>auto simp: enroll_conn_def elim!: go_bind_RetE split: sum.splits\<close>)

lemma enroll_register_fds:
  assumes w: "\<forall>k fd d. fds (fst (w_write W k fd d)) = fds k" and r: "enroll_register W c0 st gc = (st', c, err)"
  shows "fds (ls_k st') = fds (ls_k st)"
proof -
  obtain st1 e1 where t: "pl_UrgentTrigger W (upd_conn st c0 gc) (TRegister c0) = (st1, e1)" by (metis surj_pair)
  then have f1: "fds (ls_k st1) = fds (ls_k st)" using pl_wakeup_fds[OF w] by (fastforce simp: pl_UrgentTrigger_def)
  obtain st2 e2 where c: "c_Close W st1 c0 = (st2, e2)" by (metis surj_pair)
  then have "fds (ls_k st2) = fds (ls_k st1)" using pl_wakeup_fds[OF w] by (fastforce simp: c_Close_def pl_Trigger_def)
  with r t c f1 show ?thesis by (auto simp: enroll_register_def split: if_splits)
qed

lemma enroll_dup_fds:
  assumes F: "fds_sys N fds" and w: "\<forall>k fd d. fds (fst (w_write W k fd d)) = fds k"
    and r: "enroll_dup W N addr_str mem c0 o' nc d st = Ret (st', c, err)"
  shows "fds (ls_k st') = fds (ls_k st)"
proof -
  obtain k e where b: "enroll_buffers N o' d (ls_k st) = (k, e)" by (metis surj_pair)
  then have k: "fds k = fds (ls_k st)" using enroll_buffers_fds[OF F, of o' d "ls_k st"] by simp
  show ?thesis
  proof (cases e)
    case (Some er)
    with r b have "st' = st\<lparr>ls_k := k\<rparr>" by (simp add: enroll_dup_def)
    with k show ?thesis by simp
  next
    case None
    then obtain k1 res where c: "enroll_conn W N addr_str mem o' nc d k = Ret (k1, res)"
      and st': "st' = (case res of Inl err \<Rightarrow> st\<lparr>ls_k := k1\<rparr> | Inr gc \<Rightarrow> fst (enroll_register W c0 (st\<lparr>ls_k := k1\<rparr>) gc))"
      using r b by (auto simp: enroll_dup_def elim!: go_bind_RetE split: sum.splits)
    have k1: "fds k1 = fds (ls_k st)" using enroll_conn_fds[OF F c] k by simp
    show ?thesis
    proof (cases res)
      case (Inr gc)
      obtain st1 c1 e1 where g: "enroll_register W c0 (st\<lparr>ls_k := k1\<rparr>) gc = (st1, c1, e1)" by (metis surj_pair)
      with st' Inr enroll_register_fds[OF w g] k1 show ?thesis by simp
    qed (use st' k1 in simp)
  qed
qed

text \<open>
  Once the descriptor has been duplicated, the duplicate stays open whatever happens afterwards: also when \<open>Enroll\<close>
  reports an error, and nobody can close it then.
\<close>

lemma Enroll_descriptors:
  assumes S: "enroll_sys W N dup fds" and r: "cl_Enroll W N dup addr_str mem c0 o' nc st = Ret (st', c, err)"
    and nc: "nc_isSyscall nc" "\<not> nc_rawErr nc" "nc_controlErr nc = None" and d: "dup (ls_k st) (nc_fd nc) = (k1, d, None)"
  shows "d \<notin> fds (ls_k st) \<and> fds (ls_k st') = insert d (fds (ls_k st)) - {nc_fd nc}"
proof -
  have F: "fds_sys N fds" and w: "\<forall>k fd d. fds (fst (w_write W k fd d)) = fds k" using S by (auto simp: enroll_sys_def)
  have "opens fds (ls_k st) (k1, d, None)" using S d unfolding enroll_sys_def by metis
  then have k1: "d \<notin> fds (ls_k st)" "fds k1 = insert d (fds (ls_k st))" by (auto simp: opens_def)
  obtain st1 c1 e1 where e: "cl_enroll W N dup addr_str mem c0 o' nc st = Ret (st1, c1, e1)"
    "ls_k st' = fst (n_close N (ls_k st1) (nc_fd nc))"
    using r by (auto simp: cl_Enroll_def elim!: go_bind_RetE)
  then have "enroll_dup W N addr_str mem c0 o' nc d (st\<lparr>ls_k := k1\<rparr>) = Ret (st1, c1, e1)" using nc d by (simp add: cl_enroll_def)
  from enroll_dup_fds[OF F w this] k1 e(2) fds_sysD(8)[OF F] show ?thesis by simp
qed

text \<open>The registration of an enrolled connection is queued on the client's loop.\<close>

lemma Enroll_queues:
  assumes r: "cl_Enroll W N dup addr_str mem c0 o' nc st = Ret (st', Some c, err)"
  shows "c = c0 \<and> err = None \<and> ls_urgent st' = ls_urgent st @ [TRegister c0] \<and> ls_wakeup st' \<and>
    ls_connections st' = ls_connections st"
proof -
  obtain st1 where e: "cl_enroll W N dup addr_str mem c0 o' nc st = Ret (st1, Some c, err)"
    and st': "st' = st1\<lparr>ls_k := fst (n_close N (ls_k st1) (nc_fd nc))\<rparr>"
    using r by (auto simp: cl_Enroll_def elim!: go_bind_RetE)
  then obtain k d where "enroll_dup W N addr_str mem c0 o' nc d (st\<lparr>ls_k := k\<rparr>) = Ret (st1, Some c, err)"
    by (auto simp: cl_enroll_def split: if_splits prod.splits)
  then obtain k gc where "enroll_register W c0 (st\<lparr>ls_k := k\<rparr>) gc = (st1, Some c, err)"
    by (auto simp: enroll_dup_def elim!: go_bind_RetE split: if_splits prod.splits sum.splits)
  then have t: "pl_wakeup W (st\<lparr>ls_k := k, ls_conn := (ls_conn st)(c0 := gc), ls_urgent := ls_urgent st @ [TRegister c0]\<rparr>) = (st1, None)"
    "c = c0" "err = None" by (auto simp: enroll_register_def pl_UrgentTrigger_def split: if_splits prod.splits)
  have "ls_connections st1 = ls_connections st" using t(1) by (auto simp: pl_wakeup_def split: if_splits prod.splits)
  with pl_wakeup_set[OF t(1)] t(2,3) st' show ?thesis by simp
qed

end
