(* ===== verification/EngineSteps.thy ===== *)
theory EngineSteps
  imports Client
begin

text \<open>
  The engine as a whole: its loops share one kernel and interleave, the main reactor accepts connections
  (\<open>acceptor.go\<close>) and hands them to the loops, and \<open>AddTCPConnector\<close> (\<open>gnet.go\<close>) adds outgoing ones. A step of the
  engine is a step of one of its loops, an accept, or a connector that reports no error. Every loop keeps its
  invariant in every interleaving, so that \<open>CountConnections\<close> is the number of entries in the tables.
\<close>

section \<open>Steps of an engine\<close>

text \<open>The loop with the kernel's present state.\<close>

definition eng_loop :: "('k, 'u, 'b) engine \<Rightarrow> nat \<Rightarrow> ('k, 'u) lstate" where
  "eng_loop eng el = (en_loops eng el)\<lparr>ls_k := en_k eng\<rparr>"

definition eng_put :: "('k, 'u, 'b) engine \<Rightarrow> nat \<Rightarrow> ('k, 'u) lstate \<Rightarrow> ('k, 'u, 'b) engine" where
  "eng_put eng el st = eng\<lparr>en_k := ls_k st, en_loops := (en_loops eng)(el := st)\<rparr>"

text \<open>A new connection object is one that no loop has in use, and a new descriptor is not in the table of the loop.\<close>

definition unused :: "('k, 'u, 'b) engine \<Rightarrow> nat \<Rightarrow> bool" where
  "unused eng c0 \<longleftrightarrow> (\<forall>el. \<not> c_opened (ls_conn (en_loops eng el) c0))"

inductive eng_step ::
  "'k world \<Rightarrow> 'k listen \<Rightarrow> 'k netsys \<Rightarrow> 'u handler \<Rightarrow> ('b \<Rightarrow> netaddr option \<Rightarrow> ('b \<times> nat) go) \<Rightarrow> nat \<Rightarrow>
   ('k, 'u, 'b) engine \<Rightarrow> ('k, 'u, 'b) engine \<Rightarrow> bool"
  for W A N h pick M where
  loop: "el_step W h M (eng_loop eng el) st' \<Longrightarrow> eng_step W A N h pick M eng (eng_put eng el st')"
| accept: "\<lbrakk>unused eng c0; eng_accept W A pick mem c0 eng fd = Ret (eng', err)\<rbrakk> \<Longrightarrow> eng_step W A N h pick M eng eng'"
| connect: "\<lbrakk>unused eng c0; tcpConnect N network addr (connectorOpts (loadOptions opts)) (en_k eng) = (k, nfd, na, sa, None);
    pick (en_lb eng) na = Ret (lb, el); ls_connections (en_loops eng el) nfd = None;
    \<forall>a. na = Some a \<longrightarrow> take 3 (addr_Network a) \<noteq> ''udp''; 0 < en_writeBufferCap eng;
    AddTCPConnector W N h pick c0 network addr connIdx opts eng = Ret (eng', Some c0, None)\<rbrakk> \<Longrightarrow>
    eng_step W A N h pick M eng eng'"

definition eng_inv :: "('k \<Rightarrow> int \<Rightarrow> bool) \<Rightarrow> ('k, 'u, 'b) engine \<Rightarrow> bool" where
  "eng_inv isopen eng \<longleftrightarrow> (\<forall>el. loop_inv isopen (en_loops eng el))"

section \<open>Accepting keeps the invariant\<close>

text \<open>The loop that gets an accepted connection, and the others.\<close>

lemma eng_accept_cases:
  assumes "eng_accept W A pick mem c0 eng fd = Ret (eng', err)"
  obtains k where "eng' = eng\<lparr>en_k := k\<rparr>"
  | k el cap nfd sa l r st e st1 where
      "pl_UrgentTrigger W (upd_conn ((en_loops eng el)\<lparr>ls_k := k\<rparr>) c0 (newTCPConn cap nfd sa l r)) (TRegister c0) = (st, e)"
      "st1 = st \<or> el_releaseTCP (st\<lparr>ls_k := fst (w_close W (ls_k st) nfd)\<rparr>) c0 = Ret st1"
      "en_loops eng' = (en_loops eng)(el := st1)"
proof -
  obtain k1 nfd sa e1 where a: "a_accept A (en_k eng) fd = (k1, nfd, sa, e1)" by (metis surj_pair)
  obtain k2 e2 where n: "a_nonblock A k1 nfd = (k2, e2)" by (metis surj_pair)
  consider "e1 \<noteq> None" | "e1 = None" "e2 \<noteq> None" | "e1 = None" "e2 = None" by blast
  then show ?thesis
  proof cases
    case 1
    with assms a that(1) show ?thesis by (auto simp: eng_accept_def Let_def)
  next
    case 2
    with assms a n that(1) show ?thesis by (auto simp: eng_accept_def Let_def)
  next
    case 3
    define e0 where "e0 = (if en_keepAlive eng > 0 \<and> en_network eng = ''tcp''
      then eng\<lparr>en_k := fst (a_keepalive A k2 nfd (en_keepAlive eng))\<rparr> else eng\<lparr>en_k := k2\<rparr>)"
    have e0: "en_loops e0 = en_loops eng" "en_lb e0 = en_lb eng" by (auto simp: e0_def)
    from assms 3 a n obtain r lb el where r: "SockaddrToTCPOrUnixAddr (w_ifname W) mem sa = Ret r" "pick (en_lb eng) r = Ret (lb, el)"
      and run: "(let st = (en_loops e0 el)\<lparr>ls_k := en_k e0\<rparr>;
            st = upd_conn st c0 (newTCPConn (en_writeBufferCap e0) nfd sa (ls_lnaddr st) r)
        in case pl_UrgentTrigger W st (TRegister c0) of (st, err) \<Rightarrow>
             go_bind (if err \<noteq> None then (case w_close W (ls_k st) nfd of (k, _) \<Rightarrow> el_releaseTCP (st\<lparr>ls_k := k\<rparr>) c0) else Ret st)
               (\<lambda>st. Ret (e0\<lparr>en_k := ls_k st, en_lb := lb, en_loops := (en_loops e0)(el := st)\<rparr>, None))) = Ret (eng', err)"
      unfolding e0_def by (cases "en_keepAlive eng > 0 \<and> en_network eng = ''tcp''") (auto simp: eng_accept_def Let_def elim!: go_bind_RetE)
    let ?st = "upd_conn ((en_loops eng el)\<lparr>ls_k := en_k e0\<rparr>) c0
      (newTCPConn (en_writeBufferCap e0) nfd sa (ls_lnaddr (en_loops eng el)) r)"
    obtain st e where t: "pl_UrgentTrigger W ?st (TRegister c0) = (st, e)" by (metis surj_pair)
    obtain k3 e3 where c: "w_close W (ls_k st) nfd = (k3, e3)" by (metis surj_pair)
    obtain st1 where "st1 = st \<or> el_releaseTCP (st\<lparr>ls_k := k3\<rparr>) c0 = Ret st1" "en_loops eng' = (en_loops eng)(el := st1)"
    proof (cases "e = None")
      case True
      with run t e0 have "en_loops eng' = (en_loops eng)(el := st)" by (auto simp: Let_def)
      with that[of st] show thesis by simp
    next
      case False
      with run t c e0 obtain s where "el_releaseTCP (st\<lparr>ls_k := k3\<rparr>) c0 = Ret s" "en_loops eng' = (en_loops eng)(el := s)"
        by (auto simp: Let_def elim!: go_bind_RetE)
      with that[of s] show thesis by simp
    qed
    with t c that(2) show ?thesis by (metis fst_conv)
  qed
qed

lemma eng_accept_inv:
  assumes I: "eng_inv isopen eng" and new: "unused eng c0" and a: "eng_accept W A pick mem c0 eng fd = Ret (eng', err)"
  shows "eng_inv isopen eng'"
  using a
proof (cases rule: eng_accept_cases)
  case (1 k)
  with I show ?thesis by (simp add: eng_inv_def)
next
  case (2 k el cap nfd sa l r st e st1)
  let ?x = "newTCPConn cap nfd sa l r"
  have "loop_inv isopen ((en_loops eng el)\<lparr>ls_k := k\<rparr>)" by (rule loop_inv_same[of isopen "en_loops eng el"]) (use I in \<open>simp_all add: eng_inv_def\<close>)
  then have "loop_inv isopen (upd_conn ((en_loops eng el)\<lparr>ls_k := k\<rparr>) c0 ?x)"
    by (rule loop_inv_create) (use new in \<open>simp_all add: unused_def newTCPConn_def\<close>)
  then have "loop_inv isopen ((upd_conn ((en_loops eng el)\<lparr>ls_k := k\<rparr>) c0 ?x)\<lparr>ls_urgent := ls_urgent (en_loops eng el) @ [TRegister c0]\<rparr>)"
    by (rule loop_inv_same) simp_all
  then have st: "loop_inv isopen st" using 2(1) pl_wakeup_inv by (fastforce simp: pl_UrgentTrigger_def)
  have c0: "ls_conn st c0 = ?x" using 2(1) by (auto simp: pl_UrgentTrigger_def pl_wakeup_def split: if_splits prod.splits)
  have "loop_inv isopen st1" using 2(2)
  proof
    assume "el_releaseTCP (st\<lparr>ls_k := fst (w_close W (ls_k st) nfd)\<rparr>) c0 = Ret st1"
    then obtain y where y: "releaseTCP ?x = Ret y" "st1 = upd_conn (st\<lparr>ls_k := fst (w_close W (ls_k st) nfd)\<rparr>) c0 y"
      using c0 by (auto simp: el_releaseTCP_def elim!: go_bind_RetE)
    have "\<not> c_opened y" using y(1) by (auto simp: releaseTCP_def Let_def elim!: go_bind_RetE split: option.splits)
    moreover have "loop_inv isopen (st\<lparr>ls_k := fst (w_close W (ls_k st) nfd)\<rparr>)" by (rule loop_inv_same[OF st]) simp_all
    ultimately show ?thesis unfolding y(2) using loop_inv_create c0 by (fastforce simp: newTCPConn_def)
  qed (use st in simp)
  with I 2(3) show ?thesis by (auto simp: eng_inv_def)
qed

section \<open>Every interleaving keeps the invariant\<close>

lemma eng_step_inv:
  assumes K: "kernel_ok W peer" and R: "ctl_ok W reg" and E: "env_ok W" and F: "fds_ok W isopen" and D: "reads_ok W"
    and H: "handler_fits M h" and small: "2 * M \<le> 2 ^ 62" and s: "eng_step W A N h pick M eng eng'" and I: "eng_inv isopen eng"
  shows "eng_inv isopen eng'"
  using s
proof cases
  case (loop el st')
  have "loop_inv isopen (eng_loop eng el)" unfolding eng_loop_def
    by (rule loop_inv_same[of isopen "en_loops eng el"]) (use I in \<open>simp_all add: eng_inv_def\<close>)
  from el_step_inv[OF K R E F D H small loop(2) this] I loop(1) show ?thesis by (simp add: eng_inv_def eng_put_def)
next
  case (accept c0 mem fd err)
  from eng_accept_inv[OF I accept] show ?thesis .
next
  case (connect c0 network addr opts k nfd na sa lb el connIdx)
  have "loop_inv isopen (en_loops eng el)" "\<not> c_opened (ls_conn (en_loops eng el) c0)"
    using I connect(1) by (auto simp: eng_inv_def unused_def)
  with connector_keeps_inv[where pick = pick, OF K R E F H small connect(2,3,6,4,5)] connect(7) I show ?thesis
    unfolding eng_inv_def by (metis (no_types, lifting) go.inject(1) prod.inject)
qed

lemma eng_reach_inv:
  assumes "kernel_ok W peer" "ctl_ok W reg" "env_ok W" "fds_ok W isopen" "reads_ok W" "handler_fits M h" "2 * M \<le> 2 ^ 62"
    and "(eng_step W A N h pick M)\<^sup>*\<^sup>* eng0 eng" "\<forall>el. loop_start (en_loops eng0 el)"
  shows "eng_inv isopen eng"
  using assms(8)
proof induction
  case base
  show ?case using assms(9) loop_start_inv by (auto simp: eng_inv_def)
next
  case (step eng1 eng2)
  then show ?case using eng_step_inv[OF assms(1-7)] by blast
qed

section \<open>From accept to an open connection\<close>

lemma el_register_opens:
  assumes N: "newborn st c" and add: "w_ctl W (ls_k st) EPOLL_CTL_ADD (c_fd (ls_conn st c)) readEvents = (k, None)"
    and h: "h_OnOpen h c (ls_user st) = Finish (u, None, ActNone)"
  shows "\<exists>st'. el_register W h st c = Ret (st', None) \<and> ls_connections st' = (ls_connections st)(c_fd (ls_conn st c) \<mapsto> c) \<and>
    ls_conn st' = (ls_conn st)(c := (ls_conn st c)\<lparr>c_opened := True\<rparr>) \<and> el_loadConn st' = el_loadConn st + 1 \<and>
    ls_urgent st' = ls_urgent st"
proof -
  obtain mb where mb: "c_out (ls_conn st c) = Some mb" "eb_rep mb []" using N by (auto simp: newborn_def out_rep_def)
  let ?s = "st\<lparr>ls_k := k, ls_connections := (ls_connections st)(c_fd (ls_conn st c) \<mapsto> c)\<rparr>"
  define st1 where "st1 = (el_addConn (upd_conn ?s c ((ls_conn st c)\<lparr>c_opened := True\<rparr>)) 1)\<lparr>ls_user := u\<rparr>"
  have em: "out_IsEmpty st1 c = Ret True"
    using mb by (simp add: st1_def out_IsEmpty_def with_out_def el_addConn_def eb_IsEmpty_rep)
  have "el_open W h ?s c = Ret (st1, None)"
    using em h by (simp add: el_open_def el_OnOpen_def Let_def el_handleAction_def st1_def el_addConn_def)
  then have "el_register W h st c = Ret (st1, None)"
    using N add by (simp add: el_register_def Let_def pl_AddRead_def pl_attached_def pl_ctl_def NewSyscallError_def newborn_def)
  then show ?thesis by (simp add: st1_def el_addConn_def el_loadConn_def)
qed

lemma eng_accept_tables:
  assumes a: "eng_accept W A pick mem c0 eng fd = Ret (eng', err)"
  shows "ls_connections (en_loops eng' el) = ls_connections (en_loops eng el)"
    and "el_loadConn (en_loops eng' el) = el_loadConn (en_loops eng el)"
proof -
  have "ls_connections (en_loops eng' el) = ls_connections (en_loops eng el) \<and> el_loadConn (en_loops eng' el) = el_loadConn (en_loops eng el)"
    using a
  proof (cases rule: eng_accept_cases)
    case (2 k el' cap nfd sa l r st e st1)
    have "ls_connections st = ls_connections (en_loops eng el')" "el_loadConn st = el_loadConn (en_loops eng el')"
      using 2(1) by (auto simp: pl_UrgentTrigger_def pl_wakeup_def el_loadConn_def split: if_splits prod.splits)
    moreover have "ls_connections st1 = ls_connections st \<and> el_loadConn st1 = el_loadConn st"
      using 2(2) by (auto simp: el_releaseTCP_def el_loadConn_def elim!: go_bind_RetE)
    ultimately show ?thesis using 2(3) by simp
  qed simp
  then show "ls_connections (en_loops eng' el) = ls_connections (en_loops eng el)"
    and "el_loadConn (en_loops eng' el) = el_loadConn (en_loops eng el)" by simp_all
qed

text \<open>
  The accepted connection is open once the loop has run the task that \<open>accept\<close> queued: it is in the table of the loop
  under its descriptor and counted.
\<close>

lemma accept_then_register:
  assumes a: "a_accept A (en_k eng) fd = (k1, nfd, sa, None)" and n: "a_nonblock A k1 nfd = (k2, None)"
    and sa: "\<forall>a. sa = Some a \<longrightarrow> sockaddr_ok a" and pick: "\<And>r. pick (en_lb eng) r = Ret (lb', el)"
    and wk: "\<And>k. ls_wakeup (en_loops eng el) \<or> snd (snd (w_write W k (ls_efd (en_loops eng el)) [1, 0, 0, 0, 0, 0, 0, 0])) = None"
    and cap: "0 < en_writeBufferCap eng" and fresh: "ls_connections (en_loops eng el) nfd = None"
      "\<forall>a. ls_lnaddr (en_loops eng el) = Some a \<longrightarrow> take 3 (addr_Network a) \<noteq> ''udp''"
    and idle: "ls_urgent (en_loops eng el) = []"
    and add: "\<And>k. \<exists>k'. w_ctl W k EPOLL_CTL_ADD nfd readEvents = (k', None)"
    and h: "\<And>u. \<exists>u'. h_OnOpen h c0 u = Finish (u', None, ActNone)"
  shows "\<exists>eng' st. eng_accept W A pick mem c0 eng fd = Ret (eng', None) \<and>
    pl_urgentBody W h (en_loops eng' el) = Ret (Inl st) \<and> ls_connections st nfd = Some c0 \<and> c_opened (ls_conn st c0) \<and>
    c_fd (ls_conn st c0) = nfd \<and> el_loadConn st = el_loadConn (en_loops eng el) + 1 \<and> ls_urgent st = []"
proof -
  from eng_accept_hands_over[where pick = pick and eng = eng and W = W and A = A, OF a n sa pick wk, of mem c0] obtain eng' r where
    e: "eng_accept W A pick mem c0 eng fd = Ret (eng', None)" "ls_urgent (en_loops eng' el) = [TRegister c0]"
    "ls_conn (en_loops eng' el) c0 = newTCPConn (en_writeBufferCap eng) nfd sa (ls_lnaddr (en_loops eng el)) r"
    using idle by auto
  let ?st = "(en_loops eng' el)\<lparr>ls_urgent := []\<rparr>"
  have N: "newborn ?st c0"
    by (rule newTCPConn_newborn[OF _ cap _ fresh(2)]) (use e(3) fresh(1) eng_accept_tables(1)[OF e(1)] in simp_all)
  have fd: "c_fd (ls_conn ?st c0) = nfd" using e(3) by (simp add: newTCPConn_def)
  obtain k where k: "w_ctl W (ls_k ?st) EPOLL_CTL_ADD (c_fd (ls_conn ?st c0)) readEvents = (k, None)" using add fd by metis
  obtain u where u: "h_OnOpen h c0 (ls_user ?st) = Finish (u, None, ActNone)" using h by blast
  from el_register_opens[OF N k u] obtain st where
    st: "el_register W h ?st c0 = Ret (st, None)" "ls_connections st = (ls_connections ?st)(c_fd (ls_conn ?st c0) \<mapsto> c0)"
      "ls_conn st = (ls_conn ?st)(c0 := (ls_conn ?st c0)\<lparr>c_opened := True\<rparr>)" "el_loadConn st = el_loadConn ?st + 1"
      "ls_urgent st = ls_urgent ?st" by blast
  have "pl_urgentBody W h (en_loops eng' el) = Ret (Inl st)" using st(1) e(2) by (simp add: pl_urgentBody_def)
  moreover have "el_loadConn st = el_loadConn (en_loops eng el) + 1"
    using st(4) eng_accept_tables(2)[OF e(1), of el] by (simp add: el_loadConn_def)
  ultimately show ?thesis using e(1) st(2,3,5) fd by (intro exI[of _ eng'] exI[of _ st]) simp
qed

end
