(* ===== verification/MainReactor.thy ===== *)
theory MainReactor
  imports Reactors EngineSteps
begin

text \<open>
  The goroutine of the main reactor (\<open>activateMainReactor\<close> of \<open>reactor_default_linux.go\<close>, \<open>reactor_default_bsd.go\<close>,
  \<open>reactor_optimized_linux.go\<close> and \<open>reactor_optimized_bsd.go\<close>): it polls the listener and calls \<open>engine.accept\<close>, which
  changes the loops of the engine. The engine is therefore presented to the poller of the main reactor as the state of
  the kernel: a system call of the main loop acts on the kernel inside the engine, and the callback on all of it.

  The result is \<open>Inl\<close> while the reactor polls and \<open>Inr\<close> when it has ended; then its deferred function signals the
  shutdown of the engine, which is in \<open>Shutdown\<close>. The main loop has no connections, and the only task it is given is
  the one that ends it.
\<close>

section \<open>The engine as a kernel\<close>

definition eng_lift :: "('k, 'u, 'b) engine \<Rightarrow> 'k \<times> 'a \<Rightarrow> ('k, 'u, 'b) engine \<times> 'a" where
  "eng_lift eng r = (eng\<lparr>en_k := fst r\<rparr>, snd r)"

definition eng_world :: "'k world \<Rightarrow> ('k, 'u, 'b) engine world" where
  "eng_world W =
     \<lparr>w_env = w_env W,
      w_read = (\<lambda>eng fd len. eng_lift eng (w_read W (en_k eng) fd len)),
      w_write = (\<lambda>eng fd d. eng_lift eng (w_write W (en_k eng) fd d)),
      w_writev = (\<lambda>eng fd iov. eng_lift eng (w_writev W (en_k eng) fd iov)),
      w_close = (\<lambda>eng fd. eng_lift eng (w_close W (en_k eng) fd)),
      w_ctl = (\<lambda>eng op' fd ev. eng_lift eng (w_ctl W (en_k eng) op' fd ev)),
      w_send = (\<lambda>eng fd d. eng_lift eng (w_send W (en_k eng) fd d)),
      w_sendto = (\<lambda>eng fd d sa. eng_lift eng (w_sendto W (en_k eng) fd d sa)),
      w_recvfrom = (\<lambda>eng fd len. eng_lift eng (w_recvfrom W (en_k eng) fd len)),
      w_ifname = w_ifname W\<rparr>"

text \<open>The callback; \<open>new\<close> is the connection object that \<open>newTCPConn\<close> allocates.\<close>

definition main_accept ::
  "'k world \<Rightarrow> 'k listen \<Rightarrow> ('b \<Rightarrow> netaddr option \<Rightarrow> ('b \<times> nat) go) \<Rightarrow> stale \<Rightarrow> (('k, 'u, 'b) engine \<Rightarrow> nat) \<Rightarrow>
   (('k, 'u, 'b) engine, 'v) lstate \<Rightarrow> int \<Rightarrow> ((('k, 'u, 'b) engine, 'v) lstate \<times> gerror option) go" where
  "main_accept W A pick mem new st fd =
     go_bind (eng_accept W A pick mem (new (ls_k st)) (ls_k st) fd) (\<lambda>(eng, err). Ret (st\<lparr>ls_k := eng\<rparr>, err))"

section \<open>The four reactors\<close>

definition activateMainReactor where
  "activateMainReactor W A h pick mem new lg st outs =
     pl_Polling (eng_world W) h (\<lambda>st fd ev. main_accept W A pick mem new st fd) lg st outs"

definition kq_activateMainReactor where
  "kq_activateMainReactor W A h pick mem new st outs =
     kq_Polling (eng_world W) h (\<lambda>st fd filt. main_accept W A pick mem new st fd) st outs"

text \<open>With \<open>poll_opt\<close> the attachment of the listener holds \<open>engine.accept\<close>.\<close>

definition eo_activateMainReactor where
  "eo_activateMainReactor W A h pick mem new newc st outs =
     eo_Polling (eng_world W) h (eo_call (eng_world W) h newc (\<lambda>st fd ev. main_accept W A pick mem new st fd)) st outs"

definition ko_activateMainReactor where
  "ko_activateMainReactor W A h pick mem new newc st outs =
     ko_Polling (eng_world W) h (ko_call (eng_world W) h newc (\<lambda>st fd filt. main_accept W A pick mem new st fd)) st outs"

section \<open>Accepting\<close>

text \<open>No connection is open that was not open before.\<close>

definition opens_le :: "('k, 'u, 'b) engine \<Rightarrow> ('k, 'u, 'b) engine \<Rightarrow> bool" where
  "opens_le eng eng' \<longleftrightarrow>
     (\<forall>el c. c_opened (ls_conn (en_loops eng' el) c) \<longrightarrow> c_opened (ls_conn (en_loops eng el) c))"

text \<open>The main loop: its queues hold nothing but shutdown tasks, and the loops of its engine are consistent.\<close>

definition accepts_inv ::
  "('k \<Rightarrow> int \<Rightarrow> bool) \<Rightarrow> ('k, 'u, 'b) engine \<Rightarrow> (('k, 'u, 'b) engine, 'v) lstate \<Rightarrow> bool" where
  "accepts_inv isopen eng0 st \<longleftrightarrow> set (ls_urgent st) \<subseteq> {TShutdown} \<and> ls_async st = [] \<and> eng_inv isopen (ls_k st) \<and>
     opens_le eng0 (ls_k st) \<and> 0 < en_writeBufferCap (ls_k st)"

text \<open>What the callback relies on: the balancer answers, the kernel's addresses are well-formed, and objects are new.\<close>

definition accept_env ::
  "'k listen \<Rightarrow> ('b \<Rightarrow> netaddr option \<Rightarrow> ('b \<times> nat) go) \<Rightarrow> (('k, 'u, 'b) engine \<Rightarrow> nat) \<Rightarrow> ('k, 'u, 'b) engine \<Rightarrow> bool" where
  "accept_env A pick new eng0 \<longleftrightarrow> (\<forall>b r. \<exists>b' el. pick b r = Ret (b', el)) \<and>
     (\<forall>k fd k' nfd a e. a_accept A k fd = (k', nfd, Some a, e) \<longrightarrow> sockaddr_ok a) \<and>
     (\<forall>eng. opens_le eng0 eng \<longrightarrow> unused eng (new eng))"

lemma opens_le_trans: "opens_le e1 e2 \<Longrightarrow> opens_le e2 e3 \<Longrightarrow> opens_le e1 e3"
  by (auto simp: opens_le_def)

lemma releaseTCP_new:
  assumes "0 < cap"
  shows "\<exists>y. releaseTCP (newTCPConn cap nfd sa l r) = Ret y"
proof -
  obtain mb where "eb_New cap = Inr mb" "eb_rep mb []" using eb_New_rep[OF assms] by blast
  with releaseTCP_spec[of "newTCPConn cap nfd sa l r" mb "[]"] show ?thesis by (auto simp: newTCPConn_def)
qed

lemma eng_accept_total:
  assumes E: "accept_env A pick new eng0" and cap: "0 < en_writeBufferCap eng"
  shows "\<exists>eng' err. eng_accept W A pick mem c0 eng fd = Ret (eng', err) \<and> en_writeBufferCap eng' = en_writeBufferCap eng \<and>
    (err = None \<or> err = Some ErrAcceptSocket \<or> (\<exists>e. err = Some (SyscallError ''fcntl nonblock'' e)))"
proof -
  obtain k1 nfd sa e1 where a: "a_accept A (en_k eng) fd = (k1, nfd, sa, e1)" by (metis surj_pair)
  obtain k2 e2 where n: "a_nonblock A k1 nfd = (k2, e2)" by (metis surj_pair)
  have "\<forall>x. sa = Some x \<longrightarrow> sockaddr_ok x" using E a unfolding accept_env_def by blast
  then obtain r where r: "SockaddrToTCPOrUnixAddr (w_ifname W) mem sa = Ret r"
    using SockaddrToTCPOrUnixAddr_total by blast
  obtain lb el where p: "pick (en_lb eng) r = Ret (lb, el)" using E unfolding accept_env_def by blast
  define e0 where "e0 = (if en_keepAlive eng > 0 \<and> en_network eng = ''tcp''
    then eng\<lparr>en_k := fst (a_keepalive A k2 nfd (en_keepAlive eng))\<rparr> else eng\<lparr>en_k := k2\<rparr>)"
  have e0: "en_loops e0 = en_loops eng" "en_lb e0 = en_lb eng" "en_writeBufferCap e0 = en_writeBufferCap eng" by (auto simp: e0_def)
  let ?x = "newTCPConn (en_writeBufferCap eng) nfd sa (ls_lnaddr (en_loops eng el)) r"
  let ?st = "upd_conn ((en_loops eng el)\<lparr>ls_k := en_k e0\<rparr>) c0 ?x"
  obtain st e where t: "pl_UrgentTrigger W ?st (TRegister c0) = (st, e)" by (metis surj_pair)
  obtain k3 e3 where c: "w_close W (ls_k st) nfd = (k3, e3)" by (metis surj_pair)
  have "ls_conn st c0 = ?x" using t by (auto simp: pl_UrgentTrigger_def pl_wakeup_def split: if_splits prod.splits)
  then obtain s where s: "el_releaseTCP (st\<lparr>ls_k := k3\<rparr>) c0 = Ret s"
    using releaseTCP_new[OF cap, of nfd sa "ls_lnaddr (en_loops eng el)" r] by (auto simp: el_releaseTCP_def)
  consider "e1 \<noteq> None" | "e1 = None" "e2 \<noteq> None" | "e1 = None" "e2 = None" by blast
  then show ?thesis
  proof cases
    case 3
    have "eng_accept W A pick mem c0 eng fd = go_bind (if e \<noteq> None then Ret s else Ret st)
        (\<lambda>st. Ret (e0\<lparr>en_k := ls_k st, en_lb := lb, en_loops := (en_loops e0)(el := st)\<rparr>, None))"
      using a n r p t c s 3 unfolding e0_def
      by (cases "en_keepAlive eng > 0 \<and> en_network eng = ''tcp''") (auto simp: eng_accept_def Let_def e0_def)
    then show ?thesis using e0 by (cases e) auto
  qed (use a n in \<open>auto simp: eng_accept_def Let_def NewSyscallError_def\<close>)
qed

lemma eng_accept_opens_le:
  assumes "eng_accept W A pick mem c0 eng fd = Ret (eng', err)" "unused eng c0"
  shows "opens_le eng eng'"
  using assms(1)
proof (cases rule: eng_accept_cases)
  case (2 k el cap nfd sa l r st e st1)
  have c: "ls_conn st = (ls_conn (en_loops eng el))(c0 := newTCPConn cap nfd sa l r)"
    using 2(1) by (auto simp: pl_UrgentTrigger_def pl_wakeup_def split: if_splits prod.splits)
  have "\<not> c_opened (ls_conn st1 c0) \<and> (\<forall>c. c \<noteq> c0 \<longrightarrow> ls_conn st1 c = ls_conn (en_loops eng el) c)" using 2(2)
  proof
    assume "el_releaseTCP (st\<lparr>ls_k := fst (w_close W (ls_k st) nfd)\<rparr>) c0 = Ret st1"
    then show ?thesis using c
      by (auto simp: el_releaseTCP_def releaseTCP_def Let_def elim!: go_bind_RetE split: option.splits)
  qed (use c in \<open>simp add: newTCPConn_def\<close>)
  then show ?thesis unfolding opens_le_def 2(3) by (metis fun_upd_apply)
qed (simp add: opens_le_def)

lemma main_accept_ok:
  assumes E: "accept_env A pick new eng0" and I: "accepts_inv isopen eng0 st"
  shows "\<exists>st' err. main_accept W A pick mem new st fd = Ret (st', err) \<and> accepts_inv isopen eng0 st' \<and> ls_efd st' = ls_efd st \<and>
    (err = None \<or> err = Some ErrAcceptSocket \<or> (\<exists>e. err = Some (SyscallError ''fcntl nonblock'' e)))"
proof -
  let ?eng = "ls_k st"
  have u: "unused ?eng (new ?eng)" using E I by (auto simp: accept_env_def accepts_inv_def)
  obtain eng' err where a: "eng_accept W A pick mem (new ?eng) ?eng fd = Ret (eng', err)"
    "en_writeBufferCap eng' = en_writeBufferCap ?eng"
    "err = None \<or> err = Some ErrAcceptSocket \<or> (\<exists>e. err = Some (SyscallError ''fcntl nonblock'' e))"
    using eng_accept_total[OF E, of ?eng] I unfolding accepts_inv_def by blast
  have "eng_inv isopen eng'" using eng_accept_inv[OF _ u a(1)] I by (simp add: accepts_inv_def)
  moreover have "opens_le eng0 eng'" using eng_accept_opens_le[OF a(1) u] opens_le_trans I by (auto simp: accepts_inv_def)
  ultimately have "accepts_inv isopen eng0 (st\<lparr>ls_k := eng'\<rparr>)" using I a(2) by (simp add: accepts_inv_def)
  with a show ?thesis by (simp add: main_accept_def)
qed

section \<open>Polling\<close>

text \<open>What the kernel answers to the waits of a poller never exceeds the room it is offered; the list is resized after each.\<close>

fun pl_answers :: "evlist \<Rightarrow> (int \<times> errno option \<times> (int \<times> 32 word) list) list \<Rightarrow> bool" where
  "pl_answers l [] \<longleftrightarrow> True"
| "pl_answers l ((n, err, es) # outs) \<longleftrightarrow>
     n \<le> ev_size l \<and> pl_answers (pl_resize n (l\<lparr>ev_events := go_copy (ev_events l) es\<rparr>)) outs"

fun blk_answers :: "('l, 'e, 'k, 'u) blk \<Rightarrow> ('l \<Rightarrow> int) \<Rightarrow> 'l \<Rightarrow> (int \<times> errno option \<times> 'e list) list \<Rightarrow> bool" where
  "blk_answers B sz l [] \<longleftrightarrow> True"
| "blk_answers B sz l ((n, err, es) # outs) \<longleftrightarrow>
     n \<le> sz l \<and>
     blk_answers B sz (if n = 0 \<or> n < 0 \<and> err = Some EINTR then bk_fill B l es else bk_resize B n (bk_fill B l es)) outs"

text \<open>
  How polling may end: with the error of \<open>accept\<close>, because a task, the user's \<open>proc\<close> or nobody but the wait itself says so.
\<close>

definition main_ends ::
  "('k \<Rightarrow> int \<Rightarrow> bool) \<Rightarrow> ('k, 'u, 'b) engine \<Rightarrow>
   ('p \<times> (('k, 'u, 'b) engine, 'v) lstate + (('k, 'u, 'b) engine, 'v) lstate \<times> gerror option) \<Rightarrow> bool" where
  "main_ends isopen eng0 r \<longleftrightarrow>
     (case r of
        Inl (_, st) \<Rightarrow> accepts_inv isopen eng0 st
      | Inr (st, err) \<Rightarrow> accepts_inv isopen eng0 st \<and>
          (err = Some ErrAcceptSocket \<or> err = Some ErrEngineShutdown \<or> (\<exists>e. err = Some (Errno e))))"

lemma accepts_inv_upd [simp]:
  "accepts_inv isopen eng0 (st\<lparr>ls_user := u\<rparr>) = accepts_inv isopen eng0 st"
  "accepts_inv isopen eng0 (st\<lparr>ls_wakeup := b\<rparr>) = accepts_inv isopen eng0 st"
  by (simp_all add: accepts_inv_def)

text \<open>Reading the event descriptor changes nothing but the kernel inside the engine.\<close>

lemma main_read:
  assumes "accepts_inv isopen eng0 st" "w_read (eng_world W) (ls_k st) fd n = (eng, r)"
  shows "accepts_inv isopen eng0 (st\<lparr>ls_k := eng\<rparr>)"
  using assms by (auto simp: eng_world_def eng_lift_def accepts_inv_def eng_inv_def opens_le_def)

lemma main_chores:
  assumes "accepts_inv isopen eng0 st"
  shows "\<exists>st' err. run_chores m (eng_world W) h st = Ret (st', False, err) \<and> accepts_inv isopen eng0 st' \<and>
    (err = None \<or> err = Some ErrEngineShutdown)"
proof (cases "ls_urgent st")
  case Nil
  then have u: "go_loop (pl_urgentBody (eng_world W) h) st = Ret (st, None)" by (simp add: go_loop_unfold pl_urgentBody_def)
  have "ls_async st = []" using assms by (simp add: accepts_inv_def)
  moreover from this have "pl_asyncLoop (eng_world W) h m st = Ret (st, None)" by (cases m) simp_all
  ultimately show ?thesis using u Nil assms by (simp add: run_chores_def)
next
  case (Cons t ts)
  with assms have "ls_urgent st = TShutdown # ts" by (simp add: accepts_inv_def)
  from chores_shutdown[OF this, of m "eng_world W" h] show ?thesis using assms Cons by (simp add: accepts_inv_def)
qed

definition dispatch_ends ::
  "('k \<Rightarrow> int \<Rightarrow> bool) \<Rightarrow> ('k, 'u, 'b) engine \<Rightarrow>
   ((('k, 'u, 'b) engine, 'v) lstate \<times> bool + (('k, 'u, 'b) engine, 'v) lstate \<times> gerror option) go \<Rightarrow> bool" where
  "dispatch_ends isopen eng0 res \<longleftrightarrow>
     (\<exists>st ch. res = Ret (Inl (st, ch)) \<and> accepts_inv isopen eng0 st) \<or>
     (\<exists>st. res = Ret (Inr (st, Some ErrAcceptSocket)) \<and> accepts_inv isopen eng0 st)"

lemma main_accept_then:
  assumes E: "accept_env A pick new eng0" and I: "accepts_inv isopen eng0 st"
    and f: "\<And>st'. accepts_inv isopen eng0 st' \<Longrightarrow> dispatch_ends isopen eng0 (f st')"
  shows "dispatch_ends isopen eng0 (go_bind (main_accept W A pick mem new st fd) (\<lambda>(st, err).
    if err = Some ErrAcceptSocket \<or> err = Some ErrEngineShutdown then Ret (Inr (st, err)) else f st))"
proof -
  obtain st' err where a: "main_accept W A pick mem new st fd = Ret (st', err)" "accepts_inv isopen eng0 st'"
    "err = None \<or> err = Some ErrAcceptSocket \<or> (\<exists>e. err = Some (SyscallError ''fcntl nonblock'' e))"
    using main_accept_ok[OF E I] by blast
  with f[OF a(2)] show ?thesis by (auto simp: dispatch_ends_def)
qed

lemma main_dispatch:
  assumes E: "accept_env A pick new eng0"
  shows "accepts_inv isopen eng0 st \<Longrightarrow> 0 \<le> i \<Longrightarrow> i + int m \<le> glen evs \<Longrightarrow>
    dispatch_ends isopen eng0 (pl_dispatch (eng_world W) (\<lambda>st fd ev. main_accept W A pick mem new st fd) evs m i st ch)"
proof (induction m arbitrary: i st ch)
  case (Suc m)
  obtain fd ev where ix: "go_index evs i = Ret (fd, ev)" using Suc.prems by (cases "evs ! nat i") (simp add: go_index_def)
  have b: "0 \<le> i + 1" "i + 1 + int m \<le> glen evs" using Suc.prems by simp_all
  obtain eng x where rd: "w_read (eng_world W) (ls_k st) (ls_efd st) 8 = (eng, x)" by (metis surj_pair)
  show ?case using ix rd main_accept_then[OF E Suc.prems(1) Suc.IH[OF _ b]] Suc.IH[OF main_read[OF Suc.prems(1) rd] b] by simp
qed (simp add: dispatch_ends_def)

lemma kq_main_dispatch:
  assumes E: "accept_env A pick new eng0"
  shows "accepts_inv isopen eng0 st \<Longrightarrow> 0 \<le> i \<Longrightarrow> i + int m \<le> glen evs \<Longrightarrow>
    dispatch_ends isopen eng0 (kq_dispatch (\<lambda>st fd filt. main_accept W A pick mem new st fd) evs m i st ch)"
proof (induction m arbitrary: i st ch)
  case (Suc m)
  obtain ev where ix: "go_index evs i = Ret ev" using Suc.prems by (simp add: go_index_def)
  have b: "0 \<le> i + 1" "i + 1 + int m \<le> glen evs" using Suc.prems by simp_all
  show ?case using ix main_accept_then[OF E Suc.prems(1) Suc.IH[OF _ b]] Suc.IH[OF Suc.prems(1) b] by simp
qed (simp add: dispatch_ends_def)

text \<open>The loop of the default poller.\<close>

lemma main_round:
  assumes E: "accept_env A pick new eng0" and I: "accepts_inv isopen eng0 st" and l: "evlist_ok (ps_events ps)" "n \<le> ev_size (ps_events ps)"
  shows "\<exists>r. pl_round (eng_world W) h (\<lambda>st fd ev. main_accept W A pick mem new st fd) lg ps st (n, err, es) = Ret r \<and>
    main_ends isopen eng0 r \<and>
    (\<forall>ps' st'. r = Inl (ps', st') \<longrightarrow>
       ps_events ps' = pl_resize n ((ps_events ps)\<lparr>ev_events := go_copy (ev_events (ps_events ps)) es\<rparr>))"
proof (cases "\<not> (n = 0 \<or> n < 0 \<and> err = Some EINTR) \<and> \<not> n > 0 \<and> err \<noteq> None")
  case True
  then show ?thesis using I by (auto simp: pl_round_def Let_def main_ends_def)
next
  case False
  let ?cb = "\<lambda>st fd ev. main_accept W A pick mem new st fd"
  let ?l = "(ps_events ps)\<lparr>ev_events := go_copy (ev_events (ps_events ps)) es\<rparr>"
  define ps1 where "ps1 = ps\<lparr>ps_events := ?l,
    ps_msec := if n = 0 \<or> n < 0 \<and> err = Some EINTR then ps_wait ps else if n > 0 then 0 else ps_msec ps\<rparr>"
  let ?d = "pl_dispatch (eng_world W) ?cb (ev_events ?l) (nat n) 0 st (ps_chores ps)"
  have R: "pl_round (eng_world W) h ?cb lg ps st (n, err, es) = go_bind ?d (\<lambda>res. case res of Inr r \<Rightarrow> Ret (Inr r)
      | Inl (st, ch) \<Rightarrow> pl_finish (eng_world W) h lg n ps1 st ch)"
    using False by (auto simp: pl_round_def Let_def ps1_def)
  have "dispatch_ends isopen eng0 ?d" using l by (intro main_dispatch[OF E I]) (auto simp: evlist_ok_def)
  then consider (go_on) st1 ch where "?d = Ret (Inl (st1, ch))" "accepts_inv isopen eng0 st1"
    | (stop) st1 where "?d = Ret (Inr (st1, Some ErrAcceptSocket))" "accepts_inv isopen eng0 st1" by (auto simp: dispatch_ends_def)
  then show ?thesis
  proof cases
    case stop
    then show ?thesis using R by (simp add: main_ends_def)
  next
    case go_on
    obtain u perr where p: "lg_proc lg (ls_user st1) = (u, perr)" by (metis surj_pair)
    obtain st2 e where c: "run_chores MaxAsyncTasksAtOneTime (eng_world W) h (st1\<lparr>ls_user := u\<rparr>) = Ret (st2, False, e)"
      "accepts_inv isopen eng0 st2" "e = None \<or> e = Some ErrEngineShutdown"
      using main_chores[of isopen eng0 "st1\<lparr>ls_user := u\<rparr>"] go_on(2) unfolding accepts_inv_upd by blast
    then show ?thesis using R go_on p by (auto simp: pl_finish_def pl_chores_def Let_def main_ends_def ps1_def)
  qed
qed

lemma main_rounds:
  assumes E: "accept_env A pick new eng0"
  shows "accepts_inv isopen eng0 st \<Longrightarrow> evlist_ok (ps_events ps) \<Longrightarrow> pl_answers (ps_events ps) outs \<Longrightarrow>
    \<exists>r. pl_rounds (eng_world W) h (\<lambda>st fd ev. main_accept W A pick mem new st fd) lg ps st outs = Ret r \<and> main_ends isopen eng0 r"
proof (induction outs arbitrary: ps st)
  case Nil
  then show ?case by (simp add: main_ends_def)
next
  case (Cons out outs)
  obtain n err es where out: "out = (n, err, es)" by (cases out)
  with Cons.prems(3) have n: "n \<le> ev_size (ps_events ps)"
    and outs: "pl_answers (pl_resize n ((ps_events ps)\<lparr>ev_events := go_copy (ev_events (ps_events ps)) es\<rparr>)) outs" by simp_all
  obtain r where r: "pl_round (eng_world W) h (\<lambda>st fd ev. main_accept W A pick mem new st fd) lg ps st (n, err, es) = Ret r"
      "main_ends isopen eng0 r" "\<And>ps' st'. r = Inl (ps', st') \<Longrightarrow>
       ps_events ps' = pl_resize n ((ps_events ps)\<lparr>ev_events := go_copy (ev_events (ps_events ps)) es\<rparr>)"
    using main_round[OF E Cons.prems(1,2) n] by blast
  show ?case
  proof (cases r)
    case (Inl x)
    obtain ps' st' where x: "x = (ps', st')" by (cases x)
    have "evlist_ok (ps_events ps')" using r(3) Inl x evlist_resize[OF evlist_filled[OF Cons.prems(2)]] by simp
    moreover have "accepts_inv isopen eng0 st'" "pl_answers (ps_events ps') outs" using r(2,3) Inl x outs by (simp_all add: main_ends_def)
    ultimately obtain q where "pl_rounds (eng_world W) h (\<lambda>st fd ev. main_accept W A pick mem new st fd) lg ps' st' outs = Ret q"
      "main_ends isopen eng0 q" using Cons.IH by blast
    then show ?thesis using r(1) Inl x by (simp add: out)
  next
    case (Inr x)
    then show ?thesis using r(1,2) by (simp add: out main_ends_def)
  qed
qed

text \<open>The loop of the other pollers, given what their dispatch and their event lists do.\<close>

lemma blk_main_rounds:
  fixes B :: "('l, 'e, ('k, 'u, 'b) engine, 'v) blk"
  assumes d: "\<And>l n st ch. ok l \<Longrightarrow> int n \<le> sz l \<Longrightarrow> accepts_inv isopen eng0 st \<Longrightarrow>
      dispatch_ends isopen eng0 (bk_dispatch B l n st ch)"
    and c: "\<And>st. bk_chores B st = run_chores m (eng_world W) h st"
    and l: "\<And>l es. ok l \<Longrightarrow> good es \<Longrightarrow> ok (bk_fill B l es) \<and> sz (bk_fill B l es) = sz l" "\<And>l i. ok l \<Longrightarrow> ok (bk_resize B i l) \<and> 0 < sz l"
  shows "accepts_inv isopen eng0 st \<Longrightarrow> ok (bs_events bs) \<Longrightarrow> blk_answers B sz (bs_events bs) outs \<Longrightarrow>
    \<forall>(n, err, es)\<in>set outs. good es \<Longrightarrow> \<exists>r. blk_rounds B bs st outs = Ret r \<and> main_ends isopen eng0 r"
proof (induction outs arbitrary: bs st)
  case Nil
  then show ?case by (simp add: main_ends_def)
next
  case (Cons out outs)
  obtain n err es where out: "out = (n, err, es)" by (cases out)
  let ?l = "bk_fill B (bs_events bs) es"
  have ok: "ok ?l" "n \<le> sz ?l" "0 < sz ?l" using Cons.prems(2-4) l out by auto
  show ?case
  proof (cases "n = 0 \<or> n < 0 \<and> err = Some EINTR")
    case True
    then show ?thesis using Cons.IH[of st "bs\<lparr>bs_events := ?l, bs_block := True\<rparr>"] Cons.prems ok out by (simp add: blk_round_def)
  next
    case busy: False
    then have outs: "blk_answers B sz (bk_resize B n ?l) outs" using Cons.prems(3) out by (auto split: if_splits)
    show ?thesis
    proof (cases err)
      case (Some e)
      then show ?thesis using busy out Cons.prems(1) by (auto simp: blk_round_def Let_def main_ends_def)
    next
      case None
      have "int (nat n) \<le> sz ?l" using ok by simp
      then consider (go_on) st1 ch where "bk_dispatch B ?l (nat n) st (bs_chores bs) = Ret (Inl (st1, ch))" "accepts_inv isopen eng0 st1"
        | (stop) st1 where "bk_dispatch B ?l (nat n) st (bs_chores bs) = Ret (Inr (st1, Some ErrAcceptSocket))" "accepts_inv isopen eng0 st1"
        using d[OF ok(1) _ Cons.prems(1), of "nat n" "bs_chores bs"] by (auto simp: dispatch_ends_def)
      then show ?thesis
      proof cases
        case stop
        then show ?thesis using busy None out by (auto simp: blk_round_def Let_def main_ends_def)
      next
        case go_on
        obtain st2 e where ch: "run_chores m (eng_world W) h st1 = Ret (st2, False, e)" "accepts_inv isopen eng0 st2"
          "e = None \<or> e = Some ErrEngineShutdown" using main_chores[OF go_on(2)] by blast
        define st3 where "st3 = (if ch then st2 else st1)"
        let ?bs = "\<lparr>bs_events = bk_resize B n ?l, bs_chores = False, bs_block = False\<rparr>"
        have I: "accepts_inv isopen eng0 st3" using ch(2) go_on(2) by (simp add: st3_def)
        have R: "blk_round B bs st out = Ret (if ch \<and> e \<noteq> None then Inr (st3, e) else Inl (?bs, st3))"
          using busy None out go_on(1) ch(1) c by (simp add: blk_round_def Let_def st3_def)
        obtain q where "blk_rounds B ?bs st3 outs = Ret q" "main_ends isopen eng0 q"
          using Cons.IH[OF I, of ?bs] l(2)[OF ok(1)] outs Cons.prems(4) by auto
        then show ?thesis using R I ch(3) by (cases "ch \<and> e \<noteq> None") (auto simp: main_ends_def)
      qed
    qed
  qed
qed

section \<open>The optimized pollers of the main reactor\<close>

text \<open>
  The events of the main poller carry the attachment of the listener or, with epoll, its own. On such events the
  optimized pollers do what the default ones do.
\<close>

definition eo_main_batch :: "(pa_ref \<times> 32 word) list \<Rightarrow> bool" where
  "eo_main_batch evs \<longleftrightarrow> (\<forall>(r, ev)\<in>set evs. r = PaWake \<or> r = PaListen)"

definition ko_main_batch :: "kevent list \<Rightarrow> bool" where
  "ko_main_batch evs \<longleftrightarrow> (\<forall>ev\<in>set evs. ke_ident ev \<noteq> 0 \<longrightarrow> ke_udata ev = Some PaListen)"

lemma eo_main_dispatch:
  assumes E: "accept_env A pick new eng0" and b: "eo_main_batch evs"
    and call: "\<And>st fd ev. call CbAccept st fd ev = main_accept W A pick mem new st fd"
  shows "accepts_inv isopen eng0 st \<Longrightarrow> 0 \<le> i \<Longrightarrow> i + int m \<le> glen evs \<Longrightarrow>
    dispatch_ends isopen eng0 (eo_dispatch (eng_world W) call evs m i st ch)"
proof (induction m arbitrary: i st ch)
  case (Suc m)
  have "i < glen evs" using Suc.prems by simp
  then have mem: "evs ! nat i \<in> set evs" using Suc.prems by (intro nth_mem) linarith
  obtain r ev where e: "evs ! nat i = (r, ev)" by (metis surj_pair)
  have ix: "go_index evs i = Ret (r, ev)" using e \<open>i < glen evs\<close> Suc.prems(2) by (simp add: go_index_def)
  have r: "r = PaWake \<or> r = PaListen" using b mem unfolding e eo_main_batch_def by auto
  have bd: "0 \<le> i + 1" "i + 1 + int m \<le> glen evs" using Suc.prems by simp_all
  obtain eng x where rd: "w_read (eng_world W) (ls_k st) (ls_efd st) 8 = (eng, x)" by (metis surj_pair)
  note IH = Suc.IH[OF main_read[OF Suc.prems(1) rd] bd] main_accept_then[OF E Suc.prems(1) Suc.IH[OF _ bd]]
  show ?case using r
  proof
    assume "r = PaWake"
    then show ?thesis using ix rd IH(1) by (simp add: pa_deref_def)
  next
    assume "r = PaListen"
    then show ?thesis using ix rd IH by (simp add: pa_deref_def packPollAttachment_def pa_invoke_def call Let_def)
  qed
qed (simp add: dispatch_ends_def)

lemma ko_main_dispatch:
  assumes b: "ko_main_batch evs" and call: "\<And>st fd filt. call CbAccept st fd filt = main_accept W A pick mem new st fd"
  shows "0 \<le> i \<Longrightarrow> i + int m \<le> glen evs \<Longrightarrow> ko_dispatch call evs m i st ch =
    kq_dispatch (\<lambda>st fd filt. main_accept W A pick mem new st fd) evs m i st ch"
proof (induction m arbitrary: i st ch)
  case (Suc m)
  have i: "i < glen evs" using Suc.prems by simp
  then have "evs ! nat i \<in> set evs" using Suc.prems by (intro nth_mem) linarith
  then have "ke_ident (evs ! nat i) \<noteq> 0 \<longrightarrow> ke_udata (evs ! nat i) = Some PaListen" using b by (simp add: ko_main_batch_def)
  moreover have "go_index evs i = Ret (evs ! nat i)" using i Suc.prems by (simp add: go_index_def)
  ultimately show ?case using Suc.IH[of "i + 1"] Suc.prems
    by (auto simp: pa_invoke_def pa_deref_def packPollAttachment_def call intro!: arg_cong[of _ _ "go_bind _"] ext)
qed simp

section \<open>The main reactors serve\<close>

lemma activateMainReactor_serves:
  assumes "accept_env A pick new eng0" "accepts_inv isopen eng0 st" "pl_answers (newEventList InitPollEventsCap) outs"
  shows "\<exists>r. activateMainReactor W A h pick mem new (Some lg) st outs = Ret r \<and> main_ends isopen eng0 r"
  using main_rounds[OF assms(1), where st = "st\<lparr>ls_user := lg_init lg (ls_user st)\<rparr>" and W = W and h = h and lg = lg and mem = mem
      and ps = "\<lparr>ps_events = newEventList InitPollEventsCap, ps_chores = False, ps_msec = w, ps_wait = w\<rparr>" for w]
    assms(2,3) evlist_new by (simp add: activateMainReactor_def pl_Polling_def Let_def)

lemma kq_activateMainReactor_serves:
  assumes "accept_env A pick new eng0" "accepts_inv isopen eng0 st"
    and "blk_answers (kq_poller (eng_world W) h (\<lambda>st fd filt. main_accept W A pick mem new st fd)) kl_size
      (kq_newEventList kq_InitPollEventsCap) outs"
  shows "\<exists>r. kq_activateMainReactor W A h pick mem new st outs = Ret r \<and> main_ends isopen eng0 r"
  unfolding kq_activateMainReactor_def kq_Polling_def
proof (rule blk_main_rounds[where ok = kqlist_ok and sz = kl_size and good = "\<lambda>_. True" and W = W and h = h and m = kq_MaxAsyncTasksAtOneTime])
  fix l :: kqlist and n ch and st :: "(('a, 'c, 'b) engine, 'd) lstate"
  assume "kqlist_ok l" "int n \<le> kl_size l" "accepts_inv isopen eng0 st"
  then show "dispatch_ends isopen eng0 (bk_dispatch (kq_poller (eng_world W) h (\<lambda>st fd filt. main_accept W A pick mem new st fd)) l n st ch)"
    using kq_main_dispatch[OF assms(1), of isopen st 0 n "kl_events l"] by (simp add: kq_poller_def kqlist_ok_def)
qed (use assms in \<open>auto simp: kq_poller_def kqlist_resize kqlist_new kq_InitPollEventsCap_def\<close>, auto simp: kqlist_ok_def)

lemma eo_activateMainReactor_serves:
  assumes "accept_env A pick new eng0" "accepts_inv isopen eng0 st" "\<forall>(n, err, es)\<in>set outs. eo_main_batch es"
    and "blk_answers (eo_poller (eng_world W) h (eo_call (eng_world W) h newc (\<lambda>st fd ev. main_accept W A pick mem new st fd))) ol_size
      (eo_newEventList InitPollEventsCap) outs"
  shows "\<exists>r. eo_activateMainReactor W A h pick mem new newc st outs = Ret r \<and> main_ends isopen eng0 r"
proof -
  let ?B = "eo_poller (eng_world W) h (eo_call (eng_world W) h newc (\<lambda>st fd ev. main_accept W A pick mem new st fd))"
  show ?thesis unfolding eo_activateMainReactor_def eo_Polling_def
  proof (rule blk_main_rounds[where ok = "\<lambda>l. eolist_ok l \<and> eo_main_batch (ol_events l)" and sz = ol_size and good = eo_main_batch
        and W = W and h = h and m = MaxAsyncTasksAtOneTime])
    fix l :: eolist and n ch and st :: "(('a, 'c, 'b) engine, 'd) lstate"
    let ?call = "eo_call (eng_world W) h newc (\<lambda>st fd ev. main_accept W A pick mem new st fd)"
    assume "eolist_ok l \<and> eo_main_batch (ol_events l)" "int n \<le> ol_size l" "accepts_inv isopen eng0 st"
    then show "dispatch_ends isopen eng0 (bk_dispatch (eo_poller (eng_world W) h ?call) l n st ch)"
      using eo_main_dispatch[OF assms(1), of "ol_events l" ?call W mem isopen st 0 n] by (simp add: eo_poller_def eolist_ok_def eo_call_def)
  next
    fix l :: eolist and es
    assume "eolist_ok l \<and> eo_main_batch (ol_events l)" "eo_main_batch es"
    then show "(eolist_ok (bk_fill ?B l es) \<and>
        eo_main_batch (ol_events (bk_fill ?B l es))) \<and>
        ol_size (bk_fill ?B l es) = ol_size l"
      by (auto simp: eo_poller_def eolist_ok_def eo_main_batch_def go_copy_def dest!: in_set_takeD in_set_dropD)
  next
    fix l :: eolist and i
    assume "eolist_ok l \<and> eo_main_batch (ol_events l)"
    moreover from this have "0 < ol_size l" by (auto simp: eolist_ok_def)
    ultimately show "(eolist_ok (bk_resize ?B i l) \<and>
        eo_main_batch (ol_events (bk_resize ?B i l))) \<and> 0 < ol_size l"
      using eolist_resize[of l i] by (auto simp: eo_poller_def eo_resize_def eo_newEventList_def eo_main_batch_def)
  qed (use assms in \<open>auto simp: eo_poller_def eolist_ok_def eo_newEventList_def InitPollEventsCap_def eo_main_batch_def\<close>)
qed

lemma ko_activateMainReactor_serves:
  assumes "accept_env A pick new eng0" "accepts_inv isopen eng0 st" "\<forall>(n, err, es)\<in>set outs. ko_main_batch es"
    and "blk_answers (ko_poller (eng_world W) h (ko_call (eng_world W) h newc (\<lambda>st fd filt. main_accept W A pick mem new st fd))) kl_size
      (kq_newEventList kq_InitPollEventsCap) outs"
  shows "\<exists>r. ko_activateMainReactor W A h pick mem new newc st outs = Ret r \<and> main_ends isopen eng0 r"
proof -
  let ?B = "ko_poller (eng_world W) h (ko_call (eng_world W) h newc (\<lambda>st fd ev. main_accept W A pick mem new st fd))"
  show ?thesis unfolding ko_activateMainReactor_def ko_Polling_def
  proof (rule blk_main_rounds[where ok = "\<lambda>l. kqlist_ok l \<and> ko_main_batch (kl_events l)" and sz = kl_size and good = ko_main_batch
        and W = W and h = h and m = kq_MaxAsyncTasksAtOneTime])
    fix l :: kqlist and n ch and st :: "(('a, 'c, 'b) engine, 'd) lstate"
    let ?call = "ko_call (eng_world W) h newc (\<lambda>st fd ev. main_accept W A pick mem new st fd)"
    assume l: "kqlist_ok l \<and> ko_main_batch (kl_events l)" "int n \<le> kl_size l" "accepts_inv isopen eng0 st"
    have "ko_dispatch ?call (kl_events l) n 0 st ch = kq_dispatch (\<lambda>st fd filt. main_accept W A pick mem new st fd) (kl_events l) n 0 st ch"
      by (rule ko_main_dispatch) (use l in \<open>auto simp: ko_call_def kqlist_ok_def\<close>)
    then show "dispatch_ends isopen eng0 (bk_dispatch (ko_poller (eng_world W) h ?call) l n st ch)"
      using kq_main_dispatch[OF assms(1) l(3), of 0 n "kl_events l"] l by (simp add: ko_poller_def kqlist_ok_def)
  next
    fix l :: kqlist and es
    assume "kqlist_ok l \<and> ko_main_batch (kl_events l)" "ko_main_batch es"
    then show "(kqlist_ok (bk_fill ?B l es) \<and>
        ko_main_batch (kl_events (bk_fill ?B l es))) \<and>
        kl_size (bk_fill ?B l es) = kl_size l"
      by (auto simp: ko_poller_def kq_poller_def kqlist_ok_def ko_main_batch_def go_copy_def dest!: in_set_takeD in_set_dropD)
  next
    fix l :: kqlist and i
    assume l: "kqlist_ok l \<and> ko_main_batch (kl_events l)"
    then have "0 < kl_size l" by (auto simp: kqlist_ok_def)
    then show "(kqlist_ok (bk_resize ?B i l) \<and>
        ko_main_batch (kl_events (bk_resize ?B i l))) \<and> 0 < kl_size l"
      using kqlist_resize[of l i] l
      by (auto simp: ko_poller_def kq_poller_def kq_resize_def kl_expand_def kl_shrink_def Let_def kq_newEventList_def kevent_for_def ko_main_batch_def)
  qed (use assms in \<open>auto simp: ko_poller_def kq_poller_def kqlist_new kq_newEventList_def kevent_for_def ko_main_batch_def kq_InitPollEventsCap_def kqlist_ok_def\<close>)
qed

end
