(* ===== verification/EngineProperties.thy ===== *)
theory EngineProperties
  imports MainReactor LoadBalancer
begin

text \<open>
  The properties of an engine with its loops: load balancing (\<open>src/load_balancer.go\<close>), accepting (\<open>src/acceptor.go\<close>),
  outgoing connections and the number of connections (\<open>src/gnet.go\<close>), and the state of all loops together, each with an
  instance on the small kernel of \<open>LoopProperties\<close>.
\<close>

section \<open>Concrete balancers and listeners\<close>

definition demo_rr :: rrlb where
  "demo_rr = fst (register_all rr_register rr_zero (\<lambda>_. -1) [10, 11, 12])"

definition demo_listen :: "demo_k listen" where
  "demo_listen = \<lparr>a_accept = (\<lambda>k fd. (k, 9, Some (SockaddrInet4 80 [127, 0, 0, 1]), None)), a_nonblock = (\<lambda>k fd. (k, None)),
     a_keepalive = (\<lambda>k fd s. (k, None))\<rparr>"

definition demo_engine :: "(demo_k, nat, rrlb) engine" where
  "demo_engine = \<lparr>en_k = (ls_k demo_start)\<lparr>dk_open := (\<lambda>fd. fd = 4)\<rparr>, en_lb = demo_rr, en_loops = (\<lambda>_. demo_start), en_network = ''tcp'',
     en_keepAlive = 0, en_writeBufferCap = 64\<rparr>"

text \<open>A kernel on which every call succeeds.\<close>

definition easy_world :: "demo_k world" where
  "easy_world = demo_world\<lparr>w_write := \<lambda>k fd d. (k, glen d, None), w_ctl := \<lambda>k op' fd ev. (k, None)\<rparr>"

definition easy_net :: "'k netsys" where
  "easy_net = \<lparr>n_socket = (\<lambda>k fam ty pr nb. (k, 9, None)), n_setsockopt = (\<lambda>k fd nm v. (k, None)), n_setlinger = (\<lambda>k fd a b. (k, None)),
     n_bind = (\<lambda>k fd sa. (k, None)), n_listen = (\<lambda>k fd b. (k, None)), n_connect = (\<lambda>k fd sa. (k, None)), n_nonblock = (\<lambda>k fd. (k, None)),
     n_close = (\<lambda>k fd. (k, None)), n_resolveTCP = (\<lambda>n a. Inr ([127, 0, 0, 1], 80, [])), n_resolveUDP = (\<lambda>n a. Inr ([127, 0, 0, 1], 80, [])),
     n_resolveUnix = (\<lambda>n a. Inr (a, ''unix'')), n_ifindex = (\<lambda>z. Inr 1), n_removeAll = (\<lambda>k p. (k, None))\<rparr>"

lemma demo_rr_loops: "rr_ok demo_rr" "rr_eventLoops demo_rr = [10, 11, 12]" "nextLoopIndex demo_rr = 0"
  by (simp_all add: demo_rr_def rr_register_def rr_zero_def rr_ok_def)

lemma demo_pick: "rr_next (en_lb demo_engine) r = Ret (demo_rr\<lparr>nextLoopIndex := 1\<rparr>, 10)"
  using rr_next_step[OF demo_rr_loops(1), of 3 0 r] by (simp add: demo_engine_def demo_rr_loops)

section \<open>Load balancing\<close>

text \<open>
  round robin is fair: after \<open>m\<close> times as many calls as there are loops, every loop has been chosen \<open>m\<close>
  times, and the balancer is back where it was.
\<close>

theorem round_robin_fair:
  assumes "rr_ok lb" "rr_eventLoops lb \<noteq> []" "distinct (rr_eventLoops lb)"
  shows "\<exists>els. rr_picks lb (m * length (rr_eventLoops lb)) = Ret (lb, els) \<and>
    (\<forall>el. count_list els el = (if el \<in> set (rr_eventLoops lb) then m else 0))"
proof -
  have "count_list (rr_eventLoops lb) el = (if el \<in> set (rr_eventLoops lb) then 1 else 0)" for el
    using assms(3) by (simp add: distinct_count_atmost_1 flip: count_mset)
  with rr_rounds_fair[OF assms(1,2), of m] show ?thesis by auto
qed

theorem round_robin_fair_witness:
  "\<exists>els. rr_picks demo_rr 6 = Ret (demo_rr, els) \<and> count_list els 11 = 2 \<and> count_list els 7 = 0"
  using round_robin_fair[of demo_rr 2] by (simp add: demo_rr_loops) fastforce

text \<open>
  the least-connections balancer returns a registered loop with the fewest connections.
\<close>

theorem least_connections_minimal:
  assumes "lc_eventLoops lb \<noteq> []"
  shows "\<exists>el. lc_next conns lb a = Ret (lb, el) \<and> el \<in> set (lc_eventLoops lb) \<and>
    (\<forall>v. v \<in> set (lc_eventLoops lb) \<longrightarrow> conns el \<le> conns v)"
  using lc_min_least[OF assms, of conns] by (auto simp: lc_next_def)

theorem least_connections_minimal_witness:
  "\<exists>el. lc_next (\<lambda>el. if el = 11 then 3 else 5) (fst (register_all lc_register lc_zero (\<lambda>_. -1) [10, 11])) None =
      Ret (fst (register_all lc_register lc_zero (\<lambda>_. -1) [10, 11]), el) \<and> el = 11"
  using least_connections_minimal[of "fst (register_all lc_register lc_zero (\<lambda>_. -1) [10, 11])" "\<lambda>el. if el = 11 then 3 else 5" None]
  by (auto simp: lc_register_def lc_zero_def split: if_splits)

text \<open>
  the source-address balancer never indexes out of range and maps an address to the same loop every time,
  the one at the CRC-32 of its string modulo the number of loops.
\<close>

theorem source_hash_stable:
  assumes "sh_ok lb" "sh_eventLoops lb \<noteq> []"
  shows "sh_next addr_str lb (Some a) =
      Ret (lb, sh_eventLoops lb ! nat (uint (ChecksumIEEE (addr_str a)) mod glen (sh_eventLoops lb))) \<and>
    nat (uint (ChecksumIEEE (addr_str a)) mod glen (sh_eventLoops lb)) < length (sh_eventLoops lb)"
  using sh_next_index[OF assms, of addr_str a] assms by (simp add: sh_ok_def nat_less_iff)

theorem source_hash_stable_witness:
  "sh_next (\<lambda>_. []) (fst (register_all sh_register sh_zero (\<lambda>_. -1) [10, 11])) (Some (UnixAddr [])) =
    Ret (fst (register_all sh_register sh_zero (\<lambda>_. -1) [10, 11]), 10)"
  using source_hash_stable[of "fst (register_all sh_register sh_zero (\<lambda>_. -1) [10, 11])" "\<lambda>_. []" "UnixAddr []"]
  by (simp add: sh_register_def sh_zero_def sh_ok_def ChecksumIEEE_def)

section \<open>Accepting\<close>

text \<open>
  an accepted connection goes to exactly one loop, the one the balancer chose: its registration is queued
  there and the loop is woken up, and the other loops are untouched.
\<close>

theorem accept_hands_over:
  assumes "a_accept A (en_k eng) fd = (k1, nfd, sa, None)" "a_nonblock A k1 nfd = (k2, None)"
    and "\<forall>a. sa = Some a \<longrightarrow> sockaddr_ok a" "\<And>r. pick (en_lb eng) r = Ret (lb', el)"
    and "\<And>k. ls_wakeup (en_loops eng el) \<or> snd (snd (w_write W k (ls_efd (en_loops eng el)) [1, 0, 0, 0, 0, 0, 0, 0])) = None"
  shows "\<exists>eng' r. eng_accept W A pick mem c0 eng fd = Ret (eng', None) \<and>
    ls_urgent (en_loops eng' el) = ls_urgent (en_loops eng el) @ [TRegister c0] \<and> ls_wakeup (en_loops eng' el) \<and>
    ls_conn (en_loops eng' el) c0 = newTCPConn (en_writeBufferCap eng) nfd sa (ls_lnaddr (en_loops eng el)) r \<and>
    (\<forall>el'. el' \<noteq> el \<longrightarrow> en_loops eng' el' = en_loops eng el') \<and> en_lb eng' = lb'"
  by (rule eng_accept_hands_over[where pick = pick and eng = eng and W = W and A = A and fd = fd, OF assms])

theorem accept_hands_over_witness:
  "\<exists>eng'. eng_accept (demo_world\<lparr>w_write := \<lambda>k fd d. (k, glen d, None)\<rparr>) demo_listen rr_next (\<lambda>_ _. 0) 1 demo_engine 3 =
      Ret (eng', None) \<and> ls_urgent (en_loops eng' 10) = [TRegister 1] \<and> en_loops eng' 11 = demo_start"
proof -
  note p = demo_pick
  show ?thesis
    using accept_hands_over[of demo_listen demo_engine 3 "en_k demo_engine" 9 "Some (SockaddrInet4 80 [127, 0, 0, 1])" "en_k demo_engine"
        rr_next "demo_rr\<lparr>nextLoopIndex := 1\<rparr>" 10 "demo_world\<lparr>w_write := \<lambda>k fd d. (k, glen d, None)\<rparr>" "\<lambda>_ _. 0" 1, OF _ _ _ p]
    by (auto simp: demo_listen_def demo_engine_def sockaddr_ok_def) (auto simp: demo_start_def)
qed



section \<open>All loops together\<close>



section \<open>Outgoing connections\<close>

text \<open>
  C39: when \<open>OnOpen\<close> of an outgoing connection asks for a shutdown, \<open>AddTCPConnector\<close> closes the descriptor and
  releases the connection, but leaves it in the table of the loop and in its count: the table has an entry for a
  connection that is not open.
\<close>

theorem connector_dangling_entry:
  assumes "tcpConnect N network addr (connectorOpts (loadOptions opts)) (en_k eng) = (k, nfd, na, sa, None)"
    and "pick (en_lb eng) na = Ret (lb, el)" "0 < en_writeBufferCap eng"
    and "h_OnOpen h c0 (ls_user (en_loops eng el)) = Finish (u, None, ActShutdown)"
    and "w_ctl W k EPOLL_CTL_ADD nfd readEvents = (k2, None)"
  shows "\<exists>eng'. AddTCPConnector W N h pick c0 network addr connIdx opts eng = Ret (eng', Some c0, Some ErrEngineShutdown) \<and>
    ls_connections (en_loops eng' el) nfd = Some c0 \<and> \<not> c_opened (ls_conn (en_loops eng' el) c0) \<and>
    ls_connCount (en_loops eng' el) = ls_connCount (en_loops eng el) + 1 \<and> \<not> table_ok (en_loops eng' el)"
  by (rule connector_dangles[where pick = pick, OF assms])

theorem connector_dangling_entry_witness:
  "\<exists>eng'. AddTCPConnector easy_world easy_net (demo_handler\<lparr>h_OnOpen := \<lambda>c u. Finish (u, None, ActShutdown)\<rparr>) rr_next 1 ''tcp'' ''x:80'' None []
      demo_engine = Ret (eng', Some 1, Some ErrEngineShutdown) \<and> ls_connections (en_loops eng' 10) 9 = Some 1 \<and>
    \<not> c_opened (ls_conn (en_loops eng' 10) 1)"
proof -
  note p = demo_pick
  have "\<exists>na sa. tcpConnect easy_net ''tcp'' ''x:80'' (connectorOpts (loadOptions [])) (en_k demo_engine) = (en_k demo_engine, 9, na, sa, None)"
    by (simp add: tcpConnect_def easy_net_def connectorOpts_def loadOptions_def o_zero_def GetTCPSockAddr_def determineTCPProto_def
        To4_def sysBlockSocket_def SetNoDelay_def syscall_err_def NewSyscallError_def)
  then obtain na sa where c: "tcpConnect easy_net ''tcp'' ''x:80'' (connectorOpts (loadOptions [])) (en_k demo_engine) = (en_k demo_engine, 9, na, sa, None)"
    by blast
  have "0 < en_writeBufferCap demo_engine" by (simp add: demo_engine_def)
  moreover have "h_OnOpen (demo_handler\<lparr>h_OnOpen := \<lambda>c u. Finish (u, None, ActShutdown)\<rparr>) 1 (ls_user (en_loops demo_engine 10)) =
      Finish (ls_user (en_loops demo_engine 10), None, ActShutdown)" by simp
  moreover have "w_ctl easy_world (en_k demo_engine) EPOLL_CTL_ADD 9 readEvents = (en_k demo_engine, None)" by (simp add: easy_world_def)
  ultimately show ?thesis using connector_dangling_entry[where pick = rr_next and connIdx = None, OF c p] by blast
qed

section \<open>The main reactor\<close>






end
