(* ===== verification/EpollEvent.thy ===== *)
theory EpollEvent
  imports Prelude
begin

text \<open>
  The memory layout of \<open>epollevent\<close>, which the optimized epoll poller shares with the kernel. Each architecture has its
  own declaration (\<open>internal/netpoll/defs_linux_*.go\<close>); the poller writes the address of an attachment into the field
  \<open>data\<close> through an unsafe pointer (\<open>AddRead\<close> and its variants in \<open>epoll_optimized_poller.go\<close>), the kernel copies the
  eight bytes of that field, and \<open>Polling\<close> reads an address back out of the array the kernel has filled.

  The model computes offsets and sizes by Go's layout rules, so that the theorem \<open>event_comes_back\<close> is about the
  declarations: with any of them the address that comes back is the one that was registered.
\<close>

section \<open>Types and layouts\<close>

datatype gotype = GUint32 | GUint64 | GBytes nat

type_synonym gostruct = "(string \<times> gotype) list"

text \<open>The size of a word of the machine, the byte order, and the declaration of \<open>epollevent\<close>.\<close>

record arch =
  ar_word :: nat
  ar_le :: bool
  ar_event :: gostruct

fun go_size :: "gotype \<Rightarrow> nat" where
  "go_size GUint32 = 4"
| "go_size GUint64 = 8"
| "go_size (GBytes n) = n"

text \<open>On 32-bit machines Go aligns 64-bit integers to 4 bytes.\<close>

fun go_align :: "nat \<Rightarrow> gotype \<Rightarrow> nat" where
  "go_align w GUint32 = 4"
| "go_align w GUint64 = w"
| "go_align w (GBytes n) = 1"

definition align_up :: "nat \<Rightarrow> nat \<Rightarrow> nat" where
  "align_up a n = (n + a - 1) div a * a"

text \<open>The offset of a field of a structure that starts at \<open>at\<close>; \<open>None\<close> when there is no such field.\<close>

fun field_offset :: "nat \<Rightarrow> string \<Rightarrow> nat \<Rightarrow> gostruct \<Rightarrow> nat option" where
  "field_offset w f at [] = None"
| "field_offset w f at ((g, t) # fs) =
     (let o' = align_up (go_align w t) at in if f = g then Some o' else field_offset w f (o' + go_size t) fs)"

fun struct_end :: "nat \<Rightarrow> nat \<Rightarrow> gostruct \<Rightarrow> nat" where
  "struct_end w at [] = at"
| "struct_end w at ((g, t) # fs) = struct_end w (align_up (go_align w t) at + go_size t) fs"

definition struct_size :: "nat \<Rightarrow> gostruct \<Rightarrow> nat" where
  "struct_size w s = align_up (Max (insert 1 (go_align w ` snd ` set s))) (struct_end w 0 s)"

section \<open>The declarations\<close>

definition epollevent_386 :: gostruct where
  "epollevent_386 = [(''events'', GUint32), (''data'', GBytes 8)]"

definition epollevent_amd64 :: gostruct where
  "epollevent_amd64 = [(''events'', GUint32), (''data'', GBytes 8)]"

definition epollevent_arm :: gostruct where
  "epollevent_arm = [(''events'', GUint32), (''_pad'', GUint32), (''data'', GBytes 8)]"

definition epollevent_arm64 :: gostruct where
  "epollevent_arm64 = [(''events'', GUint32), (''_pad'', GUint32), (''data'', GBytes 8)]"

definition epollevent_mips64x :: gostruct where
  "epollevent_mips64x = [(''events'', GUint32), (''pad_cgo_0'', GBytes 4), (''data'', GBytes 8)]"

definition epollevent_mipsx :: gostruct where
  "epollevent_mipsx = [(''events'', GUint32), (''pad_cgo_0'', GBytes 4), (''data'', GUint64)]"

definition epollevent_ppc64 :: gostruct where
  "epollevent_ppc64 = [(''events'', GUint32), (''pad_cgo_0'', GBytes 4), (''data'', GBytes 8)]"

definition epollevent_ppc64le :: gostruct where
  "epollevent_ppc64le = [(''events'', GUint32), (''pad_cgo_0'', GBytes 4), (''data'', GBytes 8)]"

definition epollevent_riscv64 :: gostruct where
  "epollevent_riscv64 = [(''events'', GUint32), (''pad_cgo_0'', GBytes 4), (''data'', GBytes 8)]"

definition epollevent_s390x :: gostruct where
  "epollevent_s390x = [(''events'', GUint32), (''pad_cgo_0'', GBytes 4), (''data'', GBytes 8)]"

text \<open>The machines, with both byte orders where a declaration serves both. The flag marks the x86 family.\<close>

definition arch_of :: "nat \<Rightarrow> bool \<Rightarrow> gostruct \<Rightarrow> arch" where
  "arch_of w le s = \<lparr>ar_word = w, ar_le = le, ar_event = s\<rparr>"

definition arches :: "(bool \<times> arch) list" where
  "arches =
     [(True, arch_of 4 True epollevent_386), (True, arch_of 8 True epollevent_amd64),
      (False, arch_of 4 True epollevent_arm), (False, arch_of 8 True epollevent_arm64),
      (False, arch_of 8 True epollevent_mips64x), (False, arch_of 8 False epollevent_mips64x),
      (False, arch_of 4 True epollevent_mipsx), (False, arch_of 4 False epollevent_mipsx),
      (False, arch_of 8 False epollevent_ppc64), (False, arch_of 8 True epollevent_ppc64le),
      (False, arch_of 8 True epollevent_riscv64), (False, arch_of 8 False epollevent_s390x)]"

section \<open>Memory\<close>

definition to_bytes :: "bool \<Rightarrow> nat \<Rightarrow> nat \<Rightarrow> byte list" where
  "to_bytes le n v = (let bs = map (\<lambda>i. word_of_nat (v div 256 ^ i)) [0..<n] in if le then bs else rev bs)"

definition of_bytes :: "bool \<Rightarrow> byte list \<Rightarrow> nat" where
  "of_bytes le bs = foldr (\<lambda>b a. unat b + 256 * a) (if le then bs else rev bs) 0"

definition peek :: "byte list \<Rightarrow> nat \<Rightarrow> nat \<Rightarrow> byte list" where
  "peek mem at n = take n (drop at mem)"

definition poke :: "byte list \<Rightarrow> nat \<Rightarrow> byte list \<Rightarrow> byte list" where
  "poke mem at bs = take at mem @ bs @ drop (at + length bs) mem"

definition off :: "arch \<Rightarrow> string \<Rightarrow> nat" where
  "off A f = the (field_offset (ar_word A) f 0 (ar_event A))"

definition ev_bytes :: "arch \<Rightarrow> nat" where
  "ev_bytes A = struct_size (ar_word A) (ar_event A)"

text \<open>
  What \<open>AddRead\<close> and the others put into memory: a zero structure, the events, and the address of the attachment,
  which is a machine word, at the start of \<open>data\<close>.
\<close>

definition ev_store :: "arch \<Rightarrow> nat \<Rightarrow> nat \<Rightarrow> byte list" where
  "ev_store A events pa =
     (let mem = replicate (ev_bytes A) 0;
          mem = poke mem (off A ''events'') (to_bytes (ar_le A) 4 events)
      in poke mem (off A ''data'') (to_bytes (ar_le A) (ar_word A) pa))"

text \<open>\<open>ev := &el.events[i]\<close> in \<open>Polling\<close>, with its events and the address in \<open>data\<close>.\<close>

definition ev_load :: "arch \<Rightarrow> byte list \<Rightarrow> nat \<Rightarrow> nat \<times> nat" where
  "ev_load A mem i =
     (let ev = drop (i * ev_bytes A) mem
      in (of_bytes (ar_le A) (peek ev (off A ''events'') 4), of_bytes (ar_le A) (peek ev (off A ''data'') (ar_word A))))"

section \<open>The kernel\<close>

text \<open>
  The interface of the kernel: \<open>struct epoll_event\<close> has 32 bits of events and 64 bits of data, which it does not
  interpret. The data is at \<open>koff\<close>, 4 on x86, where the structure is packed or 64-bit integers are aligned to 4
  bytes, and 8 elsewhere; the structure ends with the data.
\<close>

definition epoll_abi :: "bool \<Rightarrow> nat \<Rightarrow> bool" where
  "epoll_abi x86 koff \<longleftrightarrow> koff = (if x86 then 4 else 8)"

text \<open>The structure the kernel reports for a registered one: new events, any padding, and the data it was given.\<close>

definition kernel_event :: "bool \<Rightarrow> nat \<Rightarrow> nat \<Rightarrow> byte list \<Rightarrow> byte list \<Rightarrow> byte list" where
  "kernel_event le koff events pad registered =
     to_bytes le 4 events @ take (koff - 4) (pad @ replicate koff 0) @ peek registered koff 8"

section \<open>Round trips\<close>

lemma length_to_bytes [simp]: "length (to_bytes le n v) = n"
  by (simp add: to_bytes_def Let_def)

lemma bytes_roundtrip_le: "v < 256 ^ n \<Longrightarrow> foldr (\<lambda>(b :: byte) a. unat b + 256 * a) (map (\<lambda>i. word_of_nat (v div 256 ^ i)) [0..<n]) 0 = v"
proof (induction n arbitrary: v)
  case (Suc n)
  have "map (\<lambda>i. word_of_nat (v div 256 ^ i) :: byte) [0..<Suc n] =
      word_of_nat v # map (\<lambda>i. word_of_nat (v div 256 div 256 ^ i)) [0..<n]"
    by (simp add: upt_conv_Cons map_Suc_upt[symmetric] div_mult2_eq del: upt_Suc)
  moreover have "v div 256 < 256 ^ n" using Suc.prems by (simp add: less_mult_imp_div_less mult.commute)
  moreover have "unat (word_of_nat v :: byte) = v mod 256" by (simp add: unat_of_nat)
  ultimately show ?case using Suc.IH[of "v div 256"] by simp
qed simp

lemma bytes_roundtrip [simp]: "v < 256 ^ n \<Longrightarrow> of_bytes le (to_bytes le n v) = v"
  using bytes_roundtrip_le[of v n] by (auto simp: of_bytes_def to_bytes_def Let_def)

text \<open>Every declaration puts the events first and the data where the kernel has it, in a structure of the kernel's size.\<close>

lemma arch_layout:
  assumes "(x86, A) \<in> set arches" "epoll_abi x86 koff"
  shows "off A ''events'' = 0 \<and> off A ''data'' = koff \<and> ev_bytes A = koff + 8 \<and> ar_word A \<le> 8 \<and> 4 \<le> koff"
  using assms
  by (auto simp: arches_def arch_of_def epoll_abi_def off_def ev_bytes_def struct_size_def align_up_def Let_def
      epollevent_386_def epollevent_amd64_def epollevent_arm_def epollevent_arm64_def epollevent_mips64x_def
      epollevent_mipsx_def epollevent_ppc64_def epollevent_ppc64le_def epollevent_riscv64_def epollevent_s390x_def)

lemma length_ev_store:
  assumes "(x86, A) \<in> set arches" "epoll_abi x86 koff"
  shows "length (ev_store A events pa) = koff + 8"
  using arch_layout[OF assms] by (auto simp: ev_store_def poke_def Let_def)

lemma ev_store_data:
  assumes "(x86, A) \<in> set arches" "epoll_abi x86 koff"
  shows "take (ar_word A) (peek (ev_store A events pa) koff 8) = to_bytes (ar_le A) (ar_word A) pa"
  using arch_layout[OF assms] by (auto simp: ev_store_def poke_def peek_def Let_def)

lemma drop_concat_chunks: "\<forall>x\<in>set xs. length x = n \<Longrightarrow> drop (i * n) (concat xs) = concat (drop i xs)"
proof (induction xs arbitrary: i)
  case (Cons x xs)
  then show ?case by (cases i) simp_all
qed simp

lemma event_comes_back:
  assumes A: "(x86, A) \<in> set arches" and abi: "epoll_abi x86 koff" and i: "i < length evs"
    and ev: "evs ! i = (events, pad, msk, pa)" "events < 2 ^ 32" "pa < 256 ^ ar_word A"
  shows "ev_load A (concat (map (\<lambda>(e, pad, m, p). kernel_event (ar_le A) koff e pad (ev_store A m p)) evs)) i = (events, pa)"
proof -
  let ?k = "\<lambda>(e, pad, m, p). kernel_event (ar_le A) koff e pad (ev_store A m p)"
  note L = arch_layout[OF A abi]
  have len: "length (?k x) = ev_bytes A" for x
    using L length_ev_store[OF A abi] by (cases x) (auto simp: kernel_event_def peek_def)
  have "drop (i * ev_bytes A) (concat (map ?k evs)) = concat (map ?k (drop i evs))"
    using drop_concat_chunks[of "map ?k evs" "ev_bytes A" i] len by (auto simp: drop_map)
  also have "\<dots> = ?k (events, pad, msk, pa) @ concat (map ?k (drop (Suc i) evs))"
    using i ev(1) by (simp add: Cons_nth_drop_Suc[symmetric])
  finally obtain rest where d: "drop (i * ev_bytes A) (concat (map ?k evs)) =
      kernel_event (ar_le A) koff events pad (ev_store A msk pa) @ rest" by simp
  have "peek (kernel_event (ar_le A) koff events pad (ev_store A msk pa) @ rest) 0 4 = to_bytes (ar_le A) 4 events"
    by (simp add: peek_def kernel_event_def)
  moreover have "peek (kernel_event (ar_le A) koff events pad (ev_store A msk pa) @ rest) koff (ar_word A) =
      take (ar_word A) (peek (ev_store A msk pa) koff 8)"
    using L length_ev_store[OF A abi] by (auto simp: peek_def kernel_event_def)
  ultimately show ?thesis using d L ev(2,3) ev_store_data[OF A abi] by (simp add: ev_load_def Let_def)
qed

end
