(* ===== verification/VariantProperties.thy ===== *)
theory VariantProperties
  imports Reactors EpollEvent
begin

text \<open>
  The properties of the pollers other than the default one of Linux: \<open>kqueue\<close>
  (\<open>src/internal/netpoll/kqueue_default_poller.go\<close>, \<open>src/reactor_default_bsd.go\<close>) and the two built with the tag
  \<open>poll_opt\<close>. The small kernel of \<open>LoopProperties\<close> gets a table of filters and a \<open>kevent\<close> on which the hypotheses hold.
\<close>

section \<open>A small kernel with kevent\<close>

type_synonym kdemo_k = "demo_k \<times> kinterest"

definition kd_lift :: "kdemo_k \<Rightarrow> demo_k \<times> 'a \<Rightarrow> kdemo_k \<times> 'a" where
  "kd_lift k r = ((fst r, snd k), snd r)"

definition kd_world :: "kdemo_k world" where
  "kd_world = \<lparr>w_env = (\<lambda>_. (\<lambda>_ _. 0, first_ring)), w_read = (\<lambda>k fd len. kd_lift k (dk_read (fst k) fd len)),
     w_write = (\<lambda>k fd d. kd_lift k (dk_write (fst k) fd d)), w_writev = (\<lambda>k fd iov. kd_lift k (dk_write (fst k) fd (concat iov))),
     w_close = (\<lambda>k fd. (((fst k)\<lparr>dk_open := (dk_open (fst k))(fd := False)\<rparr>, (snd k)(fd := \<lambda>_. False)), None)),
     w_ctl = (\<lambda>k op' fd ev. (k, Some ENOSYS)),
     w_send = (\<lambda>k fd d. (k, None)), w_sendto = (\<lambda>k fd d sa. (k, None)),
     w_recvfrom = (\<lambda>k fd len. (k, -1, [], None, Some EAGAIN)), w_ifname = (\<lambda>_. None)\<rparr>"

fun kd_changes :: "kinterest \<Rightarrow> kevent list \<Rightarrow> kinterest \<times> errno option" where
  "kd_changes r [] = (r, None)"
| "kd_changes r (ch # chs) = (if kq_missing r ch then (r, Some ENOENT) else kd_changes (kq_change r ch) chs)"

text \<open>With \<open>full\<close> the kernel has no memory for the user event.\<close>

definition kd_kevent :: "bool \<Rightarrow> kdemo_k kevent_call" where
  "kd_kevent full k chs =
     (if full \<and> chs = kq_note then (k, Some (OtherErrno 12)) else case kd_changes (snd k) chs of (r, e) \<Rightarrow> ((fst k, r), e))"

definition kd_full :: "kdemo_k bsd world" where
  "kd_full = bsd_world kd_world (kd_kevent True)"

text \<open>A listener to which nobody connects.\<close>

definition quiet_listen :: "'k listen" where
  "quiet_listen = \<lparr>a_accept = (\<lambda>k fd. (k, -1, None, Some EAGAIN)), a_nonblock = (\<lambda>k fd. (k, None)), a_keepalive = (\<lambda>k fd s. (k, None))\<rparr>"

lemma kd_sel [simp]:
  "w_read kd_world k fd len = kd_lift k (dk_read (fst k) fd len)" "w_write kd_world k fd d = kd_lift k (dk_write (fst k) fd d)"
  "w_writev kd_world k fd iov = kd_lift k (dk_write (fst k) fd (concat iov))"
  "w_close kd_world k fd = (((fst k)\<lparr>dk_open := (dk_open (fst k))(fd := False)\<rparr>, (snd k)(fd := \<lambda>_. False)), None)"
  "w_ctl kd_world k op' fd ev = (k, Some ENOSYS)" "w_env kd_world i = (\<lambda>_ _. 0, first_ring)"
  by (simp_all add: kd_world_def)

lemma kd_lift_sel [simp]: "fst (fst (kd_lift k r)) = fst r" "snd (fst (kd_lift k r)) = snd k" "snd (kd_lift k r) = snd r"
  by (simp_all add: kd_lift_def)


lemma kd_kernel_ok: "kernel_ok kd_world (\<lambda>k. dk_sent (fst k))"
  by (auto simp: kernel_ok_def sends_def kd_lift_def dk_write_def dk_read_def Let_def min_def)


lemma kd_kevent_ok: "kevent_ok (kd_kevent full) (\<lambda>k. dk_sent (fst k)) (\<lambda>k. dk_open (fst k))"
  by (auto simp: kevent_ok_def kd_kevent_def split: prod.split)





text \<open>The states of \<open>LoopProperties\<close> on this kernel: without a connection, and with one on descriptor 7.\<close>

definition kd_start :: "(kdemo_k bsd, nat) lstate" where
  "kd_start = \<lparr>ls_k = \<lparr>bd_k = (ls_k demo_start, \<lambda>fd filt. fd = 7 \<and> filt = EVFILT_READ), bd_noteOpen = True, bd_notes = []\<rparr>,
     ls_user = 0, ls_tick = 0, ls_conn = (\<lambda>c. newTCPConn 64 7 None None None), ls_connections = Map.empty,
     ls_udpSockets = Map.empty, ls_connCount = 0, ls_lnfd = 3, ls_lnaddr = None, ls_bufLen = 64, ls_efd = noteFd,
     ls_wakeup = False, ls_urgent = [], ls_async = []\<rparr>"

definition kd_open :: "(kdemo_k bsd, nat) lstate" where
  "kd_open = kd_start\<lparr>ls_conn := (ls_conn kd_start)(0 := (newTCPConn 64 7 None None None)\<lparr>c_opened := True\<rparr>),
     ls_connections := [7 \<mapsto> 0], ls_connCount := 1\<rparr>"


lemma kd_conn_open: "conn_open kd_open 0 []"
  using eb_New_rep[of 64] by (auto simp: conn_open_def out_rep_def kd_open_def newTCPConn_def is_udp_def)

section \<open>The loop on a kernel with kevent\<close>





lemma el_OnClose_traffic [simp]: "el_OnClose (h\<lparr>h_OnTraffic := traffic\<rparr>) = el_OnClose h"
  by (intro ext) (simp add: el_OnClose_def)

text \<open>
  an event with \<open>EV_EOF\<close> or \<open>EV_ERROR\<close> closes its connection at once, whatever its filter: \<open>OnClose\<close> gets
  \<open>ECONNRESET\<close>, also when the peer has only shut down its side, and \<open>OnTraffic\<close> is not called, so that bytes the
  kernel still holds for the connection are lost.
\<close>

theorem kqueue_eof_closes:
  assumes "kernel_ok W peer" "conn_open st c xs" "ls_connections st fd = Some c"
    and "EV_EOF \<in> set (ke_flags ev) \<or> EV_ERROR \<in> set (ke_flags ev)"
  shows "\<exists>st' e. (\<forall>traffic. kq_onEvent W (h\<lparr>h_OnTraffic := traffic\<rparr>) st fd (kq_evFilter ev) = Ret (st', e)) \<and>
    \<not> c_opened (ls_conn st' c) \<and> ls_user st' = fst (h_OnClose h c (Some (Errno ECONNRESET)) (ls_user st))"
proof -
  have filt: "kq_evFilter ev = EVFilterSock" using assms(4) by (auto simp: kq_evFilter_def)
  have o: "out_rep st c xs" "c_opened (ls_conn st c)" "\<not> is_udp (ls_conn st c)" using assms(2) by (auto simp: conn_open_def)
  from el_closeConn_spec[OF assms(1) o, of h "Some (Errno ECONNRESET)"] obtain st' e where
    r: "el_closeConn W h st c (Some (Errno ECONNRESET)) = Ret (st', e)" "\<not> c_opened (ls_conn st' c)"
      "ls_user st' = fst (h_OnClose h c (Some (Errno ECONNRESET)) (ls_user st))" by (auto simp: closes_def Let_def)
  moreover have "kq_onEvent W (h\<lparr>h_OnTraffic := traffic\<rparr>) st fd (kq_evFilter ev) = el_closeConn W h st c (Some (Errno ECONNRESET))" for traffic
    using assms(3) o(3) by (simp add: filt kq_onEvent_def kq_handleEvents_def el_closeConn_def)
  ultimately show ?thesis by auto
qed

theorem kqueue_eof_closes_witness:
  "\<exists>st' e. kq_onEvent (bsd_world kd_world (kd_kevent False)) demo_handler kd_open 7 EVFilterSock = Ret (st', e) \<and>
    \<not> c_opened (ls_conn st' 0) \<and> ls_user st' = 0"
proof -
  have tab: "ls_connections kd_open 7 = Some 0" by (simp add: kd_open_def)
  have ev: "EV_EOF \<in> set (ke_flags (kevent_for 7 EVFILT_READ [EV_EOF])) \<or> EV_ERROR \<in> set (ke_flags (kevent_for 7 EVFILT_READ [EV_EOF]))"
    by (simp add: kevent_for_def)
  have f: "kq_evFilter (kevent_for 7 EVFILT_READ [EV_EOF]) = EVFilterSock" by (simp add: kq_evFilter_def kevent_for_def)
  have u: "fst (h_OnClose demo_handler 0 (Some (Errno ECONNRESET)) (ls_user kd_open)) = 0" by (simp add: demo_handler_def kd_open_def kd_start_def)
  from kqueue_eof_closes[OF bsd_kernel_ok[OF kd_kernel_ok kd_kevent_ok] kd_conn_open tab ev, of False demo_handler] obtain st' e where
    "kq_onEvent (bsd_world kd_world (kd_kevent False)) (demo_handler\<lparr>h_OnTraffic := h_OnTraffic demo_handler\<rparr>) kd_open 7 EVFilterSock = Ret (st', e)"
    "\<not> c_opened (ls_conn st' 0)" "ls_user st' = 0" unfolding f u by blast
  then show ?thesis by auto
qed

section \<open>Waking the poller up\<close>

text \<open>
  C37: with the kqueue poller, tasks that were left over when the chores could not trigger the user event are not run
  again before a socket reports an event: every wait that finds no event is followed by one without a timeout, and since
  the wake-up flag is set, no later trigger wakes the poller up. The default epoll poller runs its chores after such a wait as well.
\<close>

theorem kqueue_tasks_stall:
  assumes "blk_round (kq_poller W h (kq_onEvent W h)) bs0 st0 out = Ret (Inl (bs, st))" "bs_chores bs" "0 < fst out"
    and "\<forall>out\<in>set outs. fst out = 0"
  shows "(ls_async st \<noteq> [] \<or> ls_urgent st \<noteq> []) \<and>
    (\<exists>bs'. blk_rounds (kq_poller W h (kq_onEvent W h)) bs st outs = Ret (Inl (bs', st)) \<and> (outs \<noteq> [] \<longrightarrow> bs_block bs')) \<and>
    pl_Trigger W st t = (st\<lparr>ls_async := ls_async st @ [t]\<rparr>, None)"
  by (rule kq_retry_stalls[OF assms])

text \<open>129 tasks that do nothing: one is left when the chores end.\<close>

lemma idle_tasks:
  assumes "\<And>ts. run_task W h (st\<lparr>ls_async := ts\<rparr>) t = Ret (st\<lparr>ls_async := ts\<rparr>, None)"
  shows "pl_asyncLoop W h n (st\<lparr>ls_async := replicate (n + m) t\<rparr>) = Ret (st\<lparr>ls_async := replicate m t\<rparr>, None)"
  using assms by (induction n) simp_all

theorem kqueue_tasks_stall_witness:
  "\<exists>bs st bs'. blk_round (kq_poller kd_full demo_handler (kq_onEvent kd_full demo_handler))
        \<lparr>bs_events = kq_newEventList 64, bs_chores = False, bs_block = True\<rparr> (kd_start\<lparr>ls_async := replicate 129 (TWake 2 None)\<rparr>)
        (1, None, [kevent_for 0 EVFILT_USER []]) = Ret (Inl (bs, st)) \<and> ls_async st = [TWake 2 None] \<and>
      blk_rounds (kq_poller kd_full demo_handler (kq_onEvent kd_full demo_handler)) bs st [(0, None, []), (0, None, [])] = Ret (Inl (bs', st)) \<and>
      bs_block bs'"
proof -
  let ?t = "TWake 2 None :: nat task"
  let ?bs = "\<lparr>bs_events = kq_newEventList 64, bs_chores = False, bs_block = True\<rparr>"
  let ?st = "kd_start\<lparr>ls_async := replicate 129 ?t\<rparr>"
  have a: "pl_asyncLoop kd_full demo_handler 128 (kd_start\<lparr>ls_async := replicate (128 + 1) ?t\<rparr>) = Ret (kd_start\<lparr>ls_async := replicate 1 ?t\<rparr>, None)"
    by (rule idle_tasks) (simp add: el_wake_def kd_start_def run_callback_def)
  have sel: "ls_urgent kd_start = []" "ls_efd kd_start = noteFd" "bd_noteOpen (ls_k kd_start)" by (simp_all add: kd_start_def)
  have b: "go_loop (pl_urgentBody kd_full demo_handler) ?st = Ret (?st, None)"
    using sel by (subst go_loop_unfold) (simp add: pl_urgentBody_def)
  have c: "pl_wakeup kd_full (kd_start\<lparr>ls_async := [?t], ls_wakeup := False\<rparr>) =
      (kd_start\<lparr>ls_async := [?t], ls_wakeup := True\<rparr>, Some (SyscallError ''write'' (OtherErrno 12)))"
    using sel by (simp add: pl_wakeup_def kd_full_def bsd_note_def kd_kevent_def NewSyscallError_def)
  have "run_chores 128 kd_full demo_handler ?st = Ret (kd_start\<lparr>ls_async := [?t], ls_wakeup := True\<rparr>, True, None)"
    using a b c by (simp add: run_chores_def Let_def)
  then have r: "blk_round (kq_poller kd_full demo_handler (kq_onEvent kd_full demo_handler)) ?bs ?st (1, None, [kevent_for 0 EVFILT_USER []]) =
      Ret (Inl (\<lparr>bs_events = kq_resize 1 ((kq_newEventList 64)\<lparr>kl_events := go_copy (kl_events (kq_newEventList 64)) [kevent_for 0 EVFILT_USER []]\<rparr>),
        bs_chores = True, bs_block = False\<rparr>, kd_start\<lparr>ls_async := [?t], ls_wakeup := True\<rparr>))"
    by (simp add: blk_round_def kq_poller_def kq_MaxAsyncTasksAtOneTime_def kq_newEventList_def go_copy_def go_index_def kevent_for_def)
  from kqueue_tasks_stall[OF r, of "[(0, None, []), (0, None, [])]" ?t] r show ?thesis by auto
qed

section \<open>The optimized pollers\<close>




text \<open>
  C38: after an event that closes a connection, a second event of that connection in the same batch, as \<open>kevent\<close> reports
  one per filter, makes the optimized kqueue poller call the nil callback of a cleared attachment and panic; the default
  one finds no connection and goes on.
\<close>

theorem optimized_kqueue_panics:
  assumes "kernel_ok W peer" "conn_open st c xs" "ls_connections st fd = Some c" "c_fd (ls_conn st c) = fd" "fd \<noteq> 0"
    and "snd (h_OnClose h c (Some (Errno ECONNRESET)) (ls_user st)) = ActNone"
    and "e1 = (ko_event (fd, PaConn c) EVFILT_READ EV_EOF)" "e2 = (ko_event (fd, PaConn c) EVFILT_WRITE EV_EOF)"
  shows "ko_dispatch (ko_run W A h network keepAlive cap mem new) [e1, e2] 2 0 st ch = Panic NilDereference \<and>
    (\<exists>st'. kq_dispatch (kq_onEvent W h) [e1, e2] 2 0 st ch = Ret (Inl (st', ch)) \<and> ls_connections st' fd = None)"
proof -
  have ev: "ke_ident e1 = fd" "ke_ident e2 = fd" "ke_udata e1 = Some (PaConn c)" "ke_udata e2 = Some (PaConn c)" "EV_EOF \<in> set (ke_flags e1)"
    using assms(7,8) by (simp_all add: ko_event_def kevent_for_def)
  show ?thesis
    unfolding ko_run_def using ko_second_event_panics[OF assms(1-3,5,6) refl ev assms(4)] by blast
qed

theorem optimized_kqueue_panics_witness:
  "ko_dispatch (ko_run (bsd_world kd_world (kd_kevent False)) quiet_listen demo_handler ''tcp'' 0 64 (\<lambda>_ _. 0) (\<lambda>_. 1))
     [ko_event (7, PaConn 0) EVFILT_READ EV_EOF, ko_event (7, PaConn 0) EVFILT_WRITE EV_EOF] 2 0 kd_open False = Panic NilDereference"
proof -
  have sel: "ls_connections kd_open 7 = Some 0" "c_fd (ls_conn kd_open 0) = 7" "(7 :: int) \<noteq> 0"
    "snd (h_OnClose demo_handler 0 (Some (Errno ECONNRESET)) (ls_user kd_open)) = ActNone"
    by (simp_all add: kd_open_def newTCPConn_def demo_handler_def)
  from optimized_kqueue_panics[OF bsd_kernel_ok[OF kd_kernel_ok kd_kevent_ok] kd_conn_open sel refl refl] show ?thesis by blast
qed

text \<open>
  none of the pollers that wait without a timeout forgets a task: over any number of rounds, whenever tasks are
  queued when a round ends, the wake-up flag is set, and the event list has one of its sizes and memory of that size.
\<close>

theorem variants_keep_tasks:
  assumes "ls_async st \<noteq> [] \<or> ls_urgent st \<noteq> [] \<longrightarrow> ls_wakeup st"
  shows "kq_Polling W h (kq_runEvent W A h network keepAlive cap mem new) st kouts = Ret (Inl (bs, st1)) \<Longrightarrow>
      (ls_async st1 \<noteq> [] \<or> ls_urgent st1 \<noteq> [] \<longrightarrow> ls_wakeup st1) \<and> kqlist_ok (bs_events bs)"
    and "eo_Polling W h (eo_run W A h network keepAlive cap mem new) st eouts = Ret (Inl (bs', st2)) \<Longrightarrow>
      (ls_async st2 \<noteq> [] \<or> ls_urgent st2 \<noteq> [] \<longrightarrow> ls_wakeup st2) \<and> eolist_ok (bs_events bs')"
    and "ko_Polling W h (ko_run W A h network keepAlive cap mem new) st oouts = Ret (Inl (bs'', st3)) \<Longrightarrow>
      (ls_async st3 \<noteq> [] \<or> ls_urgent st3 \<noteq> [] \<longrightarrow> ls_wakeup st3) \<and> kqlist_ok (bs_events bs'')"
proof -
  have st: "wake_ok st" using assms by (simp add: wake_ok_def)
  have l: "kqlist_ok (kq_newEventList kq_InitPollEventsCap)" "eolist_ok (eo_newEventList InitPollEventsCap)"
    by (simp_all add: kqlist_ok_def kq_newEventList_def kq_InitPollEventsCap_def eolist_ok_def eo_newEventList_def InitPollEventsCap_def)
  show "kq_Polling W h (kq_runEvent W A h network keepAlive cap mem new) st kouts = Ret (Inl (bs, st1)) \<Longrightarrow>
      (ls_async st1 \<noteq> [] \<or> ls_urgent st1 \<noteq> [] \<longrightarrow> ls_wakeup st1) \<and> kqlist_ok (bs_events bs)"
    using kqrun.rounds_wake[OF _ st] kqrun.rounds_events l(1) unfolding kq_Polling_def wake_ok_def by fastforce
  show "eo_Polling W h (eo_run W A h network keepAlive cap mem new) st eouts = Ret (Inl (bs', st2)) \<Longrightarrow>
      (ls_async st2 \<noteq> [] \<or> ls_urgent st2 \<noteq> [] \<longrightarrow> ls_wakeup st2) \<and> eolist_ok (bs_events bs')"
    using eo.rounds_wake[OF _ st] eo.rounds_events l(2) unfolding eo_Polling_def wake_ok_def by fastforce
  show "ko_Polling W h (ko_run W A h network keepAlive cap mem new) st oouts = Ret (Inl (bs'', st3)) \<Longrightarrow>
      (ls_async st3 \<noteq> [] \<or> ls_urgent st3 \<noteq> [] \<longrightarrow> ls_wakeup st3) \<and> kqlist_ok (bs_events bs'')"
    using ko.rounds_wake[OF _ st] ko.rounds_events l(1) unfolding ko_Polling_def wake_ok_def by fastforce
qed

text \<open>
  when the event descriptor cannot be created, opening the optimized epoll poller panics instead of returning the
  error: \<open>Close\<close> reads the descriptor from an attachment that does not exist yet.
\<close>

theorem optimized_open_panics:
  assumes "o_create S k = (k1, fd, None)" "o_eventfd S k1 = (k2, efd, Some e)" "snd (n_close N k2 fd) = None"
  shows "eo_OpenPoller N S k = Panic NilDereference"
  by (rule eo_OpenPoller_panics[OF assms])

section \<open>The layout of events\<close>

text \<open>
  C22: the address the optimized epoll poller stores in an event comes back. On every architecture the repository
  declares \<open>epollevent\<close> for, event \<open>i\<close> of the array the kernel filled in has the reported events and the pointer that was
  registered, whatever else the kernel wrote: the declared structure has the layout of the kernel's.
\<close>

theorem epoll_event_roundtrip:
  assumes "(x86, A) \<in> set arches" "epoll_abi x86 koff" "i < length evs"
    and "evs ! i = (events, pad, msk, pa)" "events < 2 ^ 32" "pa < 256 ^ ar_word A"
  shows "ev_load A (concat (map (\<lambda>(e, pad, m, p). kernel_event (ar_le A) koff e pad (ev_store A m p)) evs)) i = (events, pa)"
  by (rule event_comes_back[OF assms])

theorem epoll_event_roundtrip_witness:
  "let A = arch_of 4 False epollevent_mipsx
   in ev_load A (concat (map (\<lambda>(e, pad, m, p). kernel_event (ar_le A) 8 e pad (ev_store A m p)) [(1, [], 3, 7), (16, [9], 1, 4000000000)])) 1 =
     (16, 4000000000)"
  unfolding Let_def
  by (rule epoll_event_roundtrip[of False]) (simp_all add: arches_def epoll_abi_def arch_of_def)

end
