(* ===== verification/ClientProperties.thy ===== *)
theory ClientProperties
  imports Client StartupProperties BufferProperties
begin

text \<open>
  The properties of the client (\<open>src/client.go\<close>), of duplicated descriptors (\<open>src/internal/netpoll/fd_unix.go\<close>), of the
  listen backlog (\<open>src/internal/socket/sock_linux.go\<close>) and of \<open>conn.ReadFrom\<close> (\<open>src/connection.go\<close>), each with an
  instance on one of the small kernels.
\<close>

section \<open>A kernel that knows which descriptors are closed on exec\<close>

text \<open>The open descriptors and those marked; \<open>old\<close> is a system without \<open>F_DUPFD_CLOEXEC\<close>.\<close>

type_synonym dup_k = "nat list \<times> int list"

definition dp_fds :: "dup_k \<Rightarrow> int set" where
  "dp_fds k = int ` set (fst k)"

definition dp_marked :: "dup_k \<Rightarrow> int \<Rightarrow> bool" where
  "dp_marked k fd \<longleftrightarrow> fd \<in> set (snd k)"

definition dp_next :: "dup_k \<Rightarrow> nat" where
  "dp_next k = Suc (foldr max (fst k) 0)"

definition demo_dup :: "bool \<Rightarrow> dup_k dupsys" where
  "demo_dup old =
     \<lparr>d_fcntl = (\<lambda>k fd. if old then (k, -1, Some EINVAL) else ((dp_next k # fst k, int (dp_next k) # snd k), int (dp_next k), None)),
      d_dup = (\<lambda>k fd. ((dp_next k # fst k, snd k), int (dp_next k), None)),
      d_cloexec = (\<lambda>k fd. (fst k, fd # snd k))\<rparr>"

lemma dp_next_new: "dp_next (xs, ys) \<notin> set xs"
proof -
  have "n \<in> set xs \<Longrightarrow> n \<le> foldr max xs (0::nat)" for n xs by (induction xs) auto
  then show ?thesis by (fastforce simp: dp_next_def)
qed

lemma demo_dup_sys: "dup_sys (demo_dup old) dp_fds dp_marked"
  using dp_next_new by (auto simp: dup_sys_def demo_dup_def dp_fds_def dp_marked_def)

text \<open>The state of a client's loop on the kernel of \<open>StartupProperties\<close>, and a connection of a type the client does not know.\<close>

definition net_loop :: "(net_k, nat) lstate" where
  "net_loop = lp_state (new_eventloop (net_start 20) 0 client_ln 0 \<lparr>po_fd = 3, po_efd = 4, po_logic = None\<rparr> 1024 0)"

definition odd_conn :: netconn where
  "odd_conn = \<lparr>nc_isSyscall = True, nc_rawErr = False, nc_controlErr = None, nc_fd = 2, nc_type = OtherConn,
     nc_local = UnixAddr [], nc_remote = UnixAddr []\<rparr>"

section \<open>Duplicating descriptors\<close>

text \<open>
  \<open>Dup\<close> returns a new descriptor that is closed on exec, or an error and no descriptor, also on systems on which
  the call it tries first is missing; once that has been seen it is not tried again.
\<close>

theorem dup_closed_on_exec:
  assumes "dup_sys D fds cx" "np_Dup D fast k fd = (fast', k', newFD, call, err)"
  shows "(if err = None then newFD \<notin> fds k \<and> fds k' = insert newFD (fds k) \<and> cx k' newFD else newFD = -1 \<and> fds k' = fds k) \<and>
    (fast' \<longrightarrow> fast)"
  by (rule Dup_cloexec[OF assms])

theorem dup_closed_on_exec_witness:
  "\<exists>k'. np_Dup (demo_dup True) True ([2, 1, 0], []) 2 = (False, k', 3, [], None) \<and> dp_marked k' 3 \<and> dp_fds k' = {0, 1, 2, 3}"
proof -
  obtain k' where r: "np_Dup (demo_dup True) True ([2, 1, 0], []) 2 = (False, k', 3, [], None)"
    by (simp add: np_Dup_def dupCloseOnExec_def dupCloseOnExecOld_def demo_dup_def dp_next_def)
  from dup_closed_on_exec[OF demo_dup_sys r] r show ?thesis by (auto simp: dp_fds_def)
qed

section \<open>The listen backlog\<close>

text \<open>
  the backlog of a listener is the positive number in the first line of the kernel's file, capped at the largest
  16-bit number; a file that cannot be opened, or has no line, gives 128.
\<close>

theorem backlog_read:
  assumes "0 < n" "n < 2 ^ 63"
  shows "maxListenerBacklog (Some (strconv_Itoa n @ [CHR 0x0A])) = min n 65535 \<and> maxListenerBacklog None = 128 \<and>
    maxListenerBacklog (Some (strconv_Itoa n)) = 128"
proof -
  have "CHR 0x0A \<notin> set (strconv_Itoa n)" using assms(1) nat_digits_chars[of "CHR 0x0A" "nat n"] by (auto simp: strconv_Itoa_def)
  then have "read_line (strconv_Itoa n) = None" by (simp add: read_line_def)
  with backlog_from_file[OF assms] show ?thesis by (simp add: maxListenerBacklog_def SOMAXCONN_def)
qed

theorem backlog_read_witness: "maxListenerBacklog (Some (strconv_Itoa 70000 @ [CHR 0x0A])) = 65535"
  using backlog_read[of 70000] by simp

section \<open>The client\<close>

text \<open>
  a client that was created without an error panics as soon as its loop polls: \<open>NewClient\<close> does not call
  \<open>InitLogic\<close> on the poller, so that \<open>Polling\<close> calls a nil function. When it reports an error no descriptor is left.
\<close>

theorem client_panics:
  fixes u :: 'u
  assumes "boot_sys N E fds" "accounts fds K k xs" "NewClient N E logErr u opts k = Ret (k', cli, err)"
    and "o_ReadBufferCap (loadOptions opts) \<le> 2 ^ 62" "o_WriteBufferCap (loadOptions opts) \<le> 2 ^ 62"
  shows "if err \<noteq> None then accounts fds K k' xs
    else \<exists>cli' el. cl_Start boot cli = Ret cli' \<and> cl_running cli' \<and> cl_loop cli' = Some el \<and>
      cl_polls W A h mem new cli' el outs = Panic NilDereference"
proof -
  have c: "case cl_loop cli of None \<Rightarrow> err \<noteq> None \<and> accounts fds K k' xs
    | Some el \<Rightarrow> err = None \<and> accounts fds K k' (po_fds (lp_poller el) @ xs) \<and> po_logic (lp_poller el) = None \<and>
         loop_start (lp_state el) \<and> ls_udpSockets (lp_state el) = Map.empty"
    using NewClient_accounts[OF assms(1,2,4,5), of logErr u] assms(3) by auto
  show ?thesis
  proof (cases "cl_loop cli")
    case (Some el)
    with c have "po_logic (lp_poller el) = None" "err = None" by auto
    with Some show ?thesis by (auto simp: cl_Start_def client_polls_panic)
  qed (use c in simp)
qed

theorem client_panics_witness:
  "\<exists>k' cli cli' el. NewClient demo_net demo_epoll None (0 :: nat) [] (net_start 20) = Ret (k', cli, None) \<and>
    cl_Start (\<lambda>u. (u, ActNone)) cli = Ret cli' \<and> cl_loop cli' = Some el \<and>
    cl_polls net_world \<lparr>a_accept = (\<lambda>k fd. (k, -1, None, Some EAGAIN)), a_nonblock = (\<lambda>k fd. (k, None)), a_keepalive = (\<lambda>k fd s. (k, None))\<rparr>
      net_handler (\<lambda>_ _. 0) (\<lambda>_. 0) cli' el [] = Panic NilDereference"
proof -
  have a: "accounts nk_fds {0, 1, 2} (net_start 20) []" by (simp add: accounts_def net_start_fds)
  obtain k' cli where r: "NewClient demo_net demo_epoll None (0 :: nat) [] (net_start 20) = Ret (k', cli, None)"
    by (simp add: NewClient_def demo_run_simps)
  have o: "o_ReadBufferCap (loadOptions []) \<le> 2 ^ 62" "o_WriteBufferCap (loadOptions []) \<le> 2 ^ 62"
    by (simp_all add: loadOptions_def o_zero_def)
  from client_panics[OF demo_boot_sys a r o, of "\<lambda>u. (u, ActNone)" net_world _ net_handler "\<lambda>_ _. 0" "\<lambda>_. 0" "[]"] r
  show ?thesis by (simp del: net_start_def) blast
qed

text \<open>
  C40: \<open>Enroll\<close> leaks. Once the descriptor of the given connection has been duplicated, the duplicate stays open when a
  later step fails: the original is closed and no connection is returned that could close the duplicate.
\<close>

theorem enroll_leaks:
  assumes "enroll_sys W N dup fds" "cl_Enroll W N dup addr_str mem c0 o' nc st = Ret (st', c, Some err)"
    and "nc_isSyscall nc" "\<not> nc_rawErr nc" "nc_controlErr nc = None" "dup (ls_k st) (nc_fd nc) = (k1, d, None)" "nc_fd nc \<in> fds (ls_k st)"
  shows "c = None \<and> d \<notin> fds (ls_k st) \<and> d \<in> fds (ls_k st') \<and> nc_fd nc \<notin> fds (ls_k st')"
proof -
  have "c = None" using Enroll_queues[of W N dup addr_str mem c0 o' nc st st' _ "Some err"] assms(2) by (cases c) auto
  with Enroll_descriptors[OF assms(1-6)] assms(7) show ?thesis by auto
qed

theorem enroll_leaks_witness:
  "\<exists>st'. cl_Enroll net_world demo_net (\<lambda>k fd. nk_new k) (\<lambda>_. []) (\<lambda>_ _. 0) 0 o_zero odd_conn net_loop =
      Ret (st', None, Some ErrUnsupportedProtocol) \<and> 3 \<in> nk_fds (ls_k st')"
proof -
  have S: "enroll_sys net_world demo_net (\<lambda>k fd. nk_new k) nk_fds"
    using demo_fds_sys nk_new_opens by (simp add: enroll_sys_def net_world_def)
  have k: "ls_k net_loop = net_start 20" by (simp add: net_loop_def new_eventloop_def)
  have d: "nk_new (ls_k net_loop) = ((net_start 20)\<lparr>nk_open := [3, 2, 1, 0]\<rparr>, 3, None)"
    by (simp add: k nk_new_def net_start_def nk_fresh_def)
  obtain st' where r: "cl_Enroll net_world demo_net (\<lambda>k fd. nk_new k) (\<lambda>_. []) (\<lambda>_ _. 0) 0 o_zero odd_conn net_loop =
      Ret (st', None, Some ErrUnsupportedProtocol)"
    using d by (simp add: cl_Enroll_def cl_enroll_def enroll_dup_def enroll_conn_def enroll_buffers_def odd_conn_def o_zero_def)
  have "3 \<in> nk_fds (ls_k st')"
    using enroll_leaks[OF S r _ _ _ d] net_start_fds by (simp add: odd_conn_def k)
  with r show ?thesis by blast
qed

section \<open>ReadFrom\<close>

text \<open>
  \<open>ReadFrom\<close> on a connection with nothing pending takes everything the reader has into the outbound buffer, but
  neither sends it nor asks the poller to watch for writability; the data of later calls of \<open>Write\<close> and \<open>Writev\<close> joins
  the queue, and the kernel sees none of it until \<open>Flush\<close> is called.
\<close>

theorem ReadFrom_never_sends:
  assumes "env_ok W" "reader_ok rd rem" "conn_open st c []" "c_out (ls_conn st c) = Some mb" "er_rb (eb_ring mb) = None"
    and "rem s \<noteq> []" "rb_r (snd (w_env W (ls_tick st))) = 0" "\<forall>op'\<in>set ops. op' \<noteq> OFlush"
    and "glen (rem s) + glen (concat (map out_data ops)) \<le> 2 ^ 62"
  shows "\<exists>st1 s1 st2. c_ReadFrom W rd s st c = Ret (st1, s1, glen (rem s), None) \<and> out_run W h c st1 ops = Ret st2 \<and>
    conn_open st2 c (rem s @ concat (map out_data ops)) \<and> ls_k st2 = ls_k st"
  by (rule ReadFrom_stalls[OF assms])

theorem ReadFrom_never_sends_witness:
  "\<exists>st1 s1 st2. c_ReadFrom demo_world list_reader [1, 2, 3] demo_open 0 = Ret (st1, s1, 3, None) \<and>
    out_run demo_world demo_handler 0 st1 [OWrite [4, 5]] = Ret st2 \<and> conn_open st2 0 [1, 2, 3, 4, 5] \<and> ls_k st2 = ls_k demo_open"
proof -
  obtain mb where mb: "eb_New 64 = Inr mb" "er_rb (eb_ring mb) = None" by (simp add: eb_New_def er_zero_def)
  have "c_out (ls_conn demo_open 0) = Some mb" using mb(1) by (simp add: demo_open_def newTCPConn_def)
  from ReadFrom_never_sends[OF demo_env_ok list_reader_ok demo_conn_open this mb(2), of "[1, 2, 3]" "[OWrite [4, 5]]" demo_handler]
  show ?thesis by (simp add: first_ring_def)
qed

end
