(* ===== verification/SystemCalls.thy ===== *)
theory SystemCalls
  imports Polling
begin

text \<open>
  The thin layers between the program and what surrounds it: the raw system calls of the optimized epoll poller
  (\<open>internal/netpoll/syscall_epoll_linux.go\<close> and its variants), \<open>writev\<close> and \<open>readv\<close> on BSD
  (\<open>internal/io/io_bsd.go\<close>), and the built-in event handler (\<open>gnet.go\<close>), whose methods do nothing.
\<close>

section \<open>Raw epoll calls\<close>

text \<open>Common errors are returned as preallocated values, which compare equal to the error itself.\<close>

definition errnoErr :: "errno \<Rightarrow> errno" where
  "errnoErr e = (case e of EAGAIN \<Rightarrow> EAGAIN | EINVAL \<Rightarrow> EINVAL | ENOENT \<Rightarrow> ENOENT | _ \<Rightarrow> e)"

text \<open>
  \<open>rw_wait\<close> is \<open>SYS_EPOLL_WAIT\<close>, or \<open>SYS_EPOLL_PWAIT\<close> on systems that lack it. The flag says that the runtime may
  preempt the call, the option is the array of events, \<open>None\<close> for the address of an unused word.
\<close>

record 'k rawepoll =
  rw_wait :: "'k \<Rightarrow> bool \<Rightarrow> int \<Rightarrow> (int \<times> 32 word) list option \<Rightarrow> int \<Rightarrow> int \<Rightarrow> 'k \<times> int \<times> errno option"
  rw_ctl :: "'k \<Rightarrow> int \<Rightarrow> ctlop \<Rightarrow> int \<Rightarrow> 32 word option \<Rightarrow> 'k \<times> errno option"

definition epollWait :: "'k rawepoll \<Rightarrow> 'k \<Rightarrow> int \<Rightarrow> (int \<times> 32 word) list \<Rightarrow> int \<Rightarrow> 'k \<times> int \<times> errno option" where
  "epollWait R k epfd events msec =
     (let ep = (if glen events > 0 then Some events else None)
      in case (if msec = 0 then rw_wait R k False epfd ep (glen events) 0 else rw_wait R k True epfd ep (glen events) msec) of
           (k, np, errno) \<Rightarrow>
             (case errno of Some e \<Rightarrow> (k, np, Some (errnoErr e)) | None \<Rightarrow> (k, np, None)))"

text \<open>
  RISC-V and ARM64 lack \<open>SYS_EPOLL_WAIT\<close>: there the call is \<open>SYS_EPOLL_PWAIT\<close>, with a null signal mask and its size.
\<close>

definition epollWait_pwait ::
  "('k \<Rightarrow> bool \<Rightarrow> int \<Rightarrow> (int \<times> 32 word) list option \<Rightarrow> int \<Rightarrow> int \<Rightarrow> int \<Rightarrow> int \<Rightarrow> 'k \<times> int \<times> errno option) \<Rightarrow>
   'k \<Rightarrow> int \<Rightarrow> (int \<times> 32 word) list \<Rightarrow> int \<Rightarrow> 'k \<times> int \<times> errno option" where
  "epollWait_pwait pwait k epfd events msec =
     (let ep = (if glen events > 0 then Some events else None)
      in case (if msec = 0 then pwait k False epfd ep (glen events) 0 0 0 else pwait k True epfd ep (glen events) msec 0 0) of
           (k, np, errno) \<Rightarrow>
             (case errno of Some e \<Rightarrow> (k, np, Some (errnoErr e)) | None \<Rightarrow> (k, np, None)))"

definition epollCtl :: "'k rawepoll \<Rightarrow> 'k \<Rightarrow> int \<Rightarrow> ctlop \<Rightarrow> int \<Rightarrow> 32 word option \<Rightarrow> 'k \<times> errno option" where
  "epollCtl R k epfd op' fd event =
     (case rw_ctl R k epfd op' fd event of (k, errno) \<Rightarrow> (case errno of Some e \<Rightarrow> (k, Some (errnoErr e)) | None \<Rightarrow> (k, None)))"

section \<open>Vectors of buffers on BSD\<close>

text \<open>The base of an entry: the first byte of a slice, or of a word of zeros that stands for an empty slice.\<close>

datatype iovbase = AtSlice "byte list" | AtZero

record iovec =
  iov_base :: iovbase
  iov_len :: nat

definition bytes2iovec :: "byte list list \<Rightarrow> iovec list" where
  "bytes2iovec bs =
     map (\<lambda>b. \<lparr>iov_base = (if length b > 0 then AtSlice b else AtZero), iov_len = length b\<rparr>) bs"

definition bsd_Writev ::
  "('k \<Rightarrow> int \<Rightarrow> iovec list \<Rightarrow> 'k \<times> int \<times> errno option) \<Rightarrow> 'k \<Rightarrow> int \<Rightarrow> byte list list \<Rightarrow> 'k \<times> int \<times> errno option" where
  "bsd_Writev raw k fd bs =
     (if bs = [] then (k, 0, None)
      else
        (case raw k fd (bytes2iovec bs) of (k, n, err) \<Rightarrow> if err \<noteq> None then (k, n, err) else (k, n, None)))"

text \<open>\<open>readv\<close> also returns the bytes it put into the buffers.\<close>

definition bsd_Readv ::
  "('k \<Rightarrow> int \<Rightarrow> iovec list \<Rightarrow> 'k \<times> int \<times> byte list \<times> errno option) \<Rightarrow> 'k \<Rightarrow> int \<Rightarrow> byte list list \<Rightarrow>
   'k \<times> int \<times> byte list \<times> errno option" where
  "bsd_Readv raw k fd bs =
     (if bs = [] then (k, 0, [], None)
      else
        (case raw k fd (bytes2iovec bs) of (k, n, data, err) \<Rightarrow> if err \<noteq> None then (k, n, data, err) else (k, n, data, None)))"

definition io_Readv ::
  "('k \<Rightarrow> int \<Rightarrow> byte list list \<Rightarrow> 'k \<times> int \<times> byte list \<times> errno option) \<Rightarrow> 'k \<Rightarrow> int \<Rightarrow> byte list list \<Rightarrow>
   'k \<times> int \<times> byte list \<times> errno option" where
  "io_Readv sys k fd iov = (if iov = [] then (k, 0, [], None) else sys k fd iov)"

section \<open>The built-in event handler\<close>

definition builtin_OnBoot :: "'u \<Rightarrow> 'u \<times> action" where "builtin_OnBoot u = (u, ActNone)"
definition builtin_OnShutdown :: "'u \<Rightarrow> 'u" where "builtin_OnShutdown u = u"

text \<open>The delay of \<open>OnTick\<close> is 0.\<close>

definition builtin_OnTick :: "'u \<Rightarrow> 'u \<times> int \<times> action" where "builtin_OnTick u = (u, 0, ActNone)"

definition builtin_handler :: "'u handler" where
  "builtin_handler =
     \<lparr>h_OnOpen = (\<lambda>c u. Finish (u, None, ActNone)), h_OnTraffic = (\<lambda>c u. Finish (u, ActNone)),
      h_OnClose = (\<lambda>c err u. (u, ActNone))\<rparr>"

definition builtin_logic :: "'u plogic" where
  "builtin_logic = \<lparr>lg_init = (\<lambda>u. u), lg_proc = (\<lambda>u. (u, None)), lg_wait = (\<lambda>u. 10)\<rparr>"

section \<open>Other systems\<close>

text \<open>
  \<open>engine_stub.go\<close>, which replaces the engine where neither epoll nor kqueue exists: a listener without a socket, and a
  \<open>serve\<close> that refuses.
\<close>

record stub_listener =
  sl_reusePort :: bool
  sl_addr :: string
  sl_network :: string

definition stub_normalize :: "stub_listener \<Rightarrow> gerror option" where "stub_normalize ln = None"

definition stub_close :: "stub_listener \<Rightarrow> stub_listener" where "stub_close ln = ln"

definition stub_initListener :: "string \<Rightarrow> string \<Rightarrow> bool \<Rightarrow> stub_listener \<times> gerror option" where
  "stub_initListener network addr reusePort =
     (let l = \<lparr>sl_reusePort = reusePort, sl_addr = addr, sl_network = network\<rparr> in (l, stub_normalize l))"

definition stub_serve :: "stub_listener \<Rightarrow> gerror option" where "stub_serve ln = Some ErrUnsupportedPlatform"

section \<open>Pools of other packages\<close>

text \<open>
  \<open>pkg/pool/bytebuffer\<close> passes buffers on to the pool of bytebufferpool, except nil ones; \<open>pkg/pool/goroutine\<close> releases
  the default pool of ants and makes one of its own, whose error it drops. \<open>'p\<close> is the state of the package.
\<close>

definition bytebuffer_Put :: "('p \<Rightarrow> 'x \<Rightarrow> 'p) \<Rightarrow> 'p \<Rightarrow> 'x option \<Rightarrow> 'p" where
  "bytebuffer_Put put P b = (case b of None \<Rightarrow> P | Some b \<Rightarrow> put P b)"

definition DefaultAntsPoolSize :: int where "DefaultAntsPoolSize = push_bit 18 1"

text \<open>In nanoseconds.\<close>

definition ExpiryDuration :: int where "ExpiryDuration = 10 * 1000000000"

definition Nonblocking :: bool where "Nonblocking = True"

definition goroutine_init :: "('p \<Rightarrow> 'p) \<Rightarrow> 'p \<Rightarrow> 'p" where
  "goroutine_init release P = release P"

definition goroutine_Default ::
  "('p \<Rightarrow> int \<Rightarrow> int \<Rightarrow> bool \<Rightarrow> 'p \<times> 'g option \<times> gerror option) \<Rightarrow> 'p \<Rightarrow> 'p \<times> 'g option" where
  "goroutine_Default newPool P =
     (case newPool P DefaultAntsPoolSize ExpiryDuration Nonblocking of (P, pool, _) \<Rightarrow> (P, pool))"

section \<open>The layers are transparent\<close>

text \<open>On other systems every program is refused, after a listener that opened nothing.\<close>

lemma stub_refuses: "stub_initListener network addr reusePort = (l, err) \<Longrightarrow> err = None \<and> stub_serve (stub_close l) = Some ErrUnsupportedPlatform"
  by (auto simp: stub_initListener_def stub_normalize_def stub_serve_def Let_def)

text \<open>The pool of goroutines has room for 262144 of them, so that its creation, which refuses sizes of 0, does not fail.\<close>

lemma default_pool_made:
  assumes "\<And>P size expiry nb. size > 0 \<Longrightarrow> expiry \<ge> 0 \<Longrightarrow> \<exists>P' g. newPool P size expiry nb = (P', Some g, None)"
  shows "\<exists>P' g. goroutine_Default newPool P = (P', Some g)"
  using assms[of DefaultAntsPoolSize ExpiryDuration P Nonblocking]
  by (auto simp: goroutine_Default_def DefaultAntsPoolSize_def ExpiryDuration_def push_bit_eq_mult)

lemma errnoErr_id [simp]: "errnoErr e = e"
  by (simp add: errnoErr_def split: errno.split)

lemma epollWait_raw:
  "epollWait R k epfd events msec =
     rw_wait R k (msec \<noteq> 0) epfd (if events = [] then None else Some events) (glen events) msec"
  by (simp add: epollWait_def Let_def split: prod.split option.split)

text \<open>With a null mask \<open>epoll_pwait\<close> is \<open>epoll_wait\<close>.\<close>

lemma epollWait_pwait_same:
  assumes "\<And>k pre epfd ep n msec. pwait k pre epfd ep n msec 0 0 = rw_wait R k pre epfd ep n msec"
  shows "epollWait_pwait pwait k epfd events msec = epollWait R k epfd events msec"
  using assms by (simp add: epollWait_pwait_def epollWait_def Let_def)

lemma epollCtl_raw: "epollCtl R k epfd op' fd event = rw_ctl R k epfd op' fd event"
  by (simp add: epollCtl_def split: prod.split option.split)

text \<open>What the kernel finds at an entry of the vector.\<close>

definition iov_bytes :: "iovec \<Rightarrow> byte list" where
  "iov_bytes v = take (iov_len v) (case iov_base v of AtSlice b \<Rightarrow> b | AtZero \<Rightarrow> replicate 8 0)"

lemma bytes2iovec_gathers: "map iov_bytes (bytes2iovec bs) = bs"
  by (induction bs) (auto simp: bytes2iovec_def iov_bytes_def)

text \<open>\<open>Writev\<close> on BSD is \<open>Writev\<close> on Linux for a kernel that sends the bytes it finds at the entries.\<close>

lemma bsd_Writev_io:
  assumes "\<And>k fd v. raw k fd v = w_writev W k fd (map iov_bytes v)"
  shows "bsd_Writev raw k fd bs = io_Writev W k fd bs"
proof -
  obtain k' n e where r: "w_writev W k fd bs = (k', n, e)" by (metis surj_pair)
  then have "raw k fd (bytes2iovec bs) = (k', n, e)" by (simp add: assms bytes2iovec_gathers)
  with r show ?thesis by (cases e) (simp_all add: bsd_Writev_def io_Writev_def)
qed

text \<open>The invariant of a loop holds with the built-in handler: it writes nothing.\<close>

lemma builtin_fits: "handler_fits 0 builtin_handler"
  by (simp add: handler_fits_def builtin_handler_def)

text \<open>Its poller functions never end the polling loop, and its \<open>OnTick\<close> never queues a task.\<close>

lemma builtin_tick: "el_ticker W (\<lambda>u. case builtin_OnTick u of (u, _, a) \<Rightarrow> (u, a)) ends (Some st) = (Some st, True \<in> set ends)"
  by (induction ends) (auto simp: builtin_OnTick_def)

end
