(* ===== verification/Logging.thy ===== *)
theory Logging
  imports SocketVariants
begin

text \<open>
  Package \<open>logging\<close> (\<open>pkg/logging/logger.go\<close>) and the choice of a logger in \<open>Run\<close> (\<open>gnet.go\<close>). The loggers themselves
  are those of the package zap, with files of the package lumberjack: a record of functions over loggers \<open>'l\<close> and an
  output \<open>'o\<close>. The package decides which logger is made, with which threshold, and what is handed to it.
\<close>

section \<open>Loggers\<close>

text \<open>How a file is rotated, and how entries are written.\<close>

record rotation =
  rt_MaxSize :: int
  rt_MaxBackups :: int
  rt_MaxAge :: int

datatype zapEncoder = ConsoleEncoder | JSONEncoder

record encoder =
  en_kind :: zapEncoder
  en_time :: string
  en_level :: string

record ('l, 'o) zap =
  z_file :: "string \<Rightarrow> rotation \<Rightarrow> encoder \<Rightarrow> (int \<Rightarrow> bool) \<Rightarrow> 'l"
  z_dev :: "int \<Rightarrow> string \<Rightarrow> 'l"
  z_log :: "'l \<Rightarrow> int \<Rightarrow> string \<Rightarrow> 'o \<Rightarrow> 'o"
  z_sync :: "'l \<Rightarrow> 'o \<Rightarrow> 'o \<times> gerror option"
  z_level :: "int \<Rightarrow> string"

definition DebugLevel :: int where "DebugLevel = -1"
definition InfoLevel :: int where "InfoLevel = DebugLevel + 1"
definition WarnLevel :: int where "WarnLevel = InfoLevel + 1"
definition ErrorLevel :: int where "ErrorLevel = WarnLevel + 1"
definition DPanicLevel :: int where "DPanicLevel = ErrorLevel + 1"
definition PanicLevel :: int where "PanicLevel = DPanicLevel + 1"
definition FatalLevel :: int where "FatalLevel = PanicLevel + 1"

lemmas level_defs = DebugLevel_def InfoLevel_def WarnLevel_def ErrorLevel_def DPanicLevel_def PanicLevel_def FatalLevel_def

definition getEncoder :: encoder where
  "getEncoder = \<lparr>en_kind = ConsoleEncoder, en_time = ''RFC3339Nano'', en_level = ''Capital''\<rparr>"

text \<open>The second result is the logger whose \<open>Sync\<close> flushes the file.\<close>

definition CreateLoggerAsLocalFile ::
  "('l, 'o) zap \<Rightarrow> string \<Rightarrow> int \<Rightarrow> 'l option \<times> 'l option \<times> gerror option" where
  "CreateLoggerAsLocalFile Z localFilePath logLevel =
     (if length localFilePath = 0 then (None, None, Some (Errorf ''invalid local logger path''))
      else
        let levelEnabler = (\<lambda>level. level \<ge> logLevel);
            logger = z_file Z localFilePath \<lparr>rt_MaxSize = 100, rt_MaxBackups = 2, rt_MaxAge = 15\<rparr> getEncoder levelEnabler
        in (Some logger, Some logger, None))"

section \<open>The default logger\<close>

text \<open>The variables of the package.\<close>

record 'l logging =
  lo_flushLogs :: "'l option"
  lo_defaultLogger :: "'l option"
  lo_defaultLoggingLevel :: int

text \<open>\<open>strconv.ParseInt\<close> in base 10 with a size of at most 64 bits.\<close>

definition strconv_ParseInt :: "nat \<Rightarrow> string \<Rightarrow> int option" where
  "strconv_ParseInt bits s =
     (case strconv_Atoi s of
        None \<Rightarrow> None
      | Some v \<Rightarrow> if - (2 ^ (bits - 1)) \<le> v \<and> v < 2 ^ (bits - 1) then Some v else None)"

text \<open>\<open>init\<close>, given the values of the two environment variables, empty when they are not set.\<close>

definition logging_init :: "('l, 'o) zap \<Rightarrow> string \<Rightarrow> string \<Rightarrow> 'l logging go" where
  "logging_init Z lvl fileName =
     go_bind
       (if length lvl > 0 then
          (case strconv_ParseInt 8 lvl of
             None \<Rightarrow> Panic (PanicMsg ''invalid GNET_LOGGING_LEVEL'')
           | Some loggingLevel \<Rightarrow> Ret loggingLevel)
        else Ret 0)
       (\<lambda>level.
       if length fileName > 0 then
         (case CreateLoggerAsLocalFile Z fileName level of (logger, flush, err) \<Rightarrow>
            if err \<noteq> None then Panic (PanicMsg ''invalid GNET_LOGGING_FILE'')
            else Ret \<lparr>lo_flushLogs = flush, lo_defaultLogger = logger, lo_defaultLoggingLevel = level\<rparr>)
       else Ret \<lparr>lo_flushLogs = None, lo_defaultLogger = Some (z_dev Z level ''RFC3339Nano''), lo_defaultLoggingLevel = level\<rparr>)"

definition GetDefaultLogger :: "'l logging \<Rightarrow> 'l option" where
  "GetDefaultLogger L = lo_defaultLogger L"

definition LogLevel :: "('l, 'o) zap \<Rightarrow> 'l logging \<Rightarrow> string" where
  "LogLevel Z L = z_level Z (lo_defaultLoggingLevel L)"

definition logging_Cleanup :: "('l, 'o) zap \<Rightarrow> 'l logging \<Rightarrow> 'o \<Rightarrow> 'o" where
  "logging_Cleanup Z L out = (case lo_flushLogs L of None \<Rightarrow> out | Some l \<Rightarrow> fst (z_sync Z l out))"

text \<open>Calling a method of a nil logger panics. The message stands for the format and its arguments.\<close>

definition log_at :: "('l, 'o) zap \<Rightarrow> 'l logging \<Rightarrow> int \<Rightarrow> string \<Rightarrow> 'o \<Rightarrow> 'o go" where
  "log_at Z L level msg out =
     (case lo_defaultLogger L of None \<Rightarrow> Panic NilDereference | Some l \<Rightarrow> Ret (z_log Z l level msg out))"

definition logging_Debugf :: "('l, 'o) zap \<Rightarrow> 'l logging \<Rightarrow> string \<Rightarrow> 'o \<Rightarrow> 'o go" where
  "logging_Debugf Z L msg out = log_at Z L DebugLevel msg out"

definition logging_Infof :: "('l, 'o) zap \<Rightarrow> 'l logging \<Rightarrow> string \<Rightarrow> 'o \<Rightarrow> 'o go" where
  "logging_Infof Z L msg out = log_at Z L InfoLevel msg out"

definition logging_Warnf :: "('l, 'o) zap \<Rightarrow> 'l logging \<Rightarrow> string \<Rightarrow> 'o \<Rightarrow> 'o go" where
  "logging_Warnf Z L msg out = log_at Z L WarnLevel msg out"

definition logging_Errorf :: "('l, 'o) zap \<Rightarrow> 'l logging \<Rightarrow> string \<Rightarrow> 'o \<Rightarrow> 'o go" where
  "logging_Errorf Z L msg out = log_at Z L ErrorLevel msg out"

text \<open>\<open>Fatalf\<close> ends the process after the entry, which the logger does.\<close>

definition logging_Fatalf :: "('l, 'o) zap \<Rightarrow> 'l logging \<Rightarrow> string \<Rightarrow> 'o \<Rightarrow> 'o go" where
  "logging_Fatalf Z L msg out = log_at Z L FatalLevel msg out"

text \<open>\<open>show_err\<close> is the text of an error.\<close>

definition logging_Error :: "('l, 'o) zap \<Rightarrow> 'l logging \<Rightarrow> (gerror \<Rightarrow> string) \<Rightarrow> gerror option \<Rightarrow> 'o \<Rightarrow> 'o go" where
  "logging_Error Z L show_err err out =
     (case err of None \<Rightarrow> Ret out | Some e \<Rightarrow> log_at Z L ErrorLevel (''error occurs during runtime, '' @ show_err e) out)"

section \<open>The logger of an engine\<close>

text \<open>
  \<open>Run\<close> up to its deferred function, with the options' path, level and logger: the logger of the engine and the one that
  is flushed at the end, or an error.
\<close>

definition run_logger ::
  "('l, 'o) zap \<Rightarrow> 'l logging \<Rightarrow> string \<Rightarrow> int \<Rightarrow> 'l option \<Rightarrow> gerror + 'l option \<times> 'l option" where
  "run_logger Z L logPath logLevel opt =
     (case (if logPath \<noteq> [] then CreateLoggerAsLocalFile Z logPath logLevel else (GetDefaultLogger L, None, None)) of
        (logger, flush, err) \<Rightarrow>
          (case err of
             Some e \<Rightarrow> Inl e
           | None \<Rightarrow> Inr (if opt = None then logger else opt, flush)))"

text \<open>The deferred function.\<close>

definition run_flush :: "('l, 'o) zap \<Rightarrow> 'l logging \<Rightarrow> 'l option \<Rightarrow> 'o \<Rightarrow> 'o" where
  "run_flush Z L flush out =
     logging_Cleanup Z L (case flush of None \<Rightarrow> out | Some l \<Rightarrow> fst (z_sync Z l out))"

section \<open>Thresholds\<close>

text \<open>
  What zap promises: a logger on a file writes the entries its threshold admits, in their order, and nothing else; the
  development logger has the threshold it is given. \<open>entries\<close> is what has been logged.
\<close>

definition zap_ok :: "('l, 'o) zap \<Rightarrow> ('o \<Rightarrow> (int \<times> string) list) \<Rightarrow> bool" where
  "zap_ok Z entries \<longleftrightarrow>
     (\<forall>path rot enc en level msg out.
        entries (z_log Z (z_file Z path rot enc en) level msg out) = entries out @ (if en level then [(level, msg)] else [])) \<and>
     (\<forall>n tm level msg out.
        entries (z_log Z (z_dev Z n tm) level msg out) = entries out @ (if n \<le> level then [(level, msg)] else []))"

lemma ParseInt_Itoa:
  "- (2 ^ 7) \<le> n \<Longrightarrow> n < 2 ^ 7 \<Longrightarrow> strconv_ParseInt 8 (strconv_Itoa n) = Some n"
  using Atoi_Itoa[of n] by (simp add: strconv_ParseInt_def)

lemma Itoa_nonempty: "0 < length (strconv_Itoa n)"
  by (simp add: strconv_Itoa_def nat_digits_nonempty)

text \<open>
  The level in the environment is the threshold of the default logger, on a file or not, whatever that level is; without
  it the threshold is that of \<open>Info\<close>. A level outside of 8 bits stops the program.
\<close>

lemma init_level:
  assumes "lvl = strconv_Itoa n \<and> - (2 ^ 7) \<le> n \<and> n < 2 ^ 7 \<or> lvl = [] \<and> n = InfoLevel"
  shows "\<exists>L. logging_init Z lvl fileName = Ret L \<and> lo_defaultLoggingLevel L = n \<and>
    (lo_defaultLogger L = Some (z_dev Z n ''RFC3339Nano'') \<or>
     (\<exists>rot enc. lo_defaultLogger L = Some (z_file Z fileName rot enc (\<lambda>l. n \<le> l))))"
proof -
  have "(if length lvl > 0 then (case strconv_ParseInt 8 lvl of None \<Rightarrow> Panic (PanicMsg ''invalid GNET_LOGGING_LEVEL'')
      | Some loggingLevel \<Rightarrow> Ret loggingLevel) else Ret 0) = Ret n"
    using assms ParseInt_Itoa[of n] Itoa_nonempty[of n] by (auto simp: level_defs)
  then show ?thesis by (auto simp: logging_init_def CreateLoggerAsLocalFile_def Let_def)
qed

lemma logs_threshold:
  assumes "zap_ok Z entries" "lvl = strconv_Itoa n \<and> - (2 ^ 7) \<le> n \<and> n < 2 ^ 7 \<or> lvl = [] \<and> n = InfoLevel"
  shows "\<exists>L. logging_init Z lvl fileName = Ret L \<and>
    (\<forall>level msg out. \<exists>out'. log_at Z L level msg out = Ret out' \<and>
       entries out' = entries out @ (if n \<le> level then [(level, msg)] else []))"
proof -
  obtain L where L: "logging_init Z lvl fileName = Ret L"
    "lo_defaultLogger L = Some (z_dev Z n ''RFC3339Nano'') \<or>
     (\<exists>rot enc. lo_defaultLogger L = Some (z_file Z fileName rot enc (\<lambda>l. n \<le> l)))"
    using init_level[OF assms(2)] by blast
  from L(2) have "\<exists>out'. log_at Z L level msg out = Ret out' \<and> entries out' = entries out @ (if n \<le> level then [(level, msg)] else [])"
    for level msg out
    using assms(1) by (auto simp: log_at_def zap_ok_def)
  with L(1) show ?thesis by blast
qed

lemma init_out_of_range: "n < - (2 ^ 7) \<or> 2 ^ 7 \<le> n \<Longrightarrow> - (2 ^ 63) \<le> n \<Longrightarrow> n < 2 ^ 63 \<Longrightarrow>
    logging_init Z (strconv_Itoa n) fileName = Panic (PanicMsg ''invalid GNET_LOGGING_LEVEL'')"
  using Atoi_Itoa[of n] Itoa_nonempty[of n] by (auto simp: logging_init_def strconv_ParseInt_def)

text \<open>A logger given as an option is used, and the file of the path is created and flushed all the same.\<close>

lemma run_logger_chosen:
  assumes "lo_defaultLogger L \<noteq> None"
  shows "\<exists>l flush. run_logger Z L logPath logLevel opt = Inr (Some l, flush) \<and> (opt \<noteq> None \<longrightarrow> Some l = opt) \<and>
    (flush = None \<longleftrightarrow> logPath = [])"
  using assms by (auto simp: run_logger_def CreateLoggerAsLocalFile_def GetDefaultLogger_def Let_def)

end
